(* ===== verification/Arale_Prelude.thy ===== *)
theory Arale_Prelude
  imports Main "HOL-Library.Word"
begin

section \<open>Shared vocabulary of the development\<close>

text \<open>
  What every component theory uses: the faults a C++ operation can end in and the
  sequencing of fallible operations, \<open>assert\<close> under the two build types of
  \<open>src/CMakeLists.txt\<close> (a Release build defines \<open>NDEBUG\<close>), the arithmetic of
  \<open>size_t\<close> and of C's truncating division, writes into a contiguous array, and the
  in-memory representation of integers as bytes.
\<close>

named_theorems arale_wf \<open>facts that keep a component's invariant\<close>
named_theorems arale_defs \<open>definitions a functional proof unfolds\<close>

subsection \<open>Faults and results\<close>

datatype fault =
    AssertFailed   \<comment> \<open>an \<open>assert\<close> of a build without \<open>NDEBUG\<close>\<close>
  | OutOfBounds    \<comment> \<open>an access outside an array or an empty container\<close>
  | LengthError    \<comment> \<open>\<open>std::length_error\<close> of a vector\<close>
  | Fatal          \<comment> \<open>\<open>LOG_FATAL\<close> and \<open>LOG_SYSFATAL\<close>: the process aborts\<close>
  | BadAlloc       \<comment> \<open>\<open>std::bad_alloc\<close> of \<open>new\<close>\<close>
  | NullDeref      \<comment> \<open>a dereference of a null or dangling pointer\<close>
  | BadCast        \<comment> \<open>\<open>boost::bad_any_cast\<close>\<close>

type_synonym 'a result = "fault + 'a"

fun bindR :: "'e + 'a \<Rightarrow> ('a \<Rightarrow> 'e + 'b) \<Rightarrow> 'e + 'b" where
  "bindR (Inl e) f = Inl e"
| "bindR (Inr x) f = f x"

lemma bindR_Inr_iff [simp]: "bindR m f = Inr y \<longleftrightarrow> (\<exists>x. m = Inr x \<and> f x = Inr y)"
  by (cases m) auto

lemma bindR_assoc: "bindR (bindR m f) g = bindR m (\<lambda>x. bindR (f x) g)"
  by (cases m) auto

lemma bindR_cong [fundef_cong]:
  "m = m' \<Longrightarrow> (\<And>x. m' = Inr x \<Longrightarrow> f x = g x) \<Longrightarrow> bindR m f = bindR m' g"
  by (cases m') auto

text \<open>
  \<open>cassert nd b k\<close> is \<open>assert(b); k\<close>, where \<open>nd\<close> says whether \<open>NDEBUG\<close> is defined.
\<close>

definition cassert :: "bool \<Rightarrow> bool \<Rightarrow> 'a result \<Rightarrow> 'a result" where
  "cassert nd b k = (if b \<or> nd then k else Inl AssertFailed)"

lemma cassert_True [simp]: "cassert nd True k = k"
  by (simp add: cassert_def)

lemma cassert_NDEBUG [simp]: "cassert True b k = k"
  by (simp add: cassert_def)

lemma cassert_Inr_iff: "cassert nd b k = Inr x \<longleftrightarrow> (b \<or> nd) \<and> k = Inr x"
  by (simp add: cassert_def)

lemma cassert_debug [simp]: "cassert False b k = Inr x \<longleftrightarrow> b \<and> k = Inr x"
  by (simp add: cassert_def)

lemma cassert_holds: "b \<Longrightarrow> cassert nd b k = k"
  by (simp add: cassert_def)

subsection \<open>\<open>size_t\<close> arithmetic and C division\<close>

text \<open>\<open>size_t\<close> has 64 bits; both operations wrap around.\<close>

definition uadd64 :: "nat \<Rightarrow> nat \<Rightarrow> nat" where
  "uadd64 a b = (a + b) mod 2 ^ 64"

definition usub64 :: "nat \<Rightarrow> nat \<Rightarrow> nat" where
  "usub64 a b = (if b \<le> a then a - b else 2 ^ 64 + a - b)"

lemma uadd64_small [simp]: "a + b < 2 ^ 64 \<Longrightarrow> uadd64 a b = a + b"
  by (simp add: uadd64_def)

lemma usub64_le [simp]: "b \<le> a \<Longrightarrow> usub64 a b = a - b"
  by (simp add: usub64_def)

text \<open>\<open>std::vector<char>::max_size()\<close>.\<close>

definition vector_max :: nat where
  "vector_max = 2 ^ 63 - 1"

lemma vector_max_lt: "vector_max < 2 ^ 63"
  by (simp add: vector_max_def)

text \<open>C's \<open>/\<close> and \<open>%\<close> on signed integers truncate towards zero.\<close>

definition tdiv :: "int \<Rightarrow> int \<Rightarrow> int" where
  "tdiv a b = sgn a * sgn b * (\<bar>a\<bar> div \<bar>b\<bar>)"

definition tmod :: "int \<Rightarrow> int \<Rightarrow> int" where
  "tmod a b = a - b * tdiv a b"

lemma tdiv_nonneg [simp]: "0 \<le> a \<Longrightarrow> 0 < b \<Longrightarrow> tdiv a b = a div b"
  by (cases "a = 0") (auto simp: tdiv_def)

lemma tmod_nonneg [simp]: "0 \<le> a \<Longrightarrow> 0 < b \<Longrightarrow> tmod a b = a mod b"
  by (simp add: tmod_def minus_mult_div_eq_mod)

lemma tdiv_neg: "a < 0 \<Longrightarrow> 0 < b \<Longrightarrow> tdiv a b = - ((- a) div b)"
  by (simp add: tdiv_def)

lemma tmod_neg: "a < 0 \<Longrightarrow> 0 < b \<Longrightarrow> tmod a b = - ((- a) mod b)"
proof -
  assume "a < 0" "0 < b"
  then have "tmod a b = - (- a - b * ((- a) div b))"
    by (simp add: tmod_def tdiv_neg)
  then show ?thesis by (simp only: minus_mult_div_eq_mod)
qed

lemma tdiv_tmod: "b * tdiv a b + tmod a b = a"
  by (simp add: tmod_def)

definition int32_range :: "int \<Rightarrow> bool" where
  "int32_range x \<longleftrightarrow> - (2 ^ 31) \<le> x \<and> x < 2 ^ 31"

text \<open>The conversion of a wider integer to \<open>int\<close> keeps the low 32 bits.\<close>

definition cast_int32 :: "int \<Rightarrow> int" where
  "cast_int32 x = (x + 2 ^ 31) mod 2 ^ 32 - 2 ^ 31"

lemma cast_int32_id [simp]: "int32_range x \<Longrightarrow> cast_int32 x = x"
  by (simp add: cast_int32_def int32_range_def)

subsection \<open>Writing into an array\<close>

text \<open>
  \<open>array_write i xs a\<close> stores \<open>xs\<close> at index \<open>i\<close> of the array \<open>a\<close>
  (\<open>std::copy\<close> or \<open>memcpy\<close> with that destination).
\<close>

definition array_write :: "nat \<Rightarrow> 'a list \<Rightarrow> 'a list \<Rightarrow> 'a list result" where
  "array_write i xs a =
     (if i + length xs \<le> length a
      then Inr (take i a @ xs @ drop (i + length xs) a) else Inl OutOfBounds)"

definition slice :: "nat \<Rightarrow> nat \<Rightarrow> 'a list \<Rightarrow> 'a list" where
  "slice i j xs = take (j - i) (drop i xs)"

lemma length_slice [simp]: "j \<le> length xs \<Longrightarrow> length (slice i j xs) = j - i"
  by (simp add: slice_def)

lemma slice_empty [simp]: "slice i i xs = []"
  by (simp add: slice_def)

lemma array_write_ok:
  "i + length xs \<le> length a \<Longrightarrow>
     array_write i xs a = Inr (take i a @ xs @ drop (i + length xs) a)"
  by (simp add: array_write_def)

lemma array_write_length: "array_write i xs a = Inr b \<Longrightarrow> length b = length a"
  by (auto simp: array_write_def split: if_splits)

lemma slice_write_after:
  assumes "r \<le> i" "i \<le> length a"
  shows "slice r (i + length xs) (take i a @ xs @ zs) = slice r i a @ xs"
  using assms by (simp add: slice_def drop_take)

lemma slice_write_before:
  assumes "i + length xs \<le> w" "w \<le> length a"
  shows "slice i w (take i a @ xs @ drop (i + length xs) a) = xs @ slice (i + length xs) w a"
  using assms by (simp add: slice_def min_def)

lemma slice_split:
  assumes "i \<le> j" "j \<le> k"
  shows "slice i k xs = slice i j xs @ slice j k xs"
proof -
  have "take ((j - i) + (k - j)) (drop i xs) =
      take (j - i) (drop i xs) @ take (k - j) (drop (j - i) (drop i xs))"
    by (rule take_add)
  with assms show ?thesis by (simp add: slice_def)
qed

lemma take_slice: "take n (slice i j xs) = slice i (min j (i + n)) xs"
proof -
  have "min n (j - i) = min j (i + n) - i" by simp
  then show ?thesis by (simp add: slice_def)
qed

lemma drop_slice: "drop n (slice i j xs) = slice (i + n) j xs"
  by (simp add: slice_def drop_take add.commute)

subsection \<open>Bytes of integers\<close>

text \<open>Little-endian bytes of a number and the number of a little-endian byte string.\<close>

fun le_bytes :: "nat \<Rightarrow> nat \<Rightarrow> char list" where
  "le_bytes 0 v = []"
| "le_bytes (Suc n) v = char_of v # le_bytes n (v div 256)"

fun le_value :: "char list \<Rightarrow> nat" where
  "le_value [] = 0"
| "le_value (c # cs) = of_char c + 256 * le_value cs"

lemma length_le_bytes [simp]: "length (le_bytes n v) = n"
  by (induction n arbitrary: v) auto

lemma of_char_lt_256 [simp]: "(of_char c :: nat) < 256"
  using mod_less_divisor [of 256 "of_char c :: nat"] by simp

lemma le_value_bytes [simp]: "le_value (le_bytes n v) = v mod 256 ^ n"
proof (induction n arbitrary: v)
  case (Suc n)
  have "v mod 256 + 256 * (v div 256 mod 256 ^ n) = v mod (256 * 256 ^ n)"
    by (simp add: mod_mult2_eq)
  with Suc show ?case by simp
qed simp

lemma le_value_bound: "le_value cs < 256 ^ length cs"
proof (induction cs)
  case (Cons c cs)
  have "of_char c + 256 * le_value cs < 256 * (le_value cs + 1)"
    using of_char_lt_256 [of c] by (simp del: of_char_lt_256)
  also have "\<dots> \<le> 256 * 256 ^ length cs"
    using Cons by (intro mult_le_mono) auto
  finally show ?case by simp
qed simp

lemma le_bytes_value [simp]: "le_bytes (length cs) (le_value cs) = cs"
proof (induction cs)
  case (Cons c cs)
  have "char_of (of_char c + 256 * le_value cs) = c"
    by (rule of_char_eqI [where ?'a = nat]) simp
  moreover have "(of_char c + 256 * le_value cs) div 256 = le_value cs"
    by simp
  ultimately show ?case using Cons by simp
qed simp

end
