(* ===== verification/Arale_Endian.thy ===== *)
theory Arale_Endian
  imports Arale_Prelude
begin

section \<open>Byte order conversion (\<open>arale/net/Endian.h\<close>)\<close>

text \<open>
  The object representation of an integer depends on the byte order of the host, which is
  a parameter of every definition here. \<open>htobe\<close> and \<open>betoh\<close> are the C library's
  \<open>htobeNN\<close> and \<open>beNNtoh\<close>: the identity on a big-endian host, a byte swap on a
  little-endian one. The lemmas show that what a host stores after the conversion is the
  big-endian byte string of the value, on either host, and that reading it back gives the
  value.
\<close>

datatype byte_order = LittleEndian | BigEndian

fun to_mem :: "byte_order \<Rightarrow> nat \<Rightarrow> nat \<Rightarrow> char list" where
  "to_mem LittleEndian n v = le_bytes n v"
| "to_mem BigEndian n v = rev (le_bytes n v)"

fun of_mem :: "byte_order \<Rightarrow> char list \<Rightarrow> nat" where
  "of_mem LittleEndian cs = le_value cs"
| "of_mem BigEndian cs = le_value (rev cs)"

definition bswap :: "nat \<Rightarrow> nat \<Rightarrow> nat" where
  "bswap n v = le_value (rev (le_bytes n v))"

fun htobe :: "byte_order \<Rightarrow> nat \<Rightarrow> nat \<Rightarrow> nat" where
  "htobe LittleEndian n v = bswap n v"
| "htobe BigEndian n v = v"

fun betoh :: "byte_order \<Rightarrow> nat \<Rightarrow> nat \<Rightarrow> nat" where
  "betoh LittleEndian n v = bswap n v"
| "betoh BigEndian n v = v"

definition be_bytes :: "nat \<Rightarrow> nat \<Rightarrow> char list" where
  "be_bytes n v = rev (le_bytes n v)"

definition hostToNetwork64 :: "byte_order \<Rightarrow> 64 word \<Rightarrow> 64 word" where
  "hostToNetwork64 e host64 = of_nat (htobe e 8 (unat host64))"

definition hostToNetwork32 :: "byte_order \<Rightarrow> 32 word \<Rightarrow> 32 word" where
  "hostToNetwork32 e host32 = of_nat (htobe e 4 (unat host32))"

definition hostToNetwork16 :: "byte_order \<Rightarrow> 16 word \<Rightarrow> 16 word" where
  "hostToNetwork16 e host16 = of_nat (htobe e 2 (unat host16))"

definition networkToHost64 :: "byte_order \<Rightarrow> 64 word \<Rightarrow> 64 word" where
  "networkToHost64 e net64 = of_nat (betoh e 8 (unat net64))"

definition networkToHost32 :: "byte_order \<Rightarrow> 32 word \<Rightarrow> 32 word" where
  "networkToHost32 e net32 = of_nat (betoh e 4 (unat net32))"

definition networkToHost16 :: "byte_order \<Rightarrow> 16 word \<Rightarrow> 16 word" where
  "networkToHost16 e net16 = of_nat (betoh e 2 (unat net16))"

text \<open>The bytes of a word object, as \<open>memcpy\<close> from its address sees them.\<close>

definition word_mem :: "byte_order \<Rightarrow> 'a::len word \<Rightarrow> char list" where
  "word_mem e w = to_mem e (LENGTH('a) div 8) (unat w)"

definition mem_word :: "byte_order \<Rightarrow> char list \<Rightarrow> 'a::len word" where
  "mem_word e cs = of_nat (of_mem e cs)"

lemma length_to_mem [simp]: "length (to_mem e n v) = n"
  by (cases e) auto

lemma length_be_bytes [simp]: "length (be_bytes n v) = n"
  by (simp add: be_bytes_def)

lemma bswap_lt: "bswap n v < 256 ^ n"
  using le_value_bound [of "rev (le_bytes n v)"] by (simp add: bswap_def)

lemma le_bytes_le_value: "length cs = n \<Longrightarrow> le_bytes n (le_value cs) = cs"
  using le_bytes_value by blast

lemma bswap_bswap: "v < 256 ^ n \<Longrightarrow> bswap n (bswap n v) = v"
  by (simp add: bswap_def le_bytes_le_value)

lemma to_mem_htobe: "to_mem e n (htobe e n v) = be_bytes n v"
  by (cases e) (simp_all add: be_bytes_def bswap_def le_bytes_le_value)

lemma betoh_of_mem: "v < 256 ^ n \<Longrightarrow> betoh e n (of_mem e (be_bytes n v)) = v"
  by (cases e) (simp_all add: be_bytes_def bswap_def le_bytes_le_value)

lemma htobe_lt: "v < 256 ^ n \<Longrightarrow> htobe e n v < 256 ^ n"
  by (cases e) (simp_all add: bswap_lt)

lemma of_mem_lt: "length cs = n \<Longrightarrow> of_mem e cs < 256 ^ n"
  using le_value_bound [of cs] le_value_bound [of "rev cs"] by (cases e) auto

lemma pow256: "(256::nat) ^ n = 2 ^ (8 * n)"
  by (simp add: power_mult)

lemma unat_lt_bytes: "8 * n = LENGTH('a::len) \<Longrightarrow> unat (w :: 'a word) < 256 ^ n"
  by (simp add: pow256)

lemma unat_of_nat_bytes:
  "8 * n = LENGTH('a::len) \<Longrightarrow> v < 256 ^ n \<Longrightarrow> unat (of_nat v :: 'a word) = v"
  by (simp add: unat_of_nat pow256)

lemmas unat_of_nat_widths =
  unat_of_nat_bytes [where n = 8 and 'a = 64] unat_of_nat_bytes [where n = 4 and 'a = 32]
  unat_of_nat_bytes [where n = 2 and 'a = 16]

lemma unat_lt_widths:
  "unat (x :: 64 word) < 256 ^ 8"
  "unat (y :: 32 word) < 256 ^ 4"
  "unat (z :: 16 word) < 256 ^ 2"
  by (rule unat_lt_bytes; simp)+

lemma unat_of_htobe:
  "unat (of_nat (htobe e 8 (unat (x :: 64 word))) :: 64 word) = htobe e 8 (unat x)"
  "unat (of_nat (htobe e 4 (unat (y :: 32 word))) :: 32 word) = htobe e 4 (unat y)"
  "unat (of_nat (htobe e 2 (unat (z :: 16 word))) :: 16 word) = htobe e 2 (unat z)"
  by (rule unat_of_nat_widths; simp only: htobe_lt [OF unat_lt_widths(1)]
      htobe_lt [OF unat_lt_widths(2)] htobe_lt [OF unat_lt_widths(3)] len_num1 len_bit0; simp)+

lemma unat_of_mem:
  "length cs = 8 \<Longrightarrow> unat (of_nat (of_mem e cs) :: 64 word) = of_mem e cs"
  "length cs = 4 \<Longrightarrow> unat (of_nat (of_mem e cs) :: 32 word) = of_mem e cs"
  "length cs = 2 \<Longrightarrow> unat (of_nat (of_mem e cs) :: 16 word) = of_mem e cs"
  by (rule unat_of_nat_widths; simp only: of_mem_lt len_num1 len_bit0; simp)+

text \<open>The wire format: network order is big-endian on every host.\<close>

lemma word_mem_hton [simp]:
  "word_mem e (hostToNetwork64 e x) = be_bytes 8 (unat x)"
  "word_mem e (hostToNetwork32 e y) = be_bytes 4 (unat y)"
  "word_mem e (hostToNetwork16 e z) = be_bytes 2 (unat z)"
  by (simp_all add: word_mem_def hostToNetwork64_def hostToNetwork32_def hostToNetwork16_def
      unat_of_htobe to_mem_htobe)

lemma ntoh_be_bytes [simp]:
  "networkToHost64 e (mem_word e (be_bytes 8 (unat x))) = x"
  "networkToHost32 e (mem_word e (be_bytes 4 (unat y))) = y"
  "networkToHost16 e (mem_word e (be_bytes 2 (unat z))) = z"
  by (simp_all add: mem_word_def networkToHost64_def networkToHost32_def networkToHost16_def
      unat_of_mem unat_lt_widths [THEN betoh_of_mem])

lemma betoh_htobe: "v < 256 ^ n \<Longrightarrow> betoh e n (htobe e n v) = v"
  by (cases e) (simp_all add: bswap_bswap)

lemma ntoh_hton [simp]:
  "networkToHost64 e (hostToNetwork64 e x) = x"
  "networkToHost32 e (hostToNetwork32 e y) = y"
  "networkToHost16 e (hostToNetwork16 e z) = z"
  by (simp_all add: networkToHost64_def hostToNetwork64_def networkToHost32_def
      hostToNetwork32_def networkToHost16_def hostToNetwork16_def
      unat_of_htobe unat_lt_widths [THEN betoh_htobe])

lemma length_word_mem [simp]: "length (word_mem e (w :: 'a::len word)) = LENGTH('a) div 8"
  by (simp add: word_mem_def)

end
