(* ===== verification/Arale_StringPiece.thy ===== *)
theory Arale_StringPiece
  imports Arale_Prelude
begin

section \<open>String views and atomic counters (\<open>arale/base/StringPiece.h\<close>, \<open>arale/base/Atomic.h\<close>)\<close>

text \<open>
  A \<open>StringPiece\<close> is a pointer and a length. The pointer is represented by the bytes from
  it to the end of the object it points into, so that \<open>ptr_ += n\<close> drops bytes; a null
  pointer is the empty list. Reading more bytes than there are is \<open>OutOfBounds\<close>.
  \<open>memcmp\<close> compares bytes as unsigned numbers; only the sign of its result is specified,
  and the sign is what it returns here.
\<close>

record StringPiece =
  sp_ptr :: "char list"
  sp_length :: int

definition StringPiece_empty :: StringPiece where
  "StringPiece_empty = \<lparr>sp_ptr = [], sp_length = 0\<rparr>"

text \<open>From a C string: the bytes before the first zero byte count.\<close>

definition strlen :: "char list \<Rightarrow> nat" where
  "strlen s = length (takeWhile (\<lambda>c. c \<noteq> CHR 0x00) s)"

definition StringPiece_of_cstr :: "char list \<Rightarrow> StringPiece" where
  "StringPiece_of_cstr s = \<lparr>sp_ptr = s, sp_length = cast_int32 (int (strlen s))\<rparr>"

definition StringPiece_of_string :: "string \<Rightarrow> StringPiece" where
  "StringPiece_of_string s = \<lparr>sp_ptr = s, sp_length = cast_int32 (int (length s))\<rparr>"

definition StringPiece_of :: "char list \<Rightarrow> int \<Rightarrow> StringPiece" where
  "StringPiece_of offset len = \<lparr>sp_ptr = offset, sp_length = len\<rparr>"

definition sp_empty :: "StringPiece \<Rightarrow> bool" where
  "sp_empty x \<longleftrightarrow> sp_length x = 0"

definition sp_clear :: "StringPiece \<Rightarrow> StringPiece" where
  "sp_clear x = x\<lparr>sp_ptr := [], sp_length := 0\<rparr>"

definition sp_set :: "char list \<Rightarrow> int \<Rightarrow> StringPiece \<Rightarrow> StringPiece" where
  "sp_set buf len x = x\<lparr>sp_ptr := buf, sp_length := len\<rparr>"

definition sp_set_cstr :: "char list \<Rightarrow> StringPiece \<Rightarrow> StringPiece" where
  "sp_set_cstr s x = x\<lparr>sp_ptr := s, sp_length := cast_int32 (int (strlen s))\<rparr>"

definition sp_at :: "StringPiece \<Rightarrow> int \<Rightarrow> char result" where
  "sp_at x i = (if 0 \<le> i \<and> nat i < length (sp_ptr x) then Inr (sp_ptr x ! nat i) else Inl OutOfBounds)"

definition remove_prefix :: "int \<Rightarrow> StringPiece \<Rightarrow> StringPiece result" where
  "remove_prefix n x =
     (if 0 \<le> n \<and> nat n \<le> length (sp_ptr x)
      then Inr (x\<lparr>sp_ptr := drop (nat n) (sp_ptr x), sp_length := sp_length x - n\<rparr>)
      else Inl OutOfBounds)"

definition remove_suffix :: "int \<Rightarrow> StringPiece \<Rightarrow> StringPiece" where
  "remove_suffix n x = x\<lparr>sp_length := sp_length x - n\<rparr>"

fun memcmp_list :: "char list \<Rightarrow> char list \<Rightarrow> int" where
  "memcmp_list (a # as) (b # bs) =
     (if (of_char a :: nat) < of_char b then -1
      else if (of_char b :: nat) < of_char a then 1 else memcmp_list as bs)"
| "memcmp_list _ _ = 0"

text \<open>A negative length becomes a huge \<open>size_t\<close>: out of bounds.\<close>

definition memcmp :: "char list \<Rightarrow> char list \<Rightarrow> int \<Rightarrow> int result" where
  "memcmp p q n =
     (if 0 \<le> n \<and> nat n \<le> length p \<and> nat n \<le> length q
      then Inr (memcmp_list (take (nat n) p) (take (nat n) q)) else Inl OutOfBounds)"

definition sp_eq :: "StringPiece \<Rightarrow> StringPiece \<Rightarrow> bool result" where
  "sp_eq a x =
     (if sp_length a = sp_length x
      then bindR (memcmp (sp_ptr a) (sp_ptr x) (sp_length a)) (\<lambda>r. Inr (r = 0)) else Inr False)"

definition sp_neq :: "StringPiece \<Rightarrow> StringPiece \<Rightarrow> bool result" where
  "sp_neq a x = bindR (sp_eq a x) (\<lambda>r. Inr (\<not> r))"

definition sp_memcmp :: "StringPiece \<Rightarrow> StringPiece \<Rightarrow> int result" where
  "sp_memcmp a x =
     memcmp (sp_ptr a) (sp_ptr x) (if sp_length a < sp_length x then sp_length a else sp_length x)"

text \<open>The macro \<open>STRINGPIECE_BINARY_PREDICATE(cmp, auxcmp)\<close> and its four uses.\<close>

definition sp_binary ::
  "(int \<Rightarrow> int \<Rightarrow> bool) \<Rightarrow> (int \<Rightarrow> int \<Rightarrow> bool) \<Rightarrow> StringPiece \<Rightarrow> StringPiece \<Rightarrow> bool result" where
  "sp_binary cmp auxcmp a x =
     bindR (sp_memcmp a x) (\<lambda>r. Inr (auxcmp r 0 \<or> r = 0 \<and> cmp (sp_length a) (sp_length x)))"

definition sp_less :: "StringPiece \<Rightarrow> StringPiece \<Rightarrow> bool result" where
  "sp_less = sp_binary (<) (<)"

definition sp_le :: "StringPiece \<Rightarrow> StringPiece \<Rightarrow> bool result" where
  "sp_le = sp_binary (\<le>) (<)"

definition sp_ge :: "StringPiece \<Rightarrow> StringPiece \<Rightarrow> bool result" where
  "sp_ge = sp_binary (\<ge>) (>)"

definition sp_gt :: "StringPiece \<Rightarrow> StringPiece \<Rightarrow> bool result" where
  "sp_gt = sp_binary (>) (>)"

definition sp_compare :: "StringPiece \<Rightarrow> StringPiece \<Rightarrow> int result" where
  "sp_compare a x =
     bindR (sp_memcmp a x) (\<lambda>r.
     Inr (if r = 0 then
            (if sp_length a < sp_length x then -1
             else if sp_length a > sp_length x then 1 else r)
          else r))"

definition as_string :: "StringPiece \<Rightarrow> string result" where
  "as_string x =
     (if 0 \<le> sp_length x \<and> nat (sp_length x) \<le> length (sp_ptr x)
      then Inr (take (nat (sp_length x)) (sp_ptr x)) else Inl OutOfBounds)"

text \<open>\<open>CopyToString\<close> and \<open>CopyToStdString\<close> assign the bytes to \<open>*target\<close>.\<close>

definition CopyToString :: "StringPiece \<Rightarrow> string result" where
  "CopyToString x =
     (if 0 \<le> sp_length x \<and> nat (sp_length x) \<le> length (sp_ptr x)
      then Inr (take (nat (sp_length x)) (sp_ptr x)) else Inl OutOfBounds)"

definition starts_with :: "StringPiece \<Rightarrow> StringPiece \<Rightarrow> bool result" where
  "starts_with a x =
     (if sp_length a \<ge> sp_length x
      then bindR (memcmp (sp_ptr a) (sp_ptr x) (sp_length x)) (\<lambda>r. Inr (r = 0)) else Inr False)"

subsection \<open>The order on views\<close>

definition sp_wf :: "StringPiece \<Rightarrow> bool" where
  "sp_wf x \<longleftrightarrow> 0 \<le> sp_length x \<and> nat (sp_length x) \<le> length (sp_ptr x)"

definition sp_text :: "StringPiece \<Rightarrow> string" where
  "sp_text x = take (nat (sp_length x)) (sp_ptr x)"

definition byte_lt :: "(char \<times> char) set" where
  "byte_lt = {(a, b). (of_char a :: nat) < of_char b}"

lemma memcmp_list_zero: "length a = length b \<Longrightarrow> memcmp_list a b = 0 \<longleftrightarrow> a = b"
  by (induction a b rule: memcmp_list.induct) (auto simp: not_less)

lemma memcmp_list_range: "memcmp_list a b \<in> {-1, 0, 1}"
  by (induction a b rule: memcmp_list.induct) auto

lemma memcmp_list_swap: "memcmp_list b a = - memcmp_list a b"
  by (induction a b rule: memcmp_list.induct) auto

lemma lex_memcmp:
  "(a, b) \<in> lexord byte_lt \<longleftrightarrow>
     memcmp_list (take (min (length a) (length b)) a) (take (min (length a) (length b)) b) < 0 \<or>
     memcmp_list (take (min (length a) (length b)) a) (take (min (length a) (length b)) b) = 0 \<and>
     length a < length b"
proof (induction a b rule: list_induct2')
  case (4 a as b bs)
  then show ?case by (auto simp: byte_lt_def)
qed auto

lemma sp_wf_cases:
  assumes "sp_wf x"
  obtains k where "sp_length x = int k" "k \<le> length (sp_ptr x)" "sp_text x = take k (sp_ptr x)"
    "length (sp_text x) = k"
  using assms by (auto simp: sp_wf_def sp_text_def intro: that [of "nat (sp_length x)"])

lemma sp_length_text: "sp_wf x \<Longrightarrow> sp_length x = int (length (sp_text x))"
  by (simp add: sp_wf_def sp_text_def)

lemma memcmp_text:
  assumes "sp_wf a" "sp_wf x" "k \<le> length (sp_text a)" "k \<le> length (sp_text x)"
  shows "memcmp (sp_ptr a) (sp_ptr x) (int k) =
     Inr (memcmp_list (take k (sp_text a)) (take k (sp_text x)))"
  using assms by (elim sp_wf_cases) (simp add: memcmp_def min_absorb1)

lemma sp_memcmp_wf:
  assumes "sp_wf a" "sp_wf x"
  shows "sp_memcmp a x = Inr (memcmp_list
    (take (min (length (sp_text a)) (length (sp_text x))) (sp_text a))
    (take (min (length (sp_text a)) (length (sp_text x))) (sp_text x)))"
proof -
  have "(if sp_length a < sp_length x then sp_length a else sp_length x) =
      int (min (length (sp_text a)) (length (sp_text x)))"
    using assms by (simp add: sp_length_text)
  then show ?thesis unfolding sp_memcmp_def by (simp add: memcmp_text [OF assms])
qed

subsection \<open>Atomic integers\<close>

text \<open>
  Each operation is one atomic instruction on \<open>value_\<close> (and an addition on its result): a
  function from the value to the result and the new value. Arithmetic wraps around.
\<close>

type_synonym 'w AtomicIntegerT = "'w word"

definition Atomic_new :: "('w::len) AtomicIntegerT" where
  "Atomic_new = 0"

definition Atomic_get :: "('w::len) AtomicIntegerT \<Rightarrow> 'w word \<times> 'w AtomicIntegerT" where
  "Atomic_get a = (a, if a = 0 then 0 else a)"

definition getAndAdd :: "'w word \<Rightarrow> ('w::len) AtomicIntegerT \<Rightarrow> 'w word \<times> 'w AtomicIntegerT" where
  "getAndAdd x a = (a, a + x)"

definition addAndGet :: "'w word \<Rightarrow> ('w::len) AtomicIntegerT \<Rightarrow> 'w word \<times> 'w AtomicIntegerT" where
  "addAndGet x a = (let (old, a') = getAndAdd x a in (old + x, a'))"

definition incrementAndGet :: "('w::len) AtomicIntegerT \<Rightarrow> 'w word \<times> 'w AtomicIntegerT" where
  "incrementAndGet a = addAndGet 1 a"

definition decrementAndGet :: "('w::len) AtomicIntegerT \<Rightarrow> 'w word \<times> 'w AtomicIntegerT" where
  "decrementAndGet a = addAndGet (- 1) a"

definition Atomic_add :: "'w word \<Rightarrow> ('w::len) AtomicIntegerT \<Rightarrow> 'w AtomicIntegerT" where
  "Atomic_add x a = snd (getAndAdd x a)"

definition increment :: "('w::len) AtomicIntegerT \<Rightarrow> 'w AtomicIntegerT" where
  "increment a = snd (incrementAndGet a)"

definition decrement :: "('w::len) AtomicIntegerT \<Rightarrow> 'w AtomicIntegerT" where
  "decrement a = snd (decrementAndGet a)"

definition getAndSet :: "'w word \<Rightarrow> ('w::len) AtomicIntegerT \<Rightarrow> 'w word \<times> 'w AtomicIntegerT" where
  "getAndSet newValue a = (a, newValue)"

text \<open>The results of \<open>n\<close> increments, in the order the atomic operations took place.\<close>

fun ticks :: "nat \<Rightarrow> ('w::len) AtomicIntegerT \<Rightarrow> 'w word list" where
  "ticks 0 a = []"
| "ticks (Suc n) a = (let (v, a') = incrementAndGet a in v # ticks n a')"

lemma incrementAndGet_eq:
  "incrementAndGet a = (a + 1, a + 1)"
  by (simp add: incrementAndGet_def addAndGet_def getAndAdd_def)

lemma ticks_eq: "ticks n a = map (\<lambda>i. a + of_nat (Suc i)) [0..<n]"
proof (induction n arbitrary: a)
  case (Suc n)
  show ?case
    by (simp add: incrementAndGet_eq Suc upt_conv_Cons map_Suc_upt [symmetric] ac_simps
        del: upt_Suc)
qed simp

lemma ticks_distinct:
  assumes "n \<le> 2 ^ LENGTH('w)"
  shows "distinct (ticks n (a :: ('w::len) AtomicIntegerT))"
proof -
  have "i = j" if "i < n" "j < n" "(of_nat i :: 'w word) = of_nat j" for i j
  proof -
    have "i < 2 ^ LENGTH('w)" "j < 2 ^ LENGTH('w)" using assms that by simp_all
    then show ?thesis using that(3) by (metis of_nat_inverse)
  qed
  then show ?thesis by (auto simp: ticks_eq distinct_map inj_on_def)
qed

subsection \<open>Properties of views and counters\<close>

text \<open>
  The comparison operators of \<open>StringPiece\<close> on well-formed views are those of the
  lexicographic order on unsigned bytes, \<open>compare\<close> agrees with them in sign, equality is
  equality of the texts and \<open>starts_with\<close> is the prefix test; none of them reads outside a
  view.
\<close>

theorem StringPiece_order:
  assumes "sp_wf a" and "sp_wf x"
  shows "sp_less a x = Inr ((sp_text a, sp_text x) \<in> lexord byte_lt) \<and>
     sp_gt a x = Inr ((sp_text x, sp_text a) \<in> lexord byte_lt) \<and>
     sp_le a x = Inr ((sp_text a, sp_text x) \<in> lexord byte_lt \<or> sp_text a = sp_text x) \<and>
     sp_ge a x = Inr ((sp_text x, sp_text a) \<in> lexord byte_lt \<or> sp_text a = sp_text x) \<and>
     sp_eq a x = Inr (sp_text a = sp_text x) \<and>
     starts_with a x = Inr (take (length (sp_text x)) (sp_text a) = sp_text x) \<and>
     (\<exists>r. sp_compare a x = Inr r \<and> (r < 0 \<longleftrightarrow> (sp_text a, sp_text x) \<in> lexord byte_lt) \<and>
          (r = 0 \<longleftrightarrow> sp_text a = sp_text x))"
proof -
  let ?s = "sp_text a" and ?t = "sp_text x"
  let ?m = "memcmp_list (take (min (length ?s) (length ?t)) ?s) (take (min (length ?s) (length ?t)) ?t)"
  note m = sp_memcmp_wf [OF assms] and l = sp_length_text [OF assms(1)] sp_length_text [OF assms(2)]
  have z: "?m = 0 \<and> length ?s = length ?t \<longleftrightarrow> ?s = ?t"
    using memcmp_list_zero [of ?s ?t] by auto
  have sw: "memcmp_list (take (min (length ?t) (length ?s)) ?t) (take (min (length ?t) (length ?s)) ?s) = - ?m"
    unfolding min.commute [of "length ?t"] by (rule memcmp_list_swap)
  have lt: "(?s, ?t) \<in> lexord byte_lt \<longleftrightarrow> ?m < 0 \<or> ?m = 0 \<and> length ?s < length ?t"
    by (rule lex_memcmp)
  have gt: "(?t, ?s) \<in> lexord byte_lt \<longleftrightarrow> 0 < ?m \<or> ?m = 0 \<and> length ?t < length ?s"
    using lex_memcmp [of ?t ?s] unfolding sw by simp
  have cmps: "sp_less a x = Inr ((?s, ?t) \<in> lexord byte_lt)" "sp_gt a x = Inr ((?t, ?s) \<in> lexord byte_lt)"
    "sp_le a x = Inr ((?s, ?t) \<in> lexord byte_lt \<or> ?s = ?t)"
    "sp_ge a x = Inr ((?t, ?s) \<in> lexord byte_lt \<or> ?s = ?t)"
    unfolding sp_less_def sp_gt_def sp_le_def sp_ge_def sp_binary_def m l lt gt bindR.simps sum.inject
      of_nat_less_iff of_nat_le_iff
    using z by linarith+
  have eq: "sp_eq a x = Inr (?s = ?t)"
    using memcmp_text [OF assms, of "length ?s"] memcmp_list_zero [of ?s ?t] by (auto simp: sp_eq_def l)
  have st: "starts_with a x = Inr (take (length ?t) ?s = ?t)"
  proof (cases "length ?t \<le> length ?s")
    case True
    then show ?thesis
      using memcmp_text [OF assms, of "length ?t"] memcmp_list_zero [of "take (length ?t) ?s" ?t]
      by (simp add: starts_with_def l)
  next
    case False
    then have "take (length ?t) ?s \<noteq> ?t" by (metis length_take min.cobounded1)
    with False show ?thesis by (simp add: starts_with_def l)
  qed
  have "\<exists>r. sp_compare a x = Inr r \<and> (r < 0 \<longleftrightarrow> (?s, ?t) \<in> lexord byte_lt) \<and> (r = 0 \<longleftrightarrow> ?s = ?t)"
    unfolding sp_compare_def m l lt using z by auto
  with cmps eq st show ?thesis by blast
qed

theorem StringPiece_order_witness:
  "sp_less (StringPiece_of_string ''ab'') (StringPiece_of_string ''abc'') =
     Inr ((''ab'', ''abc'') \<in> lexord byte_lt)"
  using StringPiece_order [of "StringPiece_of_string ''ab''" "StringPiece_of_string ''abc''"]
  by (simp add: StringPiece_of_string_def sp_wf_def sp_text_def int32_range_def)

end
