(* ===== verification/Arale_Buffer.thy ===== *)
theory Arale_Buffer
  imports Arale_Endian Arale_StringPiece
begin

section \<open>The I/O buffer (\<open>arale/net/Buffer.h\<close>, \<open>arale/net/Buffer.cc\<close>)\<close>

text \<open>
  \<open>Buffer\<close> is a byte vector with two indices. Pointers into the vector
  (\<open>peek()\<close>, \<open>beginWrite()\<close>, the result of \<open>findCRLF()\<close>) are indices into it.
  Every operation takes the flag \<open>nd\<close> (is \<open>NDEBUG\<close> defined?) where it asserts, and
  the host's byte order where it stores an integer. A write outside the vector is
  \<open>OutOfBounds\<close>, a failed assertion of a debug build is \<open>AssertFailed\<close>.
  \<open>Buffer_content\<close> is the abstract value: the readable bytes. The locale
  \<open>byte_queue\<close> is what the users of a buffer rely on; it is interpreted on these
  definitions.
\<close>

definition kCheapPrependSize :: nat where
  "kCheapPrependSize = 8"

definition kDefaultInitialSize :: nat where
  "kDefaultInitialSize = 1024"

record Buffer =
  buffer :: "char list"
  readIndex :: nat
  writeIndex :: nat

subsection \<open>Reading\<close>

definition readableBytes :: "Buffer \<Rightarrow> nat" where
  "readableBytes b = usub64 (writeIndex b) (readIndex b)"

definition writableBytes :: "Buffer \<Rightarrow> nat" where
  "writableBytes b = usub64 (length (buffer b)) (writeIndex b)"

definition Buffer_new :: "bool \<Rightarrow> nat \<Rightarrow> Buffer result" where
  "Buffer_new nd initialSize =
     (let b = \<lparr>buffer = replicate (kCheapPrependSize + kDefaultInitialSize) (CHR 0x00),
               readIndex = kCheapPrependSize, writeIndex = kCheapPrependSize\<rparr>
      in cassert nd (writableBytes b = initialSize)
           (cassert nd (readableBytes b = 0) (Inr b)))"

definition Buffer_swap :: "Buffer \<Rightarrow> Buffer \<Rightarrow> Buffer \<times> Buffer" where
  "Buffer_swap b rhs =
     (b\<lparr>buffer := buffer rhs, readIndex := readIndex rhs, writeIndex := writeIndex rhs\<rparr>,
      rhs\<lparr>buffer := buffer b, readIndex := readIndex b, writeIndex := writeIndex b\<rparr>)"

definition peek :: "Buffer \<Rightarrow> nat" where
  "peek b = readIndex b"

definition mem_read :: "Buffer \<Rightarrow> nat \<Rightarrow> nat \<Rightarrow> char list result" where
  "mem_read b p len =
     (if p + len \<le> length (buffer b) then Inr (slice p (p + len) (buffer b)) else Inl OutOfBounds)"

definition retrieveAll :: "Buffer \<Rightarrow> Buffer" where
  "retrieveAll b = b\<lparr>readIndex := kCheapPrependSize, writeIndex := kCheapPrependSize\<rparr>"

definition retrieve :: "bool \<Rightarrow> nat \<Rightarrow> Buffer \<Rightarrow> Buffer result" where
  "retrieve nd len b =
     cassert nd (len \<le> readableBytes b)
       (if len < readableBytes b then Inr (b\<lparr>readIndex := uadd64 (readIndex b) len\<rparr>)
        else Inr (retrieveAll b))"

definition retrieveUntil :: "bool \<Rightarrow> nat \<Rightarrow> Buffer \<Rightarrow> Buffer result" where
  "retrieveUntil nd end_ptr b =
     cassert nd (end_ptr \<le> writeIndex b)
       (cassert nd (peek b \<le> end_ptr)
         (retrieve nd (usub64 end_ptr (peek b)) b))"

definition retrieveInt8 :: "bool \<Rightarrow> Buffer \<Rightarrow> Buffer result" where
  "retrieveInt8 nd b = retrieve nd 1 b"

definition retrieveInt16 :: "bool \<Rightarrow> Buffer \<Rightarrow> Buffer result" where
  "retrieveInt16 nd b = retrieve nd 2 b"

definition retrieveInt32 :: "bool \<Rightarrow> Buffer \<Rightarrow> Buffer result" where
  "retrieveInt32 nd b = retrieve nd 4 b"

definition retrieveInt64 :: "bool \<Rightarrow> Buffer \<Rightarrow> Buffer result" where
  "retrieveInt64 nd b = retrieve nd 8 b"

definition retrieveAsString :: "bool \<Rightarrow> nat \<Rightarrow> Buffer \<Rightarrow> (string \<times> Buffer) result" where
  "retrieveAsString nd len b =
     cassert nd (len \<le> readableBytes b)
       (bindR (mem_read b (peek b) len) (\<lambda>s.
        bindR (retrieve nd len b) (\<lambda>b'. Inr (s, b'))))"

definition retrieveAllAsString :: "bool \<Rightarrow> Buffer \<Rightarrow> (string \<times> Buffer) result" where
  "retrieveAllAsString nd b = retrieveAsString nd (readableBytes b) b"

definition toStringPiece :: "Buffer \<Rightarrow> StringPiece" where
  "toStringPiece b = StringPiece_of (drop (peek b) (buffer b)) (cast_int32 (int (readableBytes b)))"

definition peekInt8 :: "bool \<Rightarrow> Buffer \<Rightarrow> 8 word result" where
  "peekInt8 nd b =
     cassert nd (1 \<le> readableBytes b)
       (bindR (mem_read b (peek b) 1) (\<lambda>s. Inr (of_char (hd s))))"

definition peekInt16 :: "byte_order \<Rightarrow> bool \<Rightarrow> Buffer \<Rightarrow> 16 word result" where
  "peekInt16 e nd b =
     cassert nd (2 \<le> readableBytes b)
       (bindR (mem_read b (peek b) 2) (\<lambda>s. Inr (networkToHost16 e (mem_word e s))))"

definition peekInt32 :: "byte_order \<Rightarrow> bool \<Rightarrow> Buffer \<Rightarrow> 32 word result" where
  "peekInt32 e nd b =
     cassert nd (4 \<le> readableBytes b)
       (bindR (mem_read b (peek b) 4) (\<lambda>s. Inr (networkToHost32 e (mem_word e s))))"

definition peekInt64 :: "byte_order \<Rightarrow> bool \<Rightarrow> Buffer \<Rightarrow> 64 word result" where
  "peekInt64 e nd b =
     cassert nd (8 \<le> readableBytes b)
       (bindR (mem_read b (peek b) 8) (\<lambda>s. Inr (networkToHost64 e (mem_word e s))))"

definition readInt8 :: "bool \<Rightarrow> Buffer \<Rightarrow> (8 word \<times> Buffer) result" where
  "readInt8 nd b =
     bindR (peekInt8 nd b) (\<lambda>res. bindR (retrieveInt8 nd b) (\<lambda>b'. Inr (res, b')))"

definition readInt16 :: "byte_order \<Rightarrow> bool \<Rightarrow> Buffer \<Rightarrow> (16 word \<times> Buffer) result" where
  "readInt16 e nd b =
     bindR (peekInt16 e nd b) (\<lambda>res. bindR (retrieveInt16 nd b) (\<lambda>b'. Inr (res, b')))"

definition readInt32 :: "byte_order \<Rightarrow> bool \<Rightarrow> Buffer \<Rightarrow> (32 word \<times> Buffer) result" where
  "readInt32 e nd b =
     bindR (peekInt32 e nd b) (\<lambda>res. bindR (retrieveInt32 nd b) (\<lambda>b'. Inr (res, b')))"

definition readInt64 :: "byte_order \<Rightarrow> bool \<Rightarrow> Buffer \<Rightarrow> (64 word \<times> Buffer) result" where
  "readInt64 e nd b =
     bindR (peekInt64 e nd b) (\<lambda>res. bindR (retrieveInt64 nd b) (\<lambda>b'. Inr (res, b')))"

subsection \<open>Writing\<close>

definition beginWrite :: "Buffer \<Rightarrow> nat" where
  "beginWrite b = writeIndex b"

definition hasWritten :: "bool \<Rightarrow> nat \<Rightarrow> Buffer \<Rightarrow> Buffer result" where
  "hasWritten nd len b =
     cassert nd (len \<le> writableBytes b) (Inr (b\<lparr>writeIndex := uadd64 (writeIndex b) len\<rparr>))"

definition unwrite :: "bool \<Rightarrow> nat \<Rightarrow> Buffer \<Rightarrow> Buffer result" where
  "unwrite nd len b =
     cassert nd (len < readableBytes b) (Inr (b\<lparr>writeIndex := uadd64 (writeIndex b) len\<rparr>))"

text \<open>\<open>std::vector<char>::resize\<close>: truncate, or extend with zero bytes.\<close>

definition vector_resize :: "nat \<Rightarrow> char list \<Rightarrow> char list result" where
  "vector_resize n xs =
     (if vector_max < n then Inl LengthError
      else Inr (take n xs @ replicate (n - length xs) (CHR 0x00)))"

definition makeSpace :: "nat \<Rightarrow> Buffer \<Rightarrow> Buffer result" where
  "makeSpace len b =
     (if len \<le> uadd64 (writableBytes b) kCheapPrependSize then
        let copylen = readableBytes b in
        bindR (mem_read b (readIndex b) copylen) (\<lambda>d.
        bindR (array_write kCheapPrependSize d (buffer b)) (\<lambda>a.
        Inr (b\<lparr>buffer := a, readIndex := kCheapPrependSize,
               writeIndex := kCheapPrependSize + copylen\<rparr>)))
      else
        bindR (vector_resize (uadd64 (writeIndex b) len) (buffer b)) (\<lambda>a.
        Inr (b\<lparr>buffer := a\<rparr>)))"

definition ensureWritableBytes :: "bool \<Rightarrow> nat \<Rightarrow> Buffer \<Rightarrow> Buffer result" where
  "ensureWritableBytes nd len b =
     bindR (if writableBytes b < len then makeSpace len b else Inr b)
       (\<lambda>b'. cassert nd (len \<le> writableBytes b') (Inr b'))"

definition Buffer_append :: "bool \<Rightarrow> char list \<Rightarrow> Buffer \<Rightarrow> Buffer result" where
  "Buffer_append nd data b =
     bindR (ensureWritableBytes nd (length data) b) (\<lambda>b1.
     bindR (array_write (beginWrite b1) data (buffer b1)) (\<lambda>a.
     hasWritten nd (length data) (b1\<lparr>buffer := a\<rparr>)))"

definition appendInt8 :: "bool \<Rightarrow> 8 word \<Rightarrow> Buffer \<Rightarrow> Buffer result" where
  "appendInt8 nd x b = Buffer_append nd [char_of (unat x)] b"

definition appendInt16 :: "byte_order \<Rightarrow> bool \<Rightarrow> 16 word \<Rightarrow> Buffer \<Rightarrow> Buffer result" where
  "appendInt16 e nd x b = Buffer_append nd (word_mem e (hostToNetwork16 e x)) b"

definition appendInt32 :: "byte_order \<Rightarrow> bool \<Rightarrow> 32 word \<Rightarrow> Buffer \<Rightarrow> Buffer result" where
  "appendInt32 e nd x b = Buffer_append nd (word_mem e (hostToNetwork32 e x)) b"

definition appendInt64 :: "byte_order \<Rightarrow> bool \<Rightarrow> 64 word \<Rightarrow> Buffer \<Rightarrow> Buffer result" where
  "appendInt64 e nd x b = Buffer_append nd (word_mem e (hostToNetwork64 e x)) b"

definition prependableSize :: "Buffer \<Rightarrow> nat" where
  "prependableSize b = readIndex b"

definition prepend :: "bool \<Rightarrow> char list \<Rightarrow> Buffer \<Rightarrow> Buffer result" where
  "prepend nd data b =
     cassert nd (length data \<le> prependableSize b)
       (let ri = usub64 (readIndex b) (length data) in
        bindR (array_write ri data (buffer b)) (\<lambda>a.
        Inr (b\<lparr>buffer := a, readIndex := ri\<rparr>)))"

definition prependInt8 :: "bool \<Rightarrow> 8 word \<Rightarrow> Buffer \<Rightarrow> Buffer result" where
  "prependInt8 nd x b = prepend nd [char_of (unat x)] b"

definition prependInt16 :: "byte_order \<Rightarrow> bool \<Rightarrow> 16 word \<Rightarrow> Buffer \<Rightarrow> Buffer result" where
  "prependInt16 e nd x b = prepend nd (word_mem e (hostToNetwork16 e x)) b"

definition prependInt32 :: "byte_order \<Rightarrow> bool \<Rightarrow> 32 word \<Rightarrow> Buffer \<Rightarrow> Buffer result" where
  "prependInt32 e nd x b = prepend nd (word_mem e (hostToNetwork32 e x)) b"

definition prependInt64 :: "byte_order \<Rightarrow> bool \<Rightarrow> 64 word \<Rightarrow> Buffer \<Rightarrow> Buffer result" where
  "prependInt64 e nd x b = prepend nd (word_mem e (hostToNetwork64 e x)) b"

text \<open>\<open>std::search\<close>: the offset of the first occurrence, the length if there is none.\<close>

fun std_search :: "'a list \<Rightarrow> 'a list \<Rightarrow> nat" where
  "std_search pat [] = 0"
| "std_search pat (x # xs) =
     (if take (length pat) (x # xs) = pat then 0 else Suc (std_search pat xs))"

definition kCRLF :: string where
  "kCRLF = [CHR 0x0D, CHR 0x0A]"

definition findCRLF :: "Buffer \<Rightarrow> nat option" where
  "findCRLF b =
     (let crlf = peek b + std_search kCRLF (slice (peek b) (beginWrite b) (buffer b))
      in if crlf = beginWrite b then None else Some crlf)"

text \<open>
  \<open>readFd\<close>. The call \<open>readv(fd, vec, 2)\<close> is the parameter \<open>readv\<close>: the lengths of the
  two areas go in, an \<open>errno\<close> or the bytes received come out. The kernel fills the first
  area (the writable part of the vector) before the second one (\<open>extrabuf\<close>). The result is
  the return value, what is stored in \<open>*saveErrno\<close>, and the buffer.
\<close>

definition extrabufSize :: nat where
  "extrabufSize = 65535"

definition readFd ::
  "bool \<Rightarrow> (int \<Rightarrow> nat list \<Rightarrow> int + char list) \<Rightarrow> int \<Rightarrow> Buffer \<Rightarrow> (int \<times> int option \<times> Buffer) result"
where
  "readFd nd readv fd b =
     (let writable = writableBytes b in
      case readv fd [writable, extrabufSize] of
        Inl err \<Rightarrow> Inr (-1, Some err, b)
      | Inr bytes \<Rightarrow>
          let n = length bytes in
          bindR (array_write (beginWrite b) (take writable bytes) (buffer b)) (\<lambda>a.
          let b1 = b\<lparr>buffer := a\<rparr>; extrabuf = drop writable bytes in
          if n \<le> writable then
            bindR (hasWritten nd n b1) (\<lambda>b2. Inr (int n, None, b2))
          else
            bindR (Buffer_append nd (take (n - writable) extrabuf)
                     (b1\<lparr>writeIndex := length (buffer b1)\<rparr>)) (\<lambda>b2. Inr (int n, None, b2))))"

subsection \<open>Abstract value and invariant\<close>

definition Buffer_inv :: "Buffer \<Rightarrow> bool" where
  "Buffer_inv b \<longleftrightarrow>
     readIndex b \<le> writeIndex b \<and> writeIndex b \<le> length (buffer b) \<and>
     kCheapPrependSize \<le> length (buffer b) \<and> length (buffer b) \<le> vector_max"

definition Buffer_content :: "Buffer \<Rightarrow> char list" where
  "Buffer_content b = slice (readIndex b) (writeIndex b) (buffer b)"

text \<open>When \<open>append\<close> of \<open>len\<close> bytes finds or makes the room it needs.\<close>

definition append_room :: "Buffer \<Rightarrow> nat \<Rightarrow> bool" where
  "append_room b len \<longleftrightarrow>
     (let writable = length (buffer b) - writeIndex b; readable = writeIndex b - readIndex b in
      if len \<le> writable then True
      else if len \<le> writable + kCheapPrependSize
      then kCheapPrependSize + readable + len \<le> length (buffer b)
      else writeIndex b + len \<le> vector_max)"

subsection \<open>Facts the operations share\<close>

lemma Buffer_sizes:
  assumes "Buffer_inv b"
  shows "readableBytes b = writeIndex b - readIndex b"
    and "writableBytes b = length (buffer b) - writeIndex b"
    and "length (Buffer_content b) = readableBytes b"
  using assms by (simp_all add: Buffer_inv_def readableBytes_def writableBytes_def Buffer_content_def)

lemma Buffer_room_lt:
  "Buffer_inv b \<Longrightarrow> writeIndex b < 2 ^ 63"
  "Buffer_inv b \<Longrightarrow> length (buffer b) < 2 ^ 63"
  using vector_max_lt by (auto simp: Buffer_inv_def)

lemma mem_read_content:
  assumes "Buffer_inv b" "n \<le> readableBytes b"
  shows "mem_read b (readIndex b) n = Inr (take n (Buffer_content b))"
proof -
  have le: "readIndex b + n \<le> writeIndex b"
    using assms by (auto simp: Buffer_sizes Buffer_inv_def)
  then have "readIndex b + n \<le> length (buffer b)"
    using assms by (auto simp: Buffer_inv_def)
  with le show ?thesis by (simp add: mem_read_def Buffer_content_def take_slice min_def)
qed

lemma mem_read_offset:
  assumes "Buffer_inv b" "k + n \<le> readableBytes b"
  shows "mem_read b (readIndex b + k) n = Inr (take n (drop k (Buffer_content b)))"
  using assms Buffer_sizes(1) [OF assms(1)]
  by (auto simp: mem_read_def Buffer_content_def slice_def Buffer_inv_def drop_take min_def add.commute)

lemma Buffer_content_all: "Buffer_inv b \<Longrightarrow> take (readableBytes b) (Buffer_content b) = Buffer_content b"
  by (simp add: Buffer_sizes)

lemma retrieveAll_spec [arale_wf]:
  "Buffer_inv b \<Longrightarrow> Buffer_inv (retrieveAll b)"
  "Buffer_content (retrieveAll b) = []"
  by (auto simp: retrieveAll_def Buffer_inv_def Buffer_content_def)

lemma retrieve_spec:
  assumes "Buffer_inv b" "n \<le> readableBytes b"
  shows "\<exists>b'. retrieve nd n b = Inr b' \<and> Buffer_inv b' \<and> Buffer_content b' = drop n (Buffer_content b)"
proof (cases "n < readableBytes b")
  case True
  with assms have "readIndex b + n < 2 ^ 64"
    using Buffer_room_lt [OF assms(1)] by (auto simp: Buffer_sizes)
  then have eq: "retrieve nd n b = Inr (b\<lparr>readIndex := readIndex b + n\<rparr>)"
    using True by (simp add: retrieve_def)
  show ?thesis
    unfolding eq using True assms
    by (auto simp: Buffer_inv_def Buffer_content_def drop_slice Buffer_sizes)
next
  case False
  with assms have "retrieve nd n b = Inr (retrieveAll b)"
    by (simp add: retrieve_def)
  moreover have "drop n (Buffer_content b) = []"
    using False assms by (simp add: Buffer_sizes)
  ultimately show ?thesis
    using assms by (auto simp: retrieveAll_spec)
qed

lemma makeSpace_move:
  assumes "Buffer_inv b" "len \<le> writableBytes b + kCheapPrependSize"
    and "kCheapPrependSize + readableBytes b \<le> length (buffer b)"
  shows "\<exists>b'. makeSpace len b = Inr b' \<and> Buffer_inv b' \<and> Buffer_content b' = Buffer_content b \<and>
     readIndex b' = kCheapPrependSize \<and> writeIndex b' = kCheapPrependSize + readableBytes b \<and>
     length (buffer b') = length (buffer b)"
proof -
  let ?c = "Buffer_content b"
  have k: "length ?c = readableBytes b" using assms(1) by (rule Buffer_sizes(3))
  have room: "kCheapPrependSize + length ?c \<le> length (buffer b)" using assms(3) k by simp
  have nowrap: "writableBytes b + kCheapPrependSize < 2 ^ 64"
    using Buffer_room_lt [OF assms(1)] assms(1) by (simp add: Buffer_sizes kCheapPrependSize_def)
  define a where "a = take kCheapPrependSize (buffer b) @ ?c @ drop (kCheapPrependSize + length ?c) (buffer b)"
  have la: "length a = length (buffer b)" using room by (simp add: a_def)
  have eq: "makeSpace len b = Inr (b\<lparr>buffer := a, readIndex := kCheapPrependSize,
      writeIndex := kCheapPrependSize + readableBytes b\<rparr>)"
    using assms nowrap room
    by (simp add: makeSpace_def mem_read_content Buffer_content_all array_write_ok a_def Let_def)
  have "slice kCheapPrependSize (kCheapPrependSize + readableBytes b) a = ?c"
    using room by (simp add: a_def k [symmetric] slice_def)
  then show ?thesis
    unfolding eq using assms la by (auto simp: Buffer_inv_def Buffer_content_def)
qed

lemma makeSpace_resize:
  assumes "Buffer_inv b" "writableBytes b + kCheapPrependSize < len"
    and "writeIndex b + len \<le> vector_max"
  shows "\<exists>b'. makeSpace len b = Inr b' \<and> Buffer_inv b' \<and> Buffer_content b' = Buffer_content b \<and>
     writeIndex b' = writeIndex b \<and> length (buffer b') = writeIndex b + len"
proof -
  have nowrap: "writableBytes b + kCheapPrependSize < 2 ^ 64" "writeIndex b + len < 2 ^ 64"
    using Buffer_room_lt [OF assms(1)] assms vector_max_lt
    by (simp_all add: Buffer_sizes kCheapPrependSize_def)
  define a where "a = buffer b @ replicate (writeIndex b + len - length (buffer b)) (CHR 0x00)"
  have wl: "length (buffer b) < writeIndex b + len"
    using assms by (auto simp: Buffer_sizes Buffer_inv_def kCheapPrependSize_def)
  then have "makeSpace len b = Inr (b\<lparr>buffer := a\<rparr>)"
    using assms nowrap by (simp add: makeSpace_def vector_resize_def a_def)
  moreover have "slice (readIndex b) (writeIndex b) a = Buffer_content b"
    using assms(1) by (simp add: a_def slice_def Buffer_content_def Buffer_inv_def)
  ultimately show ?thesis
    using assms wl by (auto simp: Buffer_inv_def Buffer_content_def a_def)
qed

lemma ensureWritableBytes_spec:
  assumes "Buffer_inv b" "append_room b len"
  shows "\<exists>b'. ensureWritableBytes nd len b = Inr b' \<and> Buffer_inv b' \<and>
     Buffer_content b' = Buffer_content b \<and> writeIndex b' + len \<le> length (buffer b')"
proof -
  note sz = Buffer_sizes [OF assms(1)]
  consider (fits) "len \<le> writableBytes b"
    | (move) "writableBytes b < len" "len \<le> writableBytes b + kCheapPrependSize"
        "kCheapPrependSize + readableBytes b + len \<le> length (buffer b)"
    | (grow) "writableBytes b + kCheapPrependSize < len" "writeIndex b + len \<le> vector_max"
    using assms(2) by (auto simp: append_room_def sz Let_def not_le split: if_splits)
  then show ?thesis
  proof cases
    case fits
    with assms(1) show ?thesis by (auto simp: ensureWritableBytes_def sz Buffer_inv_def)
  next
    case move
    then obtain b' where b': "makeSpace len b = Inr b'" "Buffer_inv b'"
      "Buffer_content b' = Buffer_content b"
      "writeIndex b' = kCheapPrependSize + readableBytes b" "length (buffer b') = length (buffer b)"
      using makeSpace_move [OF assms(1)] by fastforce
    with move show ?thesis
      by (auto simp: ensureWritableBytes_def Buffer_sizes cassert_Inr_iff)
  next
    case grow
    then obtain b' where "makeSpace len b = Inr b'" "Buffer_inv b'"
      "Buffer_content b' = Buffer_content b" "writeIndex b' = writeIndex b"
      "length (buffer b') = writeIndex b + len"
      using makeSpace_resize [OF assms(1)] by fastforce
    with grow show ?thesis
      by (auto simp: ensureWritableBytes_def Buffer_sizes cassert_Inr_iff)
  qed
qed

lemma store_spec:
  assumes "Buffer_inv b" "writeIndex b + length data \<le> length (buffer b)"
  shows "\<exists>a b'. array_write (writeIndex b) data (buffer b) = Inr a \<and>
     hasWritten nd (length data) (b\<lparr>buffer := a\<rparr>) = Inr b' \<and> Buffer_inv b' \<and>
     Buffer_content b' = Buffer_content b @ data"
proof -
  define a where "a = take (writeIndex b) (buffer b) @ data @ drop (writeIndex b + length data) (buffer b)"
  have la: "length a = length (buffer b)" using assms(2) by (simp add: a_def)
  have inv': "Buffer_inv (b\<lparr>buffer := a\<rparr>)" using assms(1) la by (simp add: Buffer_inv_def)
  have "writeIndex b + length data < 2 ^ 64"
    using Buffer_room_lt [OF assms(1)] assms(2) by simp
  then have "hasWritten nd (length data) (b\<lparr>buffer := a\<rparr>) =
      Inr (b\<lparr>buffer := a, writeIndex := writeIndex b + length data\<rparr>)"
    using assms(2) la by (simp add: hasWritten_def Buffer_sizes [OF inv'] cassert_holds)
  moreover have "slice (readIndex b) (writeIndex b + length data) a = Buffer_content b @ data"
    unfolding a_def Buffer_content_def
    using assms by (intro slice_write_after) (auto simp: Buffer_inv_def)
  ultimately show ?thesis
    using assms la by (auto simp: array_write_ok a_def Buffer_inv_def Buffer_content_def)
qed

lemma Buffer_append_ok:
  assumes "Buffer_inv b" "append_room b (length data)"
  shows "\<exists>b'. Buffer_append nd data b = Inr b' \<and> Buffer_inv b' \<and>
     Buffer_content b' = Buffer_content b @ data"
proof -
  obtain b1 where b1: "ensureWritableBytes nd (length data) b = Inr b1" "Buffer_inv b1"
    "Buffer_content b1 = Buffer_content b" "writeIndex b1 + length data \<le> length (buffer b1)"
    using ensureWritableBytes_spec [OF assms] by blast
  then show ?thesis
    using store_spec [OF b1(2,4), of nd] by (auto simp: Buffer_append_def beginWrite_def)
qed

lemma Buffer_append_gap:
  assumes "Buffer_inv b" "writableBytes b < length data"
    and "length data \<le> writableBytes b + kCheapPrependSize"
    and "length (buffer b) < kCheapPrependSize + readableBytes b + length data"
    and "kCheapPrependSize + readableBytes b \<le> length (buffer b)"
  shows "Buffer_append nd data b = Inl (if nd then OutOfBounds else AssertFailed)"
proof -
  obtain b' where b': "makeSpace (length data) b = Inr b'" "Buffer_inv b'"
    "writeIndex b' = kCheapPrependSize + readableBytes b" "length (buffer b') = length (buffer b)"
    using makeSpace_move [OF assms(1,3,5)] by blast
  have "\<not> length data \<le> writableBytes b'"
    using assms(4,5) b' by (simp add: Buffer_sizes)
  then show ?thesis
    using assms(2,4) b'
    by (cases nd) (simp_all add: Buffer_append_def ensureWritableBytes_def cassert_def
        beginWrite_def array_write_def)
qed

lemma Buffer_append_fails:
  assumes "Buffer_inv b" "\<not> append_room b (length data)" "length data \<le> vector_max"
  shows "\<exists>f. Buffer_append nd data b = Inl f"
proof -
  note sz = Buffer_sizes [OF assms(1)]
  have lt: "writableBytes b < length data"
    using assms(2) by (auto simp: append_room_def sz Let_def not_le split: if_splits)
  have nowrap: "writableBytes b + kCheapPrependSize < 2 ^ 64" "writeIndex b + length data < 2 ^ 64"
    using Buffer_room_lt [OF assms(1)] assms(3) vector_max_lt
    by (simp_all add: sz kCheapPrependSize_def)
  consider (gap) "length data \<le> writableBytes b + kCheapPrependSize"
      "length (buffer b) < kCheapPrependSize + readableBytes b + length data"
      "kCheapPrependSize + readableBytes b \<le> length (buffer b)"
    | (nomove) "length data \<le> writableBytes b + kCheapPrependSize"
      "length (buffer b) < kCheapPrependSize + readableBytes b"
    | (huge) "writableBytes b + kCheapPrependSize < length data" "vector_max < writeIndex b + length data"
    using assms(2) lt by (fastforce simp: append_room_def sz Let_def not_le split: if_splits)
  then show ?thesis
  proof cases
    case gap
    with Buffer_append_gap [OF assms(1) lt] show ?thesis by blast
  next
    case nomove
    then have "makeSpace (length data) b = Inl OutOfBounds"
      using nowrap assms(1)
      by (simp add: makeSpace_def mem_read_content Buffer_content_all array_write_def Let_def sz(3))
    then show ?thesis using lt by (simp add: Buffer_append_def ensureWritableBytes_def)
  next
    case huge
    then have "makeSpace (length data) b = Inl LengthError"
      using nowrap by (simp add: makeSpace_def vector_resize_def)
    then show ?thesis using lt by (simp add: Buffer_append_def ensureWritableBytes_def)
  qed
qed

lemma prepend_ok:
  assumes "Buffer_inv b" "length data \<le> readIndex b"
  shows "\<exists>b'. prepend nd data b = Inr b' \<and> Buffer_inv b' \<and> Buffer_content b' = data @ Buffer_content b"
proof -
  let ?ri = "readIndex b - length data"
  have bd: "?ri + length data \<le> writeIndex b" "writeIndex b \<le> length (buffer b)"
    using assms by (auto simp: Buffer_inv_def)
  define a where "a = take ?ri (buffer b) @ data @ drop (?ri + length data) (buffer b)"
  have la: "length a = length (buffer b)" using bd by (simp add: a_def)
  have "prepend nd data b = Inr (b\<lparr>buffer := a, readIndex := ?ri\<rparr>)"
    using assms bd by (simp add: prepend_def prependableSize_def array_write_ok a_def Let_def)
  moreover have "slice ?ri (writeIndex b) a = data @ Buffer_content b"
    using slice_write_before [OF bd] assms by (simp add: a_def Buffer_content_def)
  ultimately show ?thesis
    using assms bd la by (auto simp: Buffer_inv_def Buffer_content_def)
qed

subsection \<open>What the users of a buffer rely on\<close>

text \<open>Run a fallible operation over a list, stopping at the first fault.\<close>

fun foldR :: "('a \<Rightarrow> 's \<Rightarrow> 's result) \<Rightarrow> 'a list \<Rightarrow> 's \<Rightarrow> 's result" where
  "foldR f [] s = Inr s"
| "foldR f (x # xs) s = bindR (f x s) (foldR f xs)"

lemma foldR_append: "foldR f (xs @ ys) s = bindR (foldR f xs s) (foldR f ys)"
proof (induction xs arbitrary: s)
  case (Cons x xs)
  then show ?case by (cases "f x s") simp_all
qed simp

locale byte_queue =
  fixes inv :: "'b \<Rightarrow> bool"
    and content :: "'b \<Rightarrow> char list"
    and room :: "'b \<Rightarrow> nat \<Rightarrow> bool"
    and app :: "char list \<Rightarrow> 'b \<Rightarrow> 'b result"
    and ret :: "nat \<Rightarrow> 'b \<Rightarrow> 'b result"
  assumes app_ok: "inv b \<Longrightarrow> room b (length d) \<Longrightarrow>
      \<exists>b'. app d b = Inr b' \<and> inv b' \<and> content b' = content b @ d"
    and app_fails: "inv b \<Longrightarrow> \<not> room b (length d) \<Longrightarrow> length d \<le> vector_max \<Longrightarrow>
      \<exists>f. app d b = Inl f"
    and ret_ok: "inv b \<Longrightarrow> n \<le> length (content b) \<Longrightarrow>
      \<exists>b'. ret n b = Inr b' \<and> inv b' \<and> content b' = drop n (content b)"
begin

lemma app_iff:
  "inv b \<Longrightarrow> length d \<le> vector_max \<Longrightarrow> (\<exists>b'. app d b = Inr b') \<longleftrightarrow> room b (length d)"
  using app_ok app_fails by (metis Inl_Inr_False)

lemma app_Inr:
  assumes "inv b" "length d \<le> vector_max" "app d b = Inr b'"
  shows "inv b' \<and> content b' = content b @ d"
  using app_ok [OF assms(1)] app_iff [OF assms(1,2)] assms(3) by fastforce

lemma ret_Inr:
  assumes "inv b" "n \<le> length (content b)" "ret n b = Inr b'"
  shows "inv b' \<and> content b' = drop n (content b)"
  using ret_ok [OF assms(1,2)] assms(3) by auto

lemma app_all_Inr:
  assumes "inv b" "\<And>d. d \<in> set ds \<Longrightarrow> length d \<le> vector_max" "foldR app ds b = Inr b'"
  shows "inv b' \<and> content b' = content b @ concat ds"
  using assms
proof (induction ds arbitrary: b)
  case (Cons d ds)
  then obtain b1 where b1: "app d b = Inr b1" "foldR app ds b1 = Inr b'" by auto
  then have "inv b1 \<and> content b1 = content b @ d" using app_Inr Cons.prems by auto
  with Cons.IH [of b1] Cons.prems b1 show ?case by auto
qed simp

text \<open>A queue: what was appended first is what is retrieved first.\<close>

lemma app_then_ret:
  assumes "inv b" "length d \<le> vector_max" "app d b = Inr b1"
  shows "\<exists>b2. ret (length (content b)) b1 = Inr b2 \<and> inv b2 \<and> content b2 = d"
proof -
  have *: "inv b1" "content b1 = content b @ d" using app_Inr [OF assms] by auto
  then show ?thesis using ret_ok [of b1 "length (content b)"] by simp
qed

end

interpretation buf: byte_queue Buffer_inv Buffer_content append_room
  "Buffer_append nd" "retrieve nd" for nd
  by unfold_locales
    (auto simp: Buffer_append_ok Buffer_append_fails retrieve_spec Buffer_sizes(3))

lemma Buffer_append_fits:
  assumes "Buffer_inv b" "writeIndex b + length d \<le> length (buffer b)"
  shows "\<exists>b'. Buffer_append nd d b = Inr b' \<and> Buffer_inv b' \<and> writeIndex b' = writeIndex b + length d \<and>
     length (buffer b') = length (buffer b)"
proof -
  have w: "length d \<le> writableBytes b" using assms by (simp add: Buffer_sizes)
  then have e: "ensureWritableBytes nd (length d) b = Inr b" by (simp add: ensureWritableBytes_def)
  obtain a b' where ab: "array_write (writeIndex b) d (buffer b) = Inr a" "hasWritten nd (length d) (b\<lparr>buffer := a\<rparr>) = Inr b'"
    "Buffer_inv b'"
    using store_spec [OF assms, of nd] by blast
  have "writeIndex b + length d < 2 ^ 64" using assms Buffer_room_lt(2) [OF assms(1)] by simp
  with ab(1,2) array_write_length [OF ab(1)] have "writeIndex b' = writeIndex b + length d \<and> length (buffer b') = length (buffer b)"
    by (auto simp: hasWritten_def cassert_def split: if_splits)
  with ab e show ?thesis by (simp add: Buffer_append_def beginWrite_def)
qed

lemma append_all_fits:
  assumes "Buffer_inv b" "writeIndex b + length (concat ds) \<le> length (buffer b)"
  shows "\<exists>b'. foldR (Buffer_append nd) ds b = Inr b'"
  using assms
proof (induction ds arbitrary: b)
  case (Cons d ds)
  obtain b1 where b1: "Buffer_append nd d b = Inr b1" "Buffer_inv b1" "writeIndex b1 = writeIndex b + length d"
    "length (buffer b1) = length (buffer b)"
    using Buffer_append_fits [OF Cons.prems(1), of d nd] Cons.prems(2) by auto
  with Cons.IH [OF b1(2)] Cons.prems(2) show ?case by simp
qed simp

lemma append_room_fits: "writeIndex b + n \<le> length (buffer b) \<Longrightarrow> append_room b n"
  by (subst append_room_def, unfold Let_def, subst if_P) simp_all

lemma Buffer_append_readIndex:
  "Buffer_append nd d b = Inr b' \<Longrightarrow> readIndex b' \<in> {readIndex b, kCheapPrependSize}"
  by (auto simp: Buffer_append_def ensureWritableBytes_def makeSpace_def hasWritten_def cassert_Inr_iff Let_def
      split: if_splits)

lemma Buffer_new_default:
  "Buffer_new nd kDefaultInitialSize =
     Inr \<lparr>buffer = replicate 1032 (CHR 0x00), readIndex = 8, writeIndex = 8\<rparr>"
  by (simp add: Buffer_new_def kCheapPrependSize_def kDefaultInitialSize_def writableBytes_def
      readableBytes_def Let_def)

lemma Buffer_new_inv [arale_wf]:
  "Buffer_new nd n = Inr b \<Longrightarrow> Buffer_inv b \<and> Buffer_content b = []"
  by (auto simp: Buffer_new_def Buffer_inv_def Buffer_content_def Let_def cassert_Inr_iff
      kCheapPrependSize_def kDefaultInitialSize_def vector_max_def)

subsection \<open>Searching\<close>

lemma std_search_le: "std_search pat xs \<le> length xs"
  by (induction xs) auto

lemma std_search_before: "j < std_search pat xs \<Longrightarrow> take (length pat) (drop j xs) \<noteq> pat"
proof (induction xs arbitrary: j)
  case (Cons x xs)
  then show ?case by (cases j) (auto split: if_splits)
qed simp

lemma std_search_found:
  "std_search pat xs < length xs \<Longrightarrow>
     take (length pat) (drop (std_search pat xs) xs) = pat"
  by (induction xs) (auto split: if_splits)

lemma std_search_append:
  "std_search pat xs < length xs \<Longrightarrow>
     xs = take (std_search pat xs) xs @ pat @ drop (std_search pat xs + length pat) xs"
proof -
  assume *: "std_search pat xs < length xs"
  let ?i = "std_search pat xs"
  have "drop ?i xs = take (length pat) (drop ?i xs) @ drop (length pat) (drop ?i xs)"
    by (rule append_take_drop_id [symmetric])
  then have "drop ?i xs = pat @ drop (?i + length pat) xs"
    using std_search_found [OF *] by (simp add: add.commute)
  then show ?thesis using append_take_drop_id [of ?i xs] by simp
qed

lemma findCRLF_content:
  assumes "Buffer_inv b"
  shows "findCRLF b =
     (let i = std_search kCRLF (Buffer_content b) in
      if i = length (Buffer_content b) then None else Some (readIndex b + i))"
  using assms
  by (auto simp: findCRLF_def peek_def beginWrite_def Buffer_content_def Buffer_inv_def Let_def)

subsection \<open>Integers\<close>

lemma peekInt_content:
  assumes "Buffer_inv b"
  shows "Buffer_content b = be_bytes 2 (unat x) @ r \<Longrightarrow> peekInt16 e nd b = Inr x"
    and "Buffer_content b = be_bytes 4 (unat y) @ r \<Longrightarrow> peekInt32 e nd b = Inr y"
    and "Buffer_content b = be_bytes 8 (unat z) @ r \<Longrightarrow> peekInt64 e nd b = Inr z"
  using assms Buffer_sizes(3) [OF assms]
  by (simp_all add: peekInt16_def peekInt32_def peekInt64_def peek_def mem_read_content
      flip: Buffer_sizes(3) del: Buffer_sizes(3))

lemma readInt_content:
  assumes "Buffer_inv b"
  shows "Buffer_content b = be_bytes 2 (unat x) @ r \<Longrightarrow>
      \<exists>b'. readInt16 e nd b = Inr (x, b') \<and> Buffer_inv b' \<and> Buffer_content b' = r"
    and "Buffer_content b = be_bytes 4 (unat y) @ r \<Longrightarrow>
      \<exists>b'. readInt32 e nd b = Inr (y, b') \<and> Buffer_inv b' \<and> Buffer_content b' = r"
    and "Buffer_content b = be_bytes 8 (unat z) @ r \<Longrightarrow>
      \<exists>b'. readInt64 e nd b = Inr (z, b') \<and> Buffer_inv b' \<and> Buffer_content b' = r"
  using assms buf.ret_ok [OF assms, of 2 nd] buf.ret_ok [OF assms, of 4 nd]
    buf.ret_ok [OF assms, of 8 nd]
  by (auto simp: readInt16_def readInt32_def readInt64_def retrieveInt16_def retrieveInt32_def
      retrieveInt64_def peekInt_content)

subsection \<open>Properties of the buffer\<close>

text \<open>
  C16: \<open>Buffer::append\<close>. On a well-formed buffer, in either build, \<open>append\<close> succeeds
  exactly when \<open>append_room\<close> holds of the number of bytes; it then keeps the invariant
  and the readable bytes become the old ones followed by the new ones. Otherwise it ends in
  a fault.
\<close>

theorem Buffer_append_correct:
  assumes "Buffer_inv b" and "length data \<le> vector_max"
  shows "if append_room b (length data)
     then \<exists>b'. Buffer_append nd data b = Inr b' \<and> Buffer_inv b' \<and>
            Buffer_content b' = Buffer_content b @ data
     else \<exists>f. Buffer_append nd data b = Inl f"
  using buf.app_ok [OF assms(1)] buf.app_fails [OF assms(1) _ assms(2)] by auto

theorem Buffer_append_correct_witness:
  "\<exists>b'. Buffer_append False ''abc'' \<lparr>buffer = replicate 16 (CHR 0x00), readIndex = 8, writeIndex = 8\<rparr>
     = Inr b' \<and> Buffer_inv b' \<and> Buffer_content b' = ''abc''"
  using Buffer_append_correct [of "\<lparr>buffer = replicate 16 (CHR 0x00), readIndex = 8, writeIndex = 8\<rparr>"
      "''abc''" False]
  by (simp add: Buffer_inv_def append_room_def kCheapPrependSize_def vector_max_def
      Buffer_content_def)

text \<open>
  C18: the gap in \<open>makeSpace\<close>. When nothing has been retrieved yet (\<open>readIndex\<close> is
  still \<open>kCheapPrependSize\<close>) and the data exceeds the writable space by one to eight bytes,
  \<open>makeSpace\<close> takes its first branch, which then gains no space: the debug build fails its
  assertion and the release build writes past the end of the vector.
\<close>

theorem makeSpace_gap_faults:
  assumes "Buffer_inv b" and "readIndex b = kCheapPrependSize"
    and "writableBytes b < length data" and "length data \<le> writableBytes b + kCheapPrependSize"
  shows "Buffer_append False data b = Inl AssertFailed \<and> Buffer_append True data b = Inl OutOfBounds"
proof -
  have "length (buffer b) < kCheapPrependSize + readableBytes b + length data"
    "kCheapPrependSize + readableBytes b \<le> length (buffer b)"
    using assms by (auto simp: Buffer_sizes Buffer_inv_def)
  from Buffer_append_gap [OF assms(1,3,4) this] show ?thesis by simp
qed

theorem makeSpace_gap_faults_witness:
  "Buffer_append True (replicate 1025 (CHR ''x''))
     \<lparr>buffer = replicate 1032 (CHR 0x00), readIndex = 8, writeIndex = 8\<rparr> = Inl OutOfBounds"
  by (rule makeSpace_gap_faults [THEN conjunct2])
    (simp_all add: Buffer_inv_def kCheapPrependSize_def vector_max_def writableBytes_def)

text \<open>
  Integer round trip. Whatever the host's byte order, the four bytes that
  \<open>appendInt32\<close> puts at the end of the readable bytes are the big-endian bytes of the
  value, and when they are at the front \<open>readInt32\<close> returns the value and consumes
  exactly them.
\<close>

theorem appendInt32_readInt32:
  assumes "Buffer_inv b" and "Buffer_content b = []" and "appendInt32 e nd x b = Inr b1"
  shows "Buffer_content b1 = be_bytes 4 (unat x) \<and>
     (\<exists>b2. readInt32 e' nd b1 = Inr (x, b2) \<and> Buffer_inv b2 \<and> Buffer_content b2 = [])"
proof -
  have "Buffer_inv b1 \<and> Buffer_content b1 = be_bytes 4 (unat x)"
    using buf.app_Inr [OF assms(1) _ assms(3) [unfolded appendInt32_def]] assms(2)
    by (simp add: vector_max_def)
  then show ?thesis using readInt_content(2) [of b1 x "[]" e' nd] by auto
qed

theorem appendInt32_readInt32_witness:
  "\<exists>b1 b2. appendInt32 LittleEndian False 258
      \<lparr>buffer = replicate 16 (CHR 0x00), readIndex = 8, writeIndex = 8\<rparr> = Inr b1 \<and>
    readInt32 BigEndian False b1 = Inr (258, b2)"
proof -
  let ?b = "\<lparr>buffer = replicate 16 (CHR 0x00), readIndex = 8, writeIndex = 8\<rparr>"
  have inv: "Buffer_inv ?b" "Buffer_content ?b = []"
    by (simp_all add: Buffer_inv_def kCheapPrependSize_def vector_max_def Buffer_content_def)
  have "append_room ?b 4" by (simp add: append_room_def)
  then obtain b1 where b1: "appendInt32 LittleEndian False 258 ?b = Inr b1"
    using Buffer_append_ok [OF inv(1), of "be_bytes 4 258" False] by (auto simp: appendInt32_def)
  with appendInt32_readInt32 [OF inv b1, of BigEndian] show ?thesis by blast
qed

text \<open>
  \<open>prepend\<close> puts its data in front of the readable bytes whenever it fits in the
  prependable area, and keeps the invariant; \<open>retrieve\<close> of that many bytes undoes it.
\<close>

theorem prepend_then_retrieve:
  assumes "Buffer_inv b" and "length data \<le> prependableSize b"
  shows "\<exists>b1 b2. prepend nd data b = Inr b1 \<and> Buffer_inv b1 \<and>
     Buffer_content b1 = data @ Buffer_content b \<and>
     retrieve nd (length data) b1 = Inr b2 \<and> Buffer_inv b2 \<and> Buffer_content b2 = Buffer_content b"
proof -
  obtain b1 where "prepend nd data b = Inr b1" "Buffer_inv b1"
    "Buffer_content b1 = data @ Buffer_content b"
    using prepend_ok assms by (fastforce simp: prependableSize_def)
  with buf.ret_ok [of b1 "length data" nd] show ?thesis by auto
qed

theorem prepend_then_retrieve_witness:
  "\<exists>b1. prepend False ''len4''
      \<lparr>buffer = replicate 16 (CHR 0x00), readIndex = 8, writeIndex = 8\<rparr> = Inr b1 \<and>
    Buffer_content b1 = ''len4''"
proof -
  let ?b = "\<lparr>buffer = replicate 16 (CHR 0x00), readIndex = 8, writeIndex = 8\<rparr>"
  have "Buffer_inv ?b" "length ''len4'' \<le> prependableSize ?b" "Buffer_content ?b = []"
    by (simp_all add: Buffer_inv_def kCheapPrependSize_def vector_max_def Buffer_content_def
        prependableSize_def)
  with prepend_then_retrieve [of ?b "''len4''" False] show ?thesis by auto
qed

text \<open>
  \<open>findCRLF\<close> returns the first position in the readable bytes where a carriage
  return is followed by a line feed, both of them inside the readable bytes, and null
  exactly when there is none.
\<close>

theorem findCRLF_first:
  assumes "Buffer_inv b"
  shows "case findCRLF b of
       None \<Rightarrow> (\<forall>j. take 2 (drop j (Buffer_content b)) \<noteq> kCRLF)
     | Some p \<Rightarrow> readIndex b \<le> p \<and> p + 2 \<le> writeIndex b \<and>
         take 2 (drop (p - readIndex b) (Buffer_content b)) = kCRLF \<and>
         (\<forall>j < p - readIndex b. take 2 (drop j (Buffer_content b)) \<noteq> kCRLF)"
proof -
  let ?c = "Buffer_content b"
  let ?i = "std_search kCRLF ?c"
  have k: "length kCRLF = 2" by (simp add: kCRLF_def)
  have before: "take 2 (drop j ?c) \<noteq> kCRLF" if "j < ?i" for j
    using std_search_before [OF that] k by simp
  show ?thesis
  proof (cases "?i = length ?c")
    case True
    have "take 2 (drop j ?c) \<noteq> kCRLF" for j
      using before [of j] True by (cases "j < length ?c") (auto simp: kCRLF_def)
    with True show ?thesis by (simp add: findCRLF_content [OF assms])
  next
    case False
    then have found: "take 2 (drop ?i ?c) = kCRLF"
      using std_search_found [of kCRLF ?c] std_search_le [of kCRLF ?c] k by simp
    then have "length (take 2 (drop ?i ?c)) = 2" by (simp add: k)
    then have "?i + 2 \<le> length ?c" by simp
    moreover have "length ?c = writeIndex b - readIndex b" "readIndex b \<le> writeIndex b"
      using assms by (simp_all add: Buffer_sizes Buffer_inv_def)
    ultimately have "readIndex b + ?i + 2 \<le> writeIndex b" by simp
    with False found before show ?thesis by (simp add: findCRLF_content [OF assms] Let_def)
  qed
qed

theorem findCRLF_first_witness:
  "findCRLF \<lparr>buffer = replicate 8 (CHR 0x00) @ [CHR ''a'', CHR 0x0D, CHR 0x0A], readIndex = 8,
       writeIndex = 11\<rparr> = Some 9 \<and>
   take 2 (drop 1 [CHR ''a'', CHR 0x0D, CHR 0x0A]) = kCRLF"
proof -
  let ?b = "\<lparr>buffer = replicate 8 (CHR 0x00) @ [CHR ''a'', CHR 0x0D, CHR 0x0A], readIndex = 8,
       writeIndex = 11\<rparr>"
  have inv: "Buffer_inv ?b" by (simp add: Buffer_inv_def kCheapPrependSize_def vector_max_def)
  have c: "Buffer_content ?b = [CHR ''a'', CHR 0x0D, CHR 0x0A]"
    by (simp add: Buffer_content_def slice_def)
  have "findCRLF ?b = Some 9" by (simp add: findCRLF_content [OF inv] c kCRLF_def)
  with findCRLF_first [OF inv] show ?thesis by (simp add: c kCRLF_def)
qed



text \<open>
  \<open>unwrite\<close>, which is meant to take back the last bytes written, moves the write
  index forward instead: the readable bytes grow by the bytes that lie behind them in the
  vector, and the old ones are all still there.
\<close>

theorem unwrite_grows:
  assumes "Buffer_inv b" and "len < readableBytes b" and "len \<le> writableBytes b"
  shows "\<exists>b'. unwrite nd len b = Inr b' \<and>
     Buffer_content b' =
       Buffer_content b @ slice (writeIndex b) (writeIndex b + len) (buffer b) \<and>
     readableBytes b' = readableBytes b + len"
proof -
  have bd: "readIndex b \<le> writeIndex b" "writeIndex b + len \<le> length (buffer b)"
    using assms by (auto simp: Buffer_sizes Buffer_inv_def)
  then have "writeIndex b + len < 2 ^ 64" using Buffer_room_lt [OF assms(1)] by simp
  then have "unwrite nd len b = Inr (b\<lparr>writeIndex := writeIndex b + len\<rparr>)"
    using assms(2) by (simp add: unwrite_def)
  with bd show ?thesis
    by (simp add: Buffer_content_def readableBytes_def
        slice_split [of "readIndex b" "writeIndex b" "writeIndex b + len"])
qed

theorem unwrite_grows_witness:
  "\<exists>b'. unwrite False 1 \<lparr>buffer = replicate 8 (CHR 0x00) @ ''abcd'', readIndex = 8, writeIndex = 11\<rparr>
      = Inr b' \<and> Buffer_content b' = ''abcd''"
proof -
  let ?b = "\<lparr>buffer = replicate 8 (CHR 0x00) @ ''abcd'', readIndex = 8, writeIndex = 11\<rparr>"
  have "Buffer_inv ?b" "1 < readableBytes ?b" "1 \<le> writableBytes ?b"
    by (simp_all add: Buffer_inv_def kCheapPrependSize_def vector_max_def writableBytes_def
        readableBytes_def)
  with unwrite_grows [of ?b 1 False] show ?thesis by (auto simp: Buffer_content_def slice_def)
qed

end
