(* ===== verification/Arale_Format.thy ===== *)
theory Arale_Format
  imports Arale_Prelude
begin

section \<open>Decimal formatting of the C library\<close>

text \<open>
  What the sources use of \<open>snprintf\<close>: the conversions \<open>%d\<close>, \<open>%4d\<close>, \<open>%02d\<close>, \<open>%06d\<close>,
  \<open>%03d\<close>, \<open>%zd\<close> and the truncation to the size of the destination. \<open>undec\<close> reads
  decimal digits back; it is the reference for the digits that are printed.
\<close>

definition digit :: "nat \<Rightarrow> char" where
  "digit d = char_of (48 + d)"

fun dec :: "nat \<Rightarrow> string" where
  "dec n = (if n < 10 then [digit n] else dec (n div 10) @ [digit (n mod 10)])"

declare dec.simps [simp del]

definition sdec :: "int \<Rightarrow> string" where
  "sdec x = (if x < 0 then CHR ''-'' # dec (nat (- x)) else dec (nat x))"

definition pad :: "char \<Rightarrow> nat \<Rightarrow> string \<Rightarrow> string" where
  "pad c w s = replicate (w - length s) c @ s"

text \<open>\<open>%<w>d\<close> and \<open>%0<w>d\<close>: with the flag \<open>0\<close> the zeros stand after the sign.\<close>

definition fmt_d :: "nat \<Rightarrow> int \<Rightarrow> string" where
  "fmt_d w x = pad (CHR '' '') w (sdec x)"

definition fmt_0d :: "nat \<Rightarrow> int \<Rightarrow> string" where
  "fmt_0d w x =
     (if x < 0 then CHR ''-'' # pad (CHR ''0'') (w - 1) (dec (nat (- x)))
      else pad (CHR ''0'') w (dec (nat x)))"

text \<open>The characters \<open>snprintf(buf, n, ...)\<close> leaves in \<open>buf\<close> before the terminating zero.\<close>

definition snprintf :: "nat \<Rightarrow> string \<Rightarrow> string" where
  "snprintf n s = take (n - 1) s"

subsection \<open>Reading digits back\<close>

definition digit_val :: "char \<Rightarrow> nat" where
  "digit_val c = of_char c - 48"

definition undec :: "string \<Rightarrow> nat" where
  "undec s = foldl (\<lambda>a c. a * 10 + digit_val c) 0 s"

definition is_digit :: "char \<Rightarrow> bool" where
  "is_digit c \<longleftrightarrow> 48 \<le> (of_char c :: nat) \<and> (of_char c :: nat) \<le> 57"

text \<open>
  \<open>atoi\<close>: white space, a sign and digits; the text ends at the first zero character. A value
  outside \<open>int\<close>, undefined in C, is reduced.
\<close>

definition is_space :: "char \<Rightarrow> bool" where
  "is_space c \<longleftrightarrow> c = CHR '' '' \<or> (9 \<le> (of_char c :: nat) \<and> (of_char c :: nat) \<le> 13)"

definition atoi :: "string \<Rightarrow> int" where
  "atoi s =
     (let s1 = dropWhile is_space s;
          neg = (s1 \<noteq> [] \<and> hd s1 = CHR ''-'');
          s2 = (if s1 \<noteq> [] \<and> hd s1 \<in> {CHR ''-'', CHR ''+''} then tl s1 else s1);
          v = int (undec (takeWhile is_digit s2))
      in cast_int32 (if neg then - v else v))"

lemma of_char_digit: "d < 10 \<Longrightarrow> of_char (digit d) = 48 + d"
  by (simp add: digit_def)

lemma digit_val_digit [simp]: "d < 10 \<Longrightarrow> digit_val (digit d) = d"
  by (simp add: digit_val_def of_char_digit)

lemma is_digit_digit [simp]: "d < 10 \<Longrightarrow> is_digit (digit d)"
  by (simp add: is_digit_def of_char_digit)

lemma undec_snoc [simp]: "undec (s @ [c]) = undec s * 10 + digit_val c"
  by (simp add: undec_def)

lemma undec_dec [simp]: "undec (dec n) = n"
proof (induction n rule: dec.induct)
  case (1 n)
  show ?case
  proof (cases "n < 10")
    case True
    then show ?thesis by (simp add: dec.simps [of n] undec_def)
  next
    case False
    with 1 have "undec (dec n) = n div 10 * 10 + n mod 10" by (simp add: dec.simps [of n])
    then show ?thesis by simp
  qed
qed

lemma digits_dec: "c \<in> set (dec n) \<Longrightarrow> is_digit c"
proof (induction n rule: dec.induct)
  case (1 n)
  then show ?case by (cases "n < 10") (auto simp: dec.simps [of n])
qed

lemma dec_not_Nil [simp]: "dec n \<noteq> []"
  by (simp add: dec.simps [of n])

lemma length_dec_le:
  assumes "n < 10 ^ k" "0 < k"
  shows "length (dec n) \<le> k"
  using assms
proof (induction n arbitrary: k rule: dec.induct)
  case (1 n)
  show ?case
  proof (cases "n < 10")
    case True
    with 1 show ?thesis by (simp add: dec.simps [of n])
  next
    case False
    with 1 obtain j where k: "k = Suc j" "0 < j"
      by (metis One_nat_def Suc_pred neq0_conv power_one_right)
    then have "n div 10 < 10 ^ j" using 1 by (simp add: less_mult_imp_div_less)
    then show ?thesis using False 1(1) k by (simp add: dec.simps [of n])
  qed
qed

lemma length_pad [simp]: "length (pad c w s) = max w (length s)"
  by (simp add: pad_def)

lemma undec_zeros: "undec (replicate k (CHR ''0'') @ s) = undec s"
proof -
  have "foldl (\<lambda>a c. a * 10 + digit_val c) 0 (replicate k (CHR ''0'')) = 0"
    by (induction k) (auto simp: digit_val_def)
  then show ?thesis by (simp add: undec_def)
qed

lemma undec_fmt_0d [simp]: "0 \<le> x \<Longrightarrow> undec (fmt_0d w x) = nat x"
  by (simp add: fmt_0d_def pad_def undec_zeros)

lemma length_fmt_0d:
  assumes "0 \<le> x" "x < 10 ^ w" "0 < w"
  shows "length (fmt_0d w x) = w"
proof -
  have "nat x < 10 ^ w" using assms by (simp add: nat_less_iff)
  from length_dec_le [OF this assms(3)] assms(1) show ?thesis by (simp add: fmt_0d_def)
qed

lemma length_sdec_le:
  assumes "\<bar>x\<bar> < 10 ^ k" "0 < k"
  shows "length (sdec x) \<le> Suc k"
proof -
  have "nat \<bar>x\<bar> < 10 ^ k" using assms by (simp add: nat_less_iff)
  from length_dec_le [OF this assms(2)] show ?thesis by (auto simp: sdec_def abs_if)
qed

lemma snprintf_fits [simp]: "length s < n \<Longrightarrow> snprintf n s = s"
  by (simp add: snprintf_def)

lemma length_snprintf: "0 < n \<Longrightarrow> length (snprintf n s) < n"
  by (simp add: snprintf_def)

end
