(* ===== verification/Arale_Date.thy ===== *)
theory Arale_Date
  imports Arale_Format
begin

section \<open>Calendar dates (\<open>arale/base/Date.h\<close>, \<open>arale/base/Date.cc\<close>)\<close>

text \<open>
  A \<open>Date\<close> is a Julian day number. C's \<open>int\<close> is modelled by \<open>int\<close> with truncating
  division; \<open>getYearMonthDay_no_overflow\<close> gives the range of day numbers on which no
  intermediate value leaves 32 bits. The reference is the Gregorian calendar:
  \<open>valid_date\<close> and \<open>next_day\<close>.
\<close>

record YearMonthDay =
  year :: int
  month :: int
  day :: int

definition getJulianDayNumber :: "int \<Rightarrow> int \<Rightarrow> int \<Rightarrow> int" where
  "getJulianDayNumber yr mo dy =
     (let a = tdiv (14 - mo) 12; y = yr + 4800 - a; m = mo + 12 * a - 3 in
      dy + tdiv (153 * m + 2) 5 + y * 365 + tdiv y 4 - tdiv y 100 + tdiv y 400 - 32045)"

definition getYearMonthDay :: "int \<Rightarrow> YearMonthDay" where
  "getYearMonthDay julianDayNumber =
     (let a = julianDayNumber + 32044;
          b = tdiv (4 * a + 3) 146097;
          c = a - tdiv (b * 146097) 4;
          d = tdiv (4 * c + 3) 1461;
          e = c - tdiv (1461 * d) 4;
          m = tdiv (5 * e + 2) 153
      in \<lparr>year = b * 100 + d - 4800 + tdiv m 10,
          month = m + 3 - 12 * tdiv m 10,
          day = e - tdiv (153 * m + 2) 5 + 1\<rparr>)"

definition kJulianDayOf1970_01_01 :: int where
  "kJulianDayOf1970_01_01 = getJulianDayNumber 1970 1 1"

definition kDaysPerWeek :: int where
  "kDaysPerWeek = 7"

record Date =
  julianDayNumber :: int

definition Date_invalid :: Date where
  "Date_invalid = \<lparr>julianDayNumber = 0\<rparr>"

definition Date_of_ymd :: "int \<Rightarrow> int \<Rightarrow> int \<Rightarrow> Date" where
  "Date_of_ymd y m d = \<lparr>julianDayNumber = getJulianDayNumber y m d\<rparr>"

definition Date_of_jdn :: "int \<Rightarrow> Date" where
  "Date_of_jdn j = \<lparr>julianDayNumber = j\<rparr>"

text \<open>The constructor from \<open>struct tm\<close>, which counts years from 1900 and months from 0.\<close>

definition Date_of_tm :: "int \<Rightarrow> int \<Rightarrow> int \<Rightarrow> Date" where
  "Date_of_tm tm_year tm_mon tm_mday =
     \<lparr>julianDayNumber = getJulianDayNumber (tm_year + 1900) (tm_mon + 1) tm_mday\<rparr>"

definition Date_valid :: "Date \<Rightarrow> bool" where
  "Date_valid x \<longleftrightarrow> julianDayNumber x > 0"

definition yearMonthDay :: "Date \<Rightarrow> YearMonthDay" where
  "yearMonthDay x = getYearMonthDay (julianDayNumber x)"

definition toIsoString :: "Date \<Rightarrow> string" where
  "toIsoString x =
     (let ymd = yearMonthDay x in
      snprintf 32 (fmt_d 4 (year ymd) @ ''-'' @ fmt_0d 2 (month ymd) @ ''-'' @ fmt_0d 2 (day ymd)))"

definition Date_year :: "Date \<Rightarrow> int" where
  "Date_year x = year (yearMonthDay x)"

definition Date_month :: "Date \<Rightarrow> int" where
  "Date_month x = month (yearMonthDay x)"

definition Date_day :: "Date \<Rightarrow> int" where
  "Date_day x = day (yearMonthDay x)"

definition Date_swap :: "Date \<Rightarrow> Date \<Rightarrow> Date \<times> Date" where
  "Date_swap x that =
     (x\<lparr>julianDayNumber := julianDayNumber that\<rparr>, that\<lparr>julianDayNumber := julianDayNumber x\<rparr>)"

definition weekDay :: "Date \<Rightarrow> int" where
  "weekDay x = tmod (julianDayNumber x + 1) kDaysPerWeek"

definition Date_less :: "Date \<Rightarrow> Date \<Rightarrow> bool" where
  "Date_less x y \<longleftrightarrow> julianDayNumber x < julianDayNumber y"

definition Date_eq :: "Date \<Rightarrow> Date \<Rightarrow> bool" where
  "Date_eq x y \<longleftrightarrow> julianDayNumber x = julianDayNumber y"

subsection \<open>The Gregorian calendar\<close>

definition leap_year :: "int \<Rightarrow> bool" where
  "leap_year y \<longleftrightarrow> 4 dvd y \<and> (\<not> 100 dvd y \<or> 400 dvd y)"

definition days_in_month :: "int \<Rightarrow> int \<Rightarrow> int" where
  "days_in_month y m =
     (if m = 2 then (if leap_year y then 29 else 28)
      else if m \<in> {4, 6, 9, 11} then 30 else 31)"

definition valid_date :: "int \<Rightarrow> int \<Rightarrow> int \<Rightarrow> bool" where
  "valid_date y m d \<longleftrightarrow> 1 \<le> m \<and> m \<le> 12 \<and> 1 \<le> d \<and> d \<le> days_in_month y m"

fun next_day :: "int \<times> int \<times> int \<Rightarrow> int \<times> int \<times> int" where
  "next_day (y, m, d) =
     (if d < days_in_month y m then (y, m, d + 1)
      else if m < 12 then (y, m + 1, 1) else (y + 1, 1, 1))"

subsection \<open>Years counted from March\<close>

text \<open>
  Both conversions work with years that start in March: \<open>doy\<close> is the day of such a year,
  \<open>day_count\<close> the days before it.
\<close>

definition doy :: "int \<Rightarrow> int \<Rightarrow> int" where
  "doy m d = (153 * m + 2) div 5 + d - 1"

definition day_count :: "int \<Rightarrow> int" where
  "day_count y = 365 * y + y div 4 - y div 100 + y div 400"

lemma div_eqI: "x = q * k + r \<Longrightarrow> 0 \<le> r \<Longrightarrow> r < k \<Longrightarrow> x div k = (q :: int)"
  by (rule int_div_pos_eq) auto

lemma day_count_split:
  assumes "0 \<le> D" "D < 100"
  shows "day_count (100 * B + D) = 36524 * B + B div 4 + 365 * D + D div 4"
proof -
  have "(D + B * 100) div 100 = B" using assms by simp
  then have h: "(100 * B + D) div 100 = B" by (simp add: algebra_simps)
  have "(D + (25 * B) * 4) div 4 = 25 * B + D div 4" by (rule div_mult_self1) simp
  then have q: "(100 * B + D) div 4 = 25 * B + D div 4" by (simp add: algebra_simps)
  have "(100 * B + D) div (100 * 4) = (100 * B + D) div 100 div 4"
    by (rule zdiv_zmult2_eq) simp
  then have "(100 * B + D) div 400 = B div 4" by (simp add: h)
  with h q show ?thesis by (simp add: day_count_def)
qed

lemma leap_next:
  assumes "0 \<le> D" "D < 100" "leap_year (100 * B + D + 1)"
  shows "D mod 4 = 3 \<and> (D = 99 \<longrightarrow> B mod 4 = 3)"
proof -
  have "4 dvd (100 * B + D + 1)" using assms by (simp add: leap_year_def)
  then obtain k where "100 * B + D + 1 = 4 * k" by (elim dvdE)
  then have "D + 1 = 4 * (k - 25 * B)" by simp
  then have "D mod 4 = 3" by presburger
  moreover have "B mod 4 = 3" if "D = 99"
  proof -
    have "400 dvd (100 * B + D + 1)" using assms that by (auto simp: leap_year_def)
    then obtain j where "100 * B + D + 1 = 400 * j" by (elim dvdE)
    then have "B + 1 = 4 * j" using that by simp
    then show ?thesis by presburger
  qed
  ultimately show ?thesis by blast
qed

lemma next_leap:
  assumes "D mod 4 = 3" "D = 99 \<Longrightarrow> B mod 4 = 3" "0 \<le> D" "D < 100"
  shows "leap_year (100 * B + D + 1)"
proof -
  have "4 dvd (D + 1)" using assms(1) by presburger
  then obtain j where j: "D + 1 = 4 * j" by (elim dvdE)
  then have "100 * B + D + 1 = 4 * (25 * B + j)" by simp
  then have four: "4 dvd (100 * B + D + 1)" by (rule dvdI)
  show ?thesis
  proof (cases "D = 99")
    case True
    then have "4 dvd (B + 1)" using assms(2) by presburger
    then obtain i where "B + 1 = 4 * i" by (elim dvdE)
    then have "100 * B + D + 1 = 400 * i" using True by simp
    then have "400 dvd (100 * B + D + 1)" by (rule dvdI)
    with four show ?thesis by (simp add: leap_year_def)
  next
    case False
    then have "(D + 1 + B * 100) mod 100 \<noteq> 0" using assms(3,4) by simp
    then have "\<not> 100 dvd (100 * B + D + 1)" by (simp add: dvd_eq_mod_eq_0 algebra_simps)
    with four show ?thesis by (simp add: leap_year_def)
  qed
qed

lemma split_mod:
  assumes "0 < k"
  obtains p r where "x = k * p + r" "0 \<le> r" "r < k" "x div k = p" "x mod k = (r :: int)"
  using assms by (metis mult_div_mod_eq pos_mod_bound pos_mod_sign)

lemma quarter_scaled:
  "B * 146097 div 4 = 36524 * B + B div (4 :: int)" "1461 * D div 4 = 365 * D + D div (4 :: int)"
proof -
  have "(B + (36524 * B) * 4) div 4 = 36524 * B + B div 4" by (rule div_mult_self1) simp
  then show "B * 146097 div 4 = 36524 * B + B div 4" by (simp add: algebra_simps)
  have "(D + (365 * D) * 4) div 4 = 365 * D + D div 4" by (rule div_mult_self1) simp
  then show "1461 * D div 4 = 365 * D + D div 4" by (simp add: algebra_simps)
qed

text \<open>The year part of \<open>getYearMonthDay\<close>, on the day count of a year and a day in it.\<close>

lemma split_year:
  assumes "0 \<le> D" "D < 100" "0 \<le> e" "e \<le> 365" "e = 365 \<Longrightarrow> leap_year (100 * B + D + 1)"
    and "a = e + day_count (100 * B + D)"
  shows "(4 * a + 3) div 146097 = B"
    and "(4 * (a - B * 146097 div 4) + 3) div 1461 = D"
    and "a - B * 146097 div 4 - 1461 * D div 4 = e"
proof -
  obtain p r where B: "B = 4 * p + r" "0 \<le> r" "r < 4" "B div 4 = p" "B mod 4 = r"
    by (rule split_mod [of 4]) simp
  obtain s t where D: "D = 4 * s + t" "0 \<le> t" "t < 4" "D div 4 = s" "D mod 4 = t"
    by (rule split_mod [of 4]) simp
  have a: "a = e + 36524 * B + p + 365 * D + s"
    using assms by (simp add: day_count_split B(4) D(4))
  let ?c = "e + 365 * D + s"
  have c: "a - B * 146097 div 4 = ?c" by (simp add: a quarter_scaled B(4))
  have c0: "0 \<le> ?c" using assms(1,3) D(1-3) by linarith
  have leap: "e \<le> 364 \<or> t = 3 \<and> (D = 99 \<longrightarrow> r = 3)"
    using assms leap_next [of D B] B(5) D(5) by (cases "e = 365") auto
  have "D = 99 \<Longrightarrow> t = 3" using D(1-3) by presburger
  then have "4 * ?c + 3 - r < 146097"
    using leap assms(2,4) B(2) D(1,2) by (cases "D = 99"; cases "e \<le> 364"; simp; linarith)
  moreover have "4 * a + 3 = B * 146097 + (4 * ?c + 3 - r)" unfolding a by (simp add: B(1))
  moreover have "0 \<le> 4 * ?c + 3 - r" using c0 B(3) by simp
  ultimately show "(4 * a + 3) div 146097 = B" by (intro div_eqI)
  have "4 * ?c + 3 = D * 1461 + (4 * e + 3 - t)" by (simp add: D(1))
  moreover have "0 \<le> 4 * e + 3 - t" using assms(3) D(3) by linarith
  moreover have "4 * e + 3 - t < 1461" using assms(4) leap D(2) by linarith
  ultimately show "(4 * (a - B * 146097 div 4) + 3) div 1461 = D"
    unfolding c by (rule div_eqI)
  show "a - B * 146097 div 4 - 1461 * D div 4 = e" unfolding c by (simp add: quarter_scaled D(4))
qed

text \<open>Every day count is that of some year and some day in it.\<close>

lemma split_year_ex:
  assumes "0 \<le> a"
  obtains B D e where "0 \<le> B" "0 \<le> D" "D < 100" "0 \<le> e" "e \<le> 365"
    "e = 365 \<Longrightarrow> leap_year (100 * B + D + 1)" "a = e + day_count (100 * B + D)"
proof -
  define B where "B = (4 * a + 3) div 146097"
  define c where "c = a - B * 146097 div 4"
  define D where "D = (4 * c + 3) div 1461"
  define e where "e = c - 1461 * D div 4"
  obtain M where M: "4 * a + 3 = 146097 * B + M" "0 \<le> M" "M < 146097"
    unfolding B_def by (rule split_mod [of 146097 "4 * a + 3"]) auto
  obtain N where N: "4 * c + 3 = 1461 * D + N" "0 \<le> N" "N < 1461"
    unfolding D_def by (rule split_mod [of 1461 "4 * c + 3"]) auto
  obtain p r where B: "B = 4 * p + r" "0 \<le> r" "r < 4" "B div 4 = p" "B mod 4 = r"
    by (rule split_mod [of 4]) simp
  obtain s t where D: "D = 4 * s + t" "0 \<le> t" "t < 4" "D div 4 = s" "D mod 4 = t"
    by (rule split_mod [of 4]) simp
  have ca: "c = a - 36524 * B - p" by (simp add: c_def quarter_scaled B(4))
  have ce: "c = e + 365 * D + s" by (simp add: e_def quarter_scaled D(4))
  have "4 * c + 3 - r = M" using ca M(1) B(1) by linarith
  with M B(2,3) have c: "0 \<le> c" "c \<le> 36524" "c = 36524 \<Longrightarrow> r = 3" by linarith+
  have D': "0 \<le> D" "D < 100" using N c(1,2) by linarith+
  have "4 * e = N - 3 + t" using ce N(1) D(1) by linarith
  with N D(2,3) have e: "0 \<le> e" "e \<le> 365" "e = 365 \<Longrightarrow> t = 3" by linarith+
  have "leap_year (100 * B + D + 1)" if "e = 365"
  proof (rule next_leap [OF _ _ D'])
    show "D mod 4 = 3" using e(3) [OF that] D(5) by simp
    show "B mod 4 = 3" if "D = 99" using c(3) ce that \<open>e = 365\<close> D(4) B(5) by simp
  qed
  moreover have "a = e + day_count (100 * B + D)"
    using D' ca ce by (simp add: day_count_split B(4) D(4))
  moreover have "0 \<le> B" using assms by (simp add: B_def)
  ultimately show thesis using that D' e by blast
qed

text \<open>The month part: \<open>m\<close> counts months from March.\<close>

definition march_len :: "bool \<Rightarrow> int \<Rightarrow> int" where
  "march_len lp m = (if m = 11 then (if lp then 29 else 28) else if m \<in> {1, 3, 6, 8} then 30 else 31)"

lemma months: "(0 :: int) \<le> m \<Longrightarrow> m \<le> 11 \<Longrightarrow> m \<in> {0, 1, 2, 3, 4, 5, 6, 7, 8, 9, 10, 11}"
  by (simp only: insert_iff empty_iff) presburger

lemma doy_month:
  assumes "0 \<le> m" "m \<le> 11" "1 \<le> d" "d \<le> march_len lp m"
  shows "(5 * doy m d + 2) div 153 = m" "0 \<le> doy m d" "doy m d \<le> 365" "doy m d = 365 \<Longrightarrow> lp"
  using months [OF assms(1,2)] assms(3,4)
  by (auto simp: doy_def march_len_def split: if_splits)

lemma doy_month_ex:
  assumes "0 \<le> e" "e \<le> 365" "e = 365 \<Longrightarrow> lp"
  obtains m d where "0 \<le> m" "m \<le> 11" "1 \<le> d" "d \<le> march_len lp m" "e = doy m d"
proof -
  define m where "m = (5 * e + 2) div 153"
  define d where "d = e - (153 * m + 2) div 5 + 1"
  have m: "0 \<le> m" "m \<le> 11" using assms by (auto simp: m_def)
  have "153 * m \<le> 5 * e + 2" "5 * e + 2 < 153 * m + 153" unfolding m_def by presburger+
  then have "1 \<le> d \<and> d \<le> march_len lp m"
    using months [OF m] assms(2,3) unfolding d_def march_len_def
    by (cases "e = 365") (auto split: if_splits)
  moreover have "e = doy m d" by (simp add: d_def doy_def)
  ultimately show thesis using that [of m d] m by blast
qed

subsection \<open>Conversions and the calendar\<close>

lemma tdiv_pos_const:
  "0 \<le> x \<Longrightarrow> tdiv x 4 = x div 4" "0 \<le> x \<Longrightarrow> tdiv x 100 = x div 100"
  "0 \<le> x \<Longrightarrow> tdiv x 400 = x div 400" "0 \<le> x \<Longrightarrow> tdiv x 5 = x div 5"
  by simp_all

text \<open>A month of the calendar is a month of a year that starts in March, shifted.\<close>

definition march_year :: "int \<Rightarrow> int \<Rightarrow> int" where
  "march_year y m = y + 4800 - (if m \<le> 2 then 1 else 0)"

definition march_month :: "int \<Rightarrow> int" where
  "march_month m = (if m \<le> 2 then m + 9 else m - 3)"

lemma leap_shift: "leap_year (y + 4800) = leap_year y"
proof -
  have "k dvd (y + 4800) \<longleftrightarrow> k dvd y" if "k dvd 4800" for k
    using that by (rule dvd_add_left_iff)
  then show ?thesis by (simp add: leap_year_def)
qed

lemma leap_shift': "leap_year (4800 + y) = leap_year y"
  using leap_shift [of y] by (simp add: add.commute)

lemma march_len_eq:
  assumes "1 \<le> m" "m \<le> 12"
  shows "march_len (leap_year (march_year y m + 1)) (march_month m) = days_in_month y m"
proof -
  have "m \<in> {1, 2, 3, 4, 5, 6, 7, 8, 9, 10, 11, 12}"
    using assms by (simp only: insert_iff empty_iff) presburger
  then show ?thesis
    by (elim insertE; simp add: march_len_def march_month_def days_in_month_def march_year_def
        leap_shift leap_shift')
qed

text \<open>The intermediate values of \<open>getYearMonthDay\<close> stay within 32 bits.\<close>

lemma getYearMonthDay_no_overflow:
  fixes jdn :: int
  assumes "0 \<le> jdn" "jdn \<le> 536838867"
  defines "a \<equiv> jdn + 32044"
  defines "b \<equiv> (4 * a + 3) div 146097"
  defines "c \<equiv> a - (b * 146097) div 4"
  defines "d \<equiv> (4 * c + 3) div 1461"
  defines "e \<equiv> c - (1461 * d) div 4"
  shows "\<forall>x \<in> {a, 4 * a + 3, b * 146097, c, 4 * c + 3, 1461 * d, e, 5 * e + 2, b * 100 + d}.
    0 \<le> x \<and> int32_range x"
proof -
  have split: "\<exists>q. x div k = q \<and> k * q \<le> x \<and> x < k * q + k" if "0 < k" for x k :: int
    using split_mod [OF that, of x] by (metis add.commute add_less_cancel_left le_add_same_cancel2)
  have A: "0 \<le> 4 * a + 3" "4 * a + 3 < 2147483648" using assms by (simp_all add: a_def)
  obtain B: "146097 * b \<le> 4 * a + 3" "4 * a + 3 < 146097 * b + 146097"
    using split [of 146097 "4 * a + 3"] unfolding b_def by auto
  obtain p where p: "(b * 146097) div 4 = p" "4 * p \<le> b * 146097" "b * 146097 < 4 * p + 4"
    using split [of 4 "b * 146097"] by auto
  have C: "0 \<le> c" "4 * c < 146100" using B p(2,3) unfolding c_def p(1) by simp_all
  obtain D: "1461 * d \<le> 4 * c + 3" "4 * c + 3 < 1461 * d + 1461"
    using split [of 1461 "4 * c + 3"] unfolding d_def by auto
  obtain q where q: "(1461 * d) div 4 = q" "4 * q \<le> 1461 * d" "1461 * d < 4 * q + 4"
    using split [of 4 "1461 * d"] by auto
  have E: "0 \<le> e" "4 * e < 1464" using D q(2,3) unfolding e_def q(1) by simp_all
  have "0 \<le> b" "0 \<le> d" using A B C D by simp_all
  with A B C D E show ?thesis unfolding int32_range_def by simp
qed

lemma getJulianDayNumber_eq:
  assumes "1 \<le> m" "m \<le> 12" "0 \<le> march_year y m"
  shows "getJulianDayNumber y m d =
     doy (march_month m) d + day_count (march_year y m) - 32044"
proof -
  have a: "tdiv (14 - m) 12 = (if m \<le> 2 then 1 else 0)" using assms(1,2) by auto
  let ?a = "if m \<le> 2 then 1 else 0 :: int"
  have m': "m + 12 * ?a - 3 = march_month m" by (simp add: march_month_def)
  have y': "y + 4800 - ?a = march_year y m" by (simp add: march_year_def)
  have "0 \<le> 153 * march_month m + 2" using assms(1) by (simp add: march_month_def)
  then show ?thesis
    unfolding getJulianDayNumber_def a Let_def m' y' using assms(3)
    by (simp add: doy_def day_count_def)
qed

lemma getYearMonthDay_eq:
  assumes "0 \<le> B" "0 \<le> D" "D < 100" "0 \<le> m" "m \<le> 11" "1 \<le> d"
    and "d \<le> march_len (leap_year (100 * B + D + 1)) m"
  shows "getYearMonthDay (doy m d + day_count (100 * B + D) - 32044) =
     \<lparr>year = 100 * B + D - 4800 + (if m \<le> 9 then 0 else 1),
      month = (if m \<le> 9 then m + 3 else m - 9), day = d\<rparr>"
proof -
  define a where "a = doy m d + day_count (100 * B + D)"
  note dm = doy_month [OF assms(4-7)]
  note sy = split_year [OF assms(2,3) dm(2,3) dm(4) a_def]
  have nn: "0 \<le> B * 146097" "0 \<le> 1461 * D" "0 \<le> 5 * doy m d + 2" "0 \<le> 153 * m + 2"
    using assms dm(2) by simp_all
  have "0 \<le> B div 4" "0 \<le> D div 4" using assms by simp_all
  then have a0: "0 \<le> 4 * a + 3" using dm(2) assms by (simp add: a_def day_count_split)
  have c0: "0 \<le> 4 * (a - B * 146097 div 4) + 3"
  proof -
    have "a - B * 146097 div 4 = doy m d + 1461 * D div 4" using sy(3) by linarith
    with dm(2) nn(2) show ?thesis by (simp add: pos_imp_zdiv_nonneg_iff)
  qed
  have m10: "m div 10 = (if m \<le> 9 then 0 else 1)" using assms(4,5) by auto
  have j: "doy m d + day_count (100 * B + D) - 32044 + 32044 = a" by (simp add: a_def)
  have b: "tdiv (4 * a + 3) 146097 = B" using sy(1) a0 by simp
  have c: "a - tdiv (B * 146097) 4 = a - B * 146097 div 4" using nn(1) by simp
  have dd: "tdiv (4 * (a - B * 146097 div 4) + 3) 1461 = D" using sy(2) c0 by simp
  have e: "a - B * 146097 div 4 - tdiv (1461 * D) 4 = doy m d" using sy(3) nn(2) by simp
  have mm: "tdiv (5 * doy m d + 2) 153 = m" using dm(1) nn(3) by simp
  have d': "doy m d - tdiv (153 * m + 2) 5 + 1 = d" using nn(4) by (simp add: doy_def)
  have m': "tdiv m 10 = (if m \<le> 9 then 0 else 1)" using assms(4) m10 by simp
  show ?thesis
    unfolding getYearMonthDay_def Let_def j b c dd e mm d' m' by simp
qed

lemma march_year_split:
  assumes "0 \<le> y"
  obtains B D where "0 \<le> B" "0 \<le> D" "D < 100" "y = 100 * B + (D :: int)"
  by (rule split_mod [of 100 y]) (use assms in \<open>auto intro: that simp: pos_imp_zdiv_nonneg_iff\<close>)

lemma march_month_bounds: "1 \<le> m \<Longrightarrow> m \<le> 12 \<Longrightarrow> 0 \<le> march_month m \<and> march_month m \<le> 11"
  by (simp add: march_month_def)

lemma getYearMonthDay_of_valid:
  assumes "valid_date y m d" "0 \<le> march_year y m"
  shows "getYearMonthDay (getJulianDayNumber y m d) = \<lparr>year = y, month = m, day = d\<rparr>"
proof -
  have md: "1 \<le> m" "m \<le> 12" "1 \<le> d" "d \<le> march_len (leap_year (march_year y m + 1)) (march_month m)"
    using assms(1) by (simp_all add: valid_date_def march_len_eq)
  obtain B D where BD: "0 \<le> B" "0 \<le> D" "D < 100" "march_year y m = 100 * B + D"
    using march_year_split [OF assms(2)] .
  have "getYearMonthDay (getJulianDayNumber y m d) =
      getYearMonthDay (doy (march_month m) d + day_count (100 * B + D) - 32044)"
    using getJulianDayNumber_eq [OF md(1,2) assms(2)] BD(4) by simp
  also have "\<dots> = \<lparr>year = 100 * B + D - 4800 + (if march_month m \<le> 9 then 0 else 1),
      month = (if march_month m \<le> 9 then march_month m + 3 else march_month m - 9), day = d\<rparr>"
    using march_month_bounds [OF md(1,2)] BD md by (intro getYearMonthDay_eq) auto
  also have "\<dots> = \<lparr>year = y, month = m, day = d\<rparr>"
    using md BD(4) by (auto simp: march_month_def march_year_def)
  finally show ?thesis .
qed

lemma valid_of_getYearMonthDay:
  assumes "- 32044 \<le> j"
  obtains y m d where "getYearMonthDay j = \<lparr>year = y, month = m, day = d\<rparr>"
    "valid_date y m d" "0 \<le> march_year y m" "getJulianDayNumber y m d = j"
proof -
  have "0 \<le> j + 32044" using assms by simp
  then obtain B D e where BD: "0 \<le> B" "0 \<le> D" "D < 100" and e: "0 \<le> e" "e \<le> 365"
    "e = 365 \<Longrightarrow> leap_year (100 * B + D + 1)" and j: "j + 32044 = e + day_count (100 * B + D)"
    using split_year_ex by metis
  obtain m d where md: "0 \<le> m" "m \<le> 11" "1 \<le> d" "d \<le> march_len (leap_year (100 * B + D + 1)) m"
    "e = doy m d" using doy_month_ex [OF e(1,2,3)] by metis
  define y' where "y' = 100 * B + D - 4800 + (if m \<le> 9 then 0 else 1)"
  define m' where "m' = (if m \<le> 9 then m + 3 else m - 9)"
  have my: "march_year y' m' = 100 * B + D" "march_month m' = m" "1 \<le> m'" "m' \<le> 12"
    using md(1,2) by (auto simp: march_year_def march_month_def y'_def m'_def)
  have jj: "j = doy m d + day_count (100 * B + D) - 32044" using j md(5) by simp
  show thesis
  proof (rule that)
    show "getYearMonthDay j = \<lparr>year = y', month = m', day = d\<rparr>"
      unfolding jj y'_def m'_def by (rule getYearMonthDay_eq [OF BD md(1-4)])
    show "valid_date y' m' d"
      using md my march_len_eq [of m' y'] by (simp add: valid_date_def)
    show "0 \<le> march_year y' m'" using my BD by simp
    then show "getJulianDayNumber y' m' d = j"
      using getJulianDayNumber_eq [OF my(3,4)] my jj by simp
  qed
qed

lemma day_count_Suc:
  assumes "0 \<le> y"
  shows "day_count (y + 1) = day_count y + (if leap_year (y + 1) then 366 else 365)"
proof -
  have dd: "(y + 1) div k = y div k + (if k dvd (y + 1) then 1 else 0)" if k: "0 < k" for k :: int
  proof -
    obtain p r where p: "y = k * p + r" "0 \<le> r" "r < k" "y div k = p"
      using split_mod [OF k, of y] by metis
    show ?thesis
    proof (cases "r = k - 1")
      case True
      then have "y + 1 = k * (p + 1)" using p(1) by (simp add: algebra_simps)
      then show ?thesis using k p(4) by simp
    next
      case False
      then have "(y + 1) div k = p" using p by (intro div_eqI [of _ p k "r + 1"]) auto
      moreover have "\<not> k dvd (y + 1)"
      proof
        assume "k dvd (y + 1)"
        then have "k dvd (r + 1)" using p(1) by (simp add: add.assoc dvd_add_right_iff)
        then show False using False p(2,3) zdvd_not_zless [of "r + 1" k] by auto
      qed
      ultimately show ?thesis using p(4) by simp
    qed
  qed
  have h4: "4 dvd (y + 1)" if "100 dvd (y + 1)" by (rule dvd_trans [OF _ that]) simp
  have h100: "100 dvd (y + 1)" if "400 dvd (y + 1)" by (rule dvd_trans [OF _ that]) simp
  have "day_count (y + 1) = day_count y + 365 + (if 4 dvd (y + 1) then 1 else 0) -
      (if 100 dvd (y + 1) then 1 else 0) + (if 400 dvd (y + 1) then 1 else 0)"
    unfolding day_count_def dd [of 4, simplified] dd [of 100, simplified] dd [of 400, simplified]
    by simp
  also have "\<dots> = day_count y + (if leap_year (y + 1) then 366 else 365)"
  proof (cases "100 dvd (y + 1)")
    case True
    with h4 show ?thesis by (simp add: leap_year_def)
  next
    case False
    with h100 show ?thesis by (auto simp: leap_year_def)
  qed
  finally show ?thesis .
qed

lemma doy_next_month:
  "0 \<le> m \<Longrightarrow> m \<le> 10 \<Longrightarrow> doy (m + 1) 1 = doy m (march_len lp m) + 1"
  using months [of m] by (auto simp: doy_def march_len_def)

lemma getJulianDayNumber_next_month:
  assumes "1 \<le> m" "m \<le> 12" "0 \<le> march_year y m" "m \<noteq> 2"
    and "(y', m') = (if m < 12 then (y, m + 1) else (y + 1, 1))"
  shows "getJulianDayNumber y' m' 1 = getJulianDayNumber y m (days_in_month y m) + 1"
proof -
  let ?lp = "leap_year (march_year y m + 1)"
  have s: "1 \<le> m'" "m' \<le> 12" "march_year y' m' = march_year y m" "march_month m' = march_month m + 1"
    "0 \<le> march_month m" "march_month m \<le> 10"
    using assms by (auto simp: march_year_def march_month_def split: if_splits)
  have "getJulianDayNumber y' m' 1 = doy (march_month m + 1) 1 + day_count (march_year y m) - 32044"
    using getJulianDayNumber_eq [OF s(1,2)] s assms(3) by simp
  also have "\<dots> = doy (march_month m) (march_len ?lp (march_month m)) + day_count (march_year y m) - 32044 + 1"
    using doy_next_month [OF s(5,6), of ?lp] by simp
  finally show ?thesis
    using getJulianDayNumber_eq [OF assms(1-3)] march_len_eq [OF assms(1,2)] by simp
qed

lemma getJulianDayNumber_march:
  assumes "0 \<le> march_year y 2"
  shows "getJulianDayNumber y 3 1 = getJulianDayNumber y 2 (days_in_month y 2) + 1"
proof -
  have "march_year y 3 = march_year y 2 + 1" by (simp add: march_year_def)
  moreover have "leap_year (march_year y 2 + 1) = leap_year y"
    by (simp add: march_year_def leap_shift')
  ultimately show ?thesis
    using assms by (simp add: getJulianDayNumber_eq march_month_def doy_def day_count_Suc
        days_in_month_def)
qed

lemma jdn_next_day:
  assumes "valid_date y m d" "0 \<le> march_year y m" "next_day (y, m, d) = (y', m', d')"
  shows "getJulianDayNumber y' m' d' = getJulianDayNumber y m d + 1 \<and>
     valid_date y' m' d' \<and> 0 \<le> march_year y' m'"
proof -
  have v: "1 \<le> m" "m \<le> 12" "1 \<le> d" "d \<le> days_in_month y m"
    using assms(1) by (auto simp: valid_date_def)
  show ?thesis
  proof (cases "d < days_in_month y m")
    case True
    then show ?thesis
      using assms v by (auto simp: getJulianDayNumber_eq doy_def valid_date_def)
  next
    case False
    then have e: "d = days_in_month y m" "d' = 1" "(y', m') = (if m < 12 then (y, m + 1) else (y + 1, 1))"
      using v assms(3) by (auto split: if_splits)
    then have "getJulianDayNumber y' m' d' = getJulianDayNumber y m d + 1"
      using getJulianDayNumber_next_month [OF v(1,2) assms(2)] getJulianDayNumber_march assms(2)
      by (cases "m = 2") auto
    with e v assms(2) show ?thesis
      by (auto simp: valid_date_def days_in_month_def march_year_def split: if_splits)
  qed
qed

subsection \<open>Properties of dates\<close>



text \<open>
  Every day number from -32044 on is the day number of a date of the calendar, and
  \<open>getYearMonthDay\<close> computes that date: the conversion is onto the valid dates.
\<close>

theorem jdn_of_ymd_of_jdn:
  assumes "- 32044 \<le> j"
  shows "let r = getYearMonthDay j in
     valid_date (year r) (month r) (day r) \<and>
     getJulianDayNumber (year r) (month r) (day r) = j"
  by (rule valid_of_getYearMonthDay [OF assms]) simp

theorem jdn_of_ymd_of_jdn_witness:
  "getJulianDayNumber (year (getYearMonthDay 2440588)) (month (getYearMonthDay 2440588))
     (day (getYearMonthDay 2440588)) = 2440588"
  using jdn_of_ymd_of_jdn [of 2440588] by (simp add: Let_def)

text \<open>
  Julian day numbers count days: the date after a valid date has the next number, the
  number of 1970-01-01 is 2440588, and the day of the week advances by one with each day
  from that Thursday (4).
\<close>

theorem next_day_jdn:
  assumes "valid_date y m d" and "- 4799 \<le> y" and "next_day (y, m, d) = (y', m', d')"
  shows "julianDayNumber (Date_of_ymd y' m' d') = julianDayNumber (Date_of_ymd y m d) + 1 \<and>
     kJulianDayOf1970_01_01 = 2440588 \<and> weekDay (Date_of_ymd 1970 1 1) = 4 \<and>
     (0 \<le> julianDayNumber (Date_of_ymd y m d) \<longrightarrow>
       weekDay (Date_of_ymd y' m' d') = (weekDay (Date_of_ymd y m d) + 1) mod 7)"
proof -
  have step: "getJulianDayNumber y' m' d' = getJulianDayNumber y m d + 1"
    using jdn_next_day [OF assms(1) _ assms(3)] assms(2) by (simp add: march_year_def)
  have "kJulianDayOf1970_01_01 = 2440588 \<and> weekDay (Date_of_ymd 1970 1 1) = 4"
    by (simp add: kJulianDayOf1970_01_01_def weekDay_def Date_of_ymd_def getJulianDayNumber_def
        kDaysPerWeek_def Let_def)
  moreover have "weekDay (Date_of_ymd y' m' d') = (weekDay (Date_of_ymd y m d) + 1) mod 7"
    if "0 \<le> julianDayNumber (Date_of_ymd y m d)"
  proof -
    have "0 \<le> getJulianDayNumber y m d" using that by (simp add: Date_of_ymd_def)
    then show ?thesis
      by (simp add: weekDay_def Date_of_ymd_def step kDaysPerWeek_def mod_simps)
  qed
  ultimately show ?thesis using step by (simp add: Date_of_ymd_def)
qed

theorem next_day_jdn_witness:
  "julianDayNumber (Date_of_ymd 2001 1 1) = julianDayNumber (Date_of_ymd 2000 12 31) + 1"
  using next_day_jdn [of 2000 12 31 2001 1 1]
  by (simp add: valid_date_def days_in_month_def)

end
