(* ===== verification/Arale_Timestamp.thy ===== *)
theory Arale_Timestamp
  imports Complex_Main Arale_Format
begin

section \<open>Time stamps (\<open>arale/base/TimeStamp.h\<close>, \<open>arale/base/TimeStamp.cc\<close>)\<close>

text \<open>
  A \<open>Timestamp\<close> counts microseconds since the epoch. \<open>int64_t\<close> is modelled by \<open>int\<close>:
  a sum that leaves 64 bits is undefined behaviour of C++ and none is claimed about. A
  \<open>double\<close> is a rational number; the rounding of a floating point operation, which
  depends on the rounding mode of the environment, is the argument \<open>rnd\<close>. The
  clock (\<open>gettimeofday\<close>) and the calendar of the C library (\<open>gmtime_r\<close>) are arguments of
  the operations that call them.
\<close>

record Timestamp =
  microSecondsSinceEpoch :: int

definition kMicroSecondsPerSecond :: int where
  "kMicroSecondsPerSecond = 1000 * 1000"

definition Timestamp_default :: Timestamp where
  "Timestamp_default = \<lparr>microSecondsSinceEpoch = 0\<rparr>"

definition Timestamp_new :: "int \<Rightarrow> Timestamp" where
  "Timestamp_new us = \<lparr>microSecondsSinceEpoch = us\<rparr>"

definition Timestamp_swap :: "Timestamp \<Rightarrow> Timestamp \<Rightarrow> Timestamp \<times> Timestamp" where
  "Timestamp_swap t that =
     (t\<lparr>microSecondsSinceEpoch := microSecondsSinceEpoch that\<rparr>,
      that\<lparr>microSecondsSinceEpoch := microSecondsSinceEpoch t\<rparr>)"

definition Timestamp_valid :: "Timestamp \<Rightarrow> bool" where
  "Timestamp_valid t \<longleftrightarrow> microSecondsSinceEpoch t > 0"

definition secondsSinceEpoch :: "Timestamp \<Rightarrow> int" where
  "secondsSinceEpoch t = tdiv (microSecondsSinceEpoch t) kMicroSecondsPerSecond"

definition Timestamp_invalid :: Timestamp where
  "Timestamp_invalid = Timestamp_default"

definition fromUnixTime :: "int \<Rightarrow> int \<Rightarrow> Timestamp" where
  "fromUnixTime t microseconds = Timestamp_new (t * kMicroSecondsPerSecond + microseconds)"

definition fromUnixTime_seconds :: "int \<Rightarrow> Timestamp" where
  "fromUnixTime_seconds t = fromUnixTime t 0"

definition Timestamp_less :: "Timestamp \<Rightarrow> Timestamp \<Rightarrow> bool" where
  "Timestamp_less lhs rhs \<longleftrightarrow> microSecondsSinceEpoch lhs < microSecondsSinceEpoch rhs"

definition Timestamp_eq :: "Timestamp \<Rightarrow> Timestamp \<Rightarrow> bool" where
  "Timestamp_eq lhs rhs \<longleftrightarrow> microSecondsSinceEpoch lhs = microSecondsSinceEpoch rhs"

text \<open>
  The conversion of the difference to \<open>double\<close> and the division are rounded; the
  conversion of a \<open>double\<close> to \<open>int64_t\<close> truncates.
\<close>

definition timeDifference :: "(rat \<Rightarrow> rat) \<Rightarrow> Timestamp \<Rightarrow> Timestamp \<Rightarrow> rat" where
  "timeDifference rnd high low =
     (let diff = microSecondsSinceEpoch high - microSecondsSinceEpoch low in
      rnd (rnd (of_int diff) / of_int kMicroSecondsPerSecond))"

definition truncate_rat :: "rat \<Rightarrow> int" where
  "truncate_rat x = (if x < 0 then - \<lfloor>- x\<rfloor> else \<lfloor>x\<rfloor>)"

definition addTime :: "(rat \<Rightarrow> rat) \<Rightarrow> Timestamp \<Rightarrow> rat \<Rightarrow> Timestamp" where
  "addTime rnd timestamp seconds =
     (let delta = truncate_rat (rnd (seconds * of_int kMicroSecondsPerSecond)) in
      Timestamp_new (microSecondsSinceEpoch timestamp + delta))"

text \<open>\<open>struct tm\<close> of the C library.\<close>

record tm =
  tm_sec :: int
  tm_min :: int
  tm_hour :: int
  tm_mday :: int
  tm_mon :: int
  tm_year :: int
  tm_wday :: int
  tm_yday :: int
  tm_isdst :: int
  tm_gmtoff :: int
  tm_zone :: string

definition tm_zero :: tm where
  "tm_zero = \<lparr>tm_sec = 0, tm_min = 0, tm_hour = 0, tm_mday = 0, tm_mon = 0, tm_year = 0,
     tm_wday = 0, tm_yday = 0, tm_isdst = 0, tm_gmtoff = 0, tm_zone = []\<rparr>"

definition Timestamp_toString :: "Timestamp \<Rightarrow> string" where
  "Timestamp_toString t =
     (let seconds = tdiv (microSecondsSinceEpoch t) kMicroSecondsPerSecond;
          microseconds = tmod (microSecondsSinceEpoch t) kMicroSecondsPerSecond
      in snprintf 31 (sdec seconds @ ''.'' @ fmt_0d 6 microseconds))"

definition tm_fmt :: "tm \<Rightarrow> string" where
  "tm_fmt x =
     fmt_d 4 (tm_year x + 1900) @ fmt_0d 2 (tm_mon x + 1) @ fmt_0d 2 (tm_mday x) @ '' '' @
     fmt_0d 2 (tm_hour x) @ '':'' @ fmt_0d 2 (tm_min x) @ '':'' @ fmt_0d 2 (tm_sec x)"

definition toFormattedString :: "(int \<Rightarrow> tm) \<Rightarrow> bool \<Rightarrow> Timestamp \<Rightarrow> string" where
  "toFormattedString gmtime_r showMicroseconds t =
     (let seconds = tdiv (microSecondsSinceEpoch t) kMicroSecondsPerSecond;
          tm_time = gmtime_r seconds
      in if showMicroseconds then
           let microseconds = tmod (microSecondsSinceEpoch t) kMicroSecondsPerSecond in
           snprintf 32 (tm_fmt tm_time @ ''.'' @ fmt_0d 6 microseconds)
         else snprintf 32 (tm_fmt tm_time))"

text \<open>\<open>gettimeofday\<close> is the pair of its results \<open>tv_sec\<close> and \<open>tv_usec\<close>.\<close>

definition Timestamp_now :: "int \<times> int \<Rightarrow> Timestamp" where
  "Timestamp_now tv = Timestamp_new (fst tv * kMicroSecondsPerSecond + snd tv)"

subsection \<open>Facts about time stamps\<close>

lemma Timestamp_new_sel [simp]: "microSecondsSinceEpoch (Timestamp_new us) = us"
  by (simp add: Timestamp_new_def)

lemma Timestamp_eq_iff: "Timestamp_eq x y \<longleftrightarrow> x = y"
  by (cases x, cases y) (simp add: Timestamp_eq_def)

lemma Timestamp_less_irrefl [simp]: "\<not> Timestamp_less x x"
  by (simp add: Timestamp_less_def)

lemma Timestamp_less_linear: "Timestamp_less x y \<or> x = y \<or> Timestamp_less y x"
  by (cases x, cases y) (auto simp: Timestamp_less_def)

lemma truncate_rat_of_int [simp]: "truncate_rat (of_int k) = k"
  by (simp add: truncate_rat_def flip: of_int_minus)

lemma truncate_rat_mono: "x \<le> y \<Longrightarrow> truncate_rat x \<le> truncate_rat y"
proof -
  assume le: "x \<le> y"
  show ?thesis
  proof (cases "x < 0")
    case True
    show ?thesis
    proof (cases "y < 0")
      case True
      with \<open>x < 0\<close> le floor_mono [of "- y" "- x"] show ?thesis by (simp add: truncate_rat_def)
    next
      case False
      have "0 \<le> \<lfloor>- x\<rfloor>" "0 \<le> \<lfloor>y\<rfloor>" using True False by simp_all
      then have "- \<lfloor>- x\<rfloor> \<le> \<lfloor>y\<rfloor>" by linarith
      with True False show ?thesis by (simp add: truncate_rat_def del: neg_le_iff_le)
    qed
  next
    case False
    with le floor_mono [OF le] show ?thesis by (simp add: truncate_rat_def)
  qed
qed

text \<open>\<open>addTime\<close> is monotone in the seconds added, for every monotone rounding.\<close>

lemma addTime_mono:
  assumes "mono rnd" "d \<le> d'"
  shows "microSecondsSinceEpoch (addTime rnd t d) \<le> microSecondsSinceEpoch (addTime rnd t d')"
  using truncate_rat_mono [OF monoD [OF assms(1), of "d * of_int kMicroSecondsPerSecond"
        "d' * of_int kMicroSecondsPerSecond"]] assms(2)
  by (simp add: addTime_def kMicroSecondsPerSecond_def)

lemma addTime_of_micros:
  assumes "rnd (of_int us) = of_int us"
  shows "addTime rnd t (of_int us / of_int kMicroSecondsPerSecond) =
     Timestamp_new (microSecondsSinceEpoch t + us)"
  using assms by (simp add: addTime_def kMicroSecondsPerSecond_def)

subsection \<open>Properties of time stamps\<close>

text \<open>
  What \<open>toString\<close> prints of a time stamp that is not negative determines it: the
  text is a decimal number of seconds, a period and exactly six digits, and seconds times
  a million plus the digits is the count of microseconds. The text is never cut off by
  the buffer of 32 bytes.
\<close>

theorem Timestamp_toString_reads_back:
  assumes "0 \<le> microSecondsSinceEpoch t" and "microSecondsSinceEpoch t < 2 ^ 63"
  shows "\<exists>s u. Timestamp_toString t = s @ ''.'' @ u \<and> length u = 6 \<and>
     int (undec s) * kMicroSecondsPerSecond + int (undec u) = microSecondsSinceEpoch t \<and>
     (\<forall>c \<in> set (s @ u). is_digit c)"
proof -
  let ?us = "microSecondsSinceEpoch t"
  define q r where "q = ?us div 1000000" and "r = ?us mod 1000000"
  have qr: "q * 1000000 + r = ?us" by (simp add: q_def r_def)
  have r: "0 \<le> r" "r < 10 ^ 6" and q: "0 \<le> q" using assms by (simp_all add: q_def r_def)
  have "q < 10 ^ 13"
  proof (rule ccontr)
    assume "\<not> ?thesis"
    then have "10 ^ 13 * 1000000 \<le> ?us" using qr r by linarith
    with assms(2) show False by simp
  qed
  then have ls: "length (sdec q) \<le> 14" using length_sdec_le [of q 13] q by simp
  have lu: "length (fmt_0d 6 r) = 6" using r by (intro length_fmt_0d) auto
  have eq: "Timestamp_toString t = sdec q @ ''.'' @ fmt_0d 6 r"
    using assms ls lu by (simp add: Timestamp_toString_def kMicroSecondsPerSecond_def q_def r_def)
  have "\<forall>c \<in> set (sdec q @ fmt_0d 6 r). is_digit c"
    using q r digits_dec by (auto simp: sdec_def fmt_0d_def pad_def is_digit_def)
  moreover have "int (undec (sdec q)) * kMicroSecondsPerSecond + int (undec (fmt_0d 6 r)) = ?us"
    using q r qr by (simp add: sdec_def kMicroSecondsPerSecond_def)
  ultimately show ?thesis using eq lu by blast
qed

theorem Timestamp_toString_reads_back_witness:
  "\<exists>s u. Timestamp_toString (Timestamp_new 1500000007) = s @ ''.'' @ u \<and> length u = 6 \<and>
     int (undec s) * kMicroSecondsPerSecond + int (undec u) = 1500000007"
  using Timestamp_toString_reads_back [of "Timestamp_new 1500000007"] by auto

end
