(* ===== verification/Arale_TimeZone.thy ===== *)
theory Arale_TimeZone
  imports Arale_Date Arale_Timestamp Arale_Endian
begin

section \<open>Time zones (\<open>arale/base/TimeZone.h\<close>, \<open>arale/base/TimeZone.cc\<close>)\<close>

text \<open>
  \<open>time_t\<close> is \<open>int\<close>. The calendar functions of the C library the code calls
  (\<open>gmtime_r\<close>, \<open>timegm\<close>) are defined here from the calendar alone: a date is reached
  from 1970-01-01 by counting days, and \<open>toUtcTime\<close> is compared with it. A zone file is
  the list of its bytes, \<open>None\<close> when it cannot be opened; a \<open>logic_error\<close> is a left value
  carrying its message.
\<close>

subsection \<open>The calendar of the C library\<close>

fun prev_day :: "int \<times> int \<times> int \<Rightarrow> int \<times> int \<times> int" where
  "prev_day (y, m, d) =
     (if 1 < d then (y, m, d - 1)
      else if 1 < m then (y, m - 1, days_in_month y (m - 1)) else (y - 1, 12, 31))"

definition civil :: "int \<Rightarrow> int \<times> int \<times> int" where
  "civil n = (if 0 \<le> n then (next_day ^^ nat n) (1970, 1, 1) else (prev_day ^^ nat (- n)) (1970, 1, 1))"

definition days_before :: "int \<Rightarrow> int \<Rightarrow> int" where
  "days_before y m = sum_list (map (days_in_month y) [1..m - 1])"

definition gmtime_r :: "int \<Rightarrow> tm" where
  "gmtime_r t =
     (case civil (t div 86400) of (y, m, d) \<Rightarrow>
        let s = t mod 86400 in
        \<lparr>tm_sec = s mod 60, tm_min = s div 60 mod 60, tm_hour = s div 3600,
         tm_mday = d, tm_mon = m - 1, tm_year = y - 1900,
         tm_wday = (4 + t div 86400) mod 7, tm_yday = days_before y m + d - 1,
         tm_isdst = 0, tm_gmtoff = 0, tm_zone = ''GMT''\<rparr>)"

subsection \<open>UTC\<close>

definition kSecondsPerDay :: int where
  "kSecondsPerDay = 24 * 60 * 60"

lemma kSecondsPerDay_eq: "kSecondsPerDay = 86400"
  by (simp add: kSecondsPerDay_def)

text \<open>\<open>seconds\<close> is \<open>unsigned\<close> in \<open>fillHMS\<close>.\<close>

definition fillHMS :: "nat \<Rightarrow> tm \<Rightarrow> tm" where
  "fillHMS seconds utc =
     (let minutes = seconds div 60 in
      utc\<lparr>tm_sec := int (seconds mod 60), tm_min := int (minutes mod 60),
          tm_hour := int (minutes div 60)\<rparr>)"

definition toUtcTime :: "int \<Rightarrow> bool \<Rightarrow> tm" where
  "toUtcTime t yday =
     (let utc = tm_zero\<lparr>tm_zone := ''GMT''\<rparr>;
          seconds0 = cast_int32 (tmod t kSecondsPerDay);
          days0 = cast_int32 (tdiv t kSecondsPerDay);
          seconds = (if seconds0 < 0 then seconds0 + kSecondsPerDay else seconds0);
          days = (if seconds0 < 0 then days0 - 1 else days0);
          utc1 = fillHMS (nat seconds) utc;
          date = Date_of_jdn (days + kJulianDayOf1970_01_01);
          ymd = yearMonthDay date;
          utc2 = utc1\<lparr>tm_year := year ymd - 1900, tm_mon := month ymd - 1, tm_mday := day ymd,
                      tm_wday := weekDay date\<rparr>
      in if yday then
           let startOfYear = Date_of_ymd (year ymd) 1 1 in
           utc2\<lparr>tm_yday := julianDayNumber date - julianDayNumber startOfYear\<rparr>
         else utc2)"

definition fromUtcTime_ymd :: "int \<Rightarrow> int \<Rightarrow> int \<Rightarrow> int \<Rightarrow> int \<Rightarrow> int \<Rightarrow> int" where
  "fromUtcTime_ymd yr mo dy hour minute seconds =
     (let date = Date_of_ymd yr mo dy;
          secondsInDay = hour * 3600 + minute * 60 + seconds;
          days = julianDayNumber date - kJulianDayOf1970_01_01
      in days * kSecondsPerDay + secondsInDay)"

definition fromUtcTime :: "tm \<Rightarrow> int" where
  "fromUtcTime utc =
     fromUtcTime_ymd (tm_year utc + 1900) (tm_mon utc + 1) (tm_mday utc) (tm_hour utc)
       (tm_min utc) (tm_sec utc)"

subsection \<open>Facts about the calendar\<close>

definition ymd_triple :: "int \<Rightarrow> int \<times> int \<times> int" where
  "ymd_triple j = (let r = getYearMonthDay j in (year r, month r, day r))"

lemma ymd_triple_jdn:
  "valid_date y m d \<Longrightarrow> 0 \<le> march_year y m \<Longrightarrow> ymd_triple (getJulianDayNumber y m d) = (y, m, d)"
  by (simp add: ymd_triple_def getYearMonthDay_of_valid)

lemma ymd_triple_next:
  assumes "- 32044 \<le> j"
  shows "ymd_triple (j + 1) = next_day (ymd_triple j)"
proof -
  obtain y m d where y: "valid_date y m d" "0 \<le> march_year y m" "getJulianDayNumber y m d = j"
    using valid_of_getYearMonthDay [OF assms] by metis
  obtain y' m' d' where n: "next_day (y, m, d) = (y', m', d')" by (metis prod_cases3)
  from jdn_next_day [OF y(1,2) n] y(3) have "getJulianDayNumber y' m' d' = j + 1"
    "valid_date y' m' d'" "0 \<le> march_year y' m'" by simp_all
  with ymd_triple_jdn y n show ?thesis by metis
qed

lemma prev_next_day:
  assumes "valid_date y m d"
  shows "prev_day (next_day (y, m, d)) = (y, m, d)"
  using assms by (auto simp: valid_date_def days_in_month_def)

lemma ymd_triple_prev:
  assumes "- 32044 \<le> j"
  shows "prev_day (ymd_triple (j + 1)) = ymd_triple j"
proof -
  obtain y m d where y: "valid_date y m d" "0 \<le> march_year y m" "getJulianDayNumber y m d = j"
    using valid_of_getYearMonthDay [OF assms] by metis
  then have "ymd_triple j = (y, m, d)" using ymd_triple_jdn by blast
  with prev_next_day [OF y(1)] ymd_triple_next [OF assms] show ?thesis by simp
qed

lemma ymd_triple_epoch: "ymd_triple 2440588 = (1970, 1, 1)"
  by (simp add: ymd_triple_def getYearMonthDay_def Let_def)

lemma civil_forward: "(next_day ^^ n) (1970, 1, 1) = ymd_triple (2440588 + int n)"
proof (induction n)
  case (Suc n)
  then show ?case using ymd_triple_next [of "2440588 + int n"] by (simp add: algebra_simps)
qed (simp add: ymd_triple_epoch)

lemma civil_backward:
  "int n \<le> 2440588 + 32044 \<Longrightarrow> (prev_day ^^ n) (1970, 1, 1) = ymd_triple (2440588 - int n)"
proof (induction n)
  case (Suc n)
  then show ?case using ymd_triple_prev [of "2440588 - int n - 1"] by (simp add: algebra_simps)
qed (simp add: ymd_triple_epoch)

lemma civil_ymd:
  assumes "- 2472632 \<le> n"
  shows "civil n = ymd_triple (2440588 + n)"
  using assms civil_forward [of "nat n"] civil_backward [of "nat (- n)"] by (simp add: civil_def)

lemma kJulianDay_value [simp]: "kJulianDayOf1970_01_01 = 2440588"
  by (simp add: kJulianDayOf1970_01_01_def getJulianDayNumber_def Let_def)

lemma months12: "1 \<le> m \<Longrightarrow> m \<le> 12 \<Longrightarrow> (m :: int) \<in> {1, 2, 3, 4, 5, 6, 7, 8, 9, 10, 11, 12}"
  by (simp only: insert_iff empty_iff) presburger

lemma days_before_simps [simp]:
  "days_before y 1 = 0" "days_before y 2 = 31" "days_before y 3 = 31 + days_in_month y 2"
  "days_before y 4 = 62 + days_in_month y 2" "days_before y 5 = 92 + days_in_month y 2"
  "days_before y 6 = 123 + days_in_month y 2" "days_before y 7 = 153 + days_in_month y 2"
  "days_before y 8 = 184 + days_in_month y 2" "days_before y 9 = 215 + days_in_month y 2"
  "days_before y 10 = 245 + days_in_month y 2" "days_before y 11 = 276 + days_in_month y 2"
  "days_before y 12 = 306 + days_in_month y 2"
  by (simp_all add: days_before_def upto.simps days_in_month_def)

lemma jdn_yday:
  assumes "1 \<le> m" "m \<le> 12" "- 4799 \<le> y"
  shows "getJulianDayNumber y m d - getJulianDayNumber y 1 1 = days_before y m + d - 1"
proof -
  have c: "day_count (y + 4800) = day_count (y + 4799) + 365 + (if leap_year y then 1 else 0)"
    using day_count_Suc [of "y + 4799"] assms(3) leap_shift [of y] by (simp add: algebra_simps)
  have my: "0 \<le> march_year y k" for k using assms(3) by (simp add: march_year_def)
  have J: "getJulianDayNumber y k e = doy (march_month k) e + day_count (march_year y k) - 32044"
    if "1 \<le> k" "k \<le> 12" for k e
    using getJulianDayNumber_eq [OF that my] .
  from months12 [OF assms(1,2)] show ?thesis
    using c by (auto simp: J doy_def march_year_def march_month_def days_in_month_def add.commute [of _ y])
qed

lemma tmod_bounds:
  assumes "0 < k"
  shows "- k < tmod t k" "tmod t k < k"
proof -
  have "0 \<le> (- t) mod k" "(- t) mod k < k" "0 \<le> t mod k" "t mod k < k" using assms by simp_all
  then show "- k < tmod t k" "tmod t k < k"
    using assms tmod_neg [of t k] tmod_nonneg [of t k] by (cases "t < 0"; linarith)+
qed

lemma tmod_floor:
  assumes "0 < k"
  shows "tmod t k < 0 \<Longrightarrow> t mod k = tmod t k + k \<and> t div k = tdiv t k - 1"
    and "\<not> tmod t k < 0 \<Longrightarrow> t mod k = tmod t k \<and> t div k = tdiv t k"
proof -
  have eq: "t = tdiv t k * k + tmod t k" using tdiv_tmod [of k t] by (simp add: algebra_simps)
  note b = tmod_bounds [OF assms, of t]
  have d: "t div k = q" "t mod k = r" if "t = q * k + r" "0 \<le> r" "r < k" for q r
    using div_eqI [OF that] that by (auto simp: algebra_simps minus_mult_div_eq_mod [symmetric])
  show "tmod t k < 0 \<Longrightarrow> t mod k = tmod t k + k \<and> t div k = tdiv t k - 1"
    using d [of "tdiv t k - 1" "tmod t k + k"] eq b by (simp add: algebra_simps)
  show "\<not> tmod t k < 0 \<Longrightarrow> t mod k = tmod t k \<and> t div k = tdiv t k"
    using d [OF eq] b by simp
qed

definition utc_range :: "int \<Rightarrow> bool" where
  "utc_range t \<longleftrightarrow> - 2472326 \<le> t div 86400 \<and> t div 86400 < 2 ^ 31 - 2440588"

lemma utc_range_jdn: "utc_range t \<Longrightarrow> - 31738 \<le> 2440588 + t div 86400"
  by (simp add: utc_range_def)

lemma hms_sum: "s div 3600 * 3600 + s div 60 mod 60 * 60 + s mod 60 = (s :: int)"
proof -
  have "s div 3600 = s div 60 div 60" by (simp add: zdiv_zmult2_eq [symmetric])
  then have "s div 3600 * 60 + s div 60 mod 60 = s div 60" by simp
  then have "(s div 3600 * 60 + s div 60 mod 60) * 60 + s mod 60 = s" by simp
  then show ?thesis by (simp add: algebra_simps)
qed

lemma toUtcTime_eq:
  assumes "utc_range t"
  shows "toUtcTime t yd =
     (case ymd_triple (2440588 + t div 86400) of (y, m, d) \<Rightarrow>
        let s = t mod 86400 in
        \<lparr>tm_sec = s mod 60, tm_min = s div 60 mod 60, tm_hour = s div 3600,
         tm_mday = d, tm_mon = m - 1, tm_year = y - 1900,
         tm_wday = weekDay (Date_of_jdn (2440588 + t div 86400)),
         tm_yday = (if yd then 2440588 + t div 86400 - getJulianDayNumber y 1 1 else 0),
         tm_isdst = 0, tm_gmtoff = 0, tm_zone = ''GMT''\<rparr>)"
proof -
  have b: "- 86400 < tmod t 86400" "tmod t 86400 < 86400" using tmod_bounds [of 86400 t] by simp_all
  have sd: "tdiv t 86400 = t div 86400 \<and> tmod t 86400 = t mod 86400 \<and> \<not> tmod t 86400 < 0 \<or>
      tdiv t 86400 = t div 86400 + 1 \<and> tmod t 86400 = t mod 86400 - 86400 \<and> tmod t 86400 < 0"
    using tmod_floor [of 86400 t] by (cases "tmod t 86400 < 0") simp_all
  then have r: "int32_range (tdiv t 86400)" "int32_range (tmod t 86400)"
    using assms b by (auto simp: utc_range_def int32_range_def)
  have h: "s div 60 div 60 = s div (3600 :: int)" for s by (simp add: zdiv_zmult2_eq [symmetric])
  have i: "int (nat s mod 60) = s mod 60" "int (nat s div 60 mod 60) = s div 60 mod 60"
    "int (nat s div 60 div 60) = s div 60 div 60" if "0 \<le> s" for s
    using that by (simp_all add: zmod_int zdiv_int)
  define sx dx where "sx = t mod 86400" and "dx = t div 86400"
  have x: "(if tmod t 86400 < 0 then tmod t 86400 + 86400 else tmod t 86400) = sx"
    "(if tmod t 86400 < 0 then tdiv t 86400 - 1 else tdiv t 86400) = dx"
    using sd by (auto simp only: sx_def dx_def split: if_splits)
  have "0 \<le> sx" by (simp add: sx_def)
  note i' = i [OF this]
  show ?thesis
    unfolding toUtcTime_def kSecondsPerDay_eq Let_def cast_int32_id [OF r(1)] cast_int32_id [OF r(2)] x
      sx_def [symmetric] dx_def [symmetric] kJulianDay_value
    by (simp add: fillHMS_def tm_zero_def ymd_triple_def Date_of_jdn_def Date_of_ymd_def
        yearMonthDay_def Let_def i' h add.commute [of dx])
qed

lemma ymd_triple_ex:
  assumes "- 31738 \<le> j"
  obtains y m d where "ymd_triple j = (y, m, d)" "valid_date y m d" "- 4799 \<le> y"
    "getJulianDayNumber y m d = j"
proof -
  have "- 32044 \<le> j" using assms by simp
  then obtain y m d where y: "valid_date y m d" "0 \<le> march_year y m" "getJulianDayNumber y m d = j"
    using valid_of_getYearMonthDay by metis
  have md: "1 \<le> m" "m \<le> 12" "1 \<le> d" "d \<le> days_in_month y m" using y(1) by (auto simp: valid_date_def)
  have "- 4799 \<le> y"
  proof (rule ccontr)
    assume "\<not> ?thesis"
    then have ym: "y = - 4800" "3 \<le> m" using y(2) md by (auto simp: march_year_def split: if_splits)
    then have "j = doy (m - 3) d - 32044"
      using getJulianDayNumber_eq [OF md(1,2) y(2), of d] y(3)
      by (simp add: march_year_def march_month_def day_count_def)
    moreover have "m \<in> {3, 4, 5, 6, 7, 8, 9, 10, 11, 12}"
      using months12 [OF md(1,2)] ym(2) by auto
    ultimately show False using assms md(4) by (auto simp: doy_def days_in_month_def)
  qed
  with y ymd_triple_jdn [OF y(1,2)] that show ?thesis by simp
qed

subsection \<open>Properties of the UTC conversions\<close>

text \<open>
  \<open>fromUtcTime\<close> inverts \<open>toUtcTime\<close> on every time from the year -4799 on whose day
  number fits an \<open>int\<close>, times before the epoch included.
\<close>

theorem fromUtcTime_toUtcTime:
  assumes "utc_range t"
  shows "fromUtcTime (toUtcTime t yd) = t"
proof -
  let ?j = "2440588 + t div 86400"
  obtain y m d where y: "ymd_triple ?j = (y, m, d)" "getJulianDayNumber y m d = ?j"
    using ymd_triple_ex [OF utc_range_jdn [OF assms]] by metis
  define s where "s = t mod 86400"
  note hms_sum [of s]
  moreover have "t div 86400 * 86400 + s = t" by (simp add: s_def)
  moreover define dx where "dx = t div 86400"
  ultimately have e: "s div 3600 * 3600 + s div 60 mod 60 * 60 + s mod 60 = s" "dx * 86400 + s = t"
    by simp_all
  have "fromUtcTime (toUtcTime t yd) = dx * 86400 + (s div 3600 * 3600 + s div 60 mod 60 * 60 + s mod 60)"
    unfolding toUtcTime_eq [OF assms] y(1) prod.case Let_def fromUtcTime_def fromUtcTime_ymd_def
      Date_of_ymd_def kSecondsPerDay_eq kJulianDay_value s_def [symmetric]
    by (simp add: y(2) dx_def)
  then show ?thesis unfolding e .
qed

theorem fromUtcTime_toUtcTime_witness: "fromUtcTime (toUtcTime (- 1) True) = - 1"
  by (rule fromUtcTime_toUtcTime) (simp add: utc_range_def)

text \<open>
  \<open>toUtcTime\<close> computes the calendar of the C library: with the day of the year
  requested it returns field by field what \<open>gmtime_r\<close> returns, from the year -4799 on for
  all other fields and from Julian day number 0 on for the day of the week.
\<close>

theorem toUtcTime_gmtime:
  assumes "utc_range t"
  shows "(toUtcTime t True)\<lparr>tm_wday := 0\<rparr> = (gmtime_r t)\<lparr>tm_wday := 0\<rparr> \<and>
     (- 2440589 \<le> t div 86400 \<longrightarrow> toUtcTime t True = gmtime_r t)"
proof -
  let ?j = "2440588 + t div 86400"
  obtain y m d where y: "ymd_triple ?j = (y, m, d)" "getJulianDayNumber y m d = ?j"
    "valid_date y m d" "- 4799 \<le> y"
    using ymd_triple_ex [OF utc_range_jdn [OF assms]] by metis
  have c: "civil (t div 86400) = (y, m, d)"
    using civil_ymd [of "t div 86400"] assms y(1) by (simp add: utc_range_def)
  have yd: "?j - getJulianDayNumber y 1 1 = days_before y m + d - 1"
    using jdn_yday [of m y d] y by (simp add: valid_date_def)
  have "weekDay (Date_of_jdn ?j) = (4 + t div 86400) mod 7" if "- 2440589 \<le> t div 86400"
  proof -
    have "(4 + t div 86400 + 348655 * 7) mod 7 = (4 + t div 86400) mod 7" by (rule mod_mult_self1)
    then have "(2440589 + t div 86400) mod 7 = (4 + t div 86400) mod 7" by (simp add: add.commute)
    then show ?thesis using that by (simp add: weekDay_def Date_of_jdn_def kDaysPerWeek_def)
  qed
  then show ?thesis
    using yd by (simp add: toUtcTime_eq [OF assms] gmtime_r_def y(1) c Let_def)
qed

theorem toUtcTime_gmtime_witness: "toUtcTime 100000 True = gmtime_r 100000"
  using toUtcTime_gmtime [of 100000] by (simp add: utc_range_def)

end
