(* ===== verification/Arale_ZoneData.thy ===== *)
theory Arale_ZoneData
  imports Arale_TimeZone
begin

section \<open>Zone data and local time (\<open>arale/base/TimeZone.cc\<close>)\<close>

text \<open>
  The transition table of a zone, its reader and the conversions between local time and
  UTC. A \<open>File\<close> is the bytes that are still to be read. An exception of type
  \<open>logic_error\<close> is a left value with its message; an access outside a vector is the fault
  \<open>OutOfBounds\<close>. \<open>lower_bound\<close> is the binary search of the C++ library.
\<close>

record Transition =
  gmttime :: int
  tr_localtime :: int
  localtimeIdx :: int

definition Transition_new :: "int \<Rightarrow> int \<Rightarrow> int \<Rightarrow> Transition" where
  "Transition_new t l localIdx = \<lparr>gmttime = t, tr_localtime = l, localtimeIdx = localIdx\<rparr>"

definition Comp_less :: "bool \<Rightarrow> Transition \<Rightarrow> Transition \<Rightarrow> bool" where
  "Comp_less compareGmt lhs rhs \<longleftrightarrow>
     (if compareGmt then gmttime lhs < gmttime rhs else tr_localtime lhs < tr_localtime rhs)"

definition Comp_equal :: "bool \<Rightarrow> Transition \<Rightarrow> Transition \<Rightarrow> bool" where
  "Comp_equal compareGmt lhs rhs \<longleftrightarrow>
     (if compareGmt then gmttime lhs = gmttime rhs else tr_localtime lhs = tr_localtime rhs)"

record Localtime =
  gmtOffset :: int
  isDst :: bool
  arrbIdx :: int

definition Localtime_new :: "int \<Rightarrow> bool \<Rightarrow> int \<Rightarrow> Localtime" where
  "Localtime_new off dst arrb = \<lparr>gmtOffset = off, isDst = dst, arrbIdx = arrb\<rparr>"

record TZData =
  transitions :: "Transition list"
  localtimes :: "Localtime list"
  names :: "string list"
  tz_abbrev :: string

definition TZData_empty :: TZData where
  "TZData_empty = \<lparr>transitions = [], localtimes = [], names = [], tz_abbrev = []\<rparr>"

subsection \<open>Reading a zone file\<close>

type_synonym File = "char list"

text \<open>
  An operation on a file either stops in a fault, or throws a message, or returns a value
  and the rest of the file.
\<close>

datatype tz_exn = LogicError string | Fault fault

definition readBytes :: "int \<Rightarrow> File \<Rightarrow> tz_exn + (string \<times> File)" where
  "readBytes n f =
     (if n < 0 then Inl (Fault OutOfBounds)
      else if length f < nat n then Inl (LogicError ''no enough data'')
      else Inr (take (nat n) f, drop (nat n) f))"

text \<open>\<open>be32toh\<close> is what \<open>networkToHost32\<close> stands for.\<close>

definition File_readInt32 :: "byte_order \<Rightarrow> File \<Rightarrow> tz_exn + (32 word \<times> File)" where
  "File_readInt32 e f =
     (if length f < 4 then Inl (LogicError ''bad int32_t data'')
      else Inr (networkToHost32 e (mem_word e (take 4 f)), drop 4 f))"

definition readUInt8 :: "File \<Rightarrow> tz_exn + (8 word \<times> File)" where
  "readUInt8 f =
     (case f of [] \<Rightarrow> Inl (LogicError ''bad uint8_t data'') | c # f' \<Rightarrow> Inr (of_char c, f'))"

text \<open>The loops over \<open>timecnt\<close>; a count that is not positive runs no iteration.\<close>

fun readTrans :: "byte_order \<Rightarrow> nat \<Rightarrow> File \<Rightarrow> tz_exn + (int list \<times> File)" where
  "readTrans e 0 f = Inr ([], f)"
| "readTrans e (Suc n) f =
     bindR (File_readInt32 e f) (\<lambda>(x, f1).
     bindR (readTrans e n f1) (\<lambda>(xs, f2). Inr (sint x # xs, f2)))"

fun readLocals :: "nat \<Rightarrow> File \<Rightarrow> tz_exn + (int list \<times> File)" where
  "readLocals 0 f = Inr ([], f)"
| "readLocals (Suc n) f =
     bindR (readUInt8 f) (\<lambda>(x, f1).
     bindR (readLocals n f1) (\<lambda>(xs, f2). Inr (uint x # xs, f2)))"

text \<open>The loop over \<open>typecnt\<close>. It pushes to \<open>data->localtimes\<close>; what was pushed stays when it throws.\<close>

fun readTypes :: "byte_order \<Rightarrow> nat \<Rightarrow> File \<Rightarrow> TZData \<Rightarrow> (tz_exn + File) \<times> TZData" where
  "readTypes e 0 f d = (Inr f, d)"
| "readTypes e (Suc n) f d =
     (case bindR (File_readInt32 e f) (\<lambda>(gmtoff, f1).
           bindR (readUInt8 f1) (\<lambda>(isdst, f2).
           bindR (readUInt8 f2) (\<lambda>(abbrind, f3).
           Inr (Localtime_new (sint gmtoff) (isdst \<noteq> 0) (uint abbrind), f3)))) of
        Inl x \<Rightarrow> (Inl x, d)
      | Inr (lt, f3) \<Rightarrow> readTypes e n f3 (d\<lparr>localtimes := localtimes d @ [lt]\<rparr>))"

text \<open>The loop that fills \<open>data->transitions\<close>; \<open>data->localtimes[localIdx]\<close> is unchecked.\<close>

fun makeTransitions :: "(int \<times> int) list \<Rightarrow> TZData \<Rightarrow> tz_exn + TZData" where
  "makeTransitions [] d = Inr d"
| "makeTransitions ((t, localIdx) # r) d =
     (if nat localIdx < length (localtimes d) then
        makeTransitions r (d\<lparr>transitions := transitions d @
          [Transition_new t (t + gmtOffset (localtimes d ! nat localIdx)) localIdx]\<rparr>)
      else Inl (Fault OutOfBounds))"

record TzHeader =
  leapcnt :: int
  timecnt :: int
  typecnt :: int
  charcnt :: int

text \<open>
  Everything up to the second loop: only local variables change. A negative \<open>timecnt\<close>
  makes \<open>trans.reserve\<close> throw \<open>std::length_error\<close>, which is a \<open>logic_error\<close>.
\<close>

definition readHead :: "byte_order \<Rightarrow> File \<Rightarrow> tz_exn + (TzHeader \<times> int list \<times> int list \<times> File)" where
  "readHead e f =
     bindR (readBytes 4 f) (\<lambda>(head, f1).
     if head \<noteq> ''TZif'' then Inl (LogicError ''bad head'') else
     bindR (readBytes 1 f1) (\<lambda>(version, f2).
     bindR (readBytes 15 f2) (\<lambda>(_, f3).
     bindR (File_readInt32 e f3) (\<lambda>(isgmtcnt, f4).
     bindR (File_readInt32 e f4) (\<lambda>(isstdcnt, f5).
     bindR (File_readInt32 e f5) (\<lambda>(lc, f6).
     bindR (File_readInt32 e f6) (\<lambda>(tc, f7).
     bindR (File_readInt32 e f7) (\<lambda>(yc, f8).
     bindR (File_readInt32 e f8) (\<lambda>(cc, f9).
     if sint tc < 0 then Inl (LogicError ''vector::reserve'') else
     bindR (readTrans e (nat (sint tc)) f9) (\<lambda>(tr, f10).
     bindR (readLocals (nat (sint tc)) f10) (\<lambda>(lo, f11).
     Inr (\<lparr>leapcnt = sint lc, timecnt = sint tc, typecnt = sint yc, charcnt = sint cc\<rparr>,
          tr, lo, f11))))))))))))"

text \<open>
  The body of the \<open>try\<close> block. The result is the exception, if any, and the data as the
  block leaves it.
\<close>

definition readZone :: "byte_order \<Rightarrow> File \<Rightarrow> TZData \<Rightarrow> (tz_exn + unit) \<times> TZData" where
  "readZone e f d =
     (case readHead e f of
        Inl x \<Rightarrow> (Inl x, d)
      | Inr (h, tr, lo, f1) \<Rightarrow>
          (case readTypes e (nat (typecnt h)) f1 d of
             (Inl x, d1) \<Rightarrow> (Inl x, d1)
           | (Inr f2, d1) \<Rightarrow>
               (case makeTransitions (zip tr lo) d1 of
                  Inl x \<Rightarrow> (Inl x, d1)
                | Inr d2 \<Rightarrow>
                    (case readBytes (charcnt h) f2 of
                       Inl x \<Rightarrow> (Inl x, d2)
                     | Inr (abbr, _) \<Rightarrow> (Inr (), d2\<lparr>tz_abbrev := abbr\<rparr>)))))"

definition readTimeZoneFile ::
  "byte_order \<Rightarrow> File option \<Rightarrow> TZData \<Rightarrow> (bool \<times> TZData) result" where
  "readTimeZoneFile e zonefile d =
     (case zonefile of
        None \<Rightarrow> Inr (True, d)
      | Some f \<Rightarrow>
          (case readZone e f d of
             (Inl (Fault x), _) \<Rightarrow> Inl x
           | (Inl (LogicError _), d') \<Rightarrow> Inr (True, d')
           | (Inr _, d') \<Rightarrow> Inr (True, d')))"

subsection \<open>Looking a time up\<close>

text \<open>
  \<open>std::lower_bound\<close> on the \<open>len\<close> elements from index \<open>first\<close>: halve the range until it
  is empty.
\<close>

function lower_bound_loop :: "(nat \<Rightarrow> bool) \<Rightarrow> nat \<Rightarrow> nat \<Rightarrow> nat" where
  "lower_bound_loop lt first len =
     (if len = 0 then first
      else let half = len div 2; middle = first + half in
        if lt middle then lower_bound_loop lt (middle + 1) (len - half - 1)
        else lower_bound_loop lt first half)"
  by pat_completeness auto
termination
  by (relation "measure (\<lambda>(lt, first, len). len)") auto

declare lower_bound_loop.simps [simp del]

definition lower_bound :: "('a \<Rightarrow> bool) \<Rightarrow> 'a list \<Rightarrow> nat" where
  "lower_bound lt xs = lower_bound_loop (\<lambda>i. lt (xs ! i)) 0 (length xs)"

definition localtime_at :: "TZData \<Rightarrow> int \<Rightarrow> Localtime result" where
  "localtime_at d i =
     (if 0 \<le> i \<and> nat i < length (localtimes d) then Inr (localtimes d ! nat i) else Inl OutOfBounds)"

definition findLocaltime :: "bool \<Rightarrow> TZData \<Rightarrow> Transition \<Rightarrow> bool \<Rightarrow> Localtime result" where
  "findLocaltime nd d sentry cmp =
     (let ts = transitions d in
      if ts = [] \<or> Comp_less cmp sentry (hd ts) then localtime_at d 0
      else let transI = lower_bound (\<lambda>x. Comp_less cmp x sentry) ts in
        if transI \<noteq> length ts then
          if \<not> Comp_equal cmp sentry (ts ! transI) then
            cassert nd (transI \<noteq> 0)
              (if transI = 0 then Inl OutOfBounds
               else localtime_at d (localtimeIdx (ts ! (transI - 1))))
          else localtime_at d (localtimeIdx (ts ! transI))
        else localtime_at d (localtimeIdx (last ts)))"

text \<open>A \<open>TimeZone\<close> is its pointer \<open>data_\<close>.\<close>

type_synonym TimeZone = "TZData option"

definition TimeZone_of_file :: "byte_order \<Rightarrow> File option \<Rightarrow> TimeZone result" where
  "TimeZone_of_file e zonefile =
     bindR (readTimeZoneFile e zonefile TZData_empty) (\<lambda>(ok, d). Inr (if ok then Some d else None))"

definition TimeZone_fixed :: "int \<Rightarrow> string \<Rightarrow> TimeZone" where
  "TimeZone_fixed eastOfUtc tzname =
     Some (TZData_empty\<lparr>localtimes := [Localtime_new eastOfUtc False 0], tz_abbrev := tzname\<rparr>)"

definition TimeZone_valid :: "TimeZone \<Rightarrow> bool" where
  "TimeZone_valid tz \<longleftrightarrow> tz \<noteq> None"

text \<open>The C string that starts at index \<open>i\<close> of a \<open>std::string\<close>, which ends in a zero byte.\<close>

definition c_str_at :: "string \<Rightarrow> int \<Rightarrow> string result" where
  "c_str_at s i =
     (if 0 \<le> i \<and> nat i \<le> length s then Inr (takeWhile (\<lambda>c. c \<noteq> CHR 0x00) (drop (nat i) s))
      else Inl OutOfBounds)"

definition toLocalTime :: "bool \<Rightarrow> TimeZone \<Rightarrow> int \<Rightarrow> tm result" where
  "toLocalTime nd tz seconds =
     cassert nd (tz \<noteq> None)
       (case tz of
          None \<Rightarrow> Inl NullDeref
        | Some d \<Rightarrow>
            bindR (findLocaltime nd d (Transition_new seconds 0 0) True) (\<lambda>local.
            bindR (c_str_at (tz_abbrev d) (arrbIdx local)) (\<lambda>zone.
            let localSeconds = seconds + gmtOffset local in
            Inr ((gmtime_r localSeconds)\<lparr>tm_isdst := of_bool (isDst local),
                   tm_gmtoff := gmtOffset local, tm_zone := zone\<rparr>))))"

text \<open>
  \<open>timegm\<close> is the inverse of \<open>gmtime_r\<close> on the fields it reads: days before the first of
  the year and of the month, counted from 1970-01-01.
\<close>

definition days_to_year :: "int \<Rightarrow> int" where
  "days_to_year y =
     (let n = y - 1 in 365 * (y - 1970) + (n div 4 - n div 100 + n div 400) -
        (1969 div 4 - 1969 div 100 + 1969 div 400))"

definition timegm :: "tm \<Rightarrow> int" where
  "timegm x =
     (let mon = tm_mon x mod 12; yr = tm_year x + 1900 + tm_mon x div 12 in
      (days_to_year yr + days_before yr (mon + 1) + tm_mday x - 1) * 86400 +
      tm_hour x * 3600 + tm_min x * 60 + tm_sec x)"

definition fromLocalTime :: "bool \<Rightarrow> TimeZone \<Rightarrow> tm \<Rightarrow> int result" where
  "fromLocalTime nd tz localTm =
     cassert nd (tz \<noteq> None)
       (case tz of
          None \<Rightarrow> Inl NullDeref
        | Some d \<Rightarrow>
            (let seconds = timegm localTm in
             bindR (findLocaltime nd d (Transition_new 0 seconds 0) False) (\<lambda>local.
             bindR (if tm_isdst localTm \<noteq> 0 then
                      bindR (toLocalTime nd tz (seconds - gmtOffset local)) (\<lambda>tryTm.
                      Inr (if tm_isdst tryTm = 0 \<and> tm_hour tryTm = tm_hour localTm \<and>
                              tm_min tryTm = tm_min localTm
                           then seconds - 3600 else seconds))
                    else Inr seconds) (\<lambda>seconds1.
             Inr (seconds1 - gmtOffset local)))))"

subsection \<open>The binary search\<close>

lemma lower_bound_loop_spec:
  assumes "\<And>i j. i \<le> j \<Longrightarrow> j < n \<Longrightarrow> lt j \<Longrightarrow> lt i"
    and "first + len \<le> n" and "\<And>i. i < first \<Longrightarrow> lt i"
    and "\<And>i. first + len \<le> i \<Longrightarrow> i < n \<Longrightarrow> \<not> lt i"
  shows "lower_bound_loop lt first len \<le> n \<and>
     (\<forall>i < n. lt i \<longleftrightarrow> i < lower_bound_loop lt first len)"
  using assms
proof (induction lt first len rule: lower_bound_loop.induct)
  case (1 lt first len)
  show ?case
  proof (cases "len = 0")
    case True
    with 1(4-6) show ?thesis by (auto simp: lower_bound_loop.simps [of _ _ 0] not_le [symmetric])
  next
    case False
    let ?h = "len div 2" and ?m = "first + len div 2"
    have h: "?m < n" "?h < len" "?m + 1 + (len - ?h - 1) = first + len" using False 1(4) by linarith+
    show ?thesis
    proof (cases "lt ?m")
      case True
      then have "lt i" if "i < ?m + 1" for i using 1(3) [of i ?m] h(1) that by simp
      then have "lower_bound_loop lt (?m + 1) (len - ?h - 1) \<le> n \<and>
          (\<forall>i < n. lt i \<longleftrightarrow> i < lower_bound_loop lt (?m + 1) (len - ?h - 1))"
        using 1(3,4,6) h by (intro 1(1) [OF False refl refl True]) auto
      then show ?thesis
        using False True by (simp add: lower_bound_loop.simps [of lt first len] Let_def)
    next
      case nl: False
      then have "\<not> lt i" if "first + ?h \<le> i" "i < n" for i using 1(3) [of ?m i] that by auto
      then have "lower_bound_loop lt first ?h \<le> n \<and>
          (\<forall>i < n. lt i \<longleftrightarrow> i < lower_bound_loop lt first ?h)"
        using 1(3-5) h by (intro 1(2) [OF False refl refl nl]) auto
      then show ?thesis
        using False nl by (simp add: lower_bound_loop.simps [of lt first len] Let_def)
    qed
  qed
qed

lemma lower_bound_spec:
  assumes "sorted_wrt (\<lambda>x y. lt y \<longrightarrow> lt x) xs"
  shows "lower_bound lt xs \<le> length xs"
    and "i < length xs \<Longrightarrow> lt (xs ! i) \<longleftrightarrow> i < lower_bound lt xs"
proof -
  have "lt (xs ! i)" if "i \<le> j" "j < length xs" "lt (xs ! j)" for i j
    using assms that by (cases "i = j") (auto simp: sorted_wrt_iff_nth_less dest: le_neq_implies_less)
  from lower_bound_loop_spec [of "length xs" "\<lambda>i. lt (xs ! i)" 0 "length xs", OF this]
  show "lower_bound lt xs \<le> length xs"
    "i < length xs \<Longrightarrow> lt (xs ! i) \<longleftrightarrow> i < lower_bound lt xs"
    by (auto simp: lower_bound_def)
qed

definition zone_key :: "bool \<Rightarrow> Transition \<Rightarrow> int" where
  "zone_key gmt x = (if gmt then gmttime x else tr_localtime x)"

lemma Comp_key:
  "Comp_less g x y \<longleftrightarrow> zone_key g x < zone_key g y"
  "Comp_equal g x y \<longleftrightarrow> zone_key g x = zone_key g y"
  by (auto simp: Comp_less_def Comp_equal_def zone_key_def)

definition zone_wf :: "TZData \<Rightarrow> bool" where
  "zone_wf d \<longleftrightarrow> localtimes d \<noteq> [] \<and>
     (\<forall>t \<in> set (transitions d). 0 \<le> localtimeIdx t \<and> nat (localtimeIdx t) < length (localtimes d)) \<and>
     (\<forall>l \<in> set (localtimes d). 0 \<le> arrbIdx l \<and> nat (arrbIdx l) \<le> length (tz_abbrev d))"

lemma last_filter_prefix:
  assumes "k < length xs" "\<And>i. i < length xs \<Longrightarrow> P (xs ! i) \<longleftrightarrow> i \<le> k"
  shows "filter P xs \<noteq> [] \<and> last (filter P xs) = xs ! k"
proof -
  have "filter P (take (Suc k) xs) = take (Suc k) xs"
    using assms by (auto simp: filter_id_conv in_set_conv_nth)
  moreover have "filter P (drop (Suc k) xs) = []"
    using assms by (auto simp: filter_empty_conv in_set_conv_nth)
  ultimately have "filter P xs = take (Suc k) xs"
    by (metis append_Nil2 append_take_drop_id filter_append)
  with assms(1) show ?thesis by (simp add: take_Suc_conv_app_nth)
qed

text \<open>
  The rule in force at a time: that of the last transition not after it, the first rule of
  the zone before every transition.
\<close>

definition rule_at :: "bool \<Rightarrow> TZData \<Rightarrow> int \<Rightarrow> Localtime" where
  "rule_at g d v =
     (case filter (\<lambda>x. zone_key g x \<le> v) (transitions d) of
        [] \<Rightarrow> hd (localtimes d)
      | ys \<Rightarrow> localtimes d ! nat (localtimeIdx (last ys)))"

lemma rule_at_last:
  assumes "filter (\<lambda>x. zone_key g x \<le> v) (transitions d) \<noteq> []"
  shows "rule_at g d v =
    localtimes d ! nat (localtimeIdx (last (filter (\<lambda>x. zone_key g x \<le> v) (transitions d))))"
  using assms by (auto simp: rule_at_def split: list.splits)

lemma findLocaltime_rule:
  assumes "zone_wf d" "sorted_wrt (\<lambda>x y. zone_key g x < zone_key g y) (transitions d)"
  shows "findLocaltime nd d s g = Inr (rule_at g d (zone_key g s))"
proof -
  let ?ts = "transitions d" and ?v = "zone_key g s"
  let ?P = "\<lambda>x. zone_key g x \<le> ?v"
  let ?k = "lower_bound (\<lambda>x. Comp_less g x s) ?ts"
  have "sorted_wrt (\<lambda>x y. Comp_less g y s \<longrightarrow> Comp_less g x s) ?ts"
    by (rule sorted_wrt_mono_rel [OF _ assms(2)]) (auto simp: Comp_key)
  note lb = lower_bound_spec [OF this, unfolded Comp_key]
  have idx: "localtime_at d (localtimeIdx t) = Inr (localtimes d ! nat (localtimeIdx t))"
    if "t \<in> set ?ts" for t using assms(1) that by (auto simp: localtime_at_def zone_wf_def)
  have mono: "zone_key g (?ts ! i) < zone_key g (?ts ! j)" if "i < j" "j < length ?ts" for i j
    using assms(2) that by (auto simp: sorted_wrt_iff_nth_less)
  show ?thesis
  proof (cases "?ts = [] \<or> ?v < zone_key g (hd ?ts)")
    case True
    then have "\<not> ?P (?ts ! i)" if "i < length ?ts" for i
      using mono [of 0 i] that hd_conv_nth [of ?ts] by (cases "?ts = []"; cases "i = 0") auto
    then have "filter ?P ?ts = []" by (auto simp: filter_empty_conv in_set_conv_nth)
    with True assms(1) show ?thesis
      by (auto simp: findLocaltime_def Comp_key rule_at_def localtime_at_def zone_wf_def hd_conv_nth)
  next
    case False
    define k where "k = ?k"
    have k: "k \<le> length ?ts" "\<And>i. i < length ?ts \<Longrightarrow> zone_key g (?ts ! i) < ?v \<longleftrightarrow> i < k"
      using lb by (auto simp: k_def Comp_key)
    have kk: "lower_bound (\<lambda>x. zone_key g x < ?v) ?ts = k" by (simp add: k_def Comp_key)
    define q where "q = (if k < length ?ts \<and> zone_key g (?ts ! k) = ?v then k else k - 1)"
    have ne: "?ts \<noteq> []" "zone_key g (?ts ! 0) \<le> ?v" using False by (auto simp: hd_conv_nth)
    have k0: "k \<noteq> 0" if "\<not> (k < length ?ts \<and> zone_key g (?ts ! k) = ?v)"
    proof
      assume "k = 0"
      with that ne k(2) [of 0] show False by auto
    qed
    then have kpos: "q < length ?ts" using k(1) ne(1) by (auto simp: q_def)
    have P: "?P (?ts ! i) \<longleftrightarrow> i \<le> q" if "i < length ?ts" for i
    proof -
      consider "i < k" | "i = k" | "k < i" by linarith
      then show ?thesis
      proof cases
        case 1
        with k(2) [OF that] show ?thesis by (auto simp: q_def)
      next
        case 2
        with k(2) [OF that] k0 that show ?thesis by (auto simp: q_def)
      next
        case 3
        with k(2) [of k] mono [OF 3 that] that show ?thesis by (auto simp: q_def)
      qed
    qed
    from last_filter_prefix [OF kpos P] have lf: "filter ?P ?ts \<noteq> []" "last (filter ?P ?ts) = ?ts ! q"
      by blast+
    have "findLocaltime nd d s g = localtime_at d (localtimeIdx (?ts ! q))"
      using False k0 k(1)
      by (auto simp: findLocaltime_def Comp_key q_def Let_def cassert_holds last_conv_nth
          kk)
    with idx kpos lf show ?thesis by (simp add: rule_at_last)
  qed
qed

subsection \<open>The file format\<close>

text \<open>
  A version 1 zone file: the magic, a version and fifteen unused bytes, six counts, the
  transition times, the index of the rule of each, the rules and the abbreviations.
\<close>

definition enc_int32 :: "int \<Rightarrow> char list" where
  "enc_int32 x = be_bytes 4 (unat (word_of_int x :: 32 word))"

definition enc_type :: "Localtime \<Rightarrow> char list" where
  "enc_type l = enc_int32 (gmtOffset l) @
     [if isDst l then CHR 0x01 else CHR 0x00, char_of (nat (arrbIdx l))]"

definition encode_zone :: "(int \<times> int) list \<Rightarrow> Localtime list \<Rightarrow> string \<Rightarrow> char list" where
  "encode_zone trs types abbr =
     ''TZif'' @ replicate 16 (CHR 0x00) @ enc_int32 0 @ enc_int32 0 @ enc_int32 0 @
     enc_int32 (int (length trs)) @ enc_int32 (int (length types)) @ enc_int32 (int (length abbr)) @
     concat (map (\<lambda>x. enc_int32 (fst x)) trs) @ map (\<lambda>x. char_of (nat (snd x))) trs @
     concat (map enc_type types) @ abbr"

lemma readInt32_enc [simp]: "File_readInt32 e (enc_int32 x @ f) = Inr (word_of_int x, f)"
  by (simp add: File_readInt32_def enc_int32_def)

lemma sint_word_of_int32: "int32_range x \<Longrightarrow> sint (word_of_int x :: 32 word) = x"
  using signed_take_bit_int_eq_self [of 31 x] by (simp add: int32_range_def sint_sbintrunc')

lemma sint_word_of_nat32: "int32_range (int n) \<Longrightarrow> sint (word_of_nat n :: 32 word) = int n"
  using sint_word_of_int32 [of "int n"] by simp

lemma readTrans_enc:
  assumes "\<And>x. x \<in> set xs \<Longrightarrow> int32_range (fst x)"
  shows "readTrans e (length xs) (concat (map (\<lambda>x. enc_int32 (fst x)) xs) @ f) = Inr (map fst xs, f)"
  using assms by (induction xs) (auto simp: sint_word_of_int32)

lemma uint_of_char_byte: "0 \<le> k \<Longrightarrow> k < 256 \<Longrightarrow> uint (of_char (char_of (nat k)) :: 8 word) = k"
proof -
  assume k: "0 \<le> k" "k < 256"
  have "(of_char (char_of (nat k)) :: 8 word) = of_nat (of_char (char_of (nat k)))"
    by (simp only: of_nat_of_char)
  also have "\<dots> = of_nat (nat k)" using k by simp
  also have "\<dots> = word_of_int k" using k by simp
  finally show ?thesis using k by (simp add: uint_word_of_int)
qed

lemma readLocals_enc:
  assumes "\<And>x. x \<in> set xs \<Longrightarrow> 0 \<le> snd x \<and> snd x < 256"
  shows "readLocals (length xs) (map (\<lambda>x. char_of (nat (snd x))) xs @ f) = Inr (map snd xs, f)"
  using assms by (induction xs) (auto simp: readUInt8_def uint_of_char_byte)

lemma readTypes_enc:
  assumes "\<And>l. l \<in> set ls \<Longrightarrow> int32_range (gmtOffset l) \<and> 0 \<le> arrbIdx l \<and> arrbIdx l < 256"
  shows "readTypes e (length ls) (concat (map enc_type ls) @ f) d =
     (Inr f, d\<lparr>localtimes := localtimes d @ ls\<rparr>)"
  using assms
proof (induction ls arbitrary: d)
  case (Cons l ls)
  from Cons.prems [of l] have "sint (word_of_int (gmtOffset l) :: 32 word) = gmtOffset l"
    "uint (of_char (char_of (nat (arrbIdx l))) :: 8 word) = arrbIdx l"
    by (simp_all add: sint_word_of_int32 uint_of_char_byte)
  then have "readTypes e (length (l # ls)) (concat (map enc_type (l # ls)) @ f) d =
      readTypes e (length ls) (concat (map enc_type ls) @ f) (d\<lparr>localtimes := localtimes d @ [l]\<rparr>)"
    by (cases l) (simp add: enc_type_def readUInt8_def Localtime_new_def)
  with Cons show ?case by simp
qed simp

lemma readHead_refused:
  assumes "take 4 f \<noteq> ''TZif''"
  obtains m where "readHead e f = Inl (LogicError m)"
proof (cases "length f < 4")
  case True
  with that show ?thesis by (simp add: readHead_def readBytes_def)
next
  case False
  with that assms show ?thesis by (simp add: readHead_def readBytes_def [of 4])
qed

lemma makeTransitions_ok:
  assumes "\<forall>x \<in> set xs. nat (snd x) < length (localtimes d)"
  shows "makeTransitions xs d = Inr (d\<lparr>transitions := transitions d @
     map (\<lambda>(t, i). Transition_new t (t + gmtOffset (localtimes d ! nat i)) i) xs\<rparr>)"
  using assms by (induction xs arbitrary: d) auto

subsection \<open>\<open>timegm\<close> inverts \<open>gmtime_r\<close>\<close>

lemma days_to_year_jdn:
  assumes "- 4799 \<le> y"
  shows "getJulianDayNumber y 1 1 = days_to_year y + 2440588"
proof -
  have d: "(y + 4799) div 4 = (y - 1) div 4 + 1200" "(y + 4799) div 100 = (y - 1) div 100 + 48"
    "(y + 4799) div 400 = (y - 1) div 400 + 12"
    using div_mult_self1 [of 4 "y - 1" 1200] div_mult_self1 [of 100 "y - 1" 48]
      div_mult_self1 [of 400 "y - 1" 12] by (simp_all add: algebra_simps)
  have my: "march_year y 1 = y + 4799" "0 \<le> march_year y 1" using assms by (simp_all add: march_year_def)
  have "getJulianDayNumber y 1 1 = doy (march_month 1) 1 + day_count (march_year y 1) - 32044"
    using my(2) by (intro getJulianDayNumber_eq) simp_all
  then show ?thesis
    unfolding my(1) by (simp add: march_month_def doy_def day_count_def d days_to_year_def Let_def
        algebra_simps)
qed

lemma timegm_gmtime_r:
  assumes "utc_range t"
  shows "timegm ((gmtime_r t)\<lparr>tm_isdst := a, tm_gmtoff := b, tm_zone := c\<rparr>) = t"
proof -
  let ?j = "2440588 + t div 86400"
  obtain y m d where y: "ymd_triple ?j = (y, m, d)" "getJulianDayNumber y m d = ?j"
    "valid_date y m d" "- 4799 \<le> y"
    using ymd_triple_ex [OF utc_range_jdn [OF assms]] by metis
  have cv: "civil (t div 86400) = (y, m, d)"
    using civil_ymd [of "t div 86400"] assms y(1) by (simp add: utc_range_def)
  have m: "1 \<le> m" "m \<le> 12" using y(3) by (simp_all add: valid_date_def)
  have mm: "(m - 1) mod 12 = m - 1" "(m - 1) div 12 = 0" using m by simp_all
  have dd: "days_to_year y + days_before y m + d - 1 = t div 86400"
    using jdn_yday [OF m y(4), of d] days_to_year_jdn [OF y(4)] y(2) by linarith
  define s where "s = t mod 86400"
  define dx where "dx = t div 86400"
  note hms_sum [of s]
  moreover have "dx * 86400 + s = t" by (simp add: s_def dx_def)
  moreover have "timegm ((gmtime_r t)\<lparr>tm_isdst := a, tm_gmtoff := b, tm_zone := c\<rparr>) =
      dx * 86400 + s div 3600 * 3600 + s div 60 mod 60 * 60 + s mod 60"
    unfolding timegm_def gmtime_r_def cv prod.case Let_def s_def [symmetric]
    by (simp add: mm dd flip: dx_def)
  ultimately show ?thesis by linarith
qed

subsection \<open>Properties of zones\<close>

text \<open>
  C36: reading back a well-formed zone file, on a host of either byte order, whatever
  follows the abbreviations in the file: the constructor returns a zone with exactly the
  rules and abbreviations of the file and one transition per entry, whose local time is
  its UTC time plus the offset of its rule.
\<close>

theorem TimeZone_of_encoded_file:
  assumes "\<forall>(t, i) \<in> set trs. int32_range t \<and> 0 \<le> i \<and> i < 256 \<and> nat i < length types"
    and "\<forall>l \<in> set types. int32_range (gmtOffset l) \<and> 0 \<le> arrbIdx l \<and> arrbIdx l < 256"
    and "length trs < 2 ^ 31" "length types < 2 ^ 31" "length abbr < 2 ^ 31"
  shows "TimeZone_of_file e (Some (encode_zone trs types abbr @ rest)) =
     Inr (Some \<lparr>transitions = map (\<lambda>(t, i). Transition_new t (t + gmtOffset (types ! nat i)) i) trs,
                localtimes = types, names = [], tz_abbrev = abbr\<rparr>)"
proof -
  have r: "int32_range (int (length trs))" "int32_range (int (length types))"
    "int32_range (int (length abbr))" "int32_range 0"
    using assms(3-5) by (simp_all add: int32_range_def)
  have s: "\<And>x. x \<in> set trs \<Longrightarrow> int32_range (fst x)" "\<And>x. x \<in> set trs \<Longrightarrow> 0 \<le> snd x \<and> snd x < 256"
    "\<And>x. x \<in> set trs \<Longrightarrow> nat (snd x) < length types"
    using assms(1) by auto
  have t: "\<And>l. l \<in> set types \<Longrightarrow> int32_range (gmtOffset l) \<and> 0 \<le> arrbIdx l \<and> arrbIdx l < 256"
    using assms(2) by blast
  have h: "readHead e (encode_zone trs types abbr @ rest) =
     Inr (\<lparr>leapcnt = 0, timecnt = int (length trs), typecnt = int (length types),
           charcnt = int (length abbr)\<rparr>, map fst trs, map snd trs,
          concat (map enc_type types) @ abbr @ rest)"
    using r by (simp add: readHead_def encode_zone_def readBytes_def sint_word_of_nat32
        readTrans_enc [OF s(1)] readLocals_enc [OF s(2)])
  show ?thesis
    using r
    by (simp add: TimeZone_of_file_def readTimeZoneFile_def readZone_def h readTypes_enc [OF t]
        zip_map_fst_snd makeTransitions_ok [of trs] s(3) TZData_empty_def readBytes_def)
qed

theorem TimeZone_of_encoded_file_witness:
  "\<exists>tz. TimeZone_of_file LittleEndian (Some (encode_zone [(100, 1)]
       [Localtime_new 0 False 0, Localtime_new 3600 True 4] ''GMT'')) = Inr (Some tz) \<and>
     transitions tz = [Transition_new 100 3700 1]"
  using TimeZone_of_encoded_file [of "[(100, 1)]" "[Localtime_new 0 False 0, Localtime_new 3600 True 4]"
      "''GMT''" LittleEndian "[]"]
  by (simp add: Localtime_new_def int32_range_def)

text \<open>
  \<open>findLocaltime\<close>, in either comparison mode, on a well-formed zone whose transitions
  are in strictly increasing order: its binary search finds the rule in force at the time
  asked for, and its assertion never fails.
\<close>

theorem findLocaltime_rule_at:
  assumes "zone_wf d" and "sorted_wrt (\<lambda>x y. zone_key g x < zone_key g y) (transitions d)"
  shows "findLocaltime nd d s g = Inr (rule_at g d (zone_key g s))"
  by (rule findLocaltime_rule [OF assms])

theorem findLocaltime_rule_at_witness:
  "findLocaltime False \<lparr>transitions = [Transition_new 100 3700 1, Transition_new 200 200 0],
      localtimes = [Localtime_new 0 False 0, Localtime_new 3600 True 0], names = [],
      tz_abbrev = ''X''\<rparr> (Transition_new 150 0 0) True = Inr (Localtime_new 3600 True 0)"
  using findLocaltime_rule_at [of "\<lparr>transitions = [Transition_new 100 3700 1, Transition_new 200 200 0],
      localtimes = [Localtime_new 0 False 0, Localtime_new 3600 True 0], names = [],
      tz_abbrev = ''X''\<rparr>" True False "Transition_new 150 0 0"]
  by (simp add: zone_wf_def Transition_new_def Localtime_new_def zone_key_def rule_at_def)

text \<open>
  In a fixed time zone \<open>fromLocalTime\<close> inverts \<open>toLocalTime\<close>.
\<close>

theorem fixed_zone_round_trip:
  assumes "utc_range (t + eastOfUtc)"
  shows "\<exists>x. toLocalTime nd (TimeZone_fixed eastOfUtc tzname) t = Inr x \<and>
     tm_gmtoff x = eastOfUtc \<and> fromLocalTime nd (TimeZone_fixed eastOfUtc tzname) x = Inr t"
  using timegm_gmtime_r [OF assms]
  by (simp add: TimeZone_fixed_def toLocalTime_def fromLocalTime_def findLocaltime_def
      TZData_empty_def localtime_at_def Localtime_new_def c_str_at_def Let_def)

theorem fixed_zone_round_trip_witness:
  "\<exists>x. toLocalTime False (TimeZone_fixed 28800 ''CST'') (- 5) = Inr x \<and>
     fromLocalTime False (TimeZone_fixed 28800 ''CST'') x = Inr (- 5)"
  using fixed_zone_round_trip [of "- 5" 28800 False "''CST''"] by (auto simp: utc_range_def)

text \<open>
  A zone file that cannot be opened still gives a time zone that says it is valid,
  because \<open>readTimeZoneFile\<close> returns true on every path; the first conversion to local time
  then reads the front of an empty vector, and so does every zone whose file is refused
  for its head.
\<close>

theorem missing_zone_file_is_valid:
  assumes "f = None \<or> (\<exists>b. f = Some b \<and> take 4 b \<noteq> ''TZif'')"
  shows "\<exists>tz. TimeZone_of_file e f = Inr tz \<and> TimeZone_valid tz \<and>
     toLocalTime nd tz seconds = Inl OutOfBounds"
proof -
  have "TimeZone_of_file e f = Inr (Some TZData_empty)"
  proof (cases f)
    case None
    then show ?thesis by (simp add: TimeZone_of_file_def readTimeZoneFile_def)
  next
    case (Some b)
    with assms obtain m where "readHead e b = Inl (LogicError m)" using readHead_refused by blast
    with Some show ?thesis by (simp add: TimeZone_of_file_def readTimeZoneFile_def readZone_def)
  qed
  then show ?thesis
    by (simp add: TimeZone_valid_def toLocalTime_def findLocaltime_def TZData_empty_def
        localtime_at_def)
qed

theorem missing_zone_file_is_valid_witness:
  "\<exists>tz. TimeZone_of_file LittleEndian None = Inr tz \<and> TimeZone_valid tz \<and>
     toLocalTime False tz 0 = Inl OutOfBounds"
  by (rule missing_zone_file_is_valid) simp

end
