(* ===== verification/Arale_LogStream.thy ===== *)
theory Arale_LogStream
  imports Arale_Format
begin

section \<open>Formatting log messages (\<open>arale/base/LogStream.h\<close>, \<open>arale/base/LogStream.cc\<close>)\<close>

text \<open>
  \<open>FixedBuffer\<close> is a byte array of fixed size with a write position; \<open>LogStream\<close> writes
  the text of values into one of 4000 bytes. A store outside the array is \<open>OutOfBounds\<close>.
  The integer types all go through \<open>convert\<close>, whose value parameter is an \<open>int\<close> here: no
  operation of it leaves the range of its type. A \<open>double\<close> is represented by the text
  \<open>%.12g\<close> gives it. The lemmas show that every insertion appends its whole text or
  nothing and never writes outside the array.
\<close>

subsection \<open>Integer conversion\<close>

definition convert_digits :: string where
  "convert_digits = ''9876543210123456789''"

definition digitsHex :: string where
  "digitsHex = ''0123456789ABCDEF''"

text \<open>
  The \<open>do\<close> loop of \<open>convert\<close>: \<open>zero[lsd]\<close> is \<open>digits[9 + lsd]\<close>, for a negative remainder
  too.
\<close>

function convert_loop :: "int \<Rightarrow> string" where
  "convert_loop i =
     (let lsd = tmod i 10; i' = tdiv i 10; c = convert_digits ! nat (9 + lsd)
      in if i' \<noteq> 0 then c # convert_loop i' else [c])"
  by pat_completeness auto
termination
proof (relation "measure (nat \<circ> abs)")
  fix i lsd i' :: int and c :: char
  assume "i' = tdiv i 10" "i' \<noteq> 0"
  then have "\<bar>i'\<bar> = \<bar>i\<bar> div 10" "i \<noteq> 0" by (auto simp: tdiv_def abs_mult)
  then show "(i', i) \<in> measure (nat \<circ> abs)" by simp
qed simp

declare convert_loop.simps [simp del]

text \<open>
  The characters \<open>convert\<close> leaves in \<open>buf\<close> before the terminating zero; it returns their
  number.
\<close>

definition convert :: "int \<Rightarrow> string" where
  "convert value = rev (convert_loop value @ (if value < 0 then ''-'' else []))"

fun convertHex_loop :: "nat \<Rightarrow> string" where
  "convertHex_loop i =
     (let lsd = i mod 16; i' = i div 16; c = digitsHex ! lsd
      in if i' \<noteq> 0 then c # convertHex_loop i' else [c])"

declare convertHex_loop.simps [simp del]

definition convertHex :: "nat \<Rightarrow> string" where
  "convertHex value = rev (convertHex_loop value)"

subsection \<open>The fixed buffer\<close>

datatype cookie = CookieStart | CookieEnd

record FixedBuffer =
  cookie :: cookie
  fb_data :: "char list"
  cur :: nat

definition kSmallBuffer :: nat where "kSmallBuffer = 4000"

definition kLargeBuffer :: nat where "kLargeBuffer = 4000 * 1000"

text \<open>The array is not initialised: its contents are the argument.\<close>

definition FixedBuffer_new :: "char list \<Rightarrow> FixedBuffer" where
  "FixedBuffer_new garbage = \<lparr>cookie = CookieStart, fb_data = garbage, cur = 0\<rparr>"

definition FixedBuffer_destroy :: "FixedBuffer \<Rightarrow> FixedBuffer" where
  "FixedBuffer_destroy b = b\<lparr>cookie := CookieEnd\<rparr>"

definition avail :: "FixedBuffer \<Rightarrow> nat" where
  "avail b = length (fb_data b) - cur b"

definition fb_store :: "nat \<Rightarrow> char list \<Rightarrow> FixedBuffer \<Rightarrow> FixedBuffer result" where
  "fb_store i s b = bindR (array_write i s (fb_data b)) (\<lambda>d. Inr (b\<lparr>fb_data := d\<rparr>))"

definition fb_add :: "nat \<Rightarrow> FixedBuffer \<Rightarrow> FixedBuffer" where
  "fb_add len b = b\<lparr>cur := cur b + len\<rparr>"

definition fb_append :: "char list \<Rightarrow> FixedBuffer \<Rightarrow> FixedBuffer result" where
  "fb_append buf b =
     (if avail b > length buf
      then bindR (fb_store (cur b) buf b) (\<lambda>b'. Inr (fb_add (length buf) b')) else Inr b)"

definition fb_length :: "FixedBuffer \<Rightarrow> nat" where
  "fb_length b = cur b"

definition fb_reset :: "FixedBuffer \<Rightarrow> FixedBuffer" where
  "fb_reset b = b\<lparr>cur := 0\<rparr>"

definition fb_bzero :: "FixedBuffer \<Rightarrow> FixedBuffer" where
  "fb_bzero b = b\<lparr>fb_data := replicate (length (fb_data b)) (CHR 0x00)\<rparr>"

definition fb_toString :: "FixedBuffer \<Rightarrow> string" where
  "fb_toString b = take (cur b) (fb_data b)"

definition debugString :: "FixedBuffer \<Rightarrow> (string \<times> FixedBuffer) result" where
  "debugString b =
     bindR (fb_store (cur b) [CHR 0x00] b) (\<lambda>b'.
     Inr (takeWhile (\<lambda>c. c \<noteq> CHR 0x00) (fb_data b'), b'))"

subsection \<open>The stream\<close>

definition kMaxNumericSize :: nat where "kMaxNumericSize = 32"

text \<open>\<open>convert\<close> writes its characters and a zero byte at \<open>current()\<close>.\<close>

definition formatInteger :: "int \<Rightarrow> FixedBuffer \<Rightarrow> FixedBuffer result" where
  "formatInteger v b =
     (if avail b \<ge> kMaxNumericSize then
        bindR (fb_store (cur b) (convert v @ [CHR 0x00]) b) (\<lambda>b'.
        Inr (fb_add (length (convert v)) b'))
      else Inr b)"

definition out_int :: "int \<Rightarrow> FixedBuffer \<Rightarrow> FixedBuffer result" where
  "out_int v b = formatInteger v b"

definition out_uint :: "int \<Rightarrow> FixedBuffer \<Rightarrow> FixedBuffer result" where
  "out_uint v b = formatInteger v b"

definition out_long :: "int \<Rightarrow> FixedBuffer \<Rightarrow> FixedBuffer result" where
  "out_long v b = formatInteger v b"

definition out_ulong :: "int \<Rightarrow> FixedBuffer \<Rightarrow> FixedBuffer result" where
  "out_ulong v b = formatInteger v b"

definition out_longlong :: "int \<Rightarrow> FixedBuffer \<Rightarrow> FixedBuffer result" where
  "out_longlong v b = formatInteger v b"

definition out_ulonglong :: "int \<Rightarrow> FixedBuffer \<Rightarrow> FixedBuffer result" where
  "out_ulonglong v b = formatInteger v b"

definition out_short :: "int \<Rightarrow> FixedBuffer \<Rightarrow> FixedBuffer result" where
  "out_short v b = out_int v b"

definition out_ushort :: "int \<Rightarrow> FixedBuffer \<Rightarrow> FixedBuffer result" where
  "out_ushort v b = out_uint v b"

definition out_bool :: "bool \<Rightarrow> FixedBuffer \<Rightarrow> FixedBuffer result" where
  "out_bool v b = fb_append (if v then ''1'' else ''0'') b"

definition out_pointer :: "nat \<Rightarrow> FixedBuffer \<Rightarrow> FixedBuffer result" where
  "out_pointer v b =
     (if avail b \<ge> kMaxNumericSize then
        bindR (fb_store (cur b) ''0x'' b) (\<lambda>b1.
        bindR (fb_store (cur b + 2) (convertHex v @ [CHR 0x00]) b1) (\<lambda>b2.
        Inr (fb_add (length (convertHex v) + 2) b2)))
      else Inr b)"

text \<open>
  \<open>snprintf(buffer_.current(), 32, "%.12g", v)\<close> stores at most 31 characters and a zero
  and returns the length of the whole text.
\<close>

definition out_double :: "string \<Rightarrow> FixedBuffer \<Rightarrow> FixedBuffer result" where
  "out_double txt b =
     (if avail b \<ge> kMaxNumericSize then
        bindR (fb_store (cur b) (snprintf kMaxNumericSize txt @ [CHR 0x00]) b) (\<lambda>b'.
        Inr (fb_add (length txt) b'))
      else Inr b)"

definition out_float :: "string \<Rightarrow> FixedBuffer \<Rightarrow> FixedBuffer result" where
  "out_float txt b = out_double txt b"

definition out_char :: "char \<Rightarrow> FixedBuffer \<Rightarrow> FixedBuffer result" where
  "out_char v b = fb_append [v] b"

definition out_cstr :: "string option \<Rightarrow> FixedBuffer \<Rightarrow> FixedBuffer result" where
  "out_cstr str b =
     (case str of Some s \<Rightarrow> fb_append s b | None \<Rightarrow> fb_append ''(null)'' b)"

definition out_ucstr :: "string option \<Rightarrow> FixedBuffer \<Rightarrow> FixedBuffer result" where
  "out_ucstr str b = out_cstr str b"

definition out_string :: "string \<Rightarrow> FixedBuffer \<Rightarrow> FixedBuffer result" where
  "out_string v b = fb_append v b"

definition out_piece :: "string \<Rightarrow> FixedBuffer \<Rightarrow> FixedBuffer result" where
  "out_piece v b = fb_append v b"

definition out_buffer :: "FixedBuffer \<Rightarrow> FixedBuffer \<Rightarrow> FixedBuffer result" where
  "out_buffer v b = out_piece (fb_toString v) b"

text \<open>\<open>Fmt\<close>: the text of one \<open>snprintf\<close> in a buffer of 32 bytes and its length.\<close>

record Fmt =
  fmt_buf :: string
  fmt_len :: nat

definition Fmt_new :: "bool \<Rightarrow> string \<Rightarrow> Fmt result" where
  "Fmt_new nd txt =
     cassert nd (length txt < 32)
       (Inr \<lparr>fmt_buf = snprintf 32 txt @ replicate (32 - length (snprintf 32 txt)) (CHR 0x00),
             fmt_len = length txt\<rparr>)"

definition out_Fmt :: "Fmt \<Rightarrow> FixedBuffer \<Rightarrow> FixedBuffer result" where
  "out_Fmt f b =
     (if avail b > fmt_len f \<and> length (fmt_buf f) < fmt_len f then Inl OutOfBounds
      else fb_append (take (fmt_len f) (fmt_buf f)) b)"

text \<open>The values that can be inserted, and the insertion of each.\<close>

datatype log_item =
    LBool bool | LShort int | LUShort int | LInt int | LUInt int | LLong int | LULong int
  | LLongLong int | LULongLong int | LPointer nat | LDouble string | LFloat string | LChar char
  | LCStr "string option" | LUCStr "string option" | LString string | LPiece string

fun log_insert :: "log_item \<Rightarrow> FixedBuffer \<Rightarrow> FixedBuffer result" where
  "log_insert (LBool v) b = out_bool v b"
| "log_insert (LShort v) b = out_short v b"
| "log_insert (LUShort v) b = out_ushort v b"
| "log_insert (LInt v) b = out_int v b"
| "log_insert (LUInt v) b = out_uint v b"
| "log_insert (LLong v) b = out_long v b"
| "log_insert (LULong v) b = out_ulong v b"
| "log_insert (LLongLong v) b = out_longlong v b"
| "log_insert (LULongLong v) b = out_ulonglong v b"
| "log_insert (LPointer v) b = out_pointer v b"
| "log_insert (LDouble v) b = out_double v b"
| "log_insert (LFloat v) b = out_float v b"
| "log_insert (LChar v) b = out_char v b"
| "log_insert (LCStr v) b = out_cstr v b"
| "log_insert (LUCStr v) b = out_ucstr v b"
| "log_insert (LString v) b = out_string v b"
| "log_insert (LPiece v) b = out_piece v b"

text \<open>The text of an item, and the items a program can pass (each within the range of its type).\<close>

fun log_text :: "log_item \<Rightarrow> string" where
  "log_text (LBool v) = (if v then ''1'' else ''0'')"
| "log_text (LShort v) = sdec v"
| "log_text (LUShort v) = sdec v"
| "log_text (LInt v) = sdec v"
| "log_text (LUInt v) = sdec v"
| "log_text (LLong v) = sdec v"
| "log_text (LULong v) = sdec v"
| "log_text (LLongLong v) = sdec v"
| "log_text (LULongLong v) = sdec v"
| "log_text (LPointer v) = ''0x'' @ convertHex v"
| "log_text (LDouble v) = v"
| "log_text (LFloat v) = v"
| "log_text (LChar v) = [v]"
| "log_text (LCStr v) = (case v of Some s \<Rightarrow> s | None \<Rightarrow> ''(null)'')"
| "log_text (LUCStr v) = (case v of Some s \<Rightarrow> s | None \<Rightarrow> ''(null)'')"
| "log_text (LString v) = v"
| "log_text (LPiece v) = v"

fun item_wf :: "log_item \<Rightarrow> bool" where
  "item_wf (LShort v) \<longleftrightarrow> - (2 ^ 15) \<le> v \<and> v < 2 ^ 15"
| "item_wf (LUShort v) \<longleftrightarrow> 0 \<le> v \<and> v < 2 ^ 16"
| "item_wf (LInt v) \<longleftrightarrow> - (2 ^ 31) \<le> v \<and> v < 2 ^ 31"
| "item_wf (LUInt v) \<longleftrightarrow> 0 \<le> v \<and> v < 2 ^ 32"
| "item_wf (LLong v) \<longleftrightarrow> - (2 ^ 63) \<le> v \<and> v < 2 ^ 63"
| "item_wf (LULong v) \<longleftrightarrow> 0 \<le> v \<and> v < 2 ^ 64"
| "item_wf (LLongLong v) \<longleftrightarrow> - (2 ^ 63) \<le> v \<and> v < 2 ^ 63"
| "item_wf (LULongLong v) \<longleftrightarrow> 0 \<le> v \<and> v < 2 ^ 64"
| "item_wf (LPointer v) \<longleftrightarrow> v < 2 ^ 64"
| "item_wf (LDouble v) \<longleftrightarrow> length v < 32"
| "item_wf (LFloat v) \<longleftrightarrow> length v < 32"
| "item_wf _ \<longleftrightarrow> True"

fun log_insert_all :: "log_item list \<Rightarrow> FixedBuffer \<Rightarrow> FixedBuffer result" where
  "log_insert_all [] b = Inr b"
| "log_insert_all (x # xs) b = bindR (log_insert x b) (log_insert_all xs)"

definition fb_inv :: "FixedBuffer \<Rightarrow> bool" where
  "fb_inv b \<longleftrightarrow> cur b \<le> length (fb_data b)"

subsection \<open>The digits\<close>

lemma convert_digit_cases:
  "d < 10 \<Longrightarrow> convert_digits ! (9 + d) = digit d \<and> convert_digits ! (9 - d) = digit d"
proof -
  assume "d < 10"
  then have "d \<in> set [0..<10]" by simp
  then have "d \<in> {0, 1, 2, 3, 4, 5, 6, 7, 8, 9}" by (simp add: upt_rec numeral_eq_Suc)
  then show ?thesis by (auto simp: convert_digits_def digit_def char_of_def bit_0)
qed

lemma convert_digit_tmod: "convert_digits ! nat (9 + tmod i 10) = digit (nat \<bar>i\<bar> mod 10)"
proof (cases "i < 0")
  case True
  define d where "d = nat ((- i) mod 10)"
  have d: "d < 10" "int d = (- i) mod 10" by (auto simp: d_def)
  have "nat (9 + tmod i 10) = 9 - d" using True d by (simp add: tmod_neg nat_diff_distrib)
  moreover have "nat \<bar>i\<bar> mod 10 = d" using True by (simp add: d_def nat_mod_distrib)
  ultimately show ?thesis using convert_digit_cases [OF d(1)] by simp
next
  case False
  define d where "d = nat (i mod 10)"
  have d: "d < 10" "int d = i mod 10" by (auto simp: d_def)
  have "nat (9 + tmod i 10) = 9 + d" using False d by (simp add: nat_add_distrib)
  moreover have "nat \<bar>i\<bar> mod 10 = d" using False by (simp add: d_def nat_mod_distrib)
  ultimately show ?thesis using convert_digit_cases [OF d(1)] by simp
qed

lemma abs_tdiv10: "nat \<bar>tdiv i 10\<bar> = nat \<bar>i\<bar> div 10"
  by (cases "i = 0") (simp_all add: tdiv_def abs_mult nat_div_distrib)

lemma convert_loop_dec: "rev (convert_loop i) = dec (nat \<bar>i\<bar>)"
proof (induction i rule: convert_loop.induct)
  case (1 i)
  have z: "tdiv i 10 = 0 \<longleftrightarrow> nat \<bar>i\<bar> < 10"
    using abs_tdiv10 [of i] by (metis abs_0_eq div_less_iff_less_mult div_eq_0_iff nat_0_iff nat_int
        abs_ge_zero order_antisym zero_neq_numeral)
  show ?case
  proof (cases "tdiv i 10 = 0")
    case True
    then have "nat \<bar>i\<bar> < 10" using z by simp
    with True show ?thesis
      by (simp add: convert_loop.simps [of i] dec.simps [of "nat \<bar>i\<bar>"] convert_digit_tmod)
  next
    case False
    then have "\<not> nat \<bar>i\<bar> < 10" using z by simp
    with False 1 show ?thesis
      by (simp add: convert_loop.simps [of i] dec.simps [of "nat \<bar>i\<bar>"] convert_digit_tmod
          abs_tdiv10 Let_def)
  qed
qed

lemma convert_sdec: "convert v = sdec v"
  by (simp add: convert_def sdec_def convert_loop_dec)

lemma length_convertHex:
  assumes "v < 16 ^ k" "0 < k"
  shows "length (convertHex v) \<le> k"
proof -
  have "length (convertHex_loop v) \<le> k" using assms
  proof (induction v arbitrary: k rule: convertHex_loop.induct)
    case (1 v)
    show ?case
    proof (cases "v < 16")
      case True
      with 1 show ?thesis by (simp add: convertHex_loop.simps [of v])
    next
      case False
      with 1 obtain j where k: "k = Suc j" "0 < j"
        by (metis One_nat_def Suc_pred neq0_conv power_one_right)
      then have "v div 16 < 16 ^ j" using 1 by (simp add: less_mult_imp_div_less)
      then have "length (convertHex_loop (v div 16)) \<le> j" using False k 1(1) by simp
      then show ?thesis using k by (simp add: convertHex_loop.simps [of v] Let_def)
    qed
  qed
  then show ?thesis by (simp add: convertHex_def)
qed

subsection \<open>Insertion\<close>

lemma fb_store_text:
  assumes "cur b \<le> i" "i + length s \<le> length (fb_data b)"
  shows "\<exists>b'. fb_store i s b = Inr b' \<and> cur b' = cur b \<and> length (fb_data b') = length (fb_data b) \<and>
     fb_data b' = take i (fb_data b) @ s @ drop (i + length s) (fb_data b) \<and> cookie b' = cookie b"
  using assms by (simp add: fb_store_def array_write_ok)

text \<open>
  An insertion appends its whole text or nothing, and it appends it whenever the text and
  32 bytes more fit.
\<close>

definition adds_text :: "FixedBuffer \<Rightarrow> string \<Rightarrow> FixedBuffer result \<Rightarrow> bool" where
  "adds_text b s r \<longleftrightarrow>
     (\<exists>b'. r = Inr b' \<and> fb_inv b' \<and> length (fb_data b') = length (fb_data b) \<and>
        (fb_toString b' = fb_toString b @ s \<or>
         fb_toString b' = fb_toString b \<and> length (fb_data b) < cur b + length s + kMaxNumericSize))"

lemma fb_append_text: "fb_inv b \<Longrightarrow> adds_text b s (fb_append s b)"
  by (auto simp: kMaxNumericSize_def adds_text_def fb_append_def avail_def fb_store_def fb_inv_def array_write_ok
      fb_add_def fb_toString_def)

lemma fb_numeric_text:
  assumes "fb_inv b" "length s < kMaxNumericSize" "kMaxNumericSize \<le> avail b"
  shows "adds_text b s (bindR (fb_store (cur b) (s @ [z]) b) (\<lambda>b'. Inr (fb_add (length s) b')))"
  using assms by (auto simp: adds_text_def avail_def fb_store_def fb_inv_def array_write_ok
      fb_add_def fb_toString_def)

lemma adds_nothing: "fb_inv b \<Longrightarrow> \<not> kMaxNumericSize \<le> avail b \<Longrightarrow> adds_text b s (Inr b)"
  by (auto simp: adds_text_def avail_def)

lemma formatInteger_text:
  assumes "fb_inv b" "- (2 ^ 64) < v" "v < 2 ^ 64"
  shows "adds_text b (sdec v) (formatInteger v b)"
proof -
  have "\<bar>v\<bar> < 10 ^ 20" using assms by simp
  from length_sdec_le [OF this] have "length (sdec v) < kMaxNumericSize"
    by (simp add: kMaxNumericSize_def)
  with assms show ?thesis
    by (simp add: formatInteger_def convert_sdec fb_numeric_text adds_nothing)
qed

lemma fb_store_seq:
  assumes "i + length s + length u \<le> length (fb_data b)"
  shows "bindR (fb_store i s b) (fb_store (i + length s) u) = fb_store i (s @ u) b"
proof -
  let ?d = "fb_data b"
  have "array_write (i + length s) u (take i ?d @ s @ drop (i + length s) ?d) =
      Inr (take i ?d @ s @ u @ drop (i + length s + length u) ?d)"
    using assms by (subst array_write_ok) (simp_all add: ac_simps)
  with assms show ?thesis by (simp add: fb_store_def array_write_ok add.assoc)
qed

lemma out_pointer_text:
  assumes "fb_inv b" "v < 2 ^ 64"
  shows "adds_text b (''0x'' @ convertHex v) (out_pointer v b)"
proof (cases "kMaxNumericSize \<le> avail b")
  case True
  let ?z = "convertHex v @ [CHR 0x00]"
  have l: "length (convertHex v) \<le> 16" using assms(2) by (intro length_convertHex) simp_all
  then have "cur b + length ''0x'' + length ?z \<le> length (fb_data b)"
    using True by (simp add: avail_def kMaxNumericSize_def)
  note st = fb_store_seq [OF this]
  have "out_pointer v b = bindR (bindR (fb_store (cur b) ''0x'' b) (fb_store (cur b + 2) ?z))
      (\<lambda>b2. Inr (fb_add (length (convertHex v) + 2) b2))"
    using True by (simp add: out_pointer_def bindR_assoc)
  also have "\<dots> = bindR (fb_store (cur b) ((''0x'' @ convertHex v) @ [CHR 0x00]) b)
      (\<lambda>b2. Inr (fb_add (length (''0x'' @ convertHex v)) b2))"
    using st by (simp add: numeral_2_eq_2)
  finally show ?thesis
    using fb_numeric_text [OF assms(1) _ True, of "''0x'' @ convertHex v"] l
    by (simp add: kMaxNumericSize_def)
next
  case False
  with assms(1) show ?thesis by (simp add: out_pointer_def adds_nothing)
qed

lemma out_double_text:
  assumes "fb_inv b" "length v < 32"
  shows "adds_text b v (out_double v b)"
  using assms by (simp add: out_double_def fb_numeric_text adds_nothing kMaxNumericSize_def)

lemmas out_defs = out_int_def out_uint_def out_long_def out_ulong_def out_longlong_def
  out_ulonglong_def out_short_def out_ushort_def out_bool_def out_float_def out_char_def out_cstr_def
  out_ucstr_def out_string_def out_piece_def

lemma log_insert_text:
  assumes "fb_inv b" "item_wf x"
  shows "adds_text b (log_text x) (log_insert x b)"
  using assms
  by (cases x) (auto simp: out_defs fb_append_text formatInteger_text out_pointer_text
      out_double_text out_pointer_text [simplified] split: option.splits)

lemma fb_cur: "fb_inv b \<Longrightarrow> length (fb_toString b) = cur b"
  by (simp add: fb_inv_def fb_toString_def)

lemma log_insert_all_fits:
  assumes "fb_inv b" "list_all item_wf xs"
    and "cur b + length (concat (map log_text xs)) + kMaxNumericSize \<le> length (fb_data b)"
  shows "\<exists>b'. log_insert_all xs b = Inr b' \<and> fb_inv b' \<and> length (fb_data b') = length (fb_data b) \<and>
     fb_toString b' = fb_toString b @ concat (map log_text xs)"
  using assms
proof (induction xs arbitrary: b)
  case (Cons x xs)
  then obtain b1 where b1: "log_insert x b = Inr b1" "fb_inv b1" "length (fb_data b1) = length (fb_data b)"
    "fb_toString b1 = fb_toString b @ log_text x"
    using log_insert_text [of b x] by (auto simp: adds_text_def)
  then have "cur b1 = cur b + length (log_text x)" using fb_cur Cons.prems(1) by (metis length_append)
  with Cons.IH [OF b1(2)] Cons.prems b1 show ?case by auto
qed simp

subsection \<open>Properties of the log stream\<close>

text \<open>
  \<open>convert\<close> prints every integer in decimal, negative ones included (the digit table is
  mirrored around zero and the most negative value is never negated): what it prints is the
  canonical numeral, and for 64-bit values it has at most 20 characters, so that with its
  terminating zero it fits the 32 bytes \<open>formatInteger\<close> asks for.
\<close>

theorem convert_decimal:
  "convert v = sdec v \<and>
   (0 \<le> v \<longrightarrow> int (undec (convert v)) = v) \<and>
   (v < 0 \<longrightarrow> hd (convert v) = CHR ''-'' \<and> - int (undec (tl (convert v))) = v) \<and>
   (- (2 ^ 63) \<le> v \<and> v < 2 ^ 64 \<longrightarrow> length (convert v) \<le> 20)"
proof -
  have "length (sdec v) \<le> 20" if "- (2 ^ 63) \<le> v" "v < 2 ^ 64"
  proof (cases "v < 0")
    case True
    have "nat (- v) < 10 ^ 19" using that True by (simp add: nat_less_iff)
    from length_dec_le [OF this] True show ?thesis by (simp add: sdec_def)
  next
    case False
    have "nat v < 10 ^ 20" using that by (simp add: nat_less_iff)
    from length_dec_le [OF this] False show ?thesis by (simp add: sdec_def)
  qed
  then show ?thesis by (simp add: convert_sdec sdec_def)
qed

theorem convert_decimal_witness:
  "int (undec (tl (convert (- 9223372036854775808)))) = 9223372036854775808 \<and>
   length (convert (- 9223372036854775808)) \<le> 20"
  using convert_decimal [of "- 9223372036854775808", THEN conjunct2] by simp

text \<open>
  Whatever sequence of values is inserted into a stream, no insertion writes outside
  the buffer or fails, and the text in the buffer is the old text followed by the texts of a
  subsequence of the values, each whole: a value that does not fit is left out, never cut.
\<close>

theorem log_insert_all_whole:
  assumes "fb_inv b" and "list_all item_wf xs"
  shows "\<exists>b' ys. log_insert_all xs b = Inr b' \<and> fb_inv b' \<and>
     length (fb_data b') = length (fb_data b) \<and> ys \<in> set (subseqs xs) \<and>
     fb_toString b' = fb_toString b @ concat (map log_text ys)"
  using assms
proof (induction xs arbitrary: b)
  case (Cons x xs)
  then obtain b1 where b1: "log_insert x b = Inr b1" "fb_inv b1" "length (fb_data b1) = length (fb_data b)"
    "fb_toString b1 = fb_toString b @ log_text x \<or> fb_toString b1 = fb_toString b"
    using log_insert_text [of b x] by (auto simp: adds_text_def)
  obtain b' ys where "log_insert_all xs b1 = Inr b'" "fb_inv b'" "length (fb_data b') = length (fb_data b1)"
    "ys \<in> set (subseqs xs)" "fb_toString b' = fb_toString b1 @ concat (map log_text ys)"
    using Cons.IH [OF b1(2)] Cons.prems by auto
  with b1 show ?case
    by (auto simp: Let_def intro: exI [of _ ys] exI [of _ "x # ys"])
qed simp

theorem log_insert_all_whole_witness:
  "\<exists>b'. log_insert_all [LInt (- 5), LCStr None] (FixedBuffer_new (replicate 8 (CHR 0x00))) = Inr b' \<and>
     fb_inv b'"
  using log_insert_all_whole [of "FixedBuffer_new (replicate 8 (CHR 0x00))" "[LInt (- 5), LCStr None]"]
  by (auto simp: fb_inv_def FixedBuffer_new_def)

end
