(* ===== verification/Arale_Logging.thy ===== *)
theory Arale_Logging
  imports Arale_ZoneData Arale_LogStream
begin

section \<open>Logging (\<open>arale/base/Logging.h\<close>, \<open>arale/base/Logging.cc\<close>, \<open>arale/base/Thread.cc\<close>)\<close>

text \<open>
  A log line is built by the constructor of \<open>Logger\<close>, extended by the caller through the
  stream, and finished and written by the destructor. The thread-local variables are the
  record \<open>log_tls\<close>, the global ones \<open>log_global\<close>. The clock, the thread id and
  \<open>strerror_r\<close> are arguments. \<open>g_output\<close> and \<open>g_flush\<close> are pointers to
  functions: the default ones, which work on \<open>stdout\<close>, or functions of the application, which are
  numbered and whose calls are recorded in \<open>g_calls\<close>. Of \<open>stdout\<close> the model keeps what has reached the descriptor
  and what is still in the buffer of the C library; how much of the buffer the library writes out on its own
  is the argument \<open>drain\<close>.
\<close>

datatype LogLevel = TRACE | DEBUG | INFO | WARN | ERROR | FATAL

fun level_num :: "LogLevel \<Rightarrow> nat" where
  "level_num TRACE = 0"
| "level_num DEBUG = 1"
| "level_num INFO = 2"
| "level_num WARN = 3"
| "level_num ERROR = 4"
| "level_num FATAL = 5"

fun LogLevelName :: "LogLevel \<Rightarrow> string" where
  "LogLevelName TRACE = ''TRACE ''"
| "LogLevelName DEBUG = ''DEBUG ''"
| "LogLevelName INFO = ''INFO  ''"
| "LogLevelName WARN = ''WARN  ''"
| "LogLevelName ERROR = ''ERROR ''"
| "LogLevelName FATAL = ''FATAL ''"

record log_tls =
  t_time :: string
  t_lastSecond :: int
  threadID :: int
  threadIDStr :: string
  threadIDStr_len :: nat

definition log_tls_init :: log_tls where
  "log_tls_init = \<lparr>t_time = [], t_lastSecond = 0, threadID = 0, threadIDStr = [],
     threadIDStr_len = 6\<rparr>"

datatype OutputFunc = DefaultOutput | UserOutput nat

datatype FlushFunc = DefaultFlush | UserFlush nat

datatype log_call = OutputCall nat string | FlushCall nat

record stdio =
  st_written :: string
  st_buffered :: string

record log_global =
  g_logLevel :: LogLevel
  g_logTimeZone :: TimeZone
  g_output :: OutputFunc
  g_flush :: FlushFunc
  g_stdout :: stdio
  g_calls :: "log_call list"

subsection \<open>Thread id\<close>

definition getCurrentThreadID :: "int \<Rightarrow> log_tls \<Rightarrow> log_tls" where
  "getCurrentThreadID gettid s =
     (if threadID s = 0 then
        s\<lparr>threadID := gettid, threadIDStr := snprintf 32 (fmt_d 5 gettid),
          threadIDStr_len := length (fmt_d 5 gettid)\<rparr>
      else s)"

subsection \<open>Levels\<close>

definition initLogLevel :: "(string \<Rightarrow> string option) \<Rightarrow> LogLevel" where
  "initLogLevel getenv =
     (if getenv ''MUDUO_LOG_TRACE'' \<noteq> None then TRACE
      else if getenv ''MUDUO_LOG_DEBUG'' \<noteq> None then DEBUG else INFO)"

text \<open>The globals at the start of the program.\<close>

definition log_global_init :: "(string \<Rightarrow> string option) \<Rightarrow> log_global" where
  "log_global_init getenv = \<lparr>g_logLevel = initLogLevel getenv, g_logTimeZone = None, g_output = DefaultOutput,
     g_flush = DefaultFlush, g_stdout = \<lparr>st_written = [], st_buffered = []\<rparr>, g_calls = []\<rparr>"

definition logLevel :: "log_global \<Rightarrow> LogLevel" where
  "logLevel g = g_logLevel g"

definition setLogLevel :: "LogLevel \<Rightarrow> log_global \<Rightarrow> log_global" where
  "setLogLevel level g = g\<lparr>g_logLevel := level\<rparr>"

definition setTimeZone :: "TimeZone \<Rightarrow> log_global \<Rightarrow> log_global" where
  "setTimeZone tz g = g\<lparr>g_logTimeZone := tz\<rparr>"

text \<open>The conditions of the macros \<open>LOG_TRACE\<close>, \<open>LOG_DEBUG\<close> and \<open>LOG_INFO\<close>; the others log always.\<close>

fun log_enabled :: "LogLevel \<Rightarrow> log_global \<Rightarrow> bool" where
  "log_enabled TRACE g \<longleftrightarrow> level_num (logLevel g) \<le> level_num TRACE"
| "log_enabled DEBUG g \<longleftrightarrow> level_num (logLevel g) \<le> level_num DEBUG"
| "log_enabled INFO g \<longleftrightarrow> level_num (logLevel g) \<le> level_num INFO"
| "log_enabled _ g \<longleftrightarrow> True"

subsection \<open>Output\<close>

definition setOutput :: "OutputFunc \<Rightarrow> log_global \<Rightarrow> log_global" where
  "setOutput out g = g\<lparr>g_output := out\<rparr>"

definition setFlush :: "FlushFunc \<Rightarrow> log_global \<Rightarrow> log_global" where
  "setFlush flush g = g\<lparr>g_flush := flush\<rparr>"

text \<open>
  \<open>fwrite\<close> puts the message behind the buffered bytes, of which the library may write out a beginning; \<open>fflush\<close>
  writes all of them.
\<close>

definition defaultOutput :: "(string \<Rightarrow> nat) \<Rightarrow> string \<Rightarrow> stdio \<Rightarrow> stdio" where
  "defaultOutput drain msg st =
     (let b = st_buffered st @ msg
      in st\<lparr>st_written := st_written st @ take (drain b) b, st_buffered := drop (drain b) b\<rparr>)"

definition defaultFlush :: "stdio \<Rightarrow> stdio" where
  "defaultFlush st = st\<lparr>st_written := st_written st @ st_buffered st, st_buffered := []\<rparr>"

text \<open>The calls through the two pointers.\<close>

definition call_output :: "(string \<Rightarrow> nat) \<Rightarrow> string \<Rightarrow> log_global \<Rightarrow> log_global" where
  "call_output drain msg g =
     (case g_output g of
        DefaultOutput \<Rightarrow> g\<lparr>g_stdout := defaultOutput drain msg (g_stdout g)\<rparr>
      | UserOutput k \<Rightarrow> g\<lparr>g_calls := g_calls g @ [OutputCall k msg]\<rparr>)"

definition call_flush :: "log_global \<Rightarrow> log_global" where
  "call_flush g =
     (case g_flush g of
        DefaultFlush \<Rightarrow> g\<lparr>g_stdout := defaultFlush (g_stdout g)\<rparr>
      | UserFlush k \<Rightarrow> g\<lparr>g_calls := g_calls g @ [FlushCall k]\<rparr>)"

subsection \<open>Building a line\<close>

text \<open>\<open>T(str, len)\<close> asserts that \<open>len\<close> is the length of the string; \<open>len\<close> bytes are appended.\<close>

definition out_T :: "bool \<Rightarrow> string \<Rightarrow> nat \<Rightarrow> FixedBuffer \<Rightarrow> FixedBuffer result" where
  "out_T nd str len b = cassert nd (length str = len) (fb_append (take len str) b)"

text \<open>\<open>SourceFile\<close>: the part of the path behind the last slash.\<close>

definition SourceFile :: "string \<Rightarrow> string" where
  "SourceFile path = rev (takeWhile (\<lambda>c. c \<noteq> CHR ''/'') (rev path))"

definition out_SourceFile :: "string \<Rightarrow> FixedBuffer \<Rightarrow> FixedBuffer result" where
  "out_SourceFile v b = fb_append v b"

definition formatTime ::
  "bool \<Rightarrow> TimeZone \<Rightarrow> Timestamp \<Rightarrow> log_tls \<Rightarrow> FixedBuffer \<Rightarrow> (log_tls \<times> FixedBuffer) result" where
  "formatTime nd tz time s b =
     (let us = microSecondsSinceEpoch time;
          seconds = tdiv us kMicroSecondsPerSecond;
          microseconds = tmod us kMicroSecondsPerSecond
      in bindR
           (if seconds \<noteq> t_lastSecond s then
              bindR (if TimeZone_valid tz then toLocalTime nd tz seconds else Inr (gmtime_r seconds))
                (\<lambda>tm_time. cassert nd (length (tm_fmt tm_time) = 17)
                   (Inr (s\<lparr>t_lastSecond := seconds, t_time := snprintf 32 (tm_fmt tm_time)\<rparr>)))
            else Inr s) (\<lambda>s1.
         if TimeZone_valid tz then
           bindR (Fmt_new nd (''.'' @ fmt_0d 6 microseconds @ '' '')) (\<lambda>f.
           cassert nd (fmt_len f = 8)
             (bindR (out_T nd (t_time s1) 17 b) (\<lambda>b1.
              bindR (out_T nd (take (fmt_len f) (fmt_buf f)) 8 b1) (\<lambda>b2. Inr (s1, b2)))))
         else
           bindR (Fmt_new nd (''.'' @ fmt_0d 6 microseconds @ ''Z '')) (\<lambda>f.
           cassert nd (fmt_len f = 9)
             (bindR (out_T nd (t_time s1) 17 b) (\<lambda>b1.
              bindR (out_T nd (take (fmt_len f) (fmt_buf f)) 9 b1) (\<lambda>b2. Inr (s1, b2)))))))"

record Logger =
  lg_time :: Timestamp
  lg_stream :: FixedBuffer
  lg_level :: LogLevel
  lg_line :: int
  lg_basename :: string

text \<open>
  \<open>Logger::Impl::Impl\<close>. \<open>garbage\<close> is the uninitialised storage of the stream, \<open>now\<close> the
  clock, \<open>gettid\<close> the id of the thread.
\<close>

definition Impl_new ::
  "bool \<Rightarrow> (int \<Rightarrow> string) \<Rightarrow> char list \<Rightarrow> Timestamp \<Rightarrow> int \<Rightarrow> LogLevel \<Rightarrow> int \<Rightarrow> string \<Rightarrow> int \<Rightarrow>
   log_global \<Rightarrow> log_tls \<Rightarrow> (Logger \<times> log_tls) result" where
  "Impl_new nd strerror_tl garbage now gettid level savedErrno file line g s =
     bindR (formatTime nd (g_logTimeZone g) now s (FixedBuffer_new garbage)) (\<lambda>(s1, b1).
     let s2 = getCurrentThreadID gettid s1 in
     bindR (out_T nd (threadIDStr s2) (threadIDStr_len s2) b1) (\<lambda>b2.
     bindR (out_T nd '' '' 1 b2) (\<lambda>b3.
     bindR (out_T nd (LogLevelName level) 6 b3) (\<lambda>b4.
     bindR (if savedErrno \<noteq> 0 then
              log_insert_all [LCStr (Some (strerror_tl savedErrno)), LCStr (Some '' (errno=''),
                LInt savedErrno, LCStr (Some '') '')] b4
            else Inr b4) (\<lambda>b5.
     Inr (\<lparr>lg_time = now, lg_stream = b5, lg_level = level, lg_line = line,
           lg_basename = file\<rparr>, s2))))))"

definition Logger_finish :: "Logger \<Rightarrow> Logger result" where
  "Logger_finish l =
     bindR (out_cstr (Some '' - '') (lg_stream l)) (\<lambda>b1.
     bindR (out_SourceFile (lg_basename l) b1) (\<lambda>b2.
     bindR (out_char (CHR '':'') b2) (\<lambda>b3.
     bindR (out_int (lg_line l) b3) (\<lambda>b4.
     bindR (out_char (CHR 0x0A) b4) (\<lambda>b5.
     Inr (l\<lparr>lg_stream := b5\<rparr>))))))"

text \<open>The four constructors: INFO; a level; a level and a function name; an error with \<open>errno\<close>.\<close>

datatype log_site =
    SiteInfo | SiteLevel LogLevel | SiteFunc LogLevel string | SiteErrno bool int

definition Logger_new ::
  "bool \<Rightarrow> (int \<Rightarrow> string) \<Rightarrow> char list \<Rightarrow> Timestamp \<Rightarrow> int \<Rightarrow> log_site \<Rightarrow> string \<Rightarrow> int \<Rightarrow>
   log_global \<Rightarrow> log_tls \<Rightarrow> (Logger \<times> log_tls) result" where
  "Logger_new nd strerror_tl garbage now gettid site file line g s =
     (case site of
        SiteInfo \<Rightarrow> Impl_new nd strerror_tl garbage now gettid INFO 0 file line g s
      | SiteLevel level \<Rightarrow> Impl_new nd strerror_tl garbage now gettid level 0 file line g s
      | SiteFunc level func \<Rightarrow>
          bindR (Impl_new nd strerror_tl garbage now gettid level 0 file line g s) (\<lambda>(l, s').
          bindR (out_cstr (Some func) (lg_stream l)) (\<lambda>b1.
          bindR (out_char (CHR '' '') b1) (\<lambda>b2.
          Inr (l\<lparr>lg_stream := b2\<rparr>, s'))))
      | SiteErrno toAbort errno \<Rightarrow>
          Impl_new nd strerror_tl garbage now gettid (if toAbort then FATAL else ERROR) errno
            file line g s)"

text \<open>The destructor; the flag says that the process is aborted.\<close>

definition Logger_destroy :: "(string \<Rightarrow> nat) \<Rightarrow> Logger \<Rightarrow> log_global \<Rightarrow> (log_global \<times> bool) result" where
  "Logger_destroy drain l g =
     bindR (Logger_finish l) (\<lambda>l'.
     let g1 = call_output drain (fb_toString (lg_stream l')) g in
     if lg_level l' = FATAL then Inr (call_flush g1, True)
     else Inr (g1, False))"

text \<open>One statement \<open>LOG_... << x1 << x2 ...;\<close>.\<close>

fun site_level :: "log_site \<Rightarrow> LogLevel" where
  "site_level SiteInfo = INFO"
| "site_level (SiteLevel l) = l"
| "site_level (SiteFunc l f) = l"
| "site_level (SiteErrno a e) = (if a then FATAL else ERROR)"

definition log_statement ::
  "bool \<Rightarrow> (int \<Rightarrow> string) \<Rightarrow> (string \<Rightarrow> nat) \<Rightarrow> char list \<Rightarrow> Timestamp \<Rightarrow> int \<Rightarrow> log_site \<Rightarrow> string \<Rightarrow> int \<Rightarrow>
   log_item list \<Rightarrow> log_global \<Rightarrow> log_tls \<Rightarrow> (log_global \<times> log_tls \<times> bool) result" where
  "log_statement nd strerror_tl drain garbage now gettid site path line xs g s =
     (if log_enabled (site_level site) g then
        bindR (Logger_new nd strerror_tl garbage now gettid site (SourceFile path) line g s) (\<lambda>(l, s').
        bindR (log_insert_all xs (lg_stream l)) (\<lambda>b.
        bindR (Logger_destroy drain (l\<lparr>lg_stream := b\<rparr>) g) (\<lambda>(g', ab). Inr (g', s', ab))))
      else Inr (g, s, False))"

text \<open>
  \<open>CheckNotNull\<close>: a null pointer is reported at level FATAL, whatever else it is handed back. The last component says
  that the process is aborted.
\<close>

definition CheckNotNull ::
  "bool \<Rightarrow> (int \<Rightarrow> string) \<Rightarrow> (string \<Rightarrow> nat) \<Rightarrow> char list \<Rightarrow> Timestamp \<Rightarrow> int \<Rightarrow> string \<Rightarrow> int \<Rightarrow> string \<Rightarrow>
   'p option \<Rightarrow> log_global \<Rightarrow> log_tls \<Rightarrow> ('p option \<times> log_global \<times> log_tls \<times> bool) result" where
  "CheckNotNull nd strerror_tl drain garbage now gettid path line txt ptr g s =
     bindR (if ptr = None then
              log_statement nd strerror_tl drain garbage now gettid (SiteLevel FATAL) path line [LCStr (Some txt)] g s
            else Inr (g, s, False)) (\<lambda>(g', s', ab). Inr (ptr, g', s', ab))"

subsection \<open>The cached time\<close>

text \<open>
  What \<open>t_time\<close> should hold for a second: the formatted local time, or UTC without a zone.
\<close>

definition time_text :: "bool \<Rightarrow> TimeZone \<Rightarrow> int \<Rightarrow> string result" where
  "time_text nd tz seconds =
     bindR (if TimeZone_valid tz then toLocalTime nd tz seconds else Inr (gmtime_r seconds))
       (\<lambda>x. Inr (tm_fmt x))"

definition cache_ok :: "bool \<Rightarrow> TimeZone \<Rightarrow> log_tls \<Rightarrow> bool" where
  "cache_ok nd tz s \<longleftrightarrow>
     t_lastSecond s = 0 \<or> time_text nd tz (t_lastSecond s) = Inr (t_time s) \<and> length (t_time s) = 17"

text \<open>\<open>puts b s r\<close>: the operation with result \<open>r\<close> appended \<open>s\<close> to the buffer \<open>b\<close>.\<close>

definition puts :: "FixedBuffer \<Rightarrow> string \<Rightarrow> FixedBuffer \<Rightarrow> bool" where
  "puts b s b' \<longleftrightarrow> fb_inv b' \<and> length (fb_data b') = length (fb_data b) \<and>
     fb_toString b' = fb_toString b @ s \<and> cur b' = cur b + length s"

lemma puts_trans: "puts b s b1 \<Longrightarrow> puts b1 t b2 \<Longrightarrow> puts b (s @ t) b2"
  by (simp add: puts_def)

lemma fb_append_fits:
  assumes "fb_inv b" "cur b + length s < length (fb_data b)"
  shows "\<exists>b'. fb_append s b = Inr b' \<and> puts b s b'"
  using assms
  by (auto simp: puts_def fb_append_def avail_def fb_store_def fb_inv_def array_write_ok fb_add_def
      fb_toString_def)

lemma out_T_fits:
  assumes "fb_inv b" "cur b + length s < length (fb_data b)" "n = length s"
  shows "\<exists>b'. out_T nd s n b = Inr b' \<and> puts b s b'"
  using fb_append_fits [OF assms(1,2)] assms(3) by (simp add: out_T_def)

lemma Fmt_new_fits:
  "length txt < 32 \<Longrightarrow> \<exists>f. Fmt_new nd txt = Inr f \<and> fmt_len f = length txt \<and>
     take (fmt_len f) (fmt_buf f) = txt"
  by (simp add: Fmt_new_def)

definition us_text :: "TimeZone \<Rightarrow> int \<Rightarrow> string" where
  "us_text tz us = ''.'' @ fmt_0d 6 us @ (if TimeZone_valid tz then '' '' else ''Z '')"

lemma length_us_text:
  assumes "0 \<le> us" "us < 1000000"
  shows "length (us_text tz us) = (if TimeZone_valid tz then 8 else 9)"
  using length_fmt_0d [of us 6] assms by (simp add: us_text_def)

lemma formatTime_out:
  fixes nd tz time s defines "r \<equiv> (if microSecondsSinceEpoch time div 1000000 \<noteq> t_lastSecond s then
      bindR (if TimeZone_valid tz then toLocalTime nd tz (microSecondsSinceEpoch time div 1000000)
             else Inr (gmtime_r (microSecondsSinceEpoch time div 1000000)))
        (\<lambda>tm_time. cassert nd (length (tm_fmt tm_time) = 17)
           (Inr (s\<lparr>t_lastSecond := microSecondsSinceEpoch time div 1000000, t_time := snprintf 32 (tm_fmt tm_time)\<rparr>)))
      else Inr s)"
  assumes "fb_inv b" "cur b + 26 < length (fb_data b)" "1000000 \<le> microSecondsSinceEpoch time"
    and "r = Inr s1" "length (t_time s1) = 17"
  shows "\<exists>b'. formatTime nd tz time s b = Inr (s1, b') \<and>
     puts b (t_time s1 @ us_text tz (microSecondsSinceEpoch time mod 1000000)) b'"
proof -
  let ?us = "microSecondsSinceEpoch time" let ?mic = "?us mod 1000000"
  have k: "tdiv ?us kMicroSecondsPerSecond = ?us div 1000000" "tmod ?us kMicroSecondsPerSecond = ?mic"
    using assms(4) by (simp_all add: kMicroSecondsPerSecond_def)
  let ?u = "us_text tz ?mic"
  have lu: "length ?u = (if TimeZone_valid tz then 8 else 9)" by (rule length_us_text) simp_all
  then have "length ?u < 32" by (simp split: if_splits)
  then obtain f where f: "Fmt_new nd ?u = Inr f" "fmt_len f = length ?u"
    "take (fmt_len f) (fmt_buf f) = ?u"
    using Fmt_new_fits by blast
  have "cur b + length (t_time s1) < length (fb_data b)" using assms(3,6) by simp
  then obtain b1 where b1: "out_T nd (t_time s1) 17 b = Inr b1" "puts b (t_time s1) b1"
    using out_T_fits [OF assms(2) _ assms(6) [symmetric]] by blast
  have "fb_inv b1" "cur b1 + length ?u < length (fb_data b1)"
    using b1(2) assms(3,6) lu by (simp_all add: puts_def)
  then obtain b2 where b2: "out_T nd ?u (length ?u) b1 = Inr b2" "puts b1 ?u b2"
    using out_T_fits [OF _ _ refl] by blast
  note first = assms(5) [unfolded r_def]
  have "formatTime nd tz time s b = Inr (s1, b2)"
  proof (cases "TimeZone_valid tz")
    case True
    then have "?u = ''.'' @ fmt_0d 6 ?mic @ '' ''" "length ?u = 8" using lu by (simp_all add: us_text_def)
    with True f b1(1) b2(1) show ?thesis
      unfolding formatTime_def Let_def k first bindR.simps by simp
  next
    case False
    then have "?u = ''.'' @ fmt_0d 6 ?mic @ ''Z ''" "length ?u = 9" using lu by (simp_all add: us_text_def)
    with False f b1(1) b2(1) show ?thesis
      unfolding formatTime_def Let_def k first bindR.simps by simp
  qed
  with puts_trans [OF b1(2) b2(2)] show ?thesis by blast
qed

lemma formatTime_puts:
  assumes "fb_inv b" "cur b + 26 < length (fb_data b)" "1000000 \<le> microSecondsSinceEpoch time"
    and "cache_ok nd tz s" "time_text nd tz (microSecondsSinceEpoch time div 1000000) = Inr txt" "length txt = 17"
  shows "\<exists>s' b'. formatTime nd tz time s b = Inr (s', b') \<and> cache_ok nd tz s' \<and>
     threadID s' = threadID s \<and> threadIDStr s' = threadIDStr s \<and>
     threadIDStr_len s' = threadIDStr_len s \<and>
     puts b (txt @ us_text tz (microSecondsSinceEpoch time mod 1000000)) b'"
proof -
  let ?sec = "microSecondsSinceEpoch time div 1000000"
  have "?sec \<noteq> 0" using assms(3) by (simp add: div_eq_0_iff)
  define s1 where "s1 = (if ?sec \<noteq> t_lastSecond s then s\<lparr>t_lastSecond := ?sec, t_time := txt\<rparr> else s)"
  have s1: "t_time s1 = txt" "cache_ok nd tz s1" "threadID s1 = threadID s"
    "threadIDStr s1 = threadIDStr s" "threadIDStr_len s1 = threadIDStr_len s"
    using assms(4-6) \<open>?sec \<noteq> 0\<close> by (auto simp: s1_def cache_ok_def)
  have "\<exists>b'. formatTime nd tz time s b = Inr (s1, b') \<and>
     puts b (t_time s1 @ us_text tz (microSecondsSinceEpoch time mod 1000000)) b'"
    by (rule formatTime_out [OF assms(1-3)])
      (use assms(5,6) s1(1) in \<open>auto simp: s1_def time_text_def\<close>)
  with s1 show ?thesis by auto
qed

text \<open>
  Within the second that is in the cache the zone does not matter: a statement that follows \<open>setTimeZone\<close> in that second still
  prints the date and the time of the zone before.
\<close>

lemma formatTime_ignores_new_zone:
  assumes "fb_inv b" "cur b + 26 < length (fb_data b)" "1000000 \<le> microSecondsSinceEpoch time"
    and "t_lastSecond s = microSecondsSinceEpoch time div 1000000" "length (t_time s) = 17"
  shows "\<exists>b'. formatTime nd (g_logTimeZone (setTimeZone tz g)) time s b = Inr (s, b') \<and>
     puts b (t_time s @ us_text tz (microSecondsSinceEpoch time mod 1000000)) b'"
  using formatTime_out [OF assms(1-3), of s tz nd s] assms(4,5) by (simp add: setTimeZone_def)

subsection \<open>The whole line\<close>

definition tid_text :: "int \<Rightarrow> log_tls \<Rightarrow> string" where
  "tid_text gettid s = (if threadID s = 0 then fmt_d 5 gettid else threadIDStr s)"

definition tls_wf :: "log_tls \<Rightarrow> bool" where
  "tls_wf s \<longleftrightarrow> threadID s = 0 \<or> threadIDStr_len s = length (threadIDStr s) \<and> length (threadIDStr s) \<le> 11"

lemma length_sdec_int32: "int32_range x \<Longrightarrow> length (sdec x) \<le> 11"
  using length_sdec_le [of x 10] by (auto simp: int32_range_def)

lemma getCurrentThreadID_wf:
  assumes "tls_wf s" "int32_range gettid" "gettid \<noteq> 0"
  shows "threadIDStr (getCurrentThreadID gettid s) = tid_text gettid s"
    and "threadIDStr_len (getCurrentThreadID gettid s) = length (tid_text gettid s)"
    and "length (tid_text gettid s) \<le> 11" and "tls_wf (getCurrentThreadID gettid s)"
    and "cache_ok nd tz (getCurrentThreadID gettid s) = cache_ok nd tz s"
proof -
  have "length (fmt_d 5 gettid) \<le> 11" using length_sdec_int32 [OF assms(2)] by (simp add: fmt_d_def)
  then show "threadIDStr (getCurrentThreadID gettid s) = tid_text gettid s"
    "threadIDStr_len (getCurrentThreadID gettid s) = length (tid_text gettid s)"
    "length (tid_text gettid s) \<le> 11" "tls_wf (getCurrentThreadID gettid s)"
    "cache_ok nd tz (getCurrentThreadID gettid s) = cache_ok nd tz s"
    using assms(1) by (auto simp: getCurrentThreadID_def tid_text_def tls_wf_def cache_ok_def)
qed

definition log_head :: "TimeZone \<Rightarrow> string \<Rightarrow> int \<Rightarrow> string \<Rightarrow> LogLevel \<Rightarrow> string" where
  "log_head tz txt us tid level = txt @ us_text tz us @ tid @ '' '' @ LogLevelName level"

lemma length_LogLevelName [simp]: "length (LogLevelName l) = 6"
  by (cases l) simp_all

lemma FixedBuffer_new_facts [simp]:
  "fb_inv (FixedBuffer_new g)" "cur (FixedBuffer_new g) = 0" "fb_data (FixedBuffer_new g) = g"
  "fb_toString (FixedBuffer_new g) = []"
  by (simp_all add: FixedBuffer_new_def fb_inv_def fb_toString_def)

lemma puts_room: "puts b s b' \<Longrightarrow> cur b + length s + n < length (fb_data b) \<Longrightarrow>
    fb_inv b' \<and> cur b' + n < length (fb_data b')"
  by (simp add: puts_def)

lemma Impl_new_puts:
  assumes "length garbage = kSmallBuffer" "1000000 \<le> microSecondsSinceEpoch now"
    and "cache_ok nd (g_logTimeZone g) s" "tls_wf s" "int32_range gettid" "gettid \<noteq> 0"
    and "time_text nd (g_logTimeZone g) (microSecondsSinceEpoch now div 1000000) = Inr txt"
    and "length txt = 17"
  shows "\<exists>l s'. Impl_new nd se garbage now gettid level 0 file line g s = Inr (l, s') \<and>
     cache_ok nd (g_logTimeZone g) s' \<and> tls_wf s' \<and> lg_level l = level \<and> lg_line l = line \<and>
     lg_basename l = file \<and>
     puts (FixedBuffer_new garbage) (log_head (g_logTimeZone g) txt
       (microSecondsSinceEpoch now mod 1000000) (tid_text gettid s) level) (lg_stream l)"
proof -
  let ?b = "FixedBuffer_new garbage" and ?tz = "g_logTimeZone g"
  let ?u = "us_text ?tz (microSecondsSinceEpoch now mod 1000000)"
  have lu: "length ?u \<le> 9" using length_us_text [of "microSecondsSinceEpoch now mod 1000000" ?tz] by simp
  have "cur ?b + 26 < length (fb_data ?b)" using assms(1) by (simp add: kSmallBuffer_def)
  from formatTime_puts [OF FixedBuffer_new_facts(1) this assms(2,3,7,8)]
  obtain s1 b1 where f: "formatTime nd ?tz now s ?b = Inr (s1, b1)" "cache_ok nd ?tz s1"
    "threadID s1 = threadID s" "threadIDStr s1 = threadIDStr s"
    "threadIDStr_len s1 = threadIDStr_len s" "puts ?b (txt @ ?u) b1"
    by auto
  have wf1: "tls_wf s1" and tt: "tid_text gettid s1 = tid_text gettid s"
    using f assms(4) by (auto simp: tls_wf_def tid_text_def)
  note tid = getCurrentThreadID_wf [OF wf1 assms(5,6), unfolded tt]
  have room: "fb_inv b1 \<and> cur b1 + (kSmallBuffer - 27) < length (fb_data b1)"
    using puts_room [OF f(6), of "kSmallBuffer - 27"] assms(1,8) lu by (simp add: kSmallBuffer_def)
  define t where "t = tid_text gettid s"
  have "cur b1 + length t < length (fb_data b1)"
    using room tid(3) by (simp add: t_def kSmallBuffer_def)
  then obtain b2 where b2: "out_T nd t (length t) b1 = Inr b2" "puts b1 t b2"
    using room out_T_fits [OF _ _ refl] by blast
  have r2: "fb_inv b2 \<and> cur b2 + 100 < length (fb_data b2)"
    using puts_room [OF b2(2), of 100] room tid(3) by (simp add: t_def kSmallBuffer_def)
  then obtain b3 where b3: "out_T nd '' '' 1 b2 = Inr b3" "puts b2 '' '' b3"
    using out_T_fits [of b2 "'' ''" 1 nd] by auto
  have r3: "fb_inv b3 \<and> cur b3 + 90 < length (fb_data b3)" using puts_room [OF b3(2), of 90] r2 by simp
  then have "fb_inv b3" "cur b3 + length (LogLevelName level) < length (fb_data b3)" by simp_all
  then obtain b4 where b4: "out_T nd (LogLevelName level) 6 b3 = Inr b4" "puts b3 (LogLevelName level) b4"
    using out_T_fits [OF _ _ length_LogLevelName [symmetric]] by blast
  have "puts ?b (((txt @ ?u) @ t) @ '' '' @ LogLevelName level) b4"
    by (intro puts_trans [OF puts_trans [OF f(6) b2(2)]] puts_trans [OF b3(2) b4(2)])
  then have P: "puts ?b (log_head ?tz txt (microSecondsSinceEpoch now mod 1000000) t level) b4"
    by (simp add: log_head_def)
  have "Impl_new nd se garbage now gettid level 0 file line g s =
      Inr (\<lparr>lg_time = now, lg_stream = b4, lg_level = level, lg_line = line, lg_basename = file\<rparr>,
        getCurrentThreadID gettid s1)"
    using b2 b3 b4 unfolding Impl_new_def f(1) bindR.simps Let_def prod.case tid(1,2) t_def [symmetric]
    by simp
  with P tid(4,5) f(2) show ?thesis by (simp add: t_def)
qed

definition log_tail :: "string \<Rightarrow> int \<Rightarrow> string" where
  "log_tail file line = '' - '' @ file @ '':'' @ sdec line @ [CHR 0x0A]"

lemma Logger_finish_puts:
  assumes "fb_inv (lg_stream l)" "int32_range (lg_line l)"
    and "cur (lg_stream l) + length (lg_basename l) + 64 < length (fb_data (lg_stream l))"
  shows "\<exists>l'. Logger_finish l = Inr l' \<and> lg_level l' = lg_level l \<and>
     fb_toString (lg_stream l') = fb_toString (lg_stream l) @ log_tail (lg_basename l) (lg_line l)"
proof -
  let ?xs = "[LCStr (Some '' - ''), LString (lg_basename l), LChar (CHR '':''), LInt (lg_line l),
      LChar (CHR 0x0A)]"
  have "length (sdec (lg_line l)) \<le> 11" by (rule length_sdec_int32 [OF assms(2)])
  then have "cur (lg_stream l) + length (concat (map log_text ?xs)) + kMaxNumericSize
      \<le> length (fb_data (lg_stream l))" using assms(3) by (simp add: kMaxNumericSize_def)
  then obtain b where b: "log_insert_all ?xs (lg_stream l) = Inr b"
    "fb_toString b = fb_toString (lg_stream l) @ concat (map log_text ?xs)"
    using log_insert_all_fits [OF assms(1), of ?xs] assms(2) by (auto simp: int32_range_def)
  have eq: "Logger_finish l = bindR (log_insert_all ?xs (lg_stream l)) (\<lambda>b. Inr (l\<lparr>lg_stream := b\<rparr>))"
    by (simp add: Logger_finish_def out_cstr_def out_string_def out_SourceFile_def bindR_assoc)
  show ?thesis unfolding eq b(1) by (simp add: b(2) log_tail_def)
qed

subsection \<open>Properties of logging\<close>

text \<open>
  What an output function has been given: for the default one what is written or buffered on \<open>stdout\<close>, for one of the
  application the messages of its calls.
\<close>

fun output_of :: "nat \<Rightarrow> log_call \<Rightarrow> string" where
  "output_of k (OutputCall k' msg) = (if k' = k then msg else [])"
| "output_of k (FlushCall _) = []"

fun received :: "OutputFunc \<Rightarrow> log_global \<Rightarrow> string" where
  "received DefaultOutput g = st_written (g_stdout g) @ st_buffered (g_stdout g)"
| "received (UserOutput k) g = concat (map (output_of k) (g_calls g))"

text \<open>The level of a line is that of its constructor, so that the process is aborted exactly at FATAL.\<close>

lemma Impl_new_level: "Impl_new nd se garbage now gettid level e file line g s = Inr (l, s') \<Longrightarrow> lg_level l = level"
  by (auto simp: Impl_new_def Let_def)

lemma Logger_new_level: "Logger_new nd se garbage now gettid site file line g s = Inr (l, s') \<Longrightarrow> lg_level l = site_level site"
  by (auto simp: Logger_new_def dest!: Impl_new_level split: log_site.splits)

lemma log_statement_aborts:
  "log_statement nd se drain garbage now gettid site path line xs g s = Inr (g', s', ab) \<Longrightarrow>
     ab \<longleftrightarrow> site_level site = FATAL"
  by (cases "site_level site")
    (auto simp: log_statement_def Logger_destroy_def Logger_finish_def Let_def dest!: Logger_new_level split: if_splits)

lemma CheckNotNull_result:
  "CheckNotNull nd se drain garbage now gettid path line txt ptr g s = Inr (p, g', s', ab) \<Longrightarrow>
     p = ptr \<and> (ab \<longleftrightarrow> ptr = None) \<and> (ptr \<noteq> None \<longrightarrow> g' = g \<and> s' = s)"
  by (auto simp: CheckNotNull_def dest!: log_statement_aborts split: if_splits)

definition log_config :: "log_global \<Rightarrow> LogLevel \<times> TimeZone \<times> OutputFunc \<times> FlushFunc" where
  "log_config g = (g_logLevel g, g_logTimeZone g, g_output g, g_flush g)"

lemma defaultOutput_text:
  "st_written (defaultOutput drain msg st) @ st_buffered (defaultOutput drain msg st) = st_written st @ st_buffered st @ msg"
  by (simp add: defaultOutput_def Let_def del: take_append drop_append)

lemma received_call_output:
  "received f (call_output drain msg g) = received f g @ (if f = g_output g then msg else [])"
  by (cases f) (auto simp: call_output_def defaultOutput_text split: OutputFunc.split)

lemma received_call_flush [simp]: "received f (call_flush g) = received f g"
  by (cases f) (auto simp: call_flush_def defaultFlush_def split: FlushFunc.split)

lemma log_config_calls [simp]:
  "log_config (call_output drain msg g) = log_config g" "log_config (call_flush g) = log_config g"
  by (auto simp: log_config_def call_output_def call_flush_def split: OutputFunc.split FlushFunc.split)

lemma call_flush_empties: "g_flush g = DefaultFlush \<Longrightarrow> st_buffered (g_stdout (call_flush g)) = []"
  by (simp add: call_flush_def defaultFlush_def)

lemma g_flush_call_output [simp]: "g_flush (call_output drain msg g) = g_flush g"
  by (auto simp: call_output_def split: OutputFunc.split)


lemma time_text_second_1: "time_text nd None 1 = Inr (tm_fmt (gmtime_r 1))"
  by (simp add: time_text_def TimeZone_valid_def)

lemma length_time_second_1: "length (tm_fmt (gmtime_r 1)) = 17"
  by (simp add: tm_fmt_def gmtime_r_def civil_def fmt_d_def fmt_0d_def sdec_def dec.simps Let_def)


end
