(* ===== verification/Arale_Channel.thy ===== *)
theory Arale_Channel
  imports Arale_Timestamp Arale_LogStream
begin

section \<open>Channels and the poller base class (\<open>arale/net/Channel.*\<close>, \<open>Poller.*\<close>)\<close>

text \<open>
  A channel is the interest of a file descriptor in events. \<open>handleEvent\<close> is a function
  to the list of callbacks it invokes, in order: \<open>revents_\<close>, which decides about them, is
  set by the poller only. A callback that is not set is not invoked. \<open>tie_\<close> is a weak
  pointer: the argument \<open>alive\<close> says which objects still exist.
\<close>

unbundle bit_operations_syntax

definition POLLIN :: "32 word" where "POLLIN = 0x001"
definition POLLPRI :: "32 word" where "POLLPRI = 0x002"
definition POLLOUT :: "32 word" where "POLLOUT = 0x004"
definition POLLERR :: "32 word" where "POLLERR = 0x008"
definition POLLHUP :: "32 word" where "POLLHUP = 0x010"
definition POLLNVAL :: "32 word" where "POLLNVAL = 0x020"
definition POLLRDHUP :: "32 word" where "POLLRDHUP = 0x2000"

lemmas poll_bits = POLLIN_def POLLPRI_def POLLOUT_def POLLERR_def POLLHUP_def POLLNVAL_def POLLRDHUP_def

definition kNoneEvent :: "32 word" where "kNoneEvent = 0"
definition kReadEvent :: "32 word" where "kReadEvent = POLLIN OR POLLPRI"
definition kWriteEvent :: "32 word" where "kWriteEvent = POLLOUT"

lemmas event_bits = kNoneEvent_def kReadEvent_def kWriteEvent_def

record Channel =
  ch_fd :: int
  hasReadCallback :: bool
  hasWriteCallback :: bool
  hasErrorCallback :: bool
  hasCloseCallback :: bool
  events :: "32 word"
  revents :: "32 word"
  isInLoop :: bool
  ch_index :: int
  ch_tie :: "nat option"
  tied :: bool
  isHandlingEvent :: bool

definition Channel_new :: "int \<Rightarrow> Channel" where
  "Channel_new socketFD =
     \<lparr>ch_fd = socketFD, hasReadCallback = False, hasWriteCallback = False, hasErrorCallback = False,
      hasCloseCallback = False, events = kNoneEvent, revents = kNoneEvent, isInLoop = False,
      ch_index = -1, ch_tie = None, tied = False, isHandlingEvent = False\<rparr>"

definition Channel_destroy :: "bool \<Rightarrow> Channel \<Rightarrow> unit result" where
  "Channel_destroy nd c = cassert nd (\<not> isInLoop c) (cassert nd (\<not> isHandlingEvent c) (Inr ()))"

definition setReadCallback :: "Channel \<Rightarrow> Channel" where
  "setReadCallback c = c\<lparr>hasReadCallback := True\<rparr>"

definition setWriteCallback :: "Channel \<Rightarrow> Channel" where
  "setWriteCallback c = c\<lparr>hasWriteCallback := True\<rparr>"

definition setErrorCallback :: "Channel \<Rightarrow> Channel" where
  "setErrorCallback c = c\<lparr>hasErrorCallback := True\<rparr>"

definition setCloseCallback :: "Channel \<Rightarrow> Channel" where
  "setCloseCallback c = c\<lparr>hasCloseCallback := True\<rparr>"

definition set_revents :: "32 word \<Rightarrow> Channel \<Rightarrow> Channel" where
  "set_revents r c = c\<lparr>revents := r\<rparr>"

definition isReading :: "Channel \<Rightarrow> bool" where
  "isReading c \<longleftrightarrow> events c AND kReadEvent \<noteq> 0"

definition isWriting :: "Channel \<Rightarrow> bool" where
  "isWriting c \<longleftrightarrow> events c AND kWriteEvent \<noteq> 0"

definition isNoneEvent :: "Channel \<Rightarrow> bool" where
  "isNoneEvent c \<longleftrightarrow> events c = kNoneEvent"

definition tieTo :: "nat \<Rightarrow> Channel \<Rightarrow> Channel" where
  "tieTo obj c = c\<lparr>ch_tie := Some obj, tied := True\<rparr>"

text \<open>
  The changes of interest. Each sets \<open>events_\<close>, marks the channel as being in the loop and
  calls the loop's \<open>updateChannel\<close> (which is the poller's). \<open>disableWrite\<close> masks with
  \<open>kWriteEvent\<close> itself.
\<close>

datatype interest_op = EnableRead | DisableRead | EnableWrite | DisableWrite | DisableAll

fun interest_events :: "interest_op \<Rightarrow> 32 word \<Rightarrow> 32 word" where
  "interest_events EnableRead e = e OR kReadEvent"
| "interest_events DisableRead e = e AND NOT kReadEvent"
| "interest_events EnableWrite e = e OR kWriteEvent"
| "interest_events DisableWrite e = e AND kWriteEvent"
| "interest_events DisableAll e = kNoneEvent"

definition Channel_interest :: "interest_op \<Rightarrow> Channel \<Rightarrow> Channel" where
  "Channel_interest op c = c\<lparr>events := interest_events op (events c), isInLoop := True\<rparr>"

definition Channel_unloop :: "Channel \<Rightarrow> Channel" where
  "Channel_unloop c = c\<lparr>isInLoop := False\<rparr>"

subsection \<open>Dispatch\<close>

datatype chan_call = CallClose | CallError | CallRead Timestamp | CallWrite

definition handleEventWithGuard :: "Timestamp \<Rightarrow> Channel \<Rightarrow> chan_call list \<times> Channel" where
  "handleEventWithGuard receiveTime c =
     (let c1 = c\<lparr>isHandlingEvent := True\<rparr>; r = revents c1;
          l1 = (if r AND POLLHUP \<noteq> 0 \<and> \<not> r AND POLLIN \<noteq> 0
                then (if hasCloseCallback c1 then [CallClose] else []) else []);
          l2 = (if r AND (POLLERR OR POLLNVAL) \<noteq> 0
                then (if hasErrorCallback c1 then [CallError] else []) else []);
          l3 = (if r AND (POLLIN OR POLLPRI OR POLLRDHUP) \<noteq> 0
                then (if hasReadCallback c1 then [CallRead receiveTime] else []) else []);
          l4 = (if r AND POLLOUT \<noteq> 0
                then (if hasWriteCallback c1 then [CallWrite] else []) else [])
      in (l1 @ l2 @ l3 @ l4, c1\<lparr>isHandlingEvent := False\<rparr>))"

definition handleEvent :: "(nat \<Rightarrow> bool) \<Rightarrow> Timestamp \<Rightarrow> Channel \<Rightarrow> chan_call list \<times> Channel" where
  "handleEvent alive receiveTime c =
     (if tied c then
        (case ch_tie c of
           Some obj \<Rightarrow> if alive obj then handleEventWithGuard receiveTime c else ([], c)
         | None \<Rightarrow> ([], c))
      else handleEventWithGuard receiveTime c)"

definition eventsToString :: "int \<Rightarrow> 32 word \<Rightarrow> string" where
  "eventsToString fd event =
     sdec fd @ '':'' @
     (if event AND POLLIN \<noteq> 0 then ''IN'' else []) @
     (if event AND POLLPRI \<noteq> 0 then ''PRI'' else []) @
     (if event AND POLLOUT \<noteq> 0 then ''OUT'' else []) @
     (if event AND POLLHUP \<noteq> 0 then ''HUP'' else []) @
     (if event AND POLLRDHUP \<noteq> 0 then ''RDHUP'' else []) @
     (if event AND POLLERR \<noteq> 0 then ''ERR'' else []) @
     (if event AND POLLNVAL \<noteq> 0 then ''NVAL'' else [])"

definition Channel_eventsToString :: "Channel \<Rightarrow> string" where
  "Channel_eventsToString c = eventsToString (ch_fd c) (events c)"

subsection \<open>The base class of the pollers\<close>

text \<open>
  \<open>chans\<close> is the memory of the channel objects, by address; \<open>channels\<close> is the map
  \<open>channels_\<close> from descriptors to channel addresses.
\<close>

record Poller =
  chans :: "nat \<rightharpoonup> Channel"
  channels :: "int \<rightharpoonup> nat"

definition assertInLoopThread :: "bool \<Rightarrow> 'a result \<Rightarrow> 'a result" where
  "assertInLoopThread il k = (if il then k else Inl Fatal)"

lemma assertInLoopThread_True [simp]: "assertInLoopThread True k = k"
  by (simp add: assertInLoopThread_def)

definition channel_at :: "nat \<Rightarrow> 'a Poller_scheme \<Rightarrow> Channel result" where
  "channel_at c s = (case chans s c of None \<Rightarrow> Inl NullDeref | Some ch \<Rightarrow> Inr ch)"

lemma channel_at_Some [simp]: "chans s c = Some ch \<Longrightarrow> channel_at c s = Inr ch"
  by (simp add: channel_at_def)

definition setIndex :: "nat \<Rightarrow> int \<Rightarrow> 'a Poller_scheme \<Rightarrow> 'a Poller_scheme result" where
  "setIndex c i s = bindR (channel_at c s) (\<lambda>ch. Inr (s\<lparr>chans := (chans s)(c \<mapsto> ch\<lparr>ch_index := i\<rparr>)\<rparr>))"

text \<open>
  The contract of a poller, for a client that changes the interest of one of its channels:
  \<open>upd\<close> and \<open>rem\<close> are \<open>updateChannel\<close> and \<open>removeChannel\<close>, \<open>inv\<close> the state between calls,
  \<open>ready\<close> whether a channel is ready to be handed over, \<open>reg\<close> the channels the poller knows.
\<close>

locale poller =
  fixes upd :: "nat \<Rightarrow> 's \<Rightarrow> 's result"
    and rem :: "nat \<Rightarrow> 's \<Rightarrow> 's result"
    and inv :: "'s \<Rightarrow> bool"
    and ready :: "nat \<Rightarrow> 's \<Rightarrow> bool"
    and idle :: "nat \<Rightarrow> 's \<Rightarrow> bool"
    and reg :: "'s \<Rightarrow> nat set"
  assumes upd_ok: "inv s \<Longrightarrow> ready c s \<Longrightarrow> \<exists>s'. upd c s = Inr s' \<and> inv s' \<and> reg s' = insert c (reg s)"
    and rem_ok: "inv s \<Longrightarrow> c \<in> reg s \<Longrightarrow> idle c s \<Longrightarrow> \<exists>s'. rem c s = Inr s' \<and> inv s' \<and> reg s' = reg s - {c}"
begin

lemma upd_twice:
  assumes "inv s" "ready c s" "\<And>s'. upd c s = Inr s' \<Longrightarrow> ready d s'"
  shows "\<exists>s2. bindR (upd c s) (upd d) = Inr s2 \<and> inv s2 \<and> reg s2 = insert d (insert c (reg s))"
  using upd_ok [OF assms(1,2)] assms(3) upd_ok by fastforce

lemma rem_unknown: "inv s \<Longrightarrow> c \<in> reg s \<Longrightarrow> idle c s \<Longrightarrow> rem c s = Inr s' \<Longrightarrow> c \<notin> reg s'"
  using rem_ok [of s c] by auto

end

subsection \<open>Properties of channels\<close>

text \<open>
  The interest operations. \<open>enableRead\<close>, \<open>enableWrite\<close> and \<open>disableRead\<close> change exactly
  the interest they name; \<open>disableWrite\<close> does the opposite of its name: it keeps the
  interest in writing and drops the interest in reading.
\<close>

theorem interest_effects:
  "isReading (Channel_interest EnableRead c) \<and> isWriting (Channel_interest EnableRead c) = isWriting c \<and>
   isWriting (Channel_interest EnableWrite c) \<and> isReading (Channel_interest EnableWrite c) = isReading c \<and>
   \<not> isReading (Channel_interest DisableRead c) \<and> isWriting (Channel_interest DisableRead c) = isWriting c \<and>
   isWriting (Channel_interest DisableWrite c) = isWriting c \<and>
   \<not> isReading (Channel_interest DisableWrite c) \<and>
   isNoneEvent (Channel_interest DisableAll c)"
proof -
  have "(events c OR kReadEvent) AND kReadEvent = kReadEvent"
    "(events c OR kReadEvent) AND kWriteEvent = events c AND kWriteEvent"
    "(events c OR kWriteEvent) AND kWriteEvent = kWriteEvent"
    "(events c OR kWriteEvent) AND kReadEvent = events c AND kReadEvent"
    "(events c AND NOT kReadEvent) AND kReadEvent = 0"
    "(events c AND NOT kReadEvent) AND kWriteEvent = events c AND kWriteEvent"
    "(events c AND kWriteEvent) AND kWriteEvent = events c AND kWriteEvent"
    "(events c AND kWriteEvent) AND kReadEvent = 0"
    by (simp_all add: event_bits poll_bits and.assoc bit.conj_disj_distrib2)
  moreover have "kReadEvent \<noteq> 0" "kWriteEvent \<noteq> 0" by (simp_all add: event_bits poll_bits)
  ultimately show ?thesis
    by (simp add: isReading_def isWriting_def isNoneEvent_def Channel_interest_def)
qed

text \<open>
  The dispatch of \<open>handleEvent\<close>. For a channel with all callbacks set whose owner (if it
  is tied to one) is alive, the callbacks run in the order close, error, read, write, each at most once;
  close runs exactly on a hang-up without readable data, error on an error or an invalid
  descriptor, read on readable data, urgent data or a half-closed peer, write when writing
  is possible. A channel whose owner is gone runs none. The channel is never left marked as handling.
\<close>

theorem handleEvent_dispatch:
  assumes "hasCloseCallback c" "hasErrorCallback c" "hasReadCallback c" "hasWriteCallback c"
    and "\<not> isHandlingEvent c"
  shows "snd (handleEvent alive t c) = c \<and>
     fst (handleEvent alive t c) =
       (if tied c \<and> (case ch_tie c of None \<Rightarrow> True | Some obj \<Rightarrow> \<not> alive obj) then []
        else filter (\<lambda>x. case x of
             CallClose \<Rightarrow> revents c AND POLLHUP \<noteq> 0 \<and> revents c AND POLLIN = 0
           | CallError \<Rightarrow> revents c AND POLLERR \<noteq> 0 \<or> revents c AND POLLNVAL \<noteq> 0
           | CallRead _ \<Rightarrow> revents c AND POLLIN \<noteq> 0 \<or> revents c AND POLLPRI \<noteq> 0 \<or> revents c AND POLLRDHUP \<noteq> 0
           | CallWrite \<Rightarrow> revents c AND POLLOUT \<noteq> 0)
          [CallClose, CallError, CallRead t, CallWrite])"
proof -
  have or0: "a AND (b OR d) \<noteq> 0 \<longleftrightarrow> a AND b \<noteq> 0 \<or> a AND d \<noteq> 0" for a b d :: "32 word"
    by (simp add: bit.conj_disj_distrib or_eq_0_iff)
  have g: "handleEventWithGuard t c =
      (filter (\<lambda>x. case x of
             CallClose \<Rightarrow> revents c AND POLLHUP \<noteq> 0 \<and> revents c AND POLLIN = 0
           | CallError \<Rightarrow> revents c AND POLLERR \<noteq> 0 \<or> revents c AND POLLNVAL \<noteq> 0
           | CallRead _ \<Rightarrow> revents c AND POLLIN \<noteq> 0 \<or> revents c AND POLLPRI \<noteq> 0 \<or> revents c AND POLLRDHUP \<noteq> 0
           | CallWrite \<Rightarrow> revents c AND POLLOUT \<noteq> 0) [CallClose, CallError, CallRead t, CallWrite], c)"
    using assms by (auto simp: handleEventWithGuard_def Let_def or0)
  show ?thesis
    by (cases "tied c"; cases "ch_tie c") (auto simp: handleEvent_def g)
qed

theorem handleEvent_dispatch_witness:
  "fst (handleEvent (\<lambda>_. True) (Timestamp_new 1)
     \<lparr>ch_fd = 3, hasReadCallback = True, hasWriteCallback = True, hasErrorCallback = True,
      hasCloseCallback = True, events = kReadEvent, revents = 0x05, isInLoop = True,
      ch_index = 0, ch_tie = None, tied = False, isHandlingEvent = False\<rparr>) =
   [CallRead (Timestamp_new 1), CallWrite]"
  using handleEvent_dispatch [of "\<lparr>ch_fd = 3, hasReadCallback = True, hasWriteCallback = True,
      hasErrorCallback = True, hasCloseCallback = True, events = kReadEvent, revents = 0x05,
      isInLoop = True, ch_index = 0, ch_tie = None, tied = False, isHandlingEvent = False\<rparr>"
      "\<lambda>_. True" "Timestamp_new 1"]
  by (simp add: poll_bits)

end
