(* ===== verification/Arale_PollPoller.thy ===== *)
theory Arale_PollPoller
  imports Arale_Channel
begin

section \<open>The poller on \<open>poll(2)\<close> (\<open>arale/net/PollPoller.*\<close>)\<close>

text \<open>
  \<open>PollPoller\<close> keeps the array of \<open>struct pollfd\<close> it hands to the kernel; a channel's
  \<open>index_\<close> is its position there. The kernel is the argument \<open>sys_poll\<close> of \<open>poll\<close>: an
  error number, or the \<open>revents\<close> of every entry. \<open>short\<close> values are 16-bit words.
\<close>

record pollfd =
  pfd_fd :: int
  pfd_events :: "16 word"
  pfd_revents :: "16 word"

record PollPoller = Poller +
  pollfds :: "pollfd list"

definition PollPoller_updateChannel :: "bool \<Rightarrow> bool \<Rightarrow> nat \<Rightarrow> PollPoller \<Rightarrow> PollPoller result" where
  "PollPoller_updateChannel nd il c s =
     assertInLoopThread il (bindR (channel_at c s) (\<lambda>ch.
     if ch_index ch < 0 then
       cassert nd (channels s (ch_fd ch) = None)
         (let pfd = \<lparr>pfd_fd = ch_fd ch, pfd_events = ucast (events ch), pfd_revents = 0\<rparr>;
              s1 = s\<lparr>pollfds := pollfds s @ [pfd]\<rparr>
          in bindR (setIndex c (int (length (pollfds s1)) - 1) s1) (\<lambda>s2.
             Inr (s2\<lparr>channels := (channels s2)(pfd_fd pfd \<mapsto> c)\<rparr>)))
     else
       cassert nd (channels s (ch_fd ch) \<noteq> None)
         (if nat (ch_index ch) < length (pollfds s) then
            let i = nat (ch_index ch); pfd = pollfds s ! i in
            cassert nd (pfd_fd pfd = ch_fd ch \<or> pfd_fd pfd = - ch_fd ch - 1)
              (let pfd1 = pfd\<lparr>pfd_events := ucast (events ch), pfd_revents := 0\<rparr>;
                   pfd2 = (if isNoneEvent ch then pfd1\<lparr>pfd_fd := - ch_fd ch - 1\<rparr> else pfd1)
               in Inr (s\<lparr>pollfds := (pollfds s)[i := pfd2]\<rparr>))
          else Inl OutOfBounds)))"

definition PollPoller_removeChannel :: "bool \<Rightarrow> bool \<Rightarrow> nat \<Rightarrow> PollPoller \<Rightarrow> PollPoller result" where
  "PollPoller_removeChannel nd il c s =
     assertInLoopThread il (bindR (channel_at c s) (\<lambda>ch.
     cassert nd (channels s (ch_fd ch) \<noteq> None)
       (let index = ch_index ch in
        cassert nd (0 \<le> index \<and> index < int (length (pollfds s)))
        (cassert nd (isNoneEvent ch)
         (let n = (if channels s (ch_fd ch) = None then 0 else 1 :: nat);
              s1 = s\<lparr>channels := (channels s)(ch_fd ch := None)\<rparr>
          in cassert nd (n = 1)
           (if pollfds s1 = [] \<or> \<not> (0 \<le> index \<and> index < int (length (pollfds s1))) then Inl OutOfBounds
            else bindR
              (if index \<noteq> int (length (pollfds s1)) - 1 then
                 let lastChannel = pfd_fd (last (pollfds s1));
                     i = nat index; l = length (pollfds s1) - 1;
                     swapped = (pollfds s1)[i := pollfds s1 ! l, l := pollfds s1 ! i];
                     lastChannel1 = (if lastChannel < 0 then - lastChannel - 1 else lastChannel)
                 in (case channels s1 lastChannel1 of
                       None \<Rightarrow> Inl NullDeref
                     | Some d \<Rightarrow> setIndex d index (s1\<lparr>pollfds := swapped\<rparr>))
               else Inr s1)
              (\<lambda>s2. Inr (s2\<lparr>pollfds := butlast (pollfds s2)\<rparr>))))))))"

text \<open>The loop of \<open>fillActiveChannels\<close> over the array; it stops when \<open>numEvents\<close> is used up.\<close>

fun PollPoller_fill ::
  "bool \<Rightarrow> nat \<Rightarrow> pollfd list \<Rightarrow> nat list \<Rightarrow> PollPoller \<Rightarrow> (nat list \<times> PollPoller) result" where
  "PollPoller_fill nd n [] act s = Inr (act, s)"
| "PollPoller_fill nd n (p # ps) act s =
     (if n = 0 then Inr (act, s)
      else if 0 < sint (pfd_revents p) then
        cassert nd (channels s (pfd_fd p) \<noteq> None)
          (case channels s (pfd_fd p) of
             None \<Rightarrow> Inl NullDeref
           | Some c \<Rightarrow> bindR (channel_at c s) (\<lambda>ch.
               cassert nd (ch_fd ch = pfd_fd p)
                 (PollPoller_fill nd (n - 1) ps (act @ [c])
                    (s\<lparr>chans := (chans s)(c \<mapsto> set_revents (word_of_int (sint (pfd_revents p))) ch)\<rparr>))))
      else PollPoller_fill nd n ps act s)"

text \<open>
  \<open>poll\<close>: the channels made active, in order. A failure of the call is logged and makes
  none active.
\<close>

definition PollPoller_poll ::
  "bool \<Rightarrow> (pollfd list \<Rightarrow> int + 16 word list) \<Rightarrow> PollPoller \<Rightarrow> (nat list \<times> PollPoller) result" where
  "PollPoller_poll nd sys_poll s =
     (case sys_poll (pollfds s) of
        Inl savedErrno \<Rightarrow> Inr ([], s)
      | Inr rs \<Rightarrow>
          let s1 = s\<lparr>pollfds := map2 (\<lambda>p r. p\<lparr>pfd_revents := r\<rparr>) (pollfds s) rs\<rparr>;
              nEvents = length (filter (\<lambda>r. r \<noteq> 0) rs)
          in if nEvents > 0 then PollPoller_fill nd nEvents (pollfds s1) [] s1 else Inr ([], s1))"

subsection \<open>The invariant\<close>

text \<open>The descriptor an entry stands for, ignored by the kernel or not.\<close>

definition pfd_key :: "pollfd \<Rightarrow> int" where
  "pfd_key p = (if pfd_fd p < 0 then - pfd_fd p - 1 else pfd_fd p)"

text \<open>\<open>pp_at s c i\<close>: channel \<open>c\<close> is registered and its entry is number \<open>i\<close>.\<close>

definition pp_at :: "PollPoller \<Rightarrow> nat \<Rightarrow> nat \<Rightarrow> bool" where
  "pp_at s c i \<longleftrightarrow> i < length (pollfds s) \<and> channels s (pfd_key (pollfds s ! i)) = Some c \<and>
     (\<exists>ch. chans s c = Some ch \<and> ch_index ch = int i \<and> ch_fd ch = pfd_key (pollfds s ! i) \<and> 0 \<le> ch_fd ch)"

definition pp_inv :: "PollPoller \<Rightarrow> bool" where
  "pp_inv s \<longleftrightarrow>
     (\<forall>i < length (pollfds s). \<exists>c. pp_at s c i) \<and>
     (\<forall>fd c. channels s fd = Some c \<longrightarrow> (\<exists>i. pp_at s c i \<and> pfd_key (pollfds s ! i) = fd))"

definition pp_ready :: "nat \<Rightarrow> PollPoller \<Rightarrow> bool" where
  "pp_ready c s \<longleftrightarrow> (\<exists>ch. chans s c = Some ch \<and> 0 \<le> ch_fd ch \<and>
     (if ch_index ch < 0 then channels s (ch_fd ch) = None else c \<in> ran (channels s)))"

definition pp_idle :: "nat \<Rightarrow> PollPoller \<Rightarrow> bool" where
  "pp_idle c s \<longleftrightarrow> (\<exists>ch. chans s c = Some ch \<and> isNoneEvent ch)"

lemma pp_atD:
  assumes "pp_at s c i"
  obtains ch where "i < length (pollfds s)" "channels s (pfd_key (pollfds s ! i)) = Some c"
    "chans s c = Some ch" "ch_index ch = int i" "ch_fd ch = pfd_key (pollfds s ! i)" "0 \<le> ch_fd ch"
  using assms unfolding pp_at_def by blast

lemma pp_inv_reg:
  assumes "pp_inv s" "c \<in> ran (channels s)"
  obtains i where "pp_at s c i"
  using assms unfolding pp_inv_def ran_def by blast

lemma pp_inv_at: "pp_inv s \<Longrightarrow> i < length (pollfds s) \<Longrightarrow> \<exists>c. pp_at s c i"
  by (simp add: pp_inv_def)

lemma pp_inv_fd:
  "pp_inv s \<Longrightarrow> channels s fd = Some c \<Longrightarrow> \<exists>i. pp_at s c i \<and> pfd_key (pollfds s ! i) = fd"
  by (simp add: pp_inv_def)

lemma pp_invI:
  assumes "\<And>i. i < length (pollfds s) \<Longrightarrow> \<exists>c. pp_at s c i"
    and "\<And>fd c. channels s fd = Some c \<Longrightarrow> \<exists>i. pp_at s c i \<and> pfd_key (pollfds s ! i) = fd"
  shows "pp_inv s"
  using assms unfolding pp_inv_def by blast

lemma pp_at_inj:
  assumes "pp_at s c i" "pp_at s c j"
  shows "i = j"
  using assms by (elim pp_atD) simp

lemma pfd_key_neg [simp]: "0 \<le> fd \<Longrightarrow> pfd_key (p\<lparr>pfd_fd := - fd - 1\<rparr>) = fd"
  by (simp add: pfd_key_def)

lemma pfd_key_upd [simp]:
  "pfd_key (p\<lparr>pfd_events := e\<rparr>) = pfd_key p" "pfd_key (p\<lparr>pfd_revents := r\<rparr>) = pfd_key p"
  by (simp_all add: pfd_key_def)

lemma pp_at_new_channel:
  assumes "pp_at s d i" "d \<noteq> c" "channels s (pfd_fd p) = None"
  shows "pp_at (s\<lparr>pollfds := pollfds s @ [p], chans := (chans s)(c := x), channels := (channels s)(pfd_fd p \<mapsto> c)\<rparr>) d i"
proof -
  obtain ch where "i < length (pollfds s)" "channels s (pfd_key (pollfds s ! i)) = Some d"
    "chans s d = Some ch" "ch_index ch = int i" "ch_fd ch = pfd_key (pollfds s ! i)" "0 \<le> ch_fd ch"
    using assms(1) by (rule pp_atD)
  moreover from this have "pfd_key (pollfds s ! i) \<noteq> pfd_fd p" using assms(3) by auto
  ultimately show ?thesis using assms(2) by (simp add: pp_at_def nth_append)
qed

lemma PollPoller_update_new:
  assumes "pp_inv s" "chans s c = Some ch" "0 \<le> ch_fd ch" "ch_index ch < 0" "channels s (ch_fd ch) = None"
  shows "\<exists>s'. PollPoller_updateChannel nd True c s = Inr s' \<and> pp_inv s' \<and>
     ran (channels s') = insert c (ran (channels s)) \<and>
     pollfds s' = pollfds s @ [\<lparr>pfd_fd = ch_fd ch, pfd_events = ucast (events ch), pfd_revents = 0\<rparr>]"
proof -
  let ?p = "\<lparr>pfd_fd = ch_fd ch, pfd_events = ucast (events ch), pfd_revents = 0\<rparr>"
  let ?n = "length (pollfds s)"
  define s' where "s' = s\<lparr>pollfds := pollfds s @ [?p],
      chans := (chans s)(c \<mapsto> ch\<lparr>ch_index := int ?n\<rparr>), channels := (channels s)(ch_fd ch \<mapsto> c)\<rparr>"
  have eq: "PollPoller_updateChannel nd True c s = Inr s'"
    using assms(2,4,5) by (simp add: PollPoller_updateChannel_def setIndex_def s'_def Let_def)
  have "c \<notin> ran (channels s)"
  proof
    assume "c \<in> ran (channels s)"
    then obtain i where "pp_at s c i" using assms(1) pp_inv_reg by blast
    then show False using assms(2,4) by (elim pp_atD) simp
  qed
  then have old: "pp_at s' d i" if "pp_at s d i" for d i
    using pp_at_new_channel [OF that, of c ?p] assms(5) that
    by (auto simp: s'_def ran_def elim!: pp_atD)
  have new: "pp_at s' c ?n" using assms(3) by (simp add: s'_def pp_at_def pfd_key_def)
  have "pp_inv s'"
  proof (rule pp_invI)
    fix i assume "i < length (pollfds s')"
    then consider "i < ?n" | "i = ?n" by (force simp: s'_def)
    then show "\<exists>d. pp_at s' d i"
      using pp_inv_at [OF assms(1)] old new by cases blast+
  next
    fix fd d assume "channels s' fd = Some d"
    then consider "fd = ch_fd ch" "d = c" | "fd \<noteq> ch_fd ch" "channels s fd = Some d"
      by (auto simp: s'_def split: if_splits)
    then show "\<exists>i. pp_at s' d i \<and> pfd_key (pollfds s' ! i) = fd"
    proof cases
      case 1
      with new assms(3) show ?thesis by (intro exI [of _ ?n]) (simp add: s'_def pfd_key_def)
    next
      case 2
      then obtain i where i: "pp_at s d i" "pfd_key (pollfds s ! i) = fd"
        using pp_inv_fd [OF assms(1)] by blast
      then have "i < ?n" by (auto elim: pp_atD)
      with i old show ?thesis by (intro exI [of _ i]) (simp add: s'_def nth_append)
    qed
  qed
  moreover have "ran (channels s') = insert c (ran (channels s))"
    using assms(5) by (simp add: s'_def ran_map_upd)
  ultimately show ?thesis using eq by (auto simp: s'_def)
qed

lemma PollPoller_update_old:
  assumes "pp_inv s" "chans s c = Some ch" "0 \<le> ch_index ch" "c \<in> ran (channels s)"
  shows "\<exists>i p. pp_at s c i \<and> p = (pollfds s ! i)\<lparr>pfd_events := ucast (events ch), pfd_revents := 0\<rparr> \<and>
     PollPoller_updateChannel nd True c s = Inr (s\<lparr>pollfds := (pollfds s)[i :=
       if isNoneEvent ch then p\<lparr>pfd_fd := - ch_fd ch - 1\<rparr> else p]\<rparr>) \<and>
     pp_inv (s\<lparr>pollfds := (pollfds s)[i :=
       if isNoneEvent ch then p\<lparr>pfd_fd := - ch_fd ch - 1\<rparr> else p]\<rparr>)"
proof -
  obtain i where at: "pp_at s c i" using pp_inv_reg assms(1,4) by blast
  then have i: "i < length (pollfds s)" "channels s (pfd_key (pollfds s ! i)) = Some c"
    "ch_index ch = int i" "ch_fd ch = pfd_key (pollfds s ! i)" "0 \<le> ch_fd ch"
    using assms(2) by (auto elim!: pp_atD)
  define p where "p = (pollfds s ! i)\<lparr>pfd_events := ucast (events ch), pfd_revents := 0\<rparr>"
  define p2 where "p2 = (if isNoneEvent ch then p\<lparr>pfd_fd := - ch_fd ch - 1\<rparr> else p)"
  have k: "pfd_key p2 = pfd_key (pollfds s ! i)" using i(4,5) by (simp add: p2_def p_def)
  have fd: "pfd_fd (pollfds s ! i) = ch_fd ch \<or> pfd_fd (pollfds s ! i) = - ch_fd ch - 1"
    using i(4) by (simp add: pfd_key_def split: if_splits)
  let ?s = "s\<lparr>pollfds := (pollfds s)[i := p2]\<rparr>"
  have keys: "pfd_key (pollfds ?s ! j) = pfd_key (pollfds s ! j)" if "j < length (pollfds s)" for j
    using k that by (cases "j = i") simp_all
  then have at': "pp_at ?s d j \<longleftrightarrow> pp_at s d j" for d j
    unfolding pp_at_def by (cases "j < length (pollfds s)") auto
  have "pp_inv ?s"
  proof (rule pp_invI)
    show "\<exists>d. pp_at ?s d j" if "j < length (pollfds ?s)" for j
      using pp_inv_at [OF assms(1), of j] that by (simp add: at')
    show "\<exists>j. pp_at ?s d j \<and> pfd_key (pollfds ?s ! j) = fd" if f: "channels ?s fd = Some d" for fd d
    proof -
      have "channels s fd = Some d" using f by simp
      then obtain j where j: "pp_at s d j" "pfd_key (pollfds s ! j) = fd"
        using pp_inv_fd [OF assms(1)] by blast
      then have "j < length (pollfds s)" by (auto elim: pp_atD)
      with j keys at' show ?thesis by blast
    qed
  qed
  moreover have "PollPoller_updateChannel nd True c s = Inr ?s"
    using assms(2,3) i fd by (simp add: PollPoller_updateChannel_def p2_def p_def Let_def cassert_holds)
  ultimately show ?thesis using at unfolding p2_def p_def by blast
qed

lemma butlast_swap_last:
  assumes "i < length xs - 1"
  shows "butlast (xs[i := xs ! (length xs - 1), length xs - 1 := x]) = (butlast xs)[i := last xs]"
proof -
  have "xs \<noteq> []" using assms by auto
  from last_conv_nth [OF this] assms show ?thesis
    by (auto simp: butlast_list_update nth_butlast nth_list_update intro!: nth_equalityI)
qed

text \<open>
  Removing channel \<open>c\<close> at entry \<open>i\<close>: the last entry takes its place, and the channel of the
  last entry is told its new index.
\<close>

lemma PollPoller_remove_last:
  assumes "pp_inv s" "chans s c = Some ch" "isNoneEvent ch" "pp_at s c i" "Suc i = length (pollfds s)"
  shows "\<exists>s'. PollPoller_removeChannel nd True c s = Inr s' \<and> pp_inv s' \<and>
     channels s' = (channels s)(ch_fd ch := None)"
proof -
  have i: "i < length (pollfds s)" "channels s (pfd_key (pollfds s ! i)) = Some c"
    "ch_index ch = int i" "ch_fd ch = pfd_key (pollfds s ! i)" "0 \<le> ch_fd ch"
    using assms(2,4) by (auto elim!: pp_atD)
  define s' where "s' = s\<lparr>channels := (channels s)(ch_fd ch := None), pollfds := butlast (pollfds s)\<rparr>"
  have eq: "PollPoller_removeChannel nd True c s = Inr s'"
    using assms(2,3,5) i by (auto simp: PollPoller_removeChannel_def s'_def Let_def)
  have old: "pp_at s' d j" if atj: "pp_at s d j" and "j \<noteq> i" for d j
  proof -
    obtain dh where d: "j < length (pollfds s)" "channels s (pfd_key (pollfds s ! j)) = Some d"
      "chans s d = Some dh" "ch_index dh = int j" "ch_fd dh = pfd_key (pollfds s ! j)" "0 \<le> ch_fd dh"
      using atj by (rule pp_atD)
    then have "d \<noteq> c" using \<open>j \<noteq> i\<close> assms(2) i(3) by auto
    then have "pfd_key (pollfds s ! j) \<noteq> ch_fd ch" using d(2) i(2,4) by auto
    moreover have "j < length (butlast (pollfds s))" using d(1) \<open>j \<noteq> i\<close> assms(5) by simp
    ultimately show ?thesis using d by (simp add: pp_at_def s'_def nth_butlast)
  qed
  have "pp_inv s'"
  proof (rule pp_invI)
    fix j assume "j < length (pollfds s')"
    then show "\<exists>d. pp_at s' d j"
      using pp_inv_at [OF assms(1), of j] old assms(5) by (fastforce simp: s'_def)
  next
    fix fd d assume "channels s' fd = Some d"
    then have f: "fd \<noteq> ch_fd ch" "channels s fd = Some d" by (auto simp: s'_def split: if_splits)
    then obtain j where j: "pp_at s d j" "pfd_key (pollfds s ! j) = fd"
      using pp_inv_fd [OF assms(1)] by blast
    then have "j \<noteq> i" "j < length (pollfds s)" using f(1) i(4) by (auto elim: pp_atD)
    with j old assms(5) show "\<exists>i. pp_at s' d i \<and> pfd_key (pollfds s' ! i) = fd"
      by (intro exI [of _ j]) (simp add: s'_def nth_butlast)
  qed
  with eq show ?thesis by (simp add: s'_def)
qed

lemma PollPoller_remove_swap:
  assumes "pp_inv s" "chans s c = Some ch" "isNoneEvent ch" "pp_at s c i" "Suc i < length (pollfds s)"
  shows "\<exists>s'. PollPoller_removeChannel nd True c s = Inr s' \<and> pp_inv s' \<and>
     channels s' = (channels s)(ch_fd ch := None)"
proof -
  let ?l = "length (pollfds s) - 1"
  have i: "i < length (pollfds s)" "channels s (pfd_key (pollfds s ! i)) = Some c"
    "ch_index ch = int i" "ch_fd ch = pfd_key (pollfds s ! i)" "0 \<le> ch_fd ch"
    using assms(2,4) by (auto elim!: pp_atD)
  have ne: "pollfds s \<noteq> []" using i(1) by auto
  note ne = ne last_conv_nth [OF ne]
  have "?l < length (pollfds s)" using i(1) by simp
  then obtain d where at: "pp_at s d ?l" using pp_inv_at [OF assms(1)] by blast
  then obtain dh where d: "channels s (pfd_key (pollfds s ! ?l)) = Some d" "chans s d = Some dh"
    "ch_index dh = int ?l" "ch_fd dh = pfd_key (pollfds s ! ?l)" "0 \<le> ch_fd dh"
    by (rule pp_atD)
  have dc: "d \<noteq> c" using d(2,3) assms(2,5) i(3) by auto
  then have kne: "pfd_key (pollfds s ! ?l) \<noteq> ch_fd ch" using d(1) i(2,4) by auto
  define s' where "s' = s\<lparr>channels := (channels s)(ch_fd ch := None),
      chans := (chans s)(d \<mapsto> dh\<lparr>ch_index := int i\<rparr>),
      pollfds := (butlast (pollfds s))[i := last (pollfds s)]\<rparr>"
  have lc: "(if pfd_fd (last (pollfds s)) < 0 then - pfd_fd (last (pollfds s)) - 1
      else pfd_fd (last (pollfds s))) = pfd_key (pollfds s ! ?l)" by (simp add: ne(2) pfd_key_def)
  have "int i \<noteq> int (length (pollfds s)) - 1" using assms(5) by simp
  moreover define f K where "f = pfd_fd (last (pollfds s))" and "K = pfd_key (pollfds s ! ?l)"
  moreover have "f < 0 \<Longrightarrow> K = - f - 1" "\<not> f < 0 \<Longrightarrow> K = f" using lc by (auto simp: f_def K_def)
  moreover have "channels s K = Some d" "K \<noteq> ch_fd ch" using d(1) kne by (simp_all add: K_def)
  moreover have "channels s (ch_fd ch) = Some c" using i(2,4) by simp
  ultimately have eq: "PollPoller_removeChannel nd True c s = Inr s'"
    using assms(2,3,5) i(1,3) ne(1) d(2) butlast_swap_last [of i "pollfds s" "pollfds s ! i"]
    unfolding PollPoller_removeChannel_def Let_def
    by (cases "f < 0") (simp_all add: s'_def setIndex_def f_def [symmetric] ne(2) [symmetric])
  have key: "pfd_key (pollfds s' ! j) = pfd_key (pollfds s ! (if j = i then ?l else j))"
    if "j < ?l" for j
    using that ne assms(5) by (simp add: s'_def nth_butlast nth_list_update)
  have new: "pp_at s' d i"
    using d kne assms(5) key [of i] by (simp add: pp_at_def s'_def)
  have old: "pp_at s' e j" if atj: "pp_at s e j" and nj: "j \<noteq> i" "j \<noteq> ?l" for e j
  proof -
    obtain eh where e: "j < length (pollfds s)" "channels s (pfd_key (pollfds s ! j)) = Some e"
      "chans s e = Some eh" "ch_index eh = int j" "ch_fd eh = pfd_key (pollfds s ! j)" "0 \<le> ch_fd eh"
      using atj by (rule pp_atD)
    then have "e \<noteq> c" "e \<noteq> d" using nj assms(2) i(3) d(2,3) by auto
    moreover from this have "pfd_key (pollfds s ! j) \<noteq> ch_fd ch" using e(2) i(2,4) by auto
    moreover have "j < ?l" using e(1) nj(2) by simp
    ultimately show ?thesis using e nj(1) key [of j] by (simp add: pp_at_def s'_def)
  qed
  have "pp_inv s'"
  proof (rule pp_invI)
    fix j assume "j < length (pollfds s')"
    then have "j < ?l" by (simp add: s'_def)
    then show "\<exists>e. pp_at s' e j"
      using pp_inv_at [OF assms(1), of j] old new by (cases "j = i") fastforce+
  next
    fix fd e assume "channels s' fd = Some e"
    then have f: "fd \<noteq> ch_fd ch" "channels s fd = Some e" by (auto simp: s'_def split: if_splits)
    then obtain j where j: "pp_at s e j" "pfd_key (pollfds s ! j) = fd"
      using pp_inv_fd [OF assms(1)] by blast
    have ji: "j \<noteq> i" "j < length (pollfds s)" using f(1) j i(4) by (auto elim: pp_atD)
    show "\<exists>i. pp_at s' e i \<and> pfd_key (pollfds s' ! i) = fd"
    proof (cases "j = ?l")
      case True
      then have "e = d" using j(1) at by (auto elim!: pp_atD)
      with new j(2) True key [of i] assms(5) show ?thesis by (intro exI [of _ i]) simp
    next
      case False
      with old [OF j(1) ji(1)] j(2) key [of j] ji show ?thesis by (intro exI [of _ j]) simp
    qed
  qed
  with eq show ?thesis by (simp add: s'_def)
qed

lemma ran_remove:
  assumes "pp_inv s" "chans s c = Some ch" "c \<in> ran (channels s)"
  shows "ran ((channels s)(ch_fd ch := None)) = ran (channels s) - {c}"
proof -
  have u: "fd = ch_fd ch" if "channels s fd = Some c" for fd
    using pp_inv_fd [OF assms(1) that] assms(2) by (auto elim!: pp_atD)
  have fd: "channels s (ch_fd ch) = Some c" using assms(3) u by (auto simp: ran_def)
  show ?thesis
  proof (intro set_eqI iffI)
    fix d assume "d \<in> ran ((channels s)(ch_fd ch := None))"
    then obtain fd where "fd \<noteq> ch_fd ch" "channels s fd = Some d" by (auto simp: ran_def split: if_splits)
    with u show "d \<in> ran (channels s) - {c}" by (auto simp: ran_def)
  next
    fix d assume "d \<in> ran (channels s) - {c}"
    then obtain f where f: "channels s f = Some d" "d \<noteq> c" by (auto simp: ran_def)
    then have "f \<noteq> ch_fd ch" using fd by auto
    with f(1) show "d \<in> ran ((channels s)(ch_fd ch := None))" by (auto simp: ran_def)
  qed
qed

interpretation pp: poller "PollPoller_updateChannel nd True" "PollPoller_removeChannel nd True" pp_inv
  pp_ready pp_idle "\<lambda>s. ran (channels s)" for nd
proof
  fix s c
  assume inv: "pp_inv s" and "pp_ready c s"
  then obtain ch where ch: "chans s c = Some ch" "0 \<le> ch_fd ch"
    "if ch_index ch < 0 then channels s (ch_fd ch) = None else c \<in> ran (channels s)"
    by (auto simp: pp_ready_def)
  show "\<exists>s'. PollPoller_updateChannel nd True c s = Inr s' \<and> pp_inv s' \<and>
      ran (channels s') = insert c (ran (channels s))"
  proof (cases "ch_index ch < 0")
    case True
    with PollPoller_update_new [OF inv ch(1,2)] ch(3) show ?thesis by auto
  next
    case False
    then have "c \<in> ran (channels s)" "0 \<le> ch_index ch" using ch(3) by auto
    with PollPoller_update_old [OF inv ch(1), of nd] show ?thesis by (fastforce simp: insert_absorb)
  qed
next
  fix s c
  assume inv: "pp_inv s" and c: "c \<in> ran (channels s)" and "pp_idle c s"
  then obtain ch where ch: "chans s c = Some ch" "isNoneEvent ch" by (auto simp: pp_idle_def)
  obtain i where at: "pp_at s c i" using pp_inv_reg inv c by blast
  then consider "Suc i = length (pollfds s)" | "Suc i < length (pollfds s)" by (fastforce elim: pp_atD)
  then have "\<exists>s'. PollPoller_removeChannel nd True c s = Inr s' \<and> pp_inv s' \<and>
     channels s' = (channels s)(ch_fd ch := None)"
    using PollPoller_remove_last [OF inv ch at] PollPoller_remove_swap [OF inv ch at] by cases blast+
  then show "\<exists>s'. PollPoller_removeChannel nd True c s = Inr s' \<and> pp_inv s' \<and>
      ran (channels s') = ran (channels s) - {c}"
    using ran_remove [OF inv ch(1) c] by auto
qed

subsection \<open>Filling in the active channels\<close>

lemma PollPoller_fill_spec:
  assumes "\<And>p. p \<in> set ps \<Longrightarrow> 0 < sint (pfd_revents p) \<Longrightarrow>
       \<exists>c ch. channels s (pfd_fd p) = Some c \<and> chans s c = Some ch \<and> ch_fd ch = pfd_fd p"
    and "length (filter (\<lambda>p. 0 < sint (pfd_revents p)) ps) \<le> n"
  shows "\<exists>s'. PollPoller_fill nd n ps act s =
       Inr (act @ map (\<lambda>p. the (channels s (pfd_fd p))) (filter (\<lambda>p. 0 < sint (pfd_revents p)) ps), s') \<and>
     channels s' = channels s \<and> pollfds s' = pollfds s \<and>
     (\<forall>c. map_option (set_revents 0) (chans s' c) = map_option (set_revents 0) (chans s c))"
  using assms
proof (induction ps arbitrary: n act s)
  case (Cons p ps)
  show ?case
  proof (cases "0 < sint (pfd_revents p)")
    case True
    obtain c ch where c: "channels s (pfd_fd p) = Some c" "chans s c = Some ch" "ch_fd ch = pfd_fd p"
      using Cons.prems(1) [of p] True by auto
    let ?s = "s\<lparr>chans := (chans s)(c \<mapsto> set_revents (word_of_int (sint (pfd_revents p))) ch)\<rparr>"
    obtain m where m: "n = Suc m" using Cons.prems(2) True by (cases n) auto
    have "\<exists>d dh. channels ?s (pfd_fd p') = Some d \<and> chans ?s d = Some dh \<and> ch_fd dh = pfd_fd p'"
      if "p' \<in> set ps" "0 < sint (pfd_revents p')" for p'
      using Cons.prems(1) [of p'] that c by (fastforce simp: set_revents_def)
    from Cons.IH [OF this, of m "act @ [c]"] obtain s' where s':
      "PollPoller_fill nd m ps (act @ [c]) ?s = Inr ((act @ [c]) @ map (\<lambda>p. the (channels ?s (pfd_fd p)))
         (filter (\<lambda>p. 0 < sint (pfd_revents p)) ps), s')" "channels s' = channels ?s" "pollfds s' = pollfds ?s"
      "\<forall>d. map_option (set_revents 0) (chans s' d) = map_option (set_revents 0) (chans ?s d)"
      using Cons.prems(2) True m by auto
    have "map_option (set_revents 0) (chans ?s d) = map_option (set_revents 0) (chans s d)" for d
      using c(2) by (simp add: set_revents_def)
    with s' c m True show ?thesis by simp
  next
    case False
    then show ?thesis using Cons.IH [of s n act] Cons.prems by (cases n) auto
  qed
qed simp

subsection \<open>Properties of the poller\<close>

text \<open>
  C40: registering, updating and removing channels keeps the array and the map consistent:
  every entry belongs to exactly one registered channel whose index it is, through the
  swap with the last entry that \<open>removeChannel\<close> performs. No assertion fails, no access is out of range.
\<close>

theorem PollPoller_consistent:
  assumes "pp_inv s"
  shows "(pp_ready c s \<longrightarrow> (\<exists>s'. PollPoller_updateChannel nd True c s = Inr s' \<and> pp_inv s' \<and>
            ran (channels s') = insert c (ran (channels s)))) \<and>
     (c \<in> ran (channels s) \<and> pp_idle c s \<longrightarrow>
        (\<exists>s'. PollPoller_removeChannel nd True c s = Inr s' \<and> pp_inv s' \<and>
            ran (channels s') = ran (channels s) - {c}))"
  using pp.upd_ok [OF assms] pp.rem_ok [OF assms] by blast

definition pp_empty :: "PollPoller" where
  "pp_empty = \<lparr>chans = [0 \<mapsto> Channel_new 5], channels = Map.empty, pollfds = []\<rparr>"

theorem PollPoller_consistent_witness:
  "\<exists>s'. PollPoller_updateChannel False True 0 pp_empty = Inr s' \<and> pp_inv s' \<and> ran (channels s') = {0}"
  using PollPoller_consistent [of pp_empty 0 False]
  by (auto simp: pp_empty_def pp_inv_def pp_ready_def Channel_new_def)

text \<open>
  \<open>poll\<close> makes active exactly the channels of the entries for which the kernel reports
  events, in the order of the array, and changes nothing of a channel but its \<open>revents_\<close>,
  provided the kernel reports nothing for the entries it is told to ignore and no report has the sign bit set.
\<close>

theorem PollPoller_poll_active:
  assumes "pp_inv s" and "sys_poll (pollfds s) = Inr rs" and "length rs = length (pollfds s)"
    and "\<forall>i < length rs. rs ! i \<noteq> 0 \<longrightarrow> 0 \<le> pfd_fd (pollfds s ! i) \<and> 0 < sint (rs ! i)"
  shows "\<exists>s'. PollPoller_poll nd sys_poll s =
       Inr (map (\<lambda>i. the (channels s (pfd_fd (pollfds s ! i)))) (filter (\<lambda>i. rs ! i \<noteq> 0) [0..<length rs]), s') \<and>
     channels s' = channels s \<and>
     (\<forall>c. map_option (set_revents 0) (chans s' c) = map_option (set_revents 0) (chans s c))"
proof -
  let ?ps = "map2 (\<lambda>p r. p\<lparr>pfd_revents := r\<rparr>) (pollfds s) rs"
  let ?s = "s\<lparr>pollfds := ?ps\<rparr>"
  let ?P = "\<lambda>p. 0 < sint (pfd_revents p)"
  have ps: "?ps = map (\<lambda>i. (pollfds s ! i)\<lparr>pfd_revents := rs ! i\<rparr>) [0..<length rs]"
    using assms(3) by (intro nth_equalityI) simp_all
  have pos: "0 < sint (rs ! i) \<longleftrightarrow> rs ! i \<noteq> 0" if "i < length rs" for i using assms(4) that by auto
  have f: "filter ?P ?ps = map (\<lambda>i. (pollfds s ! i)\<lparr>pfd_revents := rs ! i\<rparr>)
      (filter (\<lambda>i. rs ! i \<noteq> 0) [0..<length rs])"
    unfolding ps filter_map comp_def using pos by (intro arg_cong [of _ _ "map _"] filter_cong) simp_all
  have n: "length (filter (\<lambda>r. r \<noteq> 0) rs) = length (filter ?P ?ps)"
  proof -
    have "rs = map (\<lambda>i. rs ! i) [0..<length rs]" by (simp add: map_nth)
    then have "filter (\<lambda>r. r \<noteq> 0) rs = map (\<lambda>i. rs ! i) (filter (\<lambda>i. rs ! i \<noteq> 0) [0..<length rs])"
      by (metis (no_types, lifting) comp_def filter_cong filter_map)
    then show ?thesis unfolding f by simp
  qed
  have reg: "\<exists>c ch. channels ?s (pfd_fd p) = Some c \<and> chans ?s c = Some ch \<and> ch_fd ch = pfd_fd p"
    if p: "p \<in> set ?ps" and r: "0 < sint (pfd_revents p)" for p
  proof -
    obtain i where i: "i < length rs" "p = (pollfds s ! i)\<lparr>pfd_revents := rs ! i\<rparr>" using p unfolding ps by auto
    then have "0 \<le> pfd_fd (pollfds s ! i)" using assms(4) r by auto
    then have k: "pfd_key (pollfds s ! i) = pfd_fd p" using i(2) by (simp add: pfd_key_def)
    obtain c where "pp_at s c i" using pp_inv_at [OF assms(1), of i] i(1) assms(3) by auto
    then show ?thesis by (rule pp_atD) (use k in auto)
  qed
  have act: "map (\<lambda>p. the (channels ?s (pfd_fd p))) (filter ?P ?ps) =
      map (\<lambda>i. the (channels s (pfd_fd (pollfds s ! i)))) (filter (\<lambda>i. rs ! i \<noteq> 0) [0..<length rs])"
    unfolding f by simp
  show ?thesis
  proof (cases "length (filter (\<lambda>r. r \<noteq> 0) rs) = 0")
    case True
    then have "filter ?P ?ps = []" using n by (metis length_0_conv)
    then have "map (\<lambda>i. the (channels s (pfd_fd (pollfds s ! i)))) (filter (\<lambda>i. rs ! i \<noteq> 0) [0..<length rs]) = []"
      using act by simp
    with True assms(2) show ?thesis by (simp add: PollPoller_poll_def)
  next
    case False
    then have "PollPoller_poll nd sys_poll s = PollPoller_fill nd (length (filter (\<lambda>r. r \<noteq> 0) rs)) ?ps [] ?s"
      using assms(2) by (simp add: PollPoller_poll_def)
    moreover have "length (filter ?P ?ps) \<le> length (filter (\<lambda>r. r \<noteq> 0) rs)" using n by (simp only: order_refl)
    moreover note PollPoller_fill_spec [OF reg this, of nd "[]", unfolded act append_Nil]
    ultimately show ?thesis by auto
  qed
qed

text \<open>
  A channel that was disabled and is enabled again stays ignored: \<open>updateChannel\<close> turns
  the descriptor of the entry negative when the interest becomes empty and never turns it
  back, so the kernel goes on ignoring the entry although its events are set.
\<close>

theorem PollPoller_reenable_ignored:
  assumes "pp_inv s" and "pp_at s c i" and "pfd_fd (pollfds s ! i) < 0"
    and "chans s c = Some ch" and "\<not> isNoneEvent ch"
  shows "\<exists>s'. PollPoller_updateChannel nd True c s = Inr s' \<and>
     pfd_fd (pollfds s' ! i) < 0 \<and> pfd_events (pollfds s' ! i) = ucast (events ch)"
proof -
  have i: "0 \<le> ch_index ch" "c \<in> ran (channels s)" "i < length (pollfds s)"
    using assms(2,4) by (auto elim!: pp_atD simp: ran_def)
  obtain j where j: "pp_at s c j" "PollPoller_updateChannel nd True c s = Inr (s\<lparr>pollfds := (pollfds s)[j :=
      (pollfds s ! j)\<lparr>pfd_events := ucast (events ch), pfd_revents := 0\<rparr>]\<rparr>)"
    using PollPoller_update_old [OF assms(1,4) i(1,2), of nd] assms(5) by auto
  with pp_at_inj [OF assms(2) j(1)] assms(3) i(3) show ?thesis by simp
qed

definition pp_one :: "32 word \<Rightarrow> PollPoller" where
  "pp_one e = \<lparr>chans = [0 \<mapsto> (Channel_new 5)\<lparr>ch_index := 0, events := e\<rparr>], channels = [5 \<mapsto> 0],
     pollfds = [\<lparr>pfd_fd = - 6, pfd_events = 0, pfd_revents = 0\<rparr>]\<rparr>"

lemma pp_one_inv: "pp_inv (pp_one e)" "pp_at (pp_one e) 0 0"
  by (auto simp: pp_one_def pp_inv_def pp_at_def pfd_key_def Channel_new_def split: if_splits)

theorem PollPoller_reenable_ignored_witness:
  "\<exists>s'. PollPoller_updateChannel False True 0 (pp_one kReadEvent) = Inr s' \<and> pfd_fd (pollfds s' ! 0) < 0"
  using PollPoller_reenable_ignored [OF pp_one_inv, of kReadEvent _ False]
  by (auto simp: pp_one_def isNoneEvent_def event_bits poll_bits)

theorem PollPoller_poll_active_witness:
  "\<exists>s'. PollPoller_poll False (\<lambda>_. Inr [0]) (pp_one 0) = Inr ([], s') \<and> channels s' = [5 \<mapsto> 0]"
  using PollPoller_poll_active [OF pp_one_inv(1), of "\<lambda>_. Inr [0]" 0 "[0]" False]
  by (auto simp: pp_one_def)

end
