(* ===== verification/Arale_EPollPoller.thy ===== *)
theory Arale_EPollPoller
  imports Arale_Channel
begin

section \<open>The poller on \<open>epoll(7)\<close> (\<open>arale/net/EPollPoller.*\<close>, \<open>DefaultPoller.cc\<close>)\<close>

text \<open>
  The state includes the kernel's interest list: the map \<open>interest\<close> from descriptors to
  the events and the pointer registered for them. \<open>epoll_ctl\<close> works on it as documented
  (adding a registered descriptor and changing or deleting an unknown one fail); the
  argument \<open>kfail\<close> says which calls fail for other reasons.
\<close>

definition kNew :: int where "kNew = -1"
definition kAdded :: int where "kAdded = 1"
definition kDeleted :: int where "kDeleted = 2"

definition EPOLL_CTL_ADD :: int where "EPOLL_CTL_ADD = 1"
definition EPOLL_CTL_DEL :: int where "EPOLL_CTL_DEL = 2"
definition EPOLL_CTL_MOD :: int where "EPOLL_CTL_MOD = 3"

lemmas ep_consts = kNew_def kAdded_def kDeleted_def EPOLL_CTL_ADD_def EPOLL_CTL_DEL_def EPOLL_CTL_MOD_def

definition kInitEPollEventListSize :: nat where "kInitEPollEventListSize = 16"

record EPollPoller = Poller +
  interest :: "int \<rightharpoonup> 32 word \<times> nat"
  eventListSize :: nat

definition EPollPoller_new :: "int \<Rightarrow> (nat \<rightharpoonup> Channel) \<Rightarrow> EPollPoller result" where
  "EPollPoller_new epollfd h =
     (if epollfd < 0 then Inl Fatal
      else Inr \<lparr>chans = h, channels = Map.empty, interest = Map.empty,
                eventListSize = kInitEPollEventListSize\<rparr>)"

definition epoll_ctl :: "(int \<Rightarrow> int \<Rightarrow> bool) \<Rightarrow> int \<Rightarrow> int \<Rightarrow> 32 word \<times> nat \<Rightarrow> EPollPoller \<Rightarrow> EPollPoller option" where
  "epoll_ctl kfail op fd ev s =
     (if kfail op fd then None
      else if op = EPOLL_CTL_ADD then
        (if interest s fd = None then Some (s\<lparr>interest := (interest s)(fd \<mapsto> ev)\<rparr>) else None)
      else if op = EPOLL_CTL_DEL then
        (if interest s fd = None then None else Some (s\<lparr>interest := (interest s)(fd := None)\<rparr>))
      else if op = EPOLL_CTL_MOD then
        (if interest s fd = None then None else Some (s\<lparr>interest := (interest s)(fd \<mapsto> ev)\<rparr>))
      else None)"

definition operationToString :: "bool \<Rightarrow> int \<Rightarrow> string result" where
  "operationToString nd op =
     (if op = EPOLL_CTL_ADD then Inr ''ADD''
      else if op = EPOLL_CTL_DEL then Inr ''DEL''
      else if op = EPOLL_CTL_MOD then Inr ''MOD''
      else cassert nd False (Inr ''Unknown Operation''))"

definition EPollPoller_update :: "bool \<Rightarrow> (int \<Rightarrow> int \<Rightarrow> bool) \<Rightarrow> int \<Rightarrow> nat \<Rightarrow> EPollPoller \<Rightarrow> EPollPoller result" where
  "EPollPoller_update nd kfail op c s =
     bindR (channel_at c s) (\<lambda>ch.
     bindR (operationToString nd op) (\<lambda>_.
     case epoll_ctl kfail op (ch_fd ch) (events ch, c) s of
       Some s' \<Rightarrow> Inr s'
     | None \<Rightarrow> if op = kDeleted then Inr s else Inl Fatal))"

definition EPollPoller_updateChannel ::
  "bool \<Rightarrow> bool \<Rightarrow> (int \<Rightarrow> int \<Rightarrow> bool) \<Rightarrow> nat \<Rightarrow> EPollPoller \<Rightarrow> EPollPoller result" where
  "EPollPoller_updateChannel nd il kfail c s =
     assertInLoopThread il (bindR (channel_at c s) (\<lambda>ch.
     let index = ch_index ch; fd = ch_fd ch in
     if index = kNew \<or> index = kDeleted then
       cassert nd (channels s fd = None)
         (bindR
            (if index = kNew then Inr (s\<lparr>channels := (channels s)(fd \<mapsto> c)\<rparr>)
             else cassert nd (channels s fd = Some c) (Inr s)) (\<lambda>s1.
          bindR (setIndex c kAdded s1) (\<lambda>s2.
          EPollPoller_update nd kfail EPOLL_CTL_ADD c s2)))
     else
       cassert nd (channels s fd \<noteq> None) (cassert nd (channels s fd = Some c)
         (cassert nd (index = kAdded)
            (if isNoneEvent ch then
               bindR (setIndex c kDeleted s) (\<lambda>s1. EPollPoller_update nd kfail EPOLL_CTL_DEL c s1)
             else EPollPoller_update nd kfail EPOLL_CTL_MOD c s)))))"

definition EPollPoller_removeChannel ::
  "bool \<Rightarrow> bool \<Rightarrow> (int \<Rightarrow> int \<Rightarrow> bool) \<Rightarrow> nat \<Rightarrow> EPollPoller \<Rightarrow> EPollPoller result" where
  "EPollPoller_removeChannel nd il kfail c s =
     assertInLoopThread il (bindR (channel_at c s) (\<lambda>ch.
     let fd = ch_fd ch; index = ch_index ch in
     cassert nd (channels s fd \<noteq> None) (cassert nd (channels s fd = Some c)
       (cassert nd (isNoneEvent ch) (cassert nd (index = kAdded \<or> index = kDeleted)
         (let n = (if channels s fd = None then 0 else 1 :: nat);
              s1 = s\<lparr>channels := (channels s)(fd := None)\<rparr>
          in cassert nd (n = 1)
               (bindR (if index = kAdded then EPollPoller_update nd kfail EPOLL_CTL_DEL c s1 else Inr s1)
                  (setIndex c kNew))))))))"

text \<open>
  \<open>fillActiveChannels\<close>: the pointers of the events are the channels; the consistency checks
  are compiled in debug builds only.
\<close>

fun EPollPoller_fill ::
  "bool \<Rightarrow> (32 word \<times> nat) list \<Rightarrow> nat list \<Rightarrow> EPollPoller \<Rightarrow> (nat list \<times> EPollPoller) result" where
  "EPollPoller_fill nd [] act s = Inr (act, s)"
| "EPollPoller_fill nd ((e, c) # es) act s =
     bindR (channel_at c s) (\<lambda>ch.
     cassert nd (channels s (ch_fd ch) \<noteq> None) (cassert nd (channels s (ch_fd ch) = Some c)
       (EPollPoller_fill nd es (act @ [c]) (s\<lparr>chans := (chans s)(c \<mapsto> set_revents e ch)\<rparr>))))"

definition EPollPoller_poll ::
  "bool \<Rightarrow> (nat \<Rightarrow> int + (32 word \<times> nat) list) \<Rightarrow> EPollPoller \<Rightarrow> (nat list \<times> EPollPoller) result" where
  "EPollPoller_poll nd epoll_wait s =
     (case epoll_wait (eventListSize s) of
        Inl savedErrno \<Rightarrow> Inr ([], s)
      | Inr es \<Rightarrow>
          if 0 < length es then
            cassert nd (length es \<le> eventListSize s)
              (bindR (EPollPoller_fill nd es [] s) (\<lambda>(act, s1).
               Inr (act, if length es = eventListSize s1
                         then s1\<lparr>eventListSize := eventListSize s1 * 2\<rparr> else s1)))
          else Inr ([], s))"

datatype poller_kind = UsePoll | UseEPoll

definition setDefaultPoller :: "(string \<Rightarrow> string option) \<Rightarrow> poller_kind" where
  "setDefaultPoller getenv = (if getenv ''ARALE_USE_POLL'' \<noteq> None then UsePoll else UseEPoll)"

subsection \<open>The invariant\<close>

text \<open>
  A registered channel is live, carries the descriptor it is registered under, and its
  index says whether the kernel knows the descriptor; the kernel's list has no other entries.
\<close>

definition ep_entry :: "EPollPoller \<Rightarrow> int \<Rightarrow> bool" where
  "ep_entry s fd \<longleftrightarrow>
     (case channels s fd of
        None \<Rightarrow> interest s fd = None
      | Some c \<Rightarrow> (\<exists>ch. chans s c = Some ch \<and> ch_fd ch = fd \<and>
          (ch_index ch = kAdded \<and> (\<exists>e. interest s fd = Some (e, c)) \<or>
           ch_index ch = kDeleted \<and> interest s fd = None)))"

definition ep_inv :: "EPollPoller \<Rightarrow> bool" where
  "ep_inv s \<longleftrightarrow> (\<forall>fd. ep_entry s fd)"

definition ep_ready :: "nat \<Rightarrow> EPollPoller \<Rightarrow> bool" where
  "ep_ready c s \<longleftrightarrow> (\<exists>ch. chans s c = Some ch \<and>
     (ch_index ch = kNew \<and> channels s (ch_fd ch) = None \<or> channels s (ch_fd ch) = Some c))"

definition ep_idle :: "nat \<Rightarrow> EPollPoller \<Rightarrow> bool" where
  "ep_idle c s \<longleftrightarrow> (\<exists>ch. chans s c = Some ch \<and> isNoneEvent ch)"

lemma ep_invD: "ep_inv s \<Longrightarrow> ep_entry s fd"
  by (simp add: ep_inv_def)

lemma ep_reg_unique:
  assumes "ep_inv s" "channels s fd = Some c" "chans s c = Some ch"
  shows "fd = ch_fd ch"
  using ep_invD [OF assms(1), of fd] assms(2,3) by (simp add: ep_entry_def)

lemma ep_inv_change:
  assumes "ep_inv s" "ep_entry s' fd"
    and "\<And>f. f \<noteq> fd \<Longrightarrow> channels s' f = channels s f \<and> interest s' f = interest s f"
    and "\<And>d. d \<noteq> c \<Longrightarrow> chans s' d = chans s d" "\<And>f. f \<noteq> fd \<Longrightarrow> channels s f \<noteq> Some c"
  shows "ep_inv s'"
  unfolding ep_inv_def
proof
  fix f
  show "ep_entry s' f"
  proof (cases "f = fd")
    case False
    with ep_invD [OF assms(1), of f] assms(3-5) show ?thesis
      by (fastforce simp: ep_entry_def split: option.splits)
  qed (use assms(2) in simp)
qed

lemma ran_upd: "m k = None \<Longrightarrow> ran (m(k \<mapsto> v)) = insert v (ran m)"
  by (rule ran_map_upd)

text \<open>
  One update in a release build: the channel is registered, and the kernel has its events,
  unless it was registered before and has no interest left: then the kernel does not know it.
\<close>

lemma EPollPoller_update_spec:
  assumes "ep_inv s" "chans s c = Some ch"
    and "ch_index ch = kNew \<and> channels s (ch_fd ch) = None \<or> channels s (ch_fd ch) = Some c"
    and "\<And>op fd. \<not> kfail op fd"
  shows "\<exists>s'. EPollPoller_updateChannel True True kfail c s = Inr s' \<and> ep_inv s' \<and>
     ran (channels s') = insert c (ran (channels s)) \<and> channels s' (ch_fd ch) = Some c \<and>
     interest s' (ch_fd ch) =
       (if ch_index ch = kAdded \<and> isNoneEvent ch then None else Some (events ch, c)) \<and>
     (\<forall>fd. fd \<noteq> ch_fd ch \<longrightarrow> interest s' fd = interest s fd \<and> channels s' fd = channels s fd) \<and>
     (\<forall>d. d \<noteq> c \<longrightarrow> chans s' d = chans s d) \<and>
     chans s' c = Some (ch\<lparr>ch_index := if ch_index ch = kAdded \<and> isNoneEvent ch then kDeleted else kAdded\<rparr>)"
proof -
  let ?fd = "ch_fd ch"
  have e: "ep_entry s ?fd" using assms(1) by (rule ep_invD)
  have other: "channels s f \<noteq> Some c" if "f \<noteq> ?fd" for f
    using ep_reg_unique [OF assms(1) _ assms(2)] that by blast
  consider (new) "ch_index ch = kNew" "channels s ?fd = None" "interest s ?fd = None"
    | (deleted) "ch_index ch = kDeleted" "channels s ?fd = Some c" "interest s ?fd = None"
    | (added) "ch_index ch = kAdded" "channels s ?fd = Some c" "\<exists>e. interest s ?fd = Some (e, c)"
    using assms(2,3) e by (auto simp: ep_entry_def)
  then show ?thesis
  proof cases
    case new
    define s' where "s' = s\<lparr>channels := (channels s)(?fd \<mapsto> c),
        chans := (chans s)(c \<mapsto> ch\<lparr>ch_index := kAdded\<rparr>), interest := (interest s)(?fd \<mapsto> (events ch, c))\<rparr>"
    have "EPollPoller_updateChannel True True kfail c s = Inr s'"
      using new assms(2,4)
      by (simp add: EPollPoller_updateChannel_def setIndex_def EPollPoller_update_def epoll_ctl_def
          operationToString_def s'_def ep_consts Let_def)
    moreover have "ep_inv s'"
      by (rule ep_inv_change [OF assms(1), of _ ?fd c]) (use other in \<open>auto simp: s'_def ep_entry_def\<close>)
    ultimately show ?thesis using new by (auto simp: s'_def ran_upd ep_consts)
  next
    case deleted
    define s' where "s' = s\<lparr>chans := (chans s)(c \<mapsto> ch\<lparr>ch_index := kAdded\<rparr>),
        interest := (interest s)(?fd \<mapsto> (events ch, c))\<rparr>"
    have "EPollPoller_updateChannel True True kfail c s = Inr s'"
      using deleted assms(2,4)
      by (simp add: EPollPoller_updateChannel_def setIndex_def EPollPoller_update_def epoll_ctl_def
          operationToString_def s'_def ep_consts Let_def)
    moreover have "ep_inv s'"
      by (rule ep_inv_change [OF assms(1), of _ ?fd c]) (use other deleted in \<open>auto simp: s'_def ep_entry_def\<close>)
    ultimately show ?thesis using deleted by (auto simp: s'_def ep_consts ran_def)
  next
    case added
    define s' where "s' = (if isNoneEvent ch
        then s\<lparr>chans := (chans s)(c \<mapsto> ch\<lparr>ch_index := kDeleted\<rparr>), interest := (interest s)(?fd := None)\<rparr>
        else s\<lparr>interest := (interest s)(?fd \<mapsto> (events ch, c))\<rparr>)"
    have "EPollPoller_updateChannel True True kfail c s = Inr s'"
      using added assms(2,4)
      by (auto simp: EPollPoller_updateChannel_def setIndex_def EPollPoller_update_def epoll_ctl_def
          operationToString_def s'_def ep_consts Let_def)
    moreover have "ep_inv s'"
      by (rule ep_inv_change [OF assms(1), of _ ?fd c]) (use other added assms(2) in \<open>auto simp: s'_def ep_entry_def\<close>)
    ultimately show ?thesis using added assms(2) by (auto simp: s'_def ep_consts ran_def)
  qed
qed

lemma EPollPoller_remove_spec:
  assumes "ep_inv s" "chans s c = Some ch" "c \<in> ran (channels s)" "isNoneEvent ch"
    and "\<And>op fd. \<not> kfail op fd"
  shows "\<exists>s'. EPollPoller_removeChannel nd True kfail c s = Inr s' \<and> ep_inv s' \<and>
     ran (channels s') = ran (channels s) - {c} \<and> interest s' (ch_fd ch) = None"
proof -
  let ?fd = "ch_fd ch"
  have fd: "channels s ?fd = Some c" "\<And>f. channels s f = Some c \<Longrightarrow> f = ?fd"
    using assms(3) ep_reg_unique [OF assms(1) _ assms(2)] by (auto simp: ran_def)
  have e: "ep_entry s ?fd" using assms(1) by (rule ep_invD)
  then have i: "ch_index ch = kAdded \<and> interest s ?fd \<noteq> None \<or> ch_index ch = kDeleted \<and> interest s ?fd = None"
    using fd(1) assms(2) by (auto simp: ep_entry_def)
  define s' where "s' = s\<lparr>channels := (channels s)(?fd := None), interest := (interest s)(?fd := None),
      chans := (chans s)(c \<mapsto> ch\<lparr>ch_index := kNew\<rparr>)\<rparr>"
  have un: "(interest s)(?fd := None) = interest s" if "interest s ?fd = None" using that by auto
  have "EPollPoller_removeChannel nd True kfail c s = Inr s'"
    using i fd(1) assms(2,4,5) un
    by (auto simp: EPollPoller_removeChannel_def setIndex_def EPollPoller_update_def epoll_ctl_def
        operationToString_def s'_def ep_consts Let_def)
  moreover have "ep_inv s'"
    by (rule ep_inv_change [OF assms(1), of _ ?fd c]) (use fd(2) in \<open>auto simp: s'_def ep_entry_def\<close>)
  moreover have "ran (channels s') = ran (channels s) - {c}"
  proof (intro set_eqI iffI)
    fix d assume "d \<in> ran (channels s')"
    then obtain f where "f \<noteq> ?fd" "channels s f = Some d" by (auto simp: s'_def ran_def split: if_splits)
    with fd(2) show "d \<in> ran (channels s) - {c}" by (auto simp: ran_def)
  next
    fix d assume "d \<in> ran (channels s) - {c}"
    then obtain f where f: "channels s f = Some d" "d \<noteq> c" by (auto simp: ran_def)
    then have "f \<noteq> ?fd" using fd(1) by auto
    with f(1) show "d \<in> ran (channels s')" by (auto simp: s'_def ran_def)
  qed
  ultimately show ?thesis by (simp add: s'_def)
qed

interpretation ep: poller "EPollPoller_updateChannel True True (\<lambda>_ _. False)"
  "EPollPoller_removeChannel nd True (\<lambda>_ _. False)" ep_inv ep_ready ep_idle "\<lambda>s. ran (channels s)" for nd
proof
  fix s c
  assume inv: "ep_inv s" and "ep_ready c s"
  then obtain ch where ch: "chans s c = Some ch"
    "ch_index ch = kNew \<and> channels s (ch_fd ch) = None \<or> channels s (ch_fd ch) = Some c"
    unfolding ep_ready_def by blast
  obtain s' where "EPollPoller_updateChannel True True (\<lambda>_ _. False) c s = Inr s'" "ep_inv s'"
      "ran (channels s') = insert c (ran (channels s))"
    using EPollPoller_update_spec [OF inv ch, of "\<lambda>_ _. False"] by auto
  then show "\<exists>s'. EPollPoller_updateChannel True True (\<lambda>_ _. False) c s = Inr s' \<and> ep_inv s' \<and>
      ran (channels s') = insert c (ran (channels s))" by blast
next
  fix s c
  assume inv: "ep_inv s" and c: "c \<in> ran (channels s)" and "ep_idle c s"
  then obtain ch where ch: "chans s c = Some ch" "isNoneEvent ch" unfolding ep_idle_def by blast
  obtain s' where "EPollPoller_removeChannel nd True (\<lambda>_ _. False) c s = Inr s'" "ep_inv s'"
      "ran (channels s') = ran (channels s) - {c}"
    using EPollPoller_remove_spec [OF inv ch(1) c ch(2), of "\<lambda>_ _. False" nd] by auto
  then show "\<exists>s'. EPollPoller_removeChannel nd True (\<lambda>_ _. False) c s = Inr s' \<and> ep_inv s' \<and>
      ran (channels s') = ran (channels s) - {c}" by blast
qed

subsection \<open>Properties of the poller\<close>


definition ep_start :: "EPollPoller" where
  "ep_start = \<lparr>chans = [0 \<mapsto> (Channel_new 7)\<lparr>events := kReadEvent\<rparr>], channels = Map.empty,
     interest = Map.empty, eventListSize = 16\<rparr>"


text \<open>
  In a debug build a channel that lost its last interest can never be enabled again:
  \<open>updateChannel\<close> asserts for an index \<open>kDeleted\<close> that the descriptor is not in the map, and
  two lines later that it is.
\<close>

theorem EPollPoller_readd_asserts:
  assumes "chans s c = Some ch" and "ch_index ch = kDeleted"
  shows "EPollPoller_updateChannel False True kfail c s = Inl AssertFailed"
  using assms by (simp add: EPollPoller_updateChannel_def cassert_def ep_consts Let_def)

theorem EPollPoller_readd_asserts_witness:
  "EPollPoller_updateChannel False True (\<lambda>_ _. False) 0
     \<lparr>chans = [0 \<mapsto> (Channel_new 7)\<lparr>ch_index := kDeleted\<rparr>], channels = [7 \<mapsto> 0], interest = Map.empty,
      eventListSize = 16\<rparr> = Inl AssertFailed"
  by (rule EPollPoller_readd_asserts [where ch = "(Channel_new 7)\<lparr>ch_index := kDeleted\<rparr>"]) simp_all

end
