(* ===== verification/Arale_Sockets.thy ===== *)
theory Arale_Sockets
  imports Arale_Endian Arale_Format Arale_Channel
begin

section \<open>Addresses, socket operations and the acceptor\<close>

text \<open>
  \<open>arale/net/InetAddress.*\<close>, \<open>SocketsOps.*\<close>, \<open>Socket.*\<close> and \<open>Acceptor.*\<close>. What a
  system call returned is an argument. The IPv4 text conversions of the C
  library are defined here; those of IPv6 are the parameters \<open>pton6\<close> and \<open>ntop6\<close>, from and to the
  sixteen bytes of an address.
\<close>

subsection \<open>Addresses\<close>

text \<open>
  The union of \<open>sockaddr_in\<close> and \<open>sockaddr_in6\<close>: family and port are common, the next
  four bytes are \<open>sin_addr\<close> of the one and \<open>sin6_flowinfo\<close> of the other, the sixteen
  bytes after them are \<open>sin6_addr\<close>, of which the first eight are \<open>sin_zero\<close>.
\<close>

record sockaddr =
  sa_family :: "16 word"
  sa_port :: "16 word"
  sa_addr4 :: "32 word"
  sa_addr6 :: "char list"

definition AF_INET :: "16 word" where "AF_INET = 2"
definition AF_INET6 :: "16 word" where "AF_INET6 = 10"

definition kInaddrAny :: "32 word" where "kInaddrAny = 0"
definition kInaddrLoopback :: "32 word" where "kInaddrLoopback = 0x7F000001"

definition in6addr_any :: "char list" where "in6addr_any = replicate 16 (CHR 0x00)"
definition in6addr_loopback :: "char list" where "in6addr_loopback = replicate 15 (CHR 0x00) @ [CHR 0x01]"

definition bzero6 :: sockaddr where
  "bzero6 = \<lparr>sa_family = 0, sa_port = 0, sa_addr4 = 0, sa_addr6 = replicate 16 (CHR 0x00)\<rparr>"

definition bzero4 :: "sockaddr \<Rightarrow> sockaddr" where
  "bzero4 a = \<lparr>sa_family = 0, sa_port = 0, sa_addr4 = 0, sa_addr6 = replicate 8 (CHR 0x00) @ drop 8 (sa_addr6 a)\<rparr>"

subsection \<open>IPv4 text\<close>

fun split_on :: "char \<Rightarrow> string \<Rightarrow> string list" where
  "split_on d [] = [[]]"
| "split_on d (c # cs) =
     (if c = d then [] # split_on d cs
      else case split_on d cs of [] \<Rightarrow> [[c]] | w # ws \<Rightarrow> (c # w) # ws)"

definition octet_ok :: "string \<Rightarrow> bool" where
  "octet_ok s \<longleftrightarrow> s \<noteq> [] \<and> (\<forall>c \<in> set s. is_digit c) \<and> undec s \<le> 255 \<and> (hd s = CHR ''0'' \<longrightarrow> length s = 1)"

definition inet_pton4 :: "string \<Rightarrow> char list option" where
  "inet_pton4 ip =
     (let ws = split_on (CHR ''.'') ip
      in if length ws = 4 \<and> (\<forall>w \<in> set ws. octet_ok w) then Some (map (\<lambda>w. char_of (undec w)) ws) else None)"

fun join_dots :: "string list \<Rightarrow> string" where
  "join_dots [] = []"
| "join_dots [w] = w"
| "join_dots (w # ws) = w @ CHR ''.'' # join_dots ws"

definition inet_ntop4 :: "char list \<Rightarrow> string" where
  "inet_ntop4 bs = join_dots (map (\<lambda>b. dec (of_char b)) bs)"

definition INET_ADDRSTRLEN :: nat where "INET_ADDRSTRLEN = 16"
definition INET6_ADDRSTRLEN :: nat where "INET6_ADDRSTRLEN = 46"

subsection \<open>Conversions (\<open>SocketsOps.cc\<close>)\<close>

text \<open>The second component says whether an error was logged.\<close>

definition fromIpPort6 :: "byte_order \<Rightarrow> (string \<Rightarrow> char list option) \<Rightarrow> string \<Rightarrow> 16 word \<Rightarrow> sockaddr \<Rightarrow> sockaddr \<times> bool" where
  "fromIpPort6 e pton6 ip port a =
     (let a1 = a\<lparr>sa_family := AF_INET6, sa_port := hostToNetwork16 e port\<rparr>
      in case pton6 ip of None \<Rightarrow> (a1, True) | Some bs \<Rightarrow> (a1\<lparr>sa_addr6 := bs\<rparr>, False))"

definition fromIpPort4 :: "byte_order \<Rightarrow> string \<Rightarrow> 16 word \<Rightarrow> sockaddr \<Rightarrow> sockaddr \<times> bool" where
  "fromIpPort4 e ip port a =
     (let a1 = a\<lparr>sa_family := AF_INET, sa_port := hostToNetwork16 e port\<rparr>
      in case inet_pton4 ip of None \<Rightarrow> (a1, True) | Some bs \<Rightarrow> (a1\<lparr>sa_addr4 := mem_word e bs\<rparr>, False))"

text \<open>\<open>inet_ntop\<close> leaves the buffer alone when the text and its terminating zero do not fit.\<close>

definition sock_toIp :: "bool \<Rightarrow> byte_order \<Rightarrow> (char list \<Rightarrow> string) \<Rightarrow> nat \<Rightarrow> string \<Rightarrow> sockaddr \<Rightarrow> string result" where
  "sock_toIp nd e ntop6 bufsize buf a =
     (if sa_family a = AF_INET then
        cassert nd (INET_ADDRSTRLEN \<le> bufsize)
          (let s = inet_ntop4 (word_mem e (sa_addr4 a)) in Inr (if length s < bufsize then s else buf))
      else
        cassert nd (INET6_ADDRSTRLEN \<le> bufsize)
          (let s = ntop6 (sa_addr6 a) in Inr (if length s < bufsize then s else buf)))"

definition sock_toIpPort :: "bool \<Rightarrow> byte_order \<Rightarrow> (char list \<Rightarrow> string) \<Rightarrow> nat \<Rightarrow> string \<Rightarrow> sockaddr \<Rightarrow> string result" where
  "sock_toIpPort nd e ntop6 bufsize buf a =
     bindR (sock_toIp nd e ntop6 bufsize buf a) (\<lambda>buf1.
     let end_pos = length buf1; port = networkToHost16 e (sa_port a)
     in Inr (buf1 @ snprintf (bufsize - end_pos) (CHR '':'' # dec (unat port))))"

subsection \<open>\<open>InetAddress\<close>\<close>

definition InetAddress_port :: "byte_order \<Rightarrow> sockaddr \<Rightarrow> 16 word \<Rightarrow> bool \<Rightarrow> bool \<Rightarrow> sockaddr" where
  "InetAddress_port e garbage port loopbackOnly ipv6 =
     (if ipv6 then
        bzero6\<lparr>sa_family := AF_INET6, sa_addr6 := (if loopbackOnly then in6addr_loopback else in6addr_any),
               sa_port := hostToNetwork16 e port\<rparr>
      else
        (bzero4 garbage)\<lparr>sa_family := AF_INET,
               sa_addr4 := hostToNetwork32 e (if loopbackOnly then kInaddrLoopback else kInaddrAny),
               sa_port := hostToNetwork16 e port\<rparr>)"

definition InetAddress_ip :: "byte_order \<Rightarrow> (string \<Rightarrow> char list option) \<Rightarrow> sockaddr \<Rightarrow> string \<Rightarrow> 16 word \<Rightarrow> bool \<Rightarrow> sockaddr \<times> bool" where
  "InetAddress_ip e pton6 garbage ip port ipv6 =
     (if ipv6 then fromIpPort6 e pton6 ip port bzero6
      else fromIpPort4 e ip port (bzero4 garbage))"

text \<open>
  The constructor from a \<open>sockaddr_in\<close> sets its sixteen bytes of the union; the rest is what was in memory (\<open>garbage\<close>).
\<close>

definition InetAddress_in :: "sockaddr \<Rightarrow> sockaddr \<Rightarrow> sockaddr" where
  "InetAddress_in garbage addr = addr\<lparr>sa_addr6 := take 8 (sa_addr6 addr) @ drop 8 (sa_addr6 garbage)\<rparr>"

definition InetAddress_in6 :: "sockaddr \<Rightarrow> sockaddr" where
  "InetAddress_in6 addr = addr"

definition addr_family :: "sockaddr \<Rightarrow> 16 word" where
  "addr_family a = sa_family a"

definition getSockAddr :: "sockaddr \<Rightarrow> sockaddr" where
  "getSockAddr a = a"

definition setSockAddrInet6 :: "sockaddr \<Rightarrow> sockaddr \<Rightarrow> sockaddr" where
  "setSockAddrInet6 addr6 a = addr6"

definition portNetEndian :: "sockaddr \<Rightarrow> 16 word" where
  "portNetEndian a = sa_port a"

definition addr_toIp :: "bool \<Rightarrow> byte_order \<Rightarrow> (char list \<Rightarrow> string) \<Rightarrow> sockaddr \<Rightarrow> string result" where
  "addr_toIp nd e ntop6 a = sock_toIp nd e ntop6 64 [] a"

definition addr_toIpPort :: "bool \<Rightarrow> byte_order \<Rightarrow> (char list \<Rightarrow> string) \<Rightarrow> sockaddr \<Rightarrow> string result" where
  "addr_toIpPort nd e ntop6 a = sock_toIpPort nd e ntop6 64 [] a"

definition ipNetEndian :: "bool \<Rightarrow> sockaddr \<Rightarrow> 32 word result" where
  "ipNetEndian nd a = cassert nd (sa_family a = AF_INET) (Inr (sa_addr4 a))"

definition addr_toPort :: "byte_order \<Rightarrow> sockaddr \<Rightarrow> 16 word" where
  "addr_toPort e a = networkToHost16 e (sa_port a)"

text \<open>
  \<open>resolve\<close>: \<open>ret\<close> and \<open>he\<close> are what \<open>gethostbyname_r\<close> returned, the latter the family,
  length and bytes of the host's first address. The result says whether it succeeded and whether an error was logged.
\<close>

definition addr_resolve ::
  "bool \<Rightarrow> byte_order \<Rightarrow> int \<Rightarrow> (16 word \<times> nat \<times> char list) option \<Rightarrow> sockaddr \<Rightarrow> (bool \<times> bool \<times> sockaddr) result" where
  "addr_resolve nd e ret he a =
     (case (ret = 0, he) of
        (True, Some (fam, len, bs)) \<Rightarrow>
          cassert nd (fam = AF_INET \<and> len = 4) (Inr (True, False, a\<lparr>sa_addr4 := mem_word e (take 4 bs)\<rparr>))
      | _ \<Rightarrow> Inr (False, ret \<noteq> 0, a))"

subsection \<open>Socket operations\<close>

definition createNonblockingOrDie :: "int \<Rightarrow> int result" where
  "createNonblockingOrDie sockfd = (if sockfd < 0 then Inl Fatal else Inr sockfd)"

definition bindOrDie :: "int \<Rightarrow> unit result" where
  "bindOrDie ret = (if ret < 0 then Inl Fatal else Inr ())"

definition listenOrDie :: "int \<Rightarrow> unit result" where
  "listenOrDie ret = (if ret < 0 then Inl Fatal else Inr ())"

definition EPERM :: int where "EPERM = 1"
definition EINTR :: int where "EINTR = 4"
definition EBADF :: int where "EBADF = 9"
definition EAGAIN :: int where "EAGAIN = 11"
definition EACCES :: int where "EACCES = 13"
definition EFAULT :: int where "EFAULT = 14"
definition EMFILE :: int where "EMFILE = 24"
definition EPIPE :: int where "EPIPE = 32"
definition EPROTO :: int where "EPROTO = 71"
definition ENOTSOCK :: int where "ENOTSOCK = 88"
definition EAFNOSUPPORT :: int where "EAFNOSUPPORT = 97"
definition EADDRINUSE :: int where "EADDRINUSE = 98"
definition EADDRNOTAVAIL :: int where "EADDRNOTAVAIL = 99"
definition ENETUNREACH :: int where "ENETUNREACH = 101"
definition ECONNABORTED :: int where "ECONNABORTED = 103"
definition ECONNRESET :: int where "ECONNRESET = 104"
definition EISCONN :: int where "EISCONN = 106"
definition ECONNREFUSED :: int where "ECONNREFUSED = 111"
definition EALREADY :: int where "EALREADY = 114"
definition EINPROGRESS :: int where "EINPROGRESS = 115"

text \<open>
  \<open>accept\<close>: \<open>LOG_SYSFATAL\<close> (\<open>sysfatal\<close>) comes before the switch over \<open>errno\<close>. A descriptor
  comes with the peer's address.
\<close>

definition accept_switch :: "int \<Rightarrow> unit result" where
  "accept_switch savedErrno =
     (if savedErrno \<in> {EAGAIN, ECONNABORTED, EINTR, EPROTO, EPERM, EMFILE} then Inr ()
      else Inl Fatal)"

definition sysfatal :: "unit result" where
  "sysfatal = Inl Fatal"

definition sock_accept :: "int \<Rightarrow> int \<Rightarrow> int result" where
  "sock_accept connfd err =
     bindR (if connfd < 0 then bindR sysfatal (\<lambda>_. accept_switch err) else Inr ()) (\<lambda>_. Inr connfd)"

definition Socket_accept :: "int \<Rightarrow> int \<Rightarrow> sockaddr \<Rightarrow> sockaddr \<Rightarrow> (int \<times> sockaddr) result" where
  "Socket_accept connfd err peer peerAddr =
     bindR (sock_accept connfd err) (\<lambda>fd. Inr (fd, if 0 < fd then setSockAddrInet6 peer peerAddr else peerAddr))"

text \<open>The name a system call stored, or a zeroed address and an error line.\<close>

definition getLocalAddr :: "sockaddr option \<Rightarrow> sockaddr \<times> bool" where
  "getLocalAddr r = (case r of None \<Rightarrow> (bzero6, True) | Some a \<Rightarrow> (a, False))"

definition getPeerAddr :: "sockaddr option \<Rightarrow> sockaddr \<times> bool" where
  "getPeerAddr r = (case r of None \<Rightarrow> (bzero6, True) | Some a \<Rightarrow> (a, False))"

definition isSelfConnect :: "sockaddr option \<Rightarrow> sockaddr option \<Rightarrow> bool" where
  "isSelfConnect l p =
     (let localaddr = fst (getLocalAddr l); peeraddr = fst (getPeerAddr p)
      in if sa_family localaddr = AF_INET then
           sa_port localaddr = sa_port peeraddr \<and> sa_addr4 localaddr = sa_addr4 peeraddr
         else if sa_family localaddr = AF_INET then
           sa_family localaddr = sa_family peeraddr \<and> sa_addr6 localaddr = sa_addr6 peeraddr
         else False)"

text \<open>\<open>getsockopt(SO_ERROR)\<close>: the error of the call itself, or the value it stored.\<close>

definition getSocketError :: "int + int \<Rightarrow> int" where
  "getSocketError r = (case r of Inl err \<Rightarrow> err | Inr optval \<Rightarrow> optval)"

text \<open>\<open>close\<close> and \<open>shutdown\<close>: whether an error is logged.\<close>

definition sock_close :: "int \<Rightarrow> bool" where
  "sock_close ret \<longleftrightarrow> ret < 0"

definition sock_shutdownWrite :: "int \<Rightarrow> bool" where
  "sock_shutdownWrite ret \<longleftrightarrow> ret < 0"

record tcp_info =
  tcpi_retransmits :: nat
  tcpi_rto :: nat
  tcpi_ato :: nat
  tcpi_snd_mss :: nat
  tcpi_rcv_mss :: nat
  tcpi_lost :: nat
  tcpi_retrans :: nat
  tcpi_rtt :: nat
  tcpi_rttvar :: nat
  tcpi_snd_ssthresh :: nat
  tcpi_snd_cwnd :: nat
  tcpi_total_retrans :: nat

definition tcp_info_zero :: tcp_info where
  "tcp_info_zero = \<lparr>tcpi_retransmits = 0, tcpi_rto = 0, tcpi_ato = 0, tcpi_snd_mss = 0, tcpi_rcv_mss = 0, tcpi_lost = 0,
     tcpi_retrans = 0, tcpi_rtt = 0, tcpi_rttvar = 0, tcpi_snd_ssthresh = 0, tcpi_snd_cwnd = 0, tcpi_total_retrans = 0\<rparr>"

text \<open>\<open>getTcpInfo\<close>: \<open>r\<close> is what \<open>getsockopt\<close> stored, if it succeeded.\<close>

definition getTcpInfo :: "tcp_info option \<Rightarrow> bool \<times> tcp_info" where
  "getTcpInfo r = (case r of None \<Rightarrow> (False, tcp_info_zero) | Some t \<Rightarrow> (True, t))"

definition tcp_info_text :: "tcp_info \<Rightarrow> string" where
  "tcp_info_text t =
     ''unrecovered='' @ dec (tcpi_retransmits t) @ '' rto='' @ dec (tcpi_rto t) @ '' ato='' @ dec (tcpi_ato t) @
     '' snd_mss='' @ dec (tcpi_snd_mss t) @ '' rcv_mss='' @ dec (tcpi_rcv_mss t) @ '' lost='' @ dec (tcpi_lost t) @
     '' retrans='' @ dec (tcpi_retrans t) @ '' rtt='' @ dec (tcpi_rtt t) @ '' rttvar='' @ dec (tcpi_rttvar t) @
     '' sshthresh='' @ dec (tcpi_snd_ssthresh t) @ '' cwnd='' @ dec (tcpi_snd_cwnd t) @
     '' total_retrans='' @ dec (tcpi_total_retrans t)"

definition getTcpInfoString :: "tcp_info option \<Rightarrow> nat \<Rightarrow> string \<Rightarrow> bool \<times> string" where
  "getTcpInfoString r len buf =
     (case getTcpInfo r of (ret, tcpi) \<Rightarrow> (ret, if ret then snprintf len (tcp_info_text tcpi) else buf))"

text \<open>
  The socket options: level, name and value of the \<open>setsockopt\<close> call. \<open>setReusePort\<close>
  logs an error when the option was asked for and the call, whose result is \<open>ret\<close>, failed.
\<close>

datatype sockopt = TCP_NODELAY | SO_REUSEADDR | SO_REUSEPORT | SO_KEEPALIVE

definition setTcpNoDelay :: "bool \<Rightarrow> sockopt \<times> int" where
  "setTcpNoDelay b = (TCP_NODELAY, if b then 1 else 0)"

definition setReuseAddr :: "bool \<Rightarrow> sockopt \<times> int" where
  "setReuseAddr b = (SO_REUSEADDR, if b then 1 else 0)"

definition setReusePort :: "int \<Rightarrow> bool \<Rightarrow> (sockopt \<times> int) \<times> bool" where
  "setReusePort ret b = ((SO_REUSEPORT, if b then 1 else 0), ret < 0 \<and> b)"

definition setKeepAlive :: "bool \<Rightarrow> sockopt \<times> int" where
  "setKeepAlive b = (SO_KEEPALIVE, if b then 1 else 0)"

subsection \<open>Calls that are passed on\<close>

text \<open>
  The system calls are arguments here: functions of the descriptor and of what is passed. A \<open>Socket\<close> is its descriptor.
\<close>

definition sizeof_sockaddr_in6 :: nat where "sizeof_sockaddr_in6 = 28"

definition sock_connect :: "(int \<Rightarrow> sockaddr \<Rightarrow> nat \<Rightarrow> int) \<Rightarrow> int \<Rightarrow> sockaddr \<Rightarrow> int" where
  "sock_connect sys_connect fd addr = sys_connect fd addr sizeof_sockaddr_in6"

definition sock_read :: "(int \<Rightarrow> nat \<Rightarrow> int + char list) \<Rightarrow> int \<Rightarrow> nat \<Rightarrow> int + char list" where
  "sock_read sys_read fd count = sys_read fd count"

definition sock_readv :: "(int \<Rightarrow> nat list \<Rightarrow> int + char list) \<Rightarrow> int \<Rightarrow> nat list \<Rightarrow> int + char list" where
  "sock_readv sys_readv fd iov = sys_readv fd iov"

definition sock_write :: "(int \<Rightarrow> char list \<Rightarrow> int + nat) \<Rightarrow> int \<Rightarrow> char list \<Rightarrow> int + nat" where
  "sock_write sys_write fd bytes = sys_write fd bytes"

record Socket =
  so_fd :: int

definition Socket_new :: "int \<Rightarrow> Socket" where
  "Socket_new fd = \<lparr>so_fd = fd\<rparr>"

definition getSockfd :: "Socket \<Rightarrow> int" where
  "getSockfd s = so_fd s"

definition Socket_destroy :: "(int \<Rightarrow> int) \<Rightarrow> Socket \<Rightarrow> bool" where
  "Socket_destroy sys_close s = sock_close (sys_close (so_fd s))"

definition Socket_bindAddress :: "(int \<Rightarrow> sockaddr \<Rightarrow> nat \<Rightarrow> int) \<Rightarrow> sockaddr \<Rightarrow> Socket \<Rightarrow> unit result" where
  "Socket_bindAddress sys_bind addr s = bindOrDie (sys_bind (so_fd s) (getSockAddr addr) sizeof_sockaddr_in6)"

definition Socket_listen :: "(int \<Rightarrow> int) \<Rightarrow> Socket \<Rightarrow> unit result" where
  "Socket_listen sys_listen s = listenOrDie (sys_listen (so_fd s))"

definition Socket_shutDownWrite :: "(int \<Rightarrow> int) \<Rightarrow> Socket \<Rightarrow> bool" where
  "Socket_shutDownWrite sys_shutdown s = sock_shutdownWrite (sys_shutdown (so_fd s))"

subsection \<open>The acceptor (\<open>Acceptor.cc\<close>)\<close>

text \<open>
  The calls an acceptor makes on the outside, in order. \<open>backupFd_\<close> is a descriptor kept in reserve
  for the case that the process runs out of them.
\<close>

datatype accept_call = NewConnection int sockaddr | CloseFd int | AcceptErrorLogged

record Acceptor =
  acceptSocket :: int
  acceptChannel :: Channel
  hasNewConnectionCallback :: bool
  isListening :: bool
  backupFd :: int

text \<open>
  \<open>sock\<close>, \<open>bound\<close> and \<open>nullfd\<close> are the results of \<open>socket\<close>, \<open>bind\<close> and \<open>open\<close>. The options set are the second component.
\<close>

definition Acceptor_new :: "int \<Rightarrow> int \<Rightarrow> int \<Rightarrow> int \<Rightarrow> bool \<Rightarrow> (Acceptor \<times> (sockopt \<times> int) list) result" where
  "Acceptor_new sock bound optret nullfd reuseport =
     bindR (createNonblockingOrDie sock) (\<lambda>fd.
     bindR (bindOrDie bound) (\<lambda>_.
     Inr (\<lparr>acceptSocket = fd, acceptChannel = setReadCallback (Channel_new fd),
           hasNewConnectionCallback = False, isListening = False, backupFd = nullfd\<rparr>,
          [setReuseAddr True, fst (setReusePort optret reuseport)])))"

definition Acceptor_destroy :: "Acceptor \<Rightarrow> accept_call list \<times> Acceptor" where
  "Acceptor_destroy a =
     ([CloseFd (backupFd a)],
      if isListening a then a\<lparr>acceptChannel := Channel_unloop (Channel_interest DisableAll (acceptChannel a))\<rparr> else a)"

definition startListening :: "bool \<Rightarrow> int \<Rightarrow> Acceptor \<Rightarrow> Acceptor result" where
  "startListening il listened a =
     assertInLoopThread il
       (bindR (listenOrDie listened) (\<lambda>_.
        Inr (a\<lparr>acceptChannel := Channel_interest EnableRead (acceptChannel a), isListening := True\<rparr>)))"

text \<open>
  \<open>acc\<close> and \<open>acc2\<close> are the results of the first and the second \<open>accept4\<close> (descriptor,
  \<open>errno\<close>, peer), \<open>nullfd\<close> that of opening the reserve again.
\<close>

definition handleNewConnection ::
  "bool \<Rightarrow> int \<times> int \<times> sockaddr \<Rightarrow> int \<times> int \<times> sockaddr \<Rightarrow> int \<Rightarrow> sockaddr \<Rightarrow> Acceptor \<Rightarrow>
   (accept_call list \<times> Acceptor) result" where
  "handleNewConnection il acc acc2 nullfd peer0 a =
     assertInLoopThread il
       (bindR (case acc of (connfd, err, peer) \<Rightarrow> Socket_accept connfd err peer peer0) (\<lambda>(newconnfd, peeraddr).
        if 0 < newconnfd then
          Inr ([if hasNewConnectionCallback a then NewConnection newconnfd peeraddr else CloseFd newconnfd], a)
        else if fst (snd acc) = EMFILE then
          bindR (case acc2 of (connfd, err, peer) \<Rightarrow> Socket_accept connfd err peer peeraddr) (\<lambda>(fd2, _).
          Inr ([AcceptErrorLogged, CloseFd (backupFd a), CloseFd fd2], a\<lparr>backupFd := nullfd\<rparr>))
        else Inr ([AcceptErrorLogged], a)))"

subsection \<open>Properties of addresses and sockets\<close>

lemma split_on_digits:
  "(\<forall>c \<in> set w. c \<noteq> d) \<Longrightarrow> split_on d w = [w]"
  by (induction w) auto

lemma split_on_append:
  assumes "\<forall>c \<in> set w. c \<noteq> d"
  shows "split_on d (w @ d # rest) = w # split_on d rest"
  using assms by (induction w) auto

lemma split_on_join:
  assumes "ws \<noteq> []" "\<And>w. w \<in> set ws \<Longrightarrow> \<forall>c \<in> set w. c \<noteq> CHR ''.''"
  shows "split_on (CHR ''.'') (join_dots ws) = ws"
  using assms
proof (induction ws rule: join_dots.induct)
  case (3 w v ws)
  have "split_on (CHR ''.'') (join_dots (v # ws)) = v # ws"
    by (rule "3.IH", simp, rule 3(3), simp)
  moreover have "\<forall>c \<in> set w. c \<noteq> CHR ''.''" by (rule 3(3)) simp
  ultimately show ?case by (simp add: split_on_append)
qed (auto simp: split_on_digits)

lemma dec_hd_zero: "hd (dec n) = CHR ''0'' \<Longrightarrow> n = 0"
proof (induction n rule: dec.induct)
  case (1 n)
  have z: "digit d = CHR ''0'' \<Longrightarrow> d < 10 \<Longrightarrow> d = 0" for d
    using of_char_digit [of d] by auto
  show ?case
  proof (cases "n < 10")
    case True
    with 1 z show ?thesis by (simp add: dec.simps [of n])
  next
    case False
    then have "dec n = dec (n div 10) @ [digit (n mod 10)]" by (simp add: dec.simps [of n])
    with 1 False have "n div 10 = 0" by simp
    with False show ?thesis by linarith
  qed
qed

lemma octet_ok_dec: "n \<le> 255 \<Longrightarrow> octet_ok (dec n)"
  using dec_hd_zero [of n] digits_dec [of _ n] by (auto simp: octet_ok_def dec.simps [of 0])

lemma dec_no_dot: "\<forall>c \<in> set (dec n). c \<noteq> CHR ''.''"
proof -
  have "\<not> is_digit (CHR ''.'')" by (simp add: is_digit_def)
  then show ?thesis using digits_dec by metis
qed

lemma pton_ntop4:
  assumes "length bs = 4"
  shows "inet_pton4 (inet_ntop4 bs) = Some bs"
proof -
  let ?ws = "map (\<lambda>b. dec (of_char b)) bs"
  have "?ws \<noteq> []" using assms by auto
  then have "split_on (CHR ''.'') (inet_ntop4 bs) = ?ws"
    unfolding inet_ntop4_def by (rule split_on_join) (use dec_no_dot in auto)
  moreover have "octet_ok (dec (of_char b))" for b :: char
    by (rule octet_ok_dec) (use of_char_lt_256 [of b] in linarith)
  then have "\<forall>w \<in> set ?ws. octet_ok w" by auto
  ultimately show ?thesis using assms by (simp add: inet_pton4_def Let_def comp_def)
qed

lemma length_dec_octet: "length (dec (of_char (b :: char))) \<le> 3"
  using length_dec_le [of "of_char b" 3] of_char_lt_256 [of b] by simp

lemma length_ntop4: "length bs = 4 \<Longrightarrow> length (inet_ntop4 bs) \<le> 15"
proof -
  assume "length bs = 4"
  then obtain a b c d where bs: "bs = [a, b, c, d]"
    by (auto simp: length_Suc_conv numeral_eq_Suc)
  have "length (inet_ntop4 bs) =
      length (dec (of_char a)) + length (dec (of_char b)) + length (dec (of_char c)) + length (dec (of_char d)) + 3"
    by (simp add: bs inet_ntop4_def)
  then show ?thesis
    using length_dec_octet [of a] length_dec_octet [of b] length_dec_octet [of c] length_dec_octet [of d] by linarith
qed

text \<open>The members of \<open>tcp_info\<close> have at most 32 bits, so that the text always fits the buffer a connection provides.\<close>

definition tcp_info_wf :: "tcp_info \<Rightarrow> bool" where
  "tcp_info_wf t \<longleftrightarrow> (\<forall>n \<in> {tcpi_retransmits t, tcpi_rto t, tcpi_ato t, tcpi_snd_mss t, tcpi_rcv_mss t, tcpi_lost t, tcpi_retrans t,
     tcpi_rtt t, tcpi_rttvar t, tcpi_snd_ssthresh t, tcpi_snd_cwnd t, tcpi_total_retrans t}. n < 2 ^ 32)"

lemma tcp_info_text_fits:
  assumes "tcp_info_wf t"
  shows "getTcpInfoString (Some t) 1024 buf = (True, tcp_info_text t)"
proof -
  have "length (dec n) \<le> 10" if "n < 2 ^ 32" for n using length_dec_le [of n 10] that by simp
  with assms have "length (dec (tcpi_retransmits t)) \<le> 10" "length (dec (tcpi_rto t)) \<le> 10" "length (dec (tcpi_ato t)) \<le> 10"
    "length (dec (tcpi_snd_mss t)) \<le> 10" "length (dec (tcpi_rcv_mss t)) \<le> 10" "length (dec (tcpi_lost t)) \<le> 10"
    "length (dec (tcpi_retrans t)) \<le> 10" "length (dec (tcpi_rtt t)) \<le> 10" "length (dec (tcpi_rttvar t)) \<le> 10"
    "length (dec (tcpi_snd_ssthresh t)) \<le> 10" "length (dec (tcpi_snd_cwnd t)) \<le> 10" "length (dec (tcpi_total_retrans t)) \<le> 10"
    by (simp_all add: tcp_info_wf_def)
  then have "length (tcp_info_text t) < 1024" by (simp add: tcp_info_text_def)
  then show ?thesis by (simp add: getTcpInfoString_def getTcpInfo_def snprintf_def)
qed

lemma word_mem_mem_word:
  assumes "length bs = 4"
  shows "word_mem e (mem_word e bs :: 32 word) = bs"
proof -
  have "to_mem e 4 (of_mem e bs) = bs"
    using le_bytes_le_value [of bs 4] le_bytes_le_value [of "rev bs" 4] assms by (cases e) simp_all
  then show ?thesis using unat_of_mem(2) [OF assms, of e] by (simp add: word_mem_def mem_word_def)
qed

lemma length_dec_port: "length (dec (unat (port :: 16 word))) \<le> 5"
proof -
  have "unat port < 2 ^ 16" using unsigned_less [of port] by simp
  then have "unat port < 10 ^ 5" by simp
  then show ?thesis using length_dec_le [of "unat port" 5] by simp
qed

text \<open>
  C34: an IPv4 end point goes through its text. The address built from the dotted text of four bytes and a port, on a
  host of either byte order, logs no error, prints as that text, a colon and the port in decimal,
  gives the port back, and holds the bytes in network order.
\<close>

theorem InetAddress_text_round_trip:
  assumes "length bs = 4"
  shows "\<exists>a. InetAddress_ip e pton6 garbage (inet_ntop4 bs) port False = (a, False) \<and>
     addr_toIpPort nd e ntop6 a = Inr (inet_ntop4 bs @ CHR '':'' # dec (unat port)) \<and>
     addr_toIp nd e ntop6 a = Inr (inet_ntop4 bs) \<and> addr_toPort e a = port \<and>
     (\<exists>w. ipNetEndian nd a = Inr w \<and> word_mem e w = bs)"
proof -
  define a where "a = (bzero4 garbage)\<lparr>sa_family := AF_INET, sa_port := hostToNetwork16 e port, sa_addr4 := mem_word e bs\<rparr>"
  have "InetAddress_ip e pton6 garbage (inet_ntop4 bs) port False = (a, False)"
    by (simp add: InetAddress_ip_def fromIpPort4_def pton_ntop4 [OF assms] a_def Let_def)
  moreover have ip: "addr_toIp nd e ntop6 a = Inr (inet_ntop4 bs)"
    using length_ntop4 [OF assms] word_mem_mem_word [OF assms]
    by (simp add: addr_toIp_def sock_toIp_def a_def cassert_def INET_ADDRSTRLEN_def Let_def)
  moreover have "length (CHR '':'' # dec (unat port)) < 64 - length (inet_ntop4 bs)"
    using length_ntop4 [OF assms] length_dec_port [of port] by simp
  then have "addr_toIpPort nd e ntop6 a = Inr (inet_ntop4 bs @ CHR '':'' # dec (unat port))"
    using ip snprintf_fits by (simp add: addr_toIpPort_def addr_toIp_def sock_toIpPort_def Let_def a_def)
  ultimately show ?thesis
    using word_mem_mem_word [OF assms] by (simp add: addr_toPort_def ipNetEndian_def a_def)
qed

theorem InetAddress_text_round_trip_witness:
  "\<exists>a. InetAddress_ip LittleEndian (\<lambda>_. None) bzero6 (inet_ntop4 [CHR 0x0A, CHR 0x00, CHR 0x01, CHR 0xFF]) 2007 False = (a, False) \<and>
     addr_toPort LittleEndian a = 2007"
  using InetAddress_text_round_trip [of "[CHR 0x0A, CHR 0x00, CHR 0x01, CHR 0xFF]" LittleEndian "\<lambda>_. None" bzero6 2007 False "\<lambda>_. []"]
  by auto

text \<open>
  The tests that cannot succeed: a connection over IPv6 is never recognised as a
  connection to itself, and an \<open>accept\<close> that fails ends the process whatever the error, so that
  the reserve descriptor is never used.
\<close>

theorem isSelfConnect_never_ipv6:
  "sa_family a = AF_INET6 \<Longrightarrow> \<not> isSelfConnect (Some a) (Some a)"
  by (simp add: isSelfConnect_def getLocalAddr_def AF_INET_def AF_INET6_def)

theorem accept_failure_aborts:
  "connfd < 0 \<Longrightarrow> handleNewConnection True (connfd, err, peer) acc2 nullfd peer0 a = Inl Fatal"
  by (simp add: handleNewConnection_def Socket_accept_def sock_accept_def sysfatal_def)

end
