(* ===== verification/Arale_TcpConnection.thy ===== *)
theory Arale_TcpConnection
  imports Arale_Buffer Arale_Sockets
begin

section \<open>TCP connections (\<open>arale/net/TcpConnection.*\<close>)\<close>

text \<open>
  A connection owns its socket, its channel and two buffers. The user's callbacks
  are the arguments \<open>ccb\<close> (connection), \<open>mcb\<close> (message) and \<open>clcb\<close> (close): functions on the
  connection, which they may change by calling its operations. What the connection does to
  the outside is kept in its state: \<open>wire\<close> are the bytes the kernel accepted, \<open>wrShut\<close> says that
  the sending side was shut down, \<open>functors\<close> are the functors handed to the loop, \<open>delayed\<close> the
  delays of the timers set up, \<open>tc_log\<close> the error lines; \<open>tc_given\<close> are all the bytes that were handed to \<open>sendInLoop\<close>, and \<open>tc_whole\<close> says
  that of each of these calls the kernel took all or nothing, and did not report a peer that is gone. A call of \<open>write\<close> is the argument
  \<open>wr\<close>, from the bytes offered to an \<open>errno\<close> or the number of bytes taken. \<open>il\<close> says
  whether the calling thread is the loop's.
\<close>

datatype conn_state = kConnecting | kConnected | kDisconnecting | kDisconnected

text \<open>
  The bound functions. \<open>FSendInLoop p n\<close> holds the caller's pointer and a length,
  \<open>FSendString s\<close> a copy of a string.
\<close>

datatype conn_functor =
    FWriteComplete
  | FHighWater nat
  | FShutdownInLoop
  | FSendInLoop nat nat
  | FSendString string
  | FForceCloseInLoop
  | FStartReadInLoop
  | FStopReadInLoop

record TcpConnection =
  tc_name :: string
  tc_state :: conn_state
  tc_fd :: int
  readWriteChannel :: Channel
  localAddr :: sockaddr
  remoteAddr :: sockaddr
  highWaterMark :: nat
  inputBuffer :: Buffer
  outputBuffer :: Buffer
  reading :: bool
  hasWriteCompleteCallback :: bool
  hasHighWaterMarkCallback :: bool
  wire :: "char list"
  wrShut :: bool
  functors :: "conn_functor list"
  delayed :: "rat list"
  tc_log :: "string list"
  tc_given :: "char list"
  tc_whole :: bool

definition TcpConnection_new ::
  "bool \<Rightarrow> string \<Rightarrow> int \<Rightarrow> sockaddr \<Rightarrow> sockaddr \<Rightarrow> (TcpConnection \<times> sockopt \<times> int) result" where
  "TcpConnection_new nd name sockfd localaddr remoteaddr =
     bindR (Buffer_new nd kDefaultInitialSize) (\<lambda>ib.
     bindR (Buffer_new nd kDefaultInitialSize) (\<lambda>ob.
     Inr (\<lparr>tc_name = name, tc_state = kConnecting, tc_fd = sockfd,
           readWriteChannel = setErrorCallback (setCloseCallback (setWriteCallback (setReadCallback (Channel_new sockfd)))),
           localAddr = localaddr, remoteAddr = remoteaddr, highWaterMark = 64 * 1024 * 1024,
           inputBuffer = ib, outputBuffer = ob, reading = False,
           hasWriteCompleteCallback = False, hasHighWaterMarkCallback = False,
           wire = [], wrShut = False, functors = [], delayed = [], tc_log = [], tc_given = [], tc_whole = True\<rparr>, setKeepAlive True)))"

definition TcpConnection_destroy :: "bool \<Rightarrow> TcpConnection \<Rightarrow> unit result" where
  "TcpConnection_destroy nd c = cassert nd (tc_state c = kDisconnected) (Inr ())"

definition setState :: "conn_state \<Rightarrow> TcpConnection \<Rightarrow> TcpConnection" where
  "setState s c = c\<lparr>tc_state := s\<rparr>"

definition isConnected :: "TcpConnection \<Rightarrow> bool" where
  "isConnected c \<longleftrightarrow> tc_state c = kConnected"

definition setWriteCompleteCallback :: "bool \<Rightarrow> TcpConnection \<Rightarrow> TcpConnection" where
  "setWriteCompleteCallback b c = c\<lparr>hasWriteCompleteCallback := b\<rparr>"

definition setHighWaterMarkCallback :: "nat \<Rightarrow> TcpConnection \<Rightarrow> TcpConnection" where
  "setHighWaterMarkCallback n c = c\<lparr>hasHighWaterMarkCallback := True, highWaterMark := n\<rparr>"

definition post :: "conn_functor \<Rightarrow> TcpConnection \<Rightarrow> TcpConnection" where
  "post f c = c\<lparr>functors := functors c @ [f]\<rparr>"

definition interest :: "interest_op \<Rightarrow> TcpConnection \<Rightarrow> TcpConnection" where
  "interest op c = c\<lparr>readWriteChannel := Channel_interest op (readWriteChannel c)\<rparr>"

definition log_error :: "string \<Rightarrow> TcpConnection \<Rightarrow> TcpConnection" where
  "log_error s c = c\<lparr>tc_log := tc_log c @ [s]\<rparr>"

definition stateToString :: "conn_state \<Rightarrow> string" where
  "stateToString s =
     (case s of kDisconnected \<Rightarrow> ''kDisconnected'' | kConnected \<Rightarrow> ''kConnected''
        | kConnecting \<Rightarrow> ''kConnecting'' | kDisconnecting \<Rightarrow> ''kDisconnecting'')"

text \<open>The callbacks a server or a client installs by default.\<close>

definition defaultConnectionCallback :: "bool \<Rightarrow> byte_order \<Rightarrow> (char list \<Rightarrow> string) \<Rightarrow> TcpConnection \<Rightarrow> string result" where
  "defaultConnectionCallback nd e ntop6 c =
     bindR (addr_toIpPort nd e ntop6 (localAddr c)) (\<lambda>l.
     bindR (addr_toIpPort nd e ntop6 (remoteAddr c)) (\<lambda>r.
     Inr (l @ '' -> '' @ r @ '' is '' @ (if isConnected c then ''UP'' else ''DOWN''))))"

definition defaultMessageCallback :: "TcpConnection \<Rightarrow> TcpConnection" where
  "defaultMessageCallback c = c\<lparr>inputBuffer := retrieveAll (inputBuffer c)\<rparr>"

text \<open>\<open>getTcpInfoString\<close> with the connection's buffer of 1024 characters; \<open>r\<close> is what the system call stored.\<close>

definition tc_getTcpInfo :: "tcp_info option \<Rightarrow> bool \<times> tcp_info" where
  "tc_getTcpInfo r = getTcpInfo r"

definition tc_getTcpInfoString :: "tcp_info option \<Rightarrow> string" where
  "tc_getTcpInfoString r = snd (getTcpInfoString r 1024 [])"

lemma tc_getTcpInfoString_complete: "tcp_info_wf t \<Longrightarrow> tc_getTcpInfoString (Some t) = tcp_info_text t"
  by (simp add: tc_getTcpInfoString_def tcp_info_text_fits)

subsection \<open>Life cycle\<close>

definition connectionEstablished ::
  "bool \<Rightarrow> bool \<Rightarrow> nat \<Rightarrow> (TcpConnection \<Rightarrow> TcpConnection result) \<Rightarrow> TcpConnection \<Rightarrow> TcpConnection result" where
  "connectionEstablished nd il self ccb c =
     assertInLoopThread il (cassert nd (tc_state c = kConnecting)
       (let c1 = setState kConnected c;
            c2 = c1\<lparr>readWriteChannel := tieTo self (readWriteChannel c1)\<rparr>
        in ccb (interest EnableRead c2)))"

text \<open>
  \<open>Channel::remove\<close> goes to the loop's poller, which asserts that it has the channel and that no events are asked for. It has a channel from the first change of its interest
  until the channel is removed, which is when \<open>isInLoop\<close> holds.
\<close>

definition Channel_remove :: "bool \<Rightarrow> Channel \<Rightarrow> Channel result" where
  "Channel_remove nd c = cassert nd (isInLoop c) (cassert nd (isNoneEvent c) (Inr (Channel_unloop c)))"

definition connectionDestroyed ::
  "bool \<Rightarrow> bool \<Rightarrow> (TcpConnection \<Rightarrow> TcpConnection result) \<Rightarrow> TcpConnection \<Rightarrow> TcpConnection result" where
  "connectionDestroyed nd il ccb c =
     assertInLoopThread il
       (bindR (if tc_state c = kConnected then ccb (interest DisableAll (setState kDisconnected c)) else Inr c)
          (\<lambda>c1. bindR (Channel_remove nd (readWriteChannel c1)) (\<lambda>ch. Inr (c1\<lparr>readWriteChannel := ch\<rparr>))))"

definition handleClose ::
  "bool \<Rightarrow> bool \<Rightarrow> (TcpConnection \<Rightarrow> TcpConnection result) \<Rightarrow> (TcpConnection \<Rightarrow> TcpConnection result) \<Rightarrow>
   TcpConnection \<Rightarrow> TcpConnection result" where
  "handleClose nd il ccb clcb c =
     assertInLoopThread il (cassert nd (tc_state c = kConnected \<or> tc_state c = kDisconnecting)
       (bindR (ccb (interest DisableAll (setState kDisconnected c))) clcb))"

definition tc_handleError :: "bool \<Rightarrow> (int \<Rightarrow> string) \<Rightarrow> int \<Rightarrow> TcpConnection \<Rightarrow> TcpConnection result" where
  "tc_handleError il strerror err c =
     assertInLoopThread il
       (Inr (log_error (''TcpConnection::handleError ['' @ tc_name c @ ''] - SO_ERROR = '' @ sdec err @ '' '' @ strerror err) c))"

text \<open>\<open>res\<close> is unsigned: the result \<open>-1\<close> of a failed read is the largest \<open>size_t\<close>.\<close>

definition handleRead ::
  "bool \<Rightarrow> bool \<Rightarrow> (int \<Rightarrow> nat list \<Rightarrow> int + char list) \<Rightarrow> Timestamp \<Rightarrow> (int \<Rightarrow> string) \<Rightarrow> int \<Rightarrow>
   (TcpConnection \<Rightarrow> TcpConnection result) \<Rightarrow> (Timestamp \<Rightarrow> TcpConnection \<Rightarrow> TcpConnection result) \<Rightarrow>
   (TcpConnection \<Rightarrow> TcpConnection result) \<Rightarrow> TcpConnection \<Rightarrow> TcpConnection result" where
  "handleRead nd il readv receiveTime strerror sockerr ccb mcb clcb c =
     assertInLoopThread il
       (bindR (readFd nd readv (tc_fd c) (inputBuffer c)) (\<lambda>(n, saveErrno, b).
        let res = (if n < 0 then 2 ^ 64 - nat (- n) else nat n); c1 = c\<lparr>inputBuffer := b\<rparr>
        in if 0 < res then mcb receiveTime c1
           else if res = 0 then handleClose nd il ccb clcb c1
           else tc_handleError il strerror sockerr (log_error ''TcpConnection::handleRead'' c1)))"

subsection \<open>Sending\<close>

definition shutdownInLoop :: "bool \<Rightarrow> TcpConnection \<Rightarrow> TcpConnection result" where
  "shutdownInLoop il c =
     assertInLoopThread il (Inr (if \<not> isWriting (readWriteChannel c) then c\<lparr>wrShut := True\<rparr> else c))"

definition handleWrite :: "bool \<Rightarrow> bool \<Rightarrow> (char list \<Rightarrow> int + nat) \<Rightarrow> TcpConnection \<Rightarrow> TcpConnection result" where
  "handleWrite nd il wr c =
     assertInLoopThread il
       (if isWriting (readWriteChannel c) then
          bindR (mem_read (outputBuffer c) (peek (outputBuffer c)) (readableBytes (outputBuffer c))) (\<lambda>d.
          case wr d of
            Inl err \<Rightarrow> Inr (log_error ''TcpConnection::handleWrite'' c)
          | Inr res \<Rightarrow>
              if 0 < res then
                bindR (retrieve nd res (outputBuffer c)) (\<lambda>b.
                let c1 = c\<lparr>outputBuffer := b, wire := wire c @ take res d\<rparr>
                in if readableBytes b = 0 then
                     let c2 = interest DisableWrite c1;
                         c3 = (if hasWriteCompleteCallback c2 then post FWriteComplete c2 else c2)
                     in if tc_state c3 = kDisconnecting then shutdownInLoop il c3 else Inr c3
                   else Inr c1)
              else Inr (log_error ''TcpConnection::handleWrite'' c))
        else Inr c)"

definition tc_shutdown :: "bool \<Rightarrow> TcpConnection \<Rightarrow> TcpConnection result" where
  "tc_shutdown il c =
     (if tc_state c = kConnected then
        let c1 = setState kDisconnecting c
        in if il then shutdownInLoop il c1 else Inr (post FShutdownInLoop c1)
      else Inr c)"

text \<open>
  \<open>sendInLoop\<close>. What is left after a direct write is appended from the start of the data:
  \<open>outputBuffer_.append(data, left)\<close>.
\<close>

definition send_direct :: "(char list \<Rightarrow> int + nat) \<Rightarrow> char list \<Rightarrow> TcpConnection \<Rightarrow> nat \<times> bool \<times> TcpConnection" where
  "send_direct wr data c =
     (case wr data of
        Inr nwrote \<Rightarrow>
          let left = length data - nwrote; c1 = c\<lparr>wire := wire c @ take nwrote data\<rparr>
          in (left, False, if left = 0 \<and> hasWriteCompleteCallback c1 then post FWriteComplete c1 else c1)
      | Inl err \<Rightarrow>
          if err \<noteq> EAGAIN then
            (length data, err = EPIPE \<or> err = ECONNRESET, log_error ''TcpConnection::sendInLoop'' c)
          else (length data, False, c))"

definition send_queue :: "bool \<Rightarrow> char list \<Rightarrow> nat \<Rightarrow> TcpConnection \<Rightarrow> TcpConnection result" where
  "send_queue nd data left c =
     (let having = readableBytes (outputBuffer c);
          c2 = (if having < highWaterMark c \<and> highWaterMark c \<le> uadd64 having left \<and> hasHighWaterMarkCallback c
                then post (FHighWater (uadd64 having left)) c else c)
      in bindR (Buffer_append nd (take left data) (outputBuffer c2)) (\<lambda>b.
         let c3 = c2\<lparr>outputBuffer := b\<rparr>
         in Inr (if \<not> isWriting (readWriteChannel c3) then interest EnableWrite c3 else c3)))"

definition note_given :: "(char list \<Rightarrow> int + nat) \<Rightarrow> char list \<Rightarrow> TcpConnection \<Rightarrow> TcpConnection" where
  "note_given wr data c =
     c\<lparr>tc_given := tc_given c @ data,
       tc_whole := tc_whole c \<and> (isWriting (readWriteChannel c) \<or> readableBytes (outputBuffer c) \<noteq> 0 \<or>
         (case wr data of Inr n \<Rightarrow> n = 0 \<or> n = length data | Inl err \<Rightarrow> err \<noteq> EPIPE \<and> err \<noteq> ECONNRESET))\<rparr>"

definition sendInLoop :: "bool \<Rightarrow> bool \<Rightarrow> (char list \<Rightarrow> int + nat) \<Rightarrow> char list \<Rightarrow> TcpConnection \<Rightarrow> TcpConnection result" where
  "sendInLoop nd il wr data c =
     assertInLoopThread il
       (case (if \<not> isWriting (readWriteChannel c) \<and> readableBytes (outputBuffer c) = 0
              then send_direct wr data (note_given wr data c) else (length data, False, note_given wr data c)) of
          (left, error, c1) \<Rightarrow>
            cassert nd (left \<le> length data)
              (if \<not> error \<and> 0 < left then send_queue nd data left c1
               else Inr c1))"

text \<open>\<open>mem\<close> is the caller's memory: what lies at a pointer for a length.\<close>

definition send_ptr ::
  "bool \<Rightarrow> bool \<Rightarrow> (char list \<Rightarrow> int + nat) \<Rightarrow> (nat \<Rightarrow> nat \<Rightarrow> char list) \<Rightarrow> nat \<Rightarrow> nat \<Rightarrow> TcpConnection \<Rightarrow> TcpConnection result" where
  "send_ptr nd il wr mem data len c =
     (if tc_state c = kConnected then
        if il then sendInLoop nd il wr (mem data len) c else Inr (post (FSendInLoop data len) c)
      else Inr c)"

text \<open>A string is sent through the pointer \<open>str_at\<close> to its characters.\<close>

definition send_string ::
  "bool \<Rightarrow> bool \<Rightarrow> (char list \<Rightarrow> int + nat) \<Rightarrow> (nat \<Rightarrow> nat \<Rightarrow> char list) \<Rightarrow> nat \<Rightarrow> string \<Rightarrow> TcpConnection \<Rightarrow> TcpConnection result" where
  "send_string nd il wr mem str_at msg c = send_ptr nd il wr mem str_at (length msg) c"

definition send_buffer ::
  "bool \<Rightarrow> bool \<Rightarrow> (char list \<Rightarrow> int + nat) \<Rightarrow> Buffer \<Rightarrow> TcpConnection \<Rightarrow> (Buffer \<times> TcpConnection) result" where
  "send_buffer nd il wr buf c =
     (if tc_state c = kConnected then
        if il then
          bindR (mem_read buf (peek buf) (readableBytes buf)) (\<lambda>d.
          bindR (sendInLoop nd il wr d c) (\<lambda>c1. Inr (retrieveAll buf, c1)))
        else
          bindR (retrieveAllAsString nd buf) (\<lambda>(s, buf1). Inr (buf1, post (FSendString s) c))
      else Inr (buf, c))"

subsection \<open>Closing and reading\<close>

definition forceCloseInLoop ::
  "bool \<Rightarrow> bool \<Rightarrow> (TcpConnection \<Rightarrow> TcpConnection result) \<Rightarrow> (TcpConnection \<Rightarrow> TcpConnection result) \<Rightarrow>
   TcpConnection \<Rightarrow> TcpConnection result" where
  "forceCloseInLoop nd il ccb clcb c =
     assertInLoopThread il (cassert nd (tc_state c = kDisconnecting) (handleClose nd il ccb clcb c))"

definition forceClose ::
  "bool \<Rightarrow> bool \<Rightarrow> (TcpConnection \<Rightarrow> TcpConnection result) \<Rightarrow> (TcpConnection \<Rightarrow> TcpConnection result) \<Rightarrow>
   TcpConnection \<Rightarrow> TcpConnection result" where
  "forceClose nd il ccb clcb c =
     (if tc_state c = kConnected \<or> tc_state c = kDisconnecting then
        let c1 = setState kDisconnecting c
        in if il then forceCloseInLoop nd il ccb clcb c1 else Inr (post FForceCloseInLoop c1)
      else Inr c)"

definition forceCloseWithDelay :: "rat \<Rightarrow> TcpConnection \<Rightarrow> TcpConnection" where
  "forceCloseWithDelay seconds c =
     (if tc_state c = kConnected \<or> tc_state c = kDisconnecting then
        let c1 = setState kDisconnecting c in c1\<lparr>delayed := delayed c1 @ [seconds]\<rparr>
      else c)"

text \<open>
  The timer of \<open>forceCloseWithDelay\<close> calls \<open>forceClose\<close> through a weak pointer: nothing
  happens when the connection is gone (\<open>WeakCallback.h\<close>).
\<close>

definition WeakCallback_call :: "'a option \<Rightarrow> ('a \<Rightarrow> 'a result) \<Rightarrow> 'a option result" where
  "WeakCallback_call obj f = (case obj of None \<Rightarrow> Inr None | Some x \<Rightarrow> bindR (f x) (\<lambda>y. Inr (Some y)))"

definition startReadInLoop :: "bool \<Rightarrow> TcpConnection \<Rightarrow> TcpConnection result" where
  "startReadInLoop il c =
     assertInLoopThread il
       (Inr (if \<not> reading c \<or> \<not> isReading (readWriteChannel c)
             then (interest EnableRead c)\<lparr>reading := True\<rparr> else c))"

definition startRead :: "bool \<Rightarrow> bool \<Rightarrow> TcpConnection \<Rightarrow> TcpConnection result" where
  "startRead nd il c =
     cassert nd (tc_state c = kConnected) (if il then startReadInLoop il c else Inr (post FStartReadInLoop c))"

definition stopReadInLoop :: "bool \<Rightarrow> TcpConnection \<Rightarrow> TcpConnection result" where
  "stopReadInLoop il c =
     assertInLoopThread il
       (Inr (if reading c \<or> isReading (readWriteChannel c)
             then (interest DisableRead c)\<lparr>reading := False\<rparr> else c))"

definition stopRead :: "bool \<Rightarrow> bool \<Rightarrow> TcpConnection \<Rightarrow> TcpConnection result" where
  "stopRead nd il c =
     cassert nd (tc_state c = kConnected) (if il then stopReadInLoop il c else Inr (post FStopReadInLoop c))"

text \<open>
  \<open>shutdown\<close>, \<open>forceClose\<close> and \<open>forceCloseWithDelay\<close> may be called in any thread, and nothing guards \<open>state_\<close>: in another thread than the loop's, the check of the state and what
  follows it are two steps, between which the loop may do anything. \<open>outside_check\<close> is the condition, \<open>outside_set\<close> the rest.
\<close>

datatype outside_call = CallShutdown | CallForceClose | CallForceCloseWithDelay rat

definition outside_check :: "outside_call \<Rightarrow> TcpConnection \<Rightarrow> bool" where
  "outside_check k c =
     (case k of CallShutdown \<Rightarrow> tc_state c = kConnected
      | _ \<Rightarrow> tc_state c = kConnected \<or> tc_state c = kDisconnecting)"

definition outside_set :: "outside_call \<Rightarrow> TcpConnection \<Rightarrow> TcpConnection" where
  "outside_set k c =
     (let c1 = setState kDisconnecting c in
      case k of CallShutdown \<Rightarrow> post FShutdownInLoop c1
      | CallForceClose \<Rightarrow> post FForceCloseInLoop c1
      | CallForceCloseWithDelay seconds \<Rightarrow> c1\<lparr>delayed := delayed c1 @ [seconds]\<rparr>)"

text \<open>
  A connection with the calls of other threads that have passed their check: the loop's thread does one of the operations \<open>ops\<close>, or another thread
  makes the first or the second step of a call.
\<close>

inductive shared_step ::
  "(TcpConnection \<Rightarrow> TcpConnection result) list \<Rightarrow> TcpConnection \<times> outside_call list \<Rightarrow> TcpConnection \<times> outside_call list \<Rightarrow> bool"
  for ops :: "(TcpConnection \<Rightarrow> TcpConnection result) list" where
  in_loop: "f \<in> set ops \<Longrightarrow> f c = Inr c' \<Longrightarrow> shared_step ops (c, ks) (c', ks)"
| check: "outside_check k c \<Longrightarrow> shared_step ops (c, ks) (c, k # ks)"
| set_it: "k \<in> set ks \<Longrightarrow> shared_step ops (c, ks) (outside_set k c, remove1 k ks)"

text \<open>What the loop does with a functor of the connection (the user's two callbacks aside).\<close>

definition run_conn_functor ::
  "bool \<Rightarrow> (char list \<Rightarrow> int + nat) \<Rightarrow> (nat \<Rightarrow> nat \<Rightarrow> char list) \<Rightarrow> (TcpConnection \<Rightarrow> TcpConnection result) \<Rightarrow>
   (TcpConnection \<Rightarrow> TcpConnection result) \<Rightarrow> (TcpConnection \<Rightarrow> TcpConnection result) \<Rightarrow>
   (nat \<Rightarrow> TcpConnection \<Rightarrow> TcpConnection result) \<Rightarrow> conn_functor \<Rightarrow> TcpConnection \<Rightarrow> TcpConnection result" where
  "run_conn_functor nd wr mem ccb clcb wcb hcb f c =
     (case f of
        FWriteComplete \<Rightarrow> wcb c
      | FHighWater n \<Rightarrow> hcb n c
      | FShutdownInLoop \<Rightarrow> shutdownInLoop True c
      | FSendInLoop p n \<Rightarrow> sendInLoop nd True wr (mem p n) c
      | FSendString s \<Rightarrow> send_ptr nd True wr (\<lambda>_ _. s) 0 (length s) c
      | FForceCloseInLoop \<Rightarrow> forceCloseInLoop nd True ccb clcb c
      | FStartReadInLoop \<Rightarrow> startReadInLoop True c
      | FStopReadInLoop \<Rightarrow> stopReadInLoop True c)"

subsection \<open>The stream of bytes\<close>

lemmas conn_defs = interest_def post_def log_error_def setState_def

lemma conn_fields [simp]:
  "outputBuffer (interest op c) = outputBuffer c" "outputBuffer (post f c) = outputBuffer c"
  "outputBuffer (log_error s c) = outputBuffer c" "wire (interest op c) = wire c" "wire (post f c) = wire c"
  "wire (log_error s c) = wire c" "tc_state (interest op c) = tc_state c" "tc_state (post f c) = tc_state c"
  "tc_state (log_error s c) = tc_state c" "wrShut (interest op c) = wrShut c" "wrShut (post f c) = wrShut c"
  "readWriteChannel (post f c) = readWriteChannel c" "readWriteChannel (log_error s c) = readWriteChannel c"
  "readWriteChannel (interest op c) = Channel_interest op (readWriteChannel c)"
  "tc_given (interest op c) = tc_given c" "tc_given (post f c) = tc_given c" "tc_given (log_error s c) = tc_given c"
  "tc_whole (interest op c) = tc_whole c" "tc_whole (post f c) = tc_whole c" "tc_whole (log_error s c) = tc_whole c"
  "highWaterMark (post f c) = highWaterMark c" "highWaterMark (log_error s c) = highWaterMark c"
  "hasHighWaterMarkCallback (post f c) = hasHighWaterMarkCallback c"
  "hasHighWaterMarkCallback (log_error s c) = hasHighWaterMarkCallback c"
  by (simp_all add: conn_defs)

lemma isWriting_ops [simp]:
  "isWriting (Channel_interest EnableWrite c)" "isWriting (Channel_interest DisableWrite c) = isWriting c"
  "isWriting (Channel_interest EnableRead c) = isWriting c" "isWriting (Channel_interest DisableRead c) = isWriting c"
  "\<not> isReading (Channel_interest DisableWrite c)"
  by (simp_all add: isReading_def isWriting_def Channel_interest_def event_bits poll_bits and.assoc
      bit.conj_disj_distrib2)

lemma note_given_fields [simp]:
  "outputBuffer (note_given wr d c) = outputBuffer c" "inputBuffer (note_given wr d c) = inputBuffer c" "wire (note_given wr d c) = wire c"
  "tc_state (note_given wr d c) = tc_state c" "tc_name (note_given wr d c) = tc_name c" "readWriteChannel (note_given wr d c) = readWriteChannel c"
  "functors (note_given wr d c) = functors c" "wrShut (note_given wr d c) = wrShut c" "highWaterMark (note_given wr d c) = highWaterMark c"
  "hasWriteCompleteCallback (note_given wr d c) = hasWriteCompleteCallback c"
  "hasHighWaterMarkCallback (note_given wr d c) = hasHighWaterMarkCallback c"
  "(note_given wr d c)\<lparr>wire := wire c\<rparr> = note_given wr d c"
  by (simp_all add: note_given_def)

definition conn_inv :: "TcpConnection \<Rightarrow> bool" where
  "conn_inv c \<longleftrightarrow> Buffer_inv (outputBuffer c) \<and>
     (Buffer_content (outputBuffer c) \<noteq> [] \<longrightarrow> isWriting (readWriteChannel c))"

lemma readable_zero: "Buffer_inv b \<Longrightarrow> readableBytes b = 0 \<longleftrightarrow> Buffer_content b = []"
  using Buffer_sizes(3) [of b] by auto

lemma send_queue_ok:
  assumes "Buffer_inv (outputBuffer c1)" "append_room (outputBuffer c1) (length (take left data))"
  shows "\<exists>c'. send_queue nd data left c1 = Inr c' \<and>
     Buffer_inv (outputBuffer c') \<and> Buffer_content (outputBuffer c') = Buffer_content (outputBuffer c1) @ take left data \<and>
     wire c' = wire c1 \<and> isWriting (readWriteChannel c')"
proof -
  define having where "having = readableBytes (outputBuffer c1)"
  define c2 where "c2 = (if having < highWaterMark c1 \<and> highWaterMark c1 \<le> uadd64 having left \<and> hasHighWaterMarkCallback c1
     then post (FHighWater (uadd64 having left)) c1 else c1)"
  have c2: "outputBuffer c2 = outputBuffer c1" "wire c2 = wire c1" by (simp_all add: c2_def)
  obtain b where b: "Buffer_append nd (take left data) (outputBuffer c1) = Inr b" "Buffer_inv b"
    "Buffer_content b = Buffer_content (outputBuffer c1) @ take left data"
    using Buffer_append_ok [OF assms, of nd] by blast
  have "send_queue nd data left c1 =
      Inr (if \<not> isWriting (readWriteChannel c2) then interest EnableWrite (c2\<lparr>outputBuffer := b\<rparr>) else c2\<lparr>outputBuffer := b\<rparr>)"
    using b(1) c2(1) unfolding send_queue_def Let_def having_def [symmetric] c2_def [symmetric] by simp
  then show ?thesis using b c2 by (cases "isWriting (readWriteChannel c2)") simp_all
qed

lemma sendInLoop_idle:
  assumes "\<not> isWriting (readWriteChannel c)" "readableBytes (outputBuffer c) = 0" "Buffer_inv (outputBuffer c)"
    and "wr data = Inr n" "n < length data" "append_room (outputBuffer c) (length data - n)"
  shows "\<exists>c'. sendInLoop nd True wr data c = Inr c' \<and> wire c' = wire c @ take n data \<and>
     Buffer_content (outputBuffer c') = take (length data - n) data \<and> conn_inv c'"
proof -
  let ?c1 = "(note_given wr data c)\<lparr>wire := wire c @ take n data\<rparr>"
  have e: "Buffer_content (outputBuffer c) = []" using readable_zero [OF assms(3)] assms(2) by simp
  from send_queue_ok [of ?c1 "length data - n" data nd] assms(3,6) e
  show ?thesis using assms(1,2,4,5)
    by (auto simp: sendInLoop_def send_direct_def conn_inv_def)
qed

lemma sendInLoop_busy:
  assumes "conn_inv c" "append_room (outputBuffer c) (length data)" "data \<noteq> []"
    and "isWriting (readWriteChannel c) \<or> readableBytes (outputBuffer c) \<noteq> 0 \<or> wr data = Inl EAGAIN"
  shows "\<exists>c'. sendInLoop nd True wr data c = Inr c' \<and> wire c' = wire c \<and>
     Buffer_content (outputBuffer c') = Buffer_content (outputBuffer c) @ data \<and> conn_inv c'"
proof -
  have "(if \<not> isWriting (readWriteChannel c) \<and> readableBytes (outputBuffer c) = 0
      then send_direct wr data (note_given wr data c) else (length data, False, note_given wr data c)) = (length data, False, note_given wr data c)"
    using assms(4) by (auto simp: send_direct_def)
  with send_queue_ok [of "note_given wr data c" "length data" data nd] assms(1-3) show ?thesis
    by (auto simp: sendInLoop_def conn_inv_def)
qed

lemma sendInLoop_whole:
  assumes "conn_inv c" "\<not> isWriting (readWriteChannel c)" "readableBytes (outputBuffer c) = 0"
    and "wr data = Inr (length data)"
  shows "\<exists>c'. sendInLoop nd True wr data c = Inr c' \<and> wire c' = wire c @ data \<and>
     outputBuffer c' = outputBuffer c \<and> conn_inv c'"
  using assms readable_zero [of "outputBuffer c"]
  by (auto simp: sendInLoop_def send_direct_def Let_def conn_inv_def)

definition sample_buffer :: "char list \<Rightarrow> Buffer" where
  "sample_buffer d = \<lparr>buffer = replicate 8 (CHR 0x00) @ d @ replicate 8 (CHR 0x00), readIndex = 8, writeIndex = 8 + length d\<rparr>"

definition sample_conn :: "bool \<Rightarrow> char list \<Rightarrow> TcpConnection" where
  "sample_conn w d =
     \<lparr>tc_name = ''c'', tc_state = kConnected, tc_fd = 5,
      readWriteChannel = (if w then Channel_interest EnableWrite (Channel_new 5) else Channel_new 5),
      localAddr = bzero6, remoteAddr = bzero6, highWaterMark = 100, inputBuffer = sample_buffer [], outputBuffer = sample_buffer d,
      reading = False, hasWriteCompleteCallback = True, hasHighWaterMarkCallback = False,
      wire = [], wrShut = False, functors = [], delayed = [], tc_log = [], tc_given = [], tc_whole = True\<rparr>"

lemma sample_buffer_facts:
  "length d < 1000 \<Longrightarrow> Buffer_inv (sample_buffer d)" "Buffer_content (sample_buffer d) = d"
  "k \<le> 8 \<Longrightarrow> append_room (sample_buffer d) k"
  by (simp_all add: Buffer_inv_def kCheapPrependSize_def vector_max_def sample_buffer_def
      Buffer_content_def append_room_def slice_def)

lemma sample_conn_facts [simp]:
  "isWriting (readWriteChannel (sample_conn w d)) = w" "outputBuffer (sample_conn w d) = sample_buffer d"
  "wire (sample_conn w d) = []" "tc_state (sample_conn w d) = kConnected"
  by (simp_all add: sample_conn_def isWriting_def Channel_new_def event_bits Channel_interest_def poll_bits)

lemma sample_conn_extra [simp]:
  "functors (sample_conn w d) = []" "tc_given (sample_conn w d) = []" "tc_whole (sample_conn w d)" "hasWriteCompleteCallback (sample_conn w d)" "wrShut (sample_conn w d) = False"
  by (simp_all add: sample_conn_def)

lemma sample_conn_inv: "length d < 100 \<Longrightarrow> w \<or> d = [] \<Longrightarrow> conn_inv (sample_conn w d)"
  by (auto simp: conn_inv_def sample_buffer_facts)

lemma sendInLoop_stream:
  assumes "conn_inv c" "append_room (outputBuffer c) (length data)" "data \<noteq> []"
    and "wr data \<in> {Inr (length data), Inr 0, Inl EAGAIN} \<or> isWriting (readWriteChannel c)"
  shows "\<exists>c'. sendInLoop nd True wr data c = Inr c' \<and> conn_inv c' \<and>
     wire c' @ Buffer_content (outputBuffer c') = wire c @ Buffer_content (outputBuffer c) @ data"
proof (cases "isWriting (readWriteChannel c) \<or> readableBytes (outputBuffer c) \<noteq> 0 \<or> wr data = Inl EAGAIN")
  case True
  from sendInLoop_busy [of c data wr nd, OF assms(1-3) True] show ?thesis by auto
next
  case False
  then have idle: "\<not> isWriting (readWriteChannel c)" "readableBytes (outputBuffer c) = 0" by auto
  have b: "Buffer_inv (outputBuffer c)" "Buffer_content (outputBuffer c) = []"
    using assms(1) idle readable_zero [of "outputBuffer c"] by (auto simp: conn_inv_def)
  consider "wr data = Inr (length data)" | "wr data = Inr 0" using False assms(4) by auto
  then show ?thesis
  proof cases
    case 1
    from sendInLoop_whole [of c wr data nd, OF assms(1) idle 1] b show ?thesis by auto
  next
    case 2
    from sendInLoop_idle [of c wr data 0 nd, OF idle b(1) 2] assms(2,3) b(2) show ?thesis by auto
  qed
qed

lemma send_queue_fails:
  assumes "Buffer_inv (outputBuffer c)" "\<not> append_room (outputBuffer c) (length data)" "length data \<le> vector_max"
  shows "\<exists>f. send_queue nd data (length data) c = Inl f"
  using buf.app_fails [OF assms, of nd] by (auto simp: send_queue_def Let_def)

lemma errnos_differ: "EPIPE \<noteq> EAGAIN" "ECONNRESET \<noteq> EAGAIN"
  by (simp_all add: EPIPE_def ECONNRESET_def EAGAIN_def)

lemma sendInLoop_outcomes:
  assumes "conn_inv c" "data \<noteq> []" "length data \<le> vector_max"
    and "isWriting (readWriteChannel c) \<or> (\<forall>n. wr data = Inr n \<longrightarrow> n = 0 \<or> n = length data)"
  shows "if \<not> isWriting (readWriteChannel c) \<and> wr data = Inr (length data)
     then \<exists>c'. sendInLoop nd True wr data c = Inr c' \<and> conn_inv c' \<and> wire c' = wire c @ data \<and> outputBuffer c' = outputBuffer c
     else if \<not> isWriting (readWriteChannel c) \<and> wr data \<in> {Inl EPIPE, Inl ECONNRESET}
     then \<exists>c'. sendInLoop nd True wr data c = Inr c' \<and> conn_inv c' \<and> wire c' = wire c \<and> outputBuffer c' = outputBuffer c
     else if append_room (outputBuffer c) (length data)
     then \<exists>c'. sendInLoop nd True wr data c = Inr c' \<and> conn_inv c' \<and> wire c' = wire c \<and>
       Buffer_content (outputBuffer c') = Buffer_content (outputBuffer c) @ data \<and> isWriting (readWriteChannel c')
     else \<exists>f. sendInLoop nd True wr data c = Inl f"
proof -
  have inv: "Buffer_inv (outputBuffer c)" using assms(1) by (simp add: conn_inv_def)
  have idle: "readableBytes (outputBuffer c) = 0" if "\<not> isWriting (readWriteChannel c)"
    using assms(1) that readable_zero [OF inv] by (auto simp: conn_inv_def)
  show ?thesis
  proof (cases "\<not> isWriting (readWriteChannel c) \<and> wr data \<in> {Inr (length data), Inl EPIPE, Inl ECONNRESET}")
    case True
    then show ?thesis
      using idle assms(1,2) errnos_differ by (auto simp: sendInLoop_def send_direct_def Let_def conn_inv_def)
  next
    case False
    define c1 where "c1 = (if \<not> isWriting (readWriteChannel c) \<and> wr data \<noteq> Inr 0 \<and> wr data \<noteq> Inl EAGAIN
      then log_error ''TcpConnection::sendInLoop'' (note_given wr data c) else note_given wr data c)"
    have "sendInLoop nd True wr data c = send_queue nd data (length data) c1"
      using False assms(1,2,4) idle by (auto simp: c1_def sendInLoop_def send_direct_def Let_def conn_inv_def split: sum.splits)
    moreover have "conn_inv c1" "outputBuffer c1 = outputBuffer c" "wire c1 = wire c"
      using assms(1) by (auto simp: c1_def conn_inv_def)
    ultimately have c1: "conn_inv c1" "outputBuffer c1 = outputBuffer c" "wire c1 = wire c"
      "sendInLoop nd True wr data c = send_queue nd data (length data) c1" by blast+
    with send_queue_ok [of c1 "length data" data nd] send_queue_fails [of c1 data nd] inv assms(3) False
    show ?thesis by (auto simp: conn_inv_def)
  qed
qed



text \<open>
  C8: a partial write corrupts the stream. When nothing is queued and the kernel takes the first \<open>n\<close> bytes of
  the data and leaves the rest, the bytes queued are not the rest but the same
  number of bytes from the start of the data.
\<close>

theorem sendInLoop_partial_write:
  assumes "conn_inv c" "\<not> isWriting (readWriteChannel c)" "append_room (outputBuffer c) (length data - n)"
    and "wr data = Inr n" "0 < n" "n < length data"
  shows "\<exists>c'. sendInLoop nd True wr data c = Inr c' \<and>
     wire c' @ Buffer_content (outputBuffer c') = wire c @ take n data @ take (length data - n) data \<and>
     (wire c' @ Buffer_content (outputBuffer c') = wire c @ data \<longleftrightarrow> take (length data - n) data = drop n data)"
proof -
  have b: "Buffer_inv (outputBuffer c)" "Buffer_content (outputBuffer c) = []"
    using assms(1,2) by (auto simp: conn_inv_def)
  have z: "readableBytes (outputBuffer c) = 0" using readable_zero [OF b(1)] b(2) by simp
  obtain c' where c': "sendInLoop nd True wr data c = Inr c'" "wire c' = wire c @ take n data"
    "Buffer_content (outputBuffer c') = take (length data - n) data"
    using sendInLoop_idle [of c wr data n nd, OF assms(2) z b(1) assms(4,6,3)] by blast
  have "take n data @ take (length data - n) data = data \<longleftrightarrow> take (length data - n) data = drop n data"
    by (metis append_take_drop_id same_append_eq)
  with c' show ?thesis by simp
qed

theorem sendInLoop_partial_write_witness:
  "\<exists>c'. sendInLoop False True (\<lambda>d. Inr 2) ''abc'' (sample_conn False []) = Inr c' \<and>
     wire c' @ Buffer_content (outputBuffer c') = ''aba''"
proof -
  have "conn_inv (sample_conn False [])" "append_room (outputBuffer (sample_conn False [])) (length ''abc'' - 2)"
    by (simp_all add: sample_conn_inv sample_buffer_facts)
  from sendInLoop_partial_write [OF this(1) _ this(2), where wr = "\<lambda>d. Inr 2" and nd = False] show ?thesis
    by auto
qed

text \<open>
  C9: \<open>handleWrite\<close> moves queued bytes to the kernel without loss or reordering. Once all are
  out it asks for \<open>disableWrite\<close>, which leaves the channel interested in writing and ends its interest in
  reading; for that reason the shutdown that was postponed until then is not done either.
\<close>

theorem handleWrite_drains:
  assumes "conn_inv c" "isWriting (readWriteChannel c)"
    and "wr (Buffer_content (outputBuffer c)) = Inr n" "0 < n" "n \<le> length (Buffer_content (outputBuffer c))"
  shows "\<exists>c'. handleWrite nd True wr c = Inr c' \<and> conn_inv c' \<and> wire c' = wire c @ take n (Buffer_content (outputBuffer c)) \<and>
     Buffer_content (outputBuffer c') = drop n (Buffer_content (outputBuffer c)) \<and>
     wrShut c' = wrShut c \<and> isWriting (readWriteChannel c') \<and>
     (n = length (Buffer_content (outputBuffer c)) \<longrightarrow> \<not> isReading (readWriteChannel c'))"
proof -
  let ?b = "outputBuffer c"
  have inv: "Buffer_inv ?b" using assms(1) by (simp add: conn_inv_def)
  have r: "mem_read ?b (peek ?b) (readableBytes ?b) = Inr (Buffer_content ?b)"
    using mem_read_content [OF inv, of "readableBytes ?b"] Buffer_content_all [OF inv] by (simp add: peek_def)
  obtain b where b: "retrieve nd n ?b = Inr b" "Buffer_inv b" "Buffer_content b = drop n (Buffer_content ?b)"
    using retrieve_spec [OF inv, of n nd] assms(5) Buffer_sizes(3) [OF inv] by auto
  have "readableBytes b = 0 \<longleftrightarrow> n = length (Buffer_content ?b)"
    using readable_zero [OF b(2)] b(3) assms(5) by auto
  then show ?thesis
    using assms(2-4) r b
    by (cases "n = length (Buffer_content ?b)")
      (simp_all add: handleWrite_def Let_def conn_inv_def shutdownInLoop_def)
qed

theorem handleWrite_drains_witness:
  "\<exists>c'. handleWrite False True (\<lambda>d. Inr (length d)) (sample_conn True ''xy'') = Inr c' \<and> wire c' = ''xy'' \<and>
     isWriting (readWriteChannel c') \<and> \<not> isReading (readWriteChannel c')"
proof -
  have "conn_inv (sample_conn True ''xy'')" by (simp add: sample_conn_inv)
  from handleWrite_drains [OF this, where wr = "\<lambda>d. Inr (length d)" and nd = False] show ?thesis
    by (simp add: sample_buffer_facts) blast
qed

subsection \<open>The life of a connection\<close>

fun state_rank :: "conn_state \<Rightarrow> nat" where
  "state_rank kConnecting = 0" | "state_rank kConnected = 1" | "state_rank kDisconnecting = 2" | "state_rank kDisconnected = 3"

definition forward :: "(TcpConnection \<Rightarrow> TcpConnection result) \<Rightarrow> bool" where
  "forward f \<longleftrightarrow> (\<forall>c c'. f c = Inr c' \<longrightarrow> state_rank (tc_state c) \<le> state_rank (tc_state c'))"

lemma forwardI: "(\<And>c c'. f c = Inr c' \<Longrightarrow> state_rank (tc_state c) \<le> state_rank (tc_state c')) \<Longrightarrow> forward f"
  by (simp add: forward_def)

lemma forwardD: "forward f \<Longrightarrow> f c = Inr c' \<Longrightarrow> state_rank (tc_state c) \<le> state_rank (tc_state c')"
  by (simp add: forward_def)

lemma state_rank_max: "state_rank s \<le> 3"
  by (cases s) simp_all

lemma forward_last: "forward f \<Longrightarrow> f c = Inr c' \<Longrightarrow> tc_state c = kDisconnected \<Longrightarrow> tc_state c' = kDisconnected"
  using forwardD [of f c c'] by (cases "tc_state c'") auto

lemma forward_established: "forward (connectionEstablished False il self ccb)"
  by (rule forwardI) (auto simp: connectionEstablished_def assertInLoopThread_def split: if_splits)

lemma forward_close: "forward ccb \<Longrightarrow> forward clcb \<Longrightarrow> forward (handleClose nd il ccb clcb)"
proof (rule forwardI)
  fix c c'
  assume f: "forward ccb" "forward clcb" and h: "handleClose nd il ccb clcb c = Inr c'"
  then obtain c1 where "ccb (interest DisableAll (setState kDisconnected c)) = Inr c1" "clcb c1 = Inr c'"
    by (auto simp: handleClose_def assertInLoopThread_def cassert_def split: if_splits)
  with f have "tc_state c' = kDisconnected"
    using forward_last by (metis conn_fields(7) TcpConnection.select_convs(2) TcpConnection.surjective TcpConnection.update_convs(2) setState_def)
  then show "state_rank (tc_state c) \<le> state_rank (tc_state c')" by (simp add: state_rank_max)
qed

lemma forward_destroyed: "forward ccb \<Longrightarrow> forward (connectionDestroyed nd il ccb)"
proof (rule forwardI)
  fix c c'
  assume f: "forward ccb" and h: "connectionDestroyed nd il ccb c = Inr c'"
  show "state_rank (tc_state c) \<le> state_rank (tc_state c')"
  proof (cases "tc_state c = kConnected")
    case True
    with h obtain c1 where c1: "ccb (interest DisableAll (setState kDisconnected c)) = Inr c1" "tc_state c' = tc_state c1"
      by (auto simp: connectionDestroyed_def assertInLoopThread_def split: if_splits)
    have "tc_state c1 = kDisconnected" using forward_last [OF f c1(1)] by (simp add: setState_def)
    with c1(2) show ?thesis by (simp add: state_rank_max)
  next
    case False
    with h show ?thesis by (auto simp: connectionDestroyed_def assertInLoopThread_def split: if_splits)
  qed
qed

lemma shutdownInLoop_state: "shutdownInLoop il c = Inr c' \<Longrightarrow> tc_state c' = tc_state c"
  by (auto simp: shutdownInLoop_def assertInLoopThread_def split: if_splits)

lemma handleWrite_state:
  assumes h: "handleWrite nd il wr c = Inr c'"
  shows "tc_state c' = tc_state c"
proof (cases "il \<and> isWriting (readWriteChannel c)")
  case True
  then obtain d where d: "mem_read (outputBuffer c) (peek (outputBuffer c)) (readableBytes (outputBuffer c)) = Inr d"
    using h by (auto simp: handleWrite_def)
  show ?thesis
  proof (cases "wr d")
    case (Inl err)
    with h True d show ?thesis by (auto simp: handleWrite_def)
  next
    case (Inr res)
    show ?thesis
    proof (cases "0 < res")
      case True
      with h d Inr \<open>il \<and> _\<close> obtain b where "retrieve nd res (outputBuffer c) = Inr b"
        by (auto simp: handleWrite_def)
      with h d Inr True \<open>il \<and> _\<close> show ?thesis
        by (auto simp: handleWrite_def Let_def dest!: shutdownInLoop_state split: if_splits)
    next
      case False
      with h d Inr \<open>il \<and> _\<close> show ?thesis by (auto simp: handleWrite_def)
    qed
  qed
next
  case False
  with h show ?thesis by (auto simp: handleWrite_def assertInLoopThread_def split: if_splits)
qed

lemma forward_handleWrite: "forward (handleWrite nd il wr)"
  by (rule forwardI) (simp add: handleWrite_state)

lemma send_direct_state: "send_direct wr data c = (left, error, c1) \<Longrightarrow> tc_state c1 = tc_state c"
  by (auto simp: send_direct_def Let_def split: sum.splits if_splits)

lemma send_queue_state: "send_queue nd data left c = Inr c' \<Longrightarrow> tc_state c' = tc_state c"
  by (auto simp: send_queue_def Let_def split: if_splits)

lemma sendInLoop_state: "sendInLoop nd il wr data c = Inr c' \<Longrightarrow> tc_state c' = tc_state c"
  by (auto simp: sendInLoop_def assertInLoopThread_def cassert_def dest!: send_direct_state send_queue_state
      split: if_splits prod.splits)

lemma forward_sendInLoop: "forward (sendInLoop nd il wr data)"
  by (rule forwardI) (simp add: sendInLoop_state)

lemma forward_handleRead:
  assumes "forward ccb" "forward (mcb t)" "forward clcb"
  shows "forward (handleRead nd il readv t strerror err ccb mcb clcb)"
proof (rule forwardI)
  fix c c'
  assume h: "handleRead nd il readv t strerror err ccb mcb clcb c = Inr c'"
  then obtain n sv b where "readFd nd readv (tc_fd c) (inputBuffer c) = Inr (n, sv, b)"
    by (auto simp: handleRead_def assertInLoopThread_def split: if_splits)
  with h have "mcb t (c\<lparr>inputBuffer := b\<rparr>) = Inr c' \<or> handleClose nd il ccb clcb (c\<lparr>inputBuffer := b\<rparr>) = Inr c'"
    by (auto simp: handleRead_def assertInLoopThread_def Let_def split: if_splits)
  then show "state_rank (tc_state c) \<le> state_rank (tc_state c')"
    using forwardD [OF assms(2)] forwardD [OF forward_close [OF assms(1,3)]] by fastforce
qed

lemma forward_forceClose:
  assumes "forward ccb" "forward clcb"
  shows "forward (forceCloseInLoop nd il ccb clcb)" "forward (forceClose nd il ccb clcb)"
proof -
  show 1: "forward (forceCloseInLoop nd il ccb clcb)"
    using forwardD [OF forward_close [OF assms, of nd il]]
    by (intro forwardI) (auto simp: forceCloseInLoop_def assertInLoopThread_def cassert_def split: if_splits)
  have up: "state_rank (tc_state c) \<le> 2" if "tc_state c = kConnected \<or> tc_state c = kDisconnecting" for c
    using that by auto
  show "forward (forceClose nd il ccb clcb)"
  proof (rule forwardI)
    fix c c'
    assume h: "forceClose nd il ccb clcb c = Inr c'"
    show "state_rank (tc_state c) \<le> state_rank (tc_state c')"
    proof (cases "(tc_state c = kConnected \<or> tc_state c = kDisconnecting) \<and> il")
      case True
      with h have "forceCloseInLoop nd il ccb clcb (setState kDisconnecting c) = Inr c'"
        by (auto simp: forceClose_def Let_def)
      from forwardD [OF 1 this] up [of c] True show ?thesis by (simp add: setState_def)
    next
      case False
      with h show ?thesis by (auto simp: forceClose_def Let_def setState_def split: if_splits)
    qed
  qed
qed

lemma forward_simple:
  "forward (shutdownInLoop il)" "forward (tc_shutdown il)" "forward (startReadInLoop il)" "forward (stopReadInLoop il)"
  "forward (startRead nd il)" "forward (stopRead nd il)" "forward (\<lambda>c. Inr (forceCloseWithDelay r c))"
  "forward (send_ptr nd il wr mem p n)"
proof -
  show "forward (shutdownInLoop il)" "forward (startReadInLoop il)" "forward (stopReadInLoop il)"
    by (auto intro!: forwardI simp: shutdownInLoop_def startReadInLoop_def stopReadInLoop_def assertInLoopThread_def split: if_splits)
  show "forward (tc_shutdown il)"
    by (auto intro!: forwardI simp: tc_shutdown_def shutdownInLoop_def setState_def assertInLoopThread_def Let_def split: if_splits)
  show "forward (startRead nd il)"
    by (auto intro!: forwardI simp: startRead_def startReadInLoop_def assertInLoopThread_def cassert_def split: if_splits)
  show "forward (stopRead nd il)"
    by (auto intro!: forwardI simp: stopRead_def stopReadInLoop_def assertInLoopThread_def cassert_def split: if_splits)
  show "forward (\<lambda>c. Inr (forceCloseWithDelay r c))"
    by (auto intro!: forwardI simp: forceCloseWithDelay_def setState_def Let_def split: if_splits)
  show "forward (send_ptr nd il wr mem p n)"
    using forwardD [OF forward_sendInLoop [of nd il wr "mem p n"]]
    by (intro forwardI) (force simp: send_ptr_def split: if_splits)
qed

lemma forward_functor:
  assumes "forward ccb" "forward clcb" "forward wcb" "\<And>n. forward (hcb n)"
  shows "forward (run_conn_functor nd wr mem ccb clcb wcb hcb f)"
  using assms forward_simple forward_sendInLoop forward_forceClose [OF assms(1,2)]
  by (cases f) (simp_all add: run_conn_functor_def [abs_def])

text \<open>In the order of the loop's operations: the guards of the calls in another thread are those of the calls in the loop.\<close>

lemma outside_call_is_atomic:
  "tc_shutdown False c = Inr (if outside_check CallShutdown c then outside_set CallShutdown c else c)"
  "forceClose nd False ccb clcb c = Inr (if outside_check CallForceClose c then outside_set CallForceClose c else c)"
  "forceCloseWithDelay r c = (if outside_check (CallForceCloseWithDelay r) c then outside_set (CallForceCloseWithDelay r) c else c)"
  by (simp_all add: tc_shutdown_def forceClose_def forceCloseWithDelay_def outside_check_def outside_set_def Let_def)

lemma outside_set_state: "tc_state (outside_set k c) = kDisconnecting"
  by (simp add: outside_set_def Let_def setState_def split: outside_call.splits)

definition established_once ::
  "bool \<Rightarrow> nat \<Rightarrow> (TcpConnection \<Rightarrow> TcpConnection result) \<Rightarrow> TcpConnection \<Rightarrow> TcpConnection result" where
  "established_once nd self ccb c = (if tc_state c = kConnecting then connectionEstablished nd True self ccb c else Inl AssertFailed)"

lemma forward_established_once: "forward ccb \<Longrightarrow> forward (established_once nd self ccb)"
  by (rule forwardI) (auto simp: established_once_def split: if_splits)


text \<open>
  A thread checks, the loop closes, the thread sets the state: a disconnected connection is disconnecting again.
\<close>

theorem shutdown_race_goes_back:
  assumes "tc_state c = kConnected"
  shows "\<exists>c2 c3. (shared_step [handleClose nd True Inr Inr])\<^sup>*\<^sup>* (c, []) (c2, [CallShutdown]) \<and> tc_state c2 = kDisconnected \<and>
     shared_step [handleClose nd True Inr Inr] (c2, [CallShutdown]) (c3, []) \<and> tc_state c3 = kDisconnecting"
proof -
  let ?R = "shared_step [handleClose nd True Inr Inr]"
  let ?c2 = "interest DisableAll (setState kDisconnected c)"
  have 1: "?R (c, []) (c, [CallShutdown])" using assms by (intro shared_step.check) (simp add: outside_check_def)
  have 2: "?R (c, [CallShutdown]) (?c2, [CallShutdown])"
    using assms by (intro shared_step.in_loop [of "handleClose nd True Inr Inr"]) (simp_all add: handleClose_def)
  have 3: "?R (?c2, [CallShutdown]) (outside_set CallShutdown ?c2, [])"
    using shared_step.set_it [of CallShutdown "[CallShutdown]"] by simp
  have "?R\<^sup>*\<^sup>* (c, []) (?c2, [CallShutdown])" using 1 2 by (meson converse_rtranclp_into_rtranclp r_into_rtranclp)
  moreover have "tc_state ?c2 = kDisconnected" by (simp add: setState_def)
  ultimately show ?thesis using 3 outside_set_state by blast
qed

theorem shutdown_race_goes_back_witness:
  "\<exists>c2 c3. shared_step [handleClose False True Inr Inr] (c2, [CallShutdown]) (c3, []) \<and> tc_state c2 = kDisconnected \<and>
     tc_state c3 = kDisconnecting"
  using shutdown_race_goes_back [of "sample_conn False []" False] by auto


text \<open>
  A failed read is taken for data: whatever the error, the message callback runs, on an
  unchanged input buffer, and neither the error branch nor a close is reached.
\<close>

theorem handleRead_error_is_a_message:
  assumes "readv (tc_fd c) [writableBytes (inputBuffer c), extrabufSize] = Inl e"
  shows "handleRead nd True readv t strerror err ccb mcb clcb c = mcb t c"
  using assms by (simp add: handleRead_def readFd_def)

theorem handleRead_error_is_a_message_witness:
  "handleRead False True (\<lambda>_ _. Inl ECONNRESET) (Timestamp_new 0) (\<lambda>_. []) 0 Inr (\<lambda>_ c. Inl Fatal) Inr (sample_conn False []) =
     Inl Fatal"
  by (rule handleRead_error_is_a_message) simp

text \<open>
  Closing by force from another thread. The functor it posts runs later. If the connection has been closed by then, a build with assertions
  aborts, and one without calls the connection and close callbacks a second time.
\<close>

theorem forceClose_then_close:
  assumes "tc_state c = kConnected" "forceClose nd False ccb clcb c = Inr c1"
    and "tc_state c2 = kDisconnected"
  shows "tc_state c1 = kDisconnecting \<and> functors c1 = functors c @ [FForceCloseInLoop] \<and>
     run_conn_functor False wr mem ccb clcb wcb hcb FForceCloseInLoop c2 = Inl AssertFailed \<and>
     run_conn_functor True wr mem ccb clcb wcb hcb FForceCloseInLoop c2 =
       bindR (ccb (interest DisableAll (setState kDisconnected c2))) clcb"
  using assms
  by (auto simp: forceClose_def run_conn_functor_def forceCloseInLoop_def handleClose_def cassert_def post_def setState_def Let_def)

theorem forceClose_then_close_witness:
  "run_conn_functor False (\<lambda>_. Inr 0) (\<lambda>_ _. []) Inr Inr Inr (\<lambda>_. Inr) FForceCloseInLoop
     (setState kDisconnected (sample_conn False [])) = Inl AssertFailed"
proof -
  have "\<exists>c1. forceClose False False Inr Inr (sample_conn False []) = Inr c1" by (simp add: forceClose_def)
  then obtain c1 where "forceClose False False Inr Inr (sample_conn False []) = Inr c1" by blast
  from forceClose_then_close [OF _ this, where ?c2.0 = "setState kDisconnected (sample_conn False [])"]
  show ?thesis by (simp add: setState_def)
qed

text \<open>
  What another thread sends through a pointer is what lies there when the loop runs the
  functor; the contents of a buffer are copied at the call.
\<close>

theorem send_from_other_thread:
  assumes "tc_state c = kConnected" "tc_state c2 = kConnected" "Buffer_inv buf"
  shows "send_string nd False wr mem p msg c = Inr (post (FSendInLoop p (length msg)) c)"
    and "run_conn_functor nd wr mem' ccb clcb wcb hcb (FSendInLoop p (length msg)) c2 = sendInLoop nd True wr (mem' p (length msg)) c2"
    and "\<exists>buf'. send_buffer nd False wr buf c = Inr (buf', post (FSendString (Buffer_content buf)) c) \<and> Buffer_content buf' = []"
    and "run_conn_functor nd wr mem' ccb clcb wcb hcb (FSendString (Buffer_content buf)) c2 =
       sendInLoop nd True wr (Buffer_content buf) c2"
proof -
  have r: "mem_read buf (peek buf) (readableBytes buf) = Inr (Buffer_content buf)"
    using mem_read_content [OF assms(3), of "readableBytes buf"] Buffer_content_all [OF assms(3)] by (simp add: peek_def)
  obtain b where "retrieve nd (readableBytes buf) buf = Inr b" "Buffer_content b = []"
    using retrieve_spec [OF assms(3), of "readableBytes buf" nd] Buffer_sizes(3) [OF assms(3)] by auto
  then show "\<exists>buf'. send_buffer nd False wr buf c = Inr (buf', post (FSendString (Buffer_content buf)) c) \<and> Buffer_content buf' = []"
    using assms(1) r by (simp add: send_buffer_def retrieveAllAsString_def retrieveAsString_def)
qed (use assms in \<open>simp_all add: send_string_def send_ptr_def run_conn_functor_def\<close>)

subsection \<open>Connections with nothing queued\<close>

definition fresh_buffer :: Buffer where
  "fresh_buffer = \<lparr>buffer = replicate 1032 (CHR 0x00), readIndex = 8, writeIndex = 8\<rparr>"

lemma fresh_buffer_facts:
  "Buffer_new nd kDefaultInitialSize = Inr fresh_buffer" "Buffer_inv fresh_buffer" "Buffer_content fresh_buffer = []"
  "readIndex fresh_buffer = 8" "writableBytes fresh_buffer = 1024" "readableBytes fresh_buffer = 0"
  by (simp_all add: Buffer_new_default fresh_buffer_def Buffer_inv_def Buffer_content_def kCheapPrependSize_def
      vector_max_def writableBytes_def readableBytes_def)

text \<open>
  \<open>accepts wr d c\<close>: the data \<open>d\<close> get into the stream of the connection, either written by the kernel as a whole or queued behind what is
  there. Not so if the kernel writes only a part, or reports a peer that is gone, or the output buffer makes no room.
\<close>

definition accepts :: "(char list \<Rightarrow> int + nat) \<Rightarrow> char list \<Rightarrow> TcpConnection \<Rightarrow> bool" where
  "accepts wr d c \<longleftrightarrow>
     (if isWriting (readWriteChannel c) then append_room (outputBuffer c) (length d)
      else case wr d of
        Inr n \<Rightarrow> n = length d \<or> n = 0 \<and> append_room (outputBuffer c) (length d)
      | Inl err \<Rightarrow> err \<noteq> EPIPE \<and> err \<noteq> ECONNRESET \<and> append_room (outputBuffer c) (length d))"

lemma sendInLoop_rest:
  assumes "sendInLoop nd il wr d c = Inr c'"
  shows "inputBuffer c' = inputBuffer c \<and> tc_name c' = tc_name c \<and> tc_state c' = tc_state c"
  using assms
  by (auto simp: sendInLoop_def send_direct_def send_queue_def assertInLoopThread_def cassert_Inr_iff Let_def conn_defs
      split: if_splits sum.splits prod.splits)

lemma sendInLoop_accepted:
  assumes "conn_inv c" "d \<noteq> []" "length d \<le> vector_max" "accepts wr d c"
  shows "\<exists>c'. sendInLoop nd True wr d c = Inr c' \<and> conn_inv c' \<and>
     wire c' @ Buffer_content (outputBuffer c') = wire c @ Buffer_content (outputBuffer c) @ d \<and>
     inputBuffer c' = inputBuffer c \<and> tc_name c' = tc_name c \<and> tc_state c' = tc_state c"
proof -
  have w: "isWriting (readWriteChannel c) \<or> (\<forall>n. wr d = Inr n \<longrightarrow> n = 0 \<or> n = length d)"
    using assms(4) by (auto simp: accepts_def split: if_splits)
  have empty: "Buffer_content (outputBuffer c) = []" if "\<not> isWriting (readWriteChannel c)"
    using assms(1) that by (auto simp: conn_inv_def)
  have "\<exists>c'. sendInLoop nd True wr d c = Inr c' \<and> conn_inv c' \<and>
     wire c' @ Buffer_content (outputBuffer c') = wire c @ Buffer_content (outputBuffer c) @ d"
  proof (cases "\<not> isWriting (readWriteChannel c) \<and> wr d = Inr (length d)")
    case True
    with sendInLoop_outcomes [of c d wr nd, OF assms(1-3) w] empty show ?thesis by auto
  next
    case False
    then have "append_room (outputBuffer c) (length d)" "\<not> (\<not> isWriting (readWriteChannel c) \<and> wr d \<in> {Inl EPIPE, Inl ECONNRESET})"
      using assms(4) by (auto simp: accepts_def split: if_splits sum.splits)
    with sendInLoop_outcomes [of c d wr nd, OF assms(1-3) w] False show ?thesis by auto
  qed
  with sendInLoop_rest show ?thesis by blast
qed

lemma send_buffer_accepted:
  assumes "conn_inv c" "tc_state c = kConnected" "Buffer_inv b" "Buffer_content b \<noteq> []" "accepts wr (Buffer_content b) c"
  shows "\<exists>c'. send_buffer nd True wr b c = Inr (retrieveAll b, c') \<and> conn_inv c' \<and>
     wire c' @ Buffer_content (outputBuffer c') = wire c @ Buffer_content (outputBuffer c) @ Buffer_content b \<and>
     inputBuffer c' = inputBuffer c \<and> tc_name c' = tc_name c \<and> tc_state c' = kConnected"
proof -
  have r: "mem_read b (peek b) (readableBytes b) = Inr (Buffer_content b)"
    using mem_read_content [OF assms(3), of "readableBytes b"] Buffer_content_all [OF assms(3)] by (simp add: peek_def)
  have "length (Buffer_content b) \<le> vector_max" using assms(3) by (auto simp: Buffer_inv_def Buffer_content_def)
  from sendInLoop_accepted [OF assms(1,4) this assms(5), of nd] show ?thesis using r assms(2) by (auto simp: send_buffer_def)
qed

lemma accepts_sample: "wr d = Inr (length d) \<Longrightarrow> accepts wr d (sample_conn False x)"
  by (simp add: accepts_def)

lemma accepts_input [simp]: "accepts wr d (c\<lparr>inputBuffer := b\<rparr>) = accepts wr d c" "conn_inv (c\<lparr>inputBuffer := b\<rparr>) = conn_inv c"
  by (simp_all add: accepts_def conn_inv_def split: sum.splits)

text \<open>A connection with nothing queued, whose kernel takes what it is given.\<close>

definition idle_conn :: "TcpConnection \<Rightarrow> bool" where
  "idle_conn c \<longleftrightarrow> tc_state c = kConnected \<and> \<not> isWriting (readWriteChannel c) \<and> readableBytes (outputBuffer c) = 0"

definition on_wire :: "char list \<Rightarrow> TcpConnection \<Rightarrow> TcpConnection" where
  "on_wire d c = c\<lparr>tc_given := tc_given c @ d, wire := wire c @ d\<rparr>"

lemma on_wire_simps [simp]:
  "wire (on_wire d c) = wire c @ d" "tc_given (on_wire d c) = tc_given c @ d" "idle_conn (on_wire d c) = idle_conn c"
  "hasWriteCompleteCallback (on_wire d c) = hasWriteCompleteCallback c" "functors (on_wire d c) = functors c"
  "outputBuffer (on_wire d c) = outputBuffer c" "readWriteChannel (on_wire d c) = readWriteChannel c" "wrShut (on_wire d c) = wrShut c"
  "inputBuffer (on_wire d c) = inputBuffer c" "tc_name (on_wire d c) = tc_name c" "tc_state (on_wire d c) = tc_state c"
  "on_wire d2 (on_wire d1 c) = on_wire (d1 @ d2) c" "on_wire [] c = c"
  by (simp_all add: on_wire_def idle_conn_def)

lemma sendInLoop_idle_eq:
  assumes "idle_conn c" "wr d = Inr (length d)"
  shows "sendInLoop nd True wr d c =
     Inr (if hasWriteCompleteCallback c then post FWriteComplete (on_wire d c) else on_wire d c)"
  using assms by (simp add: sendInLoop_def idle_conn_def send_direct_def Let_def note_given_def on_wire_def)

lemma sendInLoop_idle_all:
  assumes "idle_conn c" "\<And>d. wr d = Inr (length d)"
  shows "\<exists>c'. sendInLoop nd True wr d c = Inr c' \<and> idle_conn c' \<and> wire c' = wire c @ d \<and>
     inputBuffer c' = inputBuffer c \<and> tc_name c' = tc_name c"
  using sendInLoop_idle_eq [OF assms(1), of wr d nd] assms by (auto simp: idle_conn_def post_def)

lemma send_buffer_idle:
  assumes "idle_conn c" "\<And>d. wr d = Inr (length d)" "Buffer_inv b"
  shows "\<exists>c'. send_buffer nd True wr b c = Inr (retrieveAll b, c') \<and> idle_conn c' \<and> wire c' = wire c @ Buffer_content b \<and>
     inputBuffer c' = inputBuffer c \<and> tc_name c' = tc_name c"
proof -
  have r: "mem_read b (peek b) (readableBytes b) = Inr (Buffer_content b)"
    using mem_read_content [OF assms(3), of "readableBytes b"] Buffer_content_all [OF assms(3)] by (simp add: peek_def)
  obtain c' where "sendInLoop nd True wr (Buffer_content b) c = Inr c'" "idle_conn c'" "wire c' = wire c @ Buffer_content b"
    "inputBuffer c' = inputBuffer c" "tc_name c' = tc_name c"
    using sendInLoop_idle_all [of c wr nd "Buffer_content b"] assms(1,2) by auto
  then show ?thesis using r assms(1) by (auto simp: send_buffer_def idle_conn_def)
qed

lemma send_buffer_posts:
  assumes "Buffer_inv b" "tc_state c = kConnected"
  shows "send_buffer nd False wr b c = Inr (retrieveAll b, post (FSendString (Buffer_content b)) c)"
proof -
  have "mem_read b (peek b) (readableBytes b) = Inr (Buffer_content b)"
    using mem_read_content [OF assms(1), of "readableBytes b"] Buffer_content_all [OF assms(1)] by (simp add: peek_def)
  then show ?thesis using assms(2) by (simp add: send_buffer_def retrieveAllAsString_def retrieveAsString_def retrieve_def)
qed

lemma idle_sample: "idle_conn (sample_conn False [])"
  by (simp add: idle_conn_def readable_zero sample_buffer_facts)

text \<open>A message to a connection that has nothing queued and takes all of it, and then the end of the connection.\<close>

lemma send_then_shutdown_idle:
  assumes "idle_conn c" "\<And>d. wr d = Inr (length d)"
  shows "\<exists>c'. bindR (send_ptr nd True wr (\<lambda>_ _. d) p n c) (tc_shutdown True) = Inr c' \<and> wire c' = wire c @ d \<and>
     tc_state c' = kDisconnecting \<and> wrShut c'"
proof -
  obtain c1 where c1: "sendInLoop nd True wr d c = Inr c1" "idle_conn c1" "wire c1 = wire c @ d"
    using sendInLoop_idle_all [of c wr nd d] assms by blast
  let ?c2 = "(setState kDisconnecting c1)\<lparr>wrShut := True\<rparr>"
  have "bindR (send_ptr nd True wr (\<lambda>_ _. d) p n c) (tc_shutdown True) = Inr ?c2"
    using c1 assms(1) by (simp add: send_ptr_def idle_conn_def tc_shutdown_def shutdownInLoop_def setState_def)
  then show ?thesis using c1(3) by (intro exI [of _ ?c2]) (simp add: setState_def)
qed

end
