(* ===== verification/Arale_OrderedSet.thy ===== *)
theory Arale_OrderedSet
  imports Arale_Prelude "HOL-Library.Product_Lexorder"
begin

section \<open>\<open>std::set\<close>\<close>

text \<open>
  The ordered sets of the C++ library as strictly increasing lists, in iteration order.
  \<open>insert\<close> and \<open>erase\<close> return what the library returns: whether the element is new, and
  the number of elements erased. The locale \<open>std_set\<close> is the contract the clients use; it
  is interpreted on the list operations. Pairs are ordered lexicographically.
\<close>

definition set_insert :: "'a::linorder \<Rightarrow> 'a list \<Rightarrow> bool \<times> 'a list" where
  "set_insert x xs = (if x \<in> set xs then (False, xs) else (True, insort x xs))"

definition set_erase :: "'a::linorder \<Rightarrow> 'a list \<Rightarrow> nat \<times> 'a list" where
  "set_erase x xs = (if x \<in> set xs then (1, remove1 x xs) else (0, xs))"

text \<open>The elements before \<open>lower_bound(x)\<close>, and those from it on.\<close>

definition set_below :: "'a::linorder \<Rightarrow> 'a list \<Rightarrow> 'a list" where
  "set_below x xs = takeWhile (\<lambda>y. y < x) xs"

definition set_from :: "'a::linorder \<Rightarrow> 'a list \<Rightarrow> 'a list" where
  "set_from x xs = dropWhile (\<lambda>y. y < x) xs"

locale std_set =
  fixes ins :: "'a \<Rightarrow> 's \<Rightarrow> bool \<times> 's"
    and del :: "'a \<Rightarrow> 's \<Rightarrow> nat \<times> 's"
    and elems :: "'s \<Rightarrow> 'a list"
    and wf :: "'s \<Rightarrow> bool"
  assumes wf_distinct: "wf s \<Longrightarrow> distinct (elems s)"
    and ins_new: "wf s \<Longrightarrow> fst (ins x s) \<longleftrightarrow> x \<notin> set (elems s)"
    and ins_wf: "wf s \<Longrightarrow> wf (snd (ins x s))"
    and ins_elems: "wf s \<Longrightarrow> set (elems (snd (ins x s))) = insert x (set (elems s))"
    and del_count: "wf s \<Longrightarrow> fst (del x s) = (if x \<in> set (elems s) then 1 else 0)"
    and del_wf: "wf s \<Longrightarrow> wf (snd (del x s))"
    and del_elems: "wf s \<Longrightarrow> set (elems (snd (del x s))) = set (elems s) - {x}"
begin

lemma size_card: "wf s \<Longrightarrow> length (elems s) = card (set (elems s))"
  using wf_distinct by (simp add: distinct_card)

lemma ins_size: "wf s \<Longrightarrow> x \<notin> set (elems s) \<Longrightarrow> length (elems (snd (ins x s))) = Suc (length (elems s))"
  using ins_wf [of s x] ins_elems [of s x] by (simp add: size_card)

lemma del_size: "wf s \<Longrightarrow> x \<in> set (elems s) \<Longrightarrow> length (elems (snd (del x s))) = length (elems s) - 1"
  using del_wf [of s x] del_elems [of s x] by (simp add: size_card)

lemma ins_del: "wf s \<Longrightarrow> x \<notin> set (elems s) \<Longrightarrow>
    set (elems (snd (del x (snd (ins x s))))) = set (elems s)"
  using ins_wf [of s x] by (simp add: del_elems ins_elems)

end

abbreviation oset :: "'a::linorder list \<Rightarrow> bool" where
  "oset \<equiv> sorted_wrt (<)"

interpretation oset: std_set set_insert set_erase "\<lambda>s. s" oset
proof
  fix s :: "'a list" and x :: 'a
  assume s: "oset s"
  then have sd: "sorted s" "distinct s" by (simp_all add: strict_sorted_iff)
  show "distinct s" by (fact sd)
  show "fst (set_insert x s) = (x \<notin> set s)" by (simp add: set_insert_def)
  show "oset (snd (set_insert x s))"
    using s sd by (simp add: set_insert_def strict_sorted_iff sorted_insort distinct_insort)
  show "set (snd (set_insert x s)) = insert x (set s)"
    by (auto simp: set_insert_def set_insort_key)
  show "fst (set_erase x s) = (if x \<in> set s then 1 else 0)" by (simp add: set_erase_def)
  show "oset (snd (set_erase x s))"
    using s sd by (simp add: set_erase_def strict_sorted_iff sorted_remove1)
  show "set (snd (set_erase x s)) = set s - {x}"
    using sd by (auto simp: set_erase_def)
qed

lemma set_below_from [simp]: "set_below x xs @ set_from x xs = xs"
  by (simp add: set_below_def set_from_def)

lemma set_below_set:
  assumes "oset xs"
  shows "set (set_below x xs) = {y \<in> set xs. y < x}" and "set (set_from x xs) = {y \<in> set xs. x \<le> y}"
proof -
  have tw: "y \<in> set (takeWhile (\<lambda>y. y < x) xs) \<longleftrightarrow> y \<in> set xs \<and> y < x"
    and dw: "y \<in> set (dropWhile (\<lambda>y. y < x) xs) \<longleftrightarrow> y \<in> set xs \<and> x \<le> y" for y
  proof (atomize (full), use assms in \<open>induction xs\<close>)
    case (Cons a xs)
    have IH: "y \<in> set (takeWhile (\<lambda>y. y < x) xs) \<longleftrightarrow> y \<in> set xs \<and> y < x"
      "y \<in> set (dropWhile (\<lambda>y. y < x) xs) \<longleftrightarrow> y \<in> set xs \<and> x \<le> y"
      using Cons by simp_all
    show ?case
    proof (cases "a < x")
      case True
      then have "\<not> x \<le> a" by (simp only: not_le)
      with True IH show ?thesis by (simp only: takeWhile.simps dropWhile.simps if_True list.set) blast
    next
      case False
      then have "x \<le> b" "\<not> b < x" if "b \<in> set (a # xs)" for b
        using Cons.prems that by (metis not_less order.trans order.strict_implies_order set_ConsD
            sorted_wrt.simps(2))+
      with False show ?thesis by (simp only: takeWhile.simps dropWhile.simps if_False list.set) blast
    qed
  qed simp
  show "set (set_below x xs) = {y \<in> set xs. y < x}" "set (set_from x xs) = {y \<in> set xs. x \<le> y}"
    unfolding set_below_def set_from_def using tw dw by blast+
qed

lemma set_below_oset: "oset xs \<Longrightarrow> oset (set_below x xs)" "oset xs \<Longrightarrow> oset (set_from x xs)"
  using set_below_from [of x xs] by (metis sorted_wrt_append)+

lemma oset_hd_le: "oset xs \<Longrightarrow> y \<in> set xs \<Longrightarrow> hd xs \<le> y"
  by (cases xs) auto

subsection \<open>\<open>std::map\<close>\<close>

text \<open>
  A map as its list of pairs in iteration order, keys strictly increasing. \<open>omap_set\<close> is
  \<open>m[k] = v\<close>, \<open>omap_erase\<close> is \<open>m.erase(k)\<close>; \<open>map_of\<close> is \<open>find\<close>.
\<close>

fun omap_set :: "'k::linorder \<Rightarrow> 'v \<Rightarrow> ('k \<times> 'v) list \<Rightarrow> ('k \<times> 'v) list" where
  "omap_set k v [] = [(k, v)]"
| "omap_set k v ((k', v') # m) =
     (if k = k' then (k, v) # m else if k < k' then (k, v) # (k', v') # m else (k', v') # omap_set k v m)"

definition omap_erase :: "'k::linorder \<Rightarrow> ('k \<times> 'v) list \<Rightarrow> ('k \<times> 'v) list" where
  "omap_erase k m = filter (\<lambda>p. fst p \<noteq> k) m"

locale std_map =
  fixes look :: "'m \<Rightarrow> 'k \<Rightarrow> 'v option"
    and put :: "'k \<Rightarrow> 'v \<Rightarrow> 'm \<Rightarrow> 'm"
    and del :: "'k \<Rightarrow> 'm \<Rightarrow> 'm"
    and wf :: "'m \<Rightarrow> bool"
  assumes look_put: "wf m \<Longrightarrow> look (put k v m) = (look m)(k \<mapsto> v)"
    and look_del: "wf m \<Longrightarrow> look (del k m) = (look m)(k := None)"
    and put_wf: "wf m \<Longrightarrow> wf (put k v m)"
    and del_wf: "wf m \<Longrightarrow> wf (del k m)"
begin

lemma del_put: "wf m \<Longrightarrow> look m k = None \<Longrightarrow> look (del k (put k v m)) = look m"
  by (simp add: look_put look_del put_wf fun_upd_idem)

lemma dom_put: "wf m \<Longrightarrow> dom (look (put k v m)) = insert k (dom (look m))"
  by (simp add: look_put)

lemma dom_del: "wf m \<Longrightarrow> dom (look (del k m)) = dom (look m) - {k}"
  by (simp add: look_del)

end

definition omap :: "('k::linorder \<times> 'v) list \<Rightarrow> bool" where
  "omap m \<longleftrightarrow> sorted_wrt (<) (map fst m)"

lemma fst_omap_set: "fst ` set (omap_set k v m) = insert k (fst ` set m)"
  by (induction m rule: omap_set.induct) auto

lemma omap_Cons: "omap ((k, v) # m) \<longleftrightarrow> (\<forall>x \<in> fst ` set m. k < x) \<and> omap m"
  by (simp add: omap_def)

lemma omap_set_wf: "omap m \<Longrightarrow> omap (omap_set k v m)"
proof (induction k v m rule: omap_set.induct)
  case (1 k v)
  then show ?case by (simp add: omap_def)
next
  case (2 k v k' v' m)
  consider "k = k'" | "k < k'" | "k' < k" by (rule linorder_cases)
  then show ?case
  proof cases
    case 2
    then have "\<forall>x \<in> fst ` set m. k < x" using \<open>omap ((k', v') # m)\<close> unfolding omap_Cons by (blast intro: less_trans)
    then show ?thesis using 2 \<open>omap ((k', v') # m)\<close> by (simp add: omap_Cons)
  next
    case 3
    then show ?thesis using 2 by (auto simp: omap_Cons fst_omap_set)
  qed (use 2 in \<open>simp add: omap_Cons\<close>)
qed

lemma map_of_omap_set: "omap m \<Longrightarrow> map_of (omap_set k v m) = (map_of m)(k \<mapsto> v)"
  by (induction m rule: omap_set.induct) (auto simp: fun_eq_iff omap_def)

interpretation omap: std_map map_of omap_set omap_erase omap
proof
  fix m :: "('a \<times> 'b) list" and k v
  assume m: "omap m"
  show "map_of (omap_set k v m) = (map_of m)(k \<mapsto> v)" using m by (rule map_of_omap_set)
  show "map_of (omap_erase k m) = (map_of m)(k := None)" unfolding omap_erase_def
    by (induction m) (auto simp: fun_eq_iff)
  show "omap (omap_set k v m)" using m by (rule omap_set_wf)
  show "omap (omap_erase k m)" using m unfolding omap_def omap_erase_def
    by (induction m) auto
qed

end
