(* ===== verification/Arale_IdleConnection.thy ===== *)
theory Arale_IdleConnection
  imports Arale_TcpConnection Arale_Timestamp Arale_OrderedSet
begin

section \<open>Connection supervision (\<open>arale/examples/idleconnection\<close>, \<open>maxconnection\<close>)\<close>

text \<open>
  Three echo servers that close connections: a wheel of buckets (\<open>Echo.cc\<close>), a list sorted by the time of the last message
  (\<open>SortedList.cc\<close>) and a limit on their number (\<open>maxconnection/Echo.cc\<close>). A connection is a number;
  \<open>conns i\<close> is \<open>None\<close> once the object is gone. All of it runs in the loop's thread; \<open>wr i\<close> is the \<open>write\<close>
  on the socket of connection \<open>i\<close>.
\<close>

subsection \<open>The wheel of buckets (\<open>idleconnection/Echo.cc\<close>)\<close>

text \<open>
  The buckets are in a \<open>boost::circular_buffer\<close>, whose operations are arguments: \<open>push\<close> is \<open>push_back\<close>, \<open>upd_back\<close> changes the
  last element, \<open>els\<close> is its elements in order. What the program relies on is \<open>circular n\<close>: in a
  full buffer of capacity \<open>n\<close> \<open>push_back\<close> drops the first element and appends the new one.
  An \<open>Entry\<close> is a number, \<open>entry_conn\<close> its weak pointer; an entry lives as long as a bucket holds it.
\<close>

definition circular ::
  "nat \<Rightarrow> ('cb \<Rightarrow> nat list list) \<Rightarrow> (nat list \<Rightarrow> 'cb \<Rightarrow> 'cb) \<Rightarrow> ((nat list \<Rightarrow> nat list) \<Rightarrow> 'cb \<Rightarrow> 'cb) \<Rightarrow> bool" where
  "circular n els push upd_back \<longleftrightarrow>
     (\<forall>cb x. length (els cb) = n \<longrightarrow> els (push x cb) = tl (els cb) @ [x]) \<and>
     (\<forall>cb f. length (els cb) = n \<longrightarrow> els (upd_back f cb) = butlast (els cb) @ [f (last (els cb))])"

record 'cb idle_server =
  buckets :: 'cb
  conns :: "nat \<Rightarrow> TcpConnection option"
  entry_conn :: "nat \<Rightarrow> nat"
  conn_entry :: "nat \<Rightarrow> nat option"
  next_entry :: nat

definition entry_alive :: "('cb \<Rightarrow> nat list list) \<Rightarrow> nat \<Rightarrow> 'cb \<Rightarrow> bool" where
  "entry_alive els en cb \<longleftrightarrow> (\<exists>b \<in> set (els cb). en \<in> set b)"

definition on_weak :: "nat \<Rightarrow> (TcpConnection \<Rightarrow> TcpConnection result) \<Rightarrow> 'cb idle_server \<Rightarrow> 'cb idle_server result" where
  "on_weak i f s =
     (case conns s i of
        None \<Rightarrow> Inr s
      | Some c \<Rightarrow> bindR (f c) (\<lambda>c1. Inr (s\<lparr>conns := (conns s)(i \<mapsto> c1)\<rparr>)))"

definition Entry_destroy :: "nat \<Rightarrow> 'cb idle_server \<Rightarrow> 'cb idle_server result" where
  "Entry_destroy en s = on_weak (entry_conn s en) (tc_shutdown True) s"

text \<open>Inserting into an \<open>unordered_set\<close>; its order is not used.\<close>

definition bucket_insert :: "nat \<Rightarrow> nat list \<Rightarrow> nat list" where
  "bucket_insert en b = (if en \<in> set b then b else en # b)"

definition idle_onConnection ::
  "bool \<Rightarrow> ('cb \<Rightarrow> nat list list) \<Rightarrow> ((nat list \<Rightarrow> nat list) \<Rightarrow> 'cb \<Rightarrow> 'cb) \<Rightarrow> nat \<Rightarrow> 'cb idle_server \<Rightarrow> 'cb idle_server result" where
  "idle_onConnection nd els upd_back i s =
     (if map_option isConnected (conns s i) = Some True then
        if els (buckets s) = [] then Inl OutOfBounds
        else
          let en = next_entry s
          in Inr (s\<lparr>buckets := upd_back (bucket_insert en) (buckets s), entry_conn := (entry_conn s)(en := i),
                    conn_entry := (conn_entry s)(i \<mapsto> en), next_entry := en + 1\<rparr>)
      else if conn_entry s i = None then Inl (if nd then BadCast else AssertFailed)
      else Inr s)"

text \<open>The handler holds a pointer to the connection, so it is there.\<close>

definition idle_onMessage ::
  "bool \<Rightarrow> ('cb \<Rightarrow> nat list list) \<Rightarrow> ((nat list \<Rightarrow> nat list) \<Rightarrow> 'cb \<Rightarrow> 'cb) \<Rightarrow> (nat \<Rightarrow> char list \<Rightarrow> int + nat) \<Rightarrow>
   nat \<Rightarrow> Buffer \<Rightarrow> 'cb idle_server \<Rightarrow> (Buffer \<times> 'cb idle_server) result" where
  "idle_onMessage nd els upd_back wr i buf s =
     bindR (retrieveAllAsString nd buf) (\<lambda>(msg, buf1).
     bindR (on_weak i (send_string nd True (wr i) (\<lambda>_ _. msg) 0 msg) s) (\<lambda>s1.
     case conn_entry s1 i of
       None \<Rightarrow> Inl (if nd then BadCast else AssertFailed)
     | Some en \<Rightarrow>
         Inr (buf1, if entry_alive els en (buckets s1) then s1\<lparr>buckets := upd_back (bucket_insert en) (buckets s1)\<rparr> else s1)))"

text \<open>
  The timer drops the first bucket. The entries of the bucket that no other bucket holds are destroyed.
\<close>

definition idle_onTimer ::
  "('cb \<Rightarrow> nat list list) \<Rightarrow> (nat list \<Rightarrow> 'cb \<Rightarrow> 'cb) \<Rightarrow> 'cb idle_server \<Rightarrow> 'cb idle_server result" where
  "idle_onTimer els push s =
     (let cb = push [] (buckets s);
          dead = filter (\<lambda>en. \<not> entry_alive els en cb) (remdups (concat (els (buckets s))))
      in foldR Entry_destroy dead (s\<lparr>buckets := cb\<rparr>))"

text \<open>The handlers in any order, and what the library does to the connections meanwhile.\<close>

datatype idle_event = ITick | IConnection nat | IMessage nat | ILibrary

inductive idle_step ::
  "('cb \<Rightarrow> nat list list) \<Rightarrow> (nat list \<Rightarrow> 'cb \<Rightarrow> 'cb) \<Rightarrow> ((nat list \<Rightarrow> nat list) \<Rightarrow> 'cb \<Rightarrow> 'cb) \<Rightarrow>
   'cb idle_server \<Rightarrow> idle_event \<Rightarrow> 'cb idle_server \<Rightarrow> bool"
  for els :: "'cb \<Rightarrow> nat list list" and push :: "nat list \<Rightarrow> 'cb \<Rightarrow> 'cb" and upd_back :: "(nat list \<Rightarrow> nat list) \<Rightarrow> 'cb \<Rightarrow> 'cb"
where
  Tick: "idle_onTimer els push s = Inr s' \<Longrightarrow> idle_step els push upd_back s ITick s'"
| Connection: "idle_onConnection nd els upd_back i s = Inr s' \<Longrightarrow> idle_step els push upd_back s (IConnection i) s'"
| Message: "idle_onMessage nd els upd_back wr i buf s = Inr (buf', s') \<Longrightarrow> idle_step els push upd_back s (IMessage i) s'"
| Library: "idle_step els push upd_back s ILibrary (s\<lparr>conns := cs\<rparr>)"

inductive idle_run ::
  "('cb \<Rightarrow> nat list list) \<Rightarrow> (nat list \<Rightarrow> 'cb \<Rightarrow> 'cb) \<Rightarrow> ((nat list \<Rightarrow> nat list) \<Rightarrow> 'cb \<Rightarrow> 'cb) \<Rightarrow>
   'cb idle_server \<Rightarrow> idle_event list \<Rightarrow> 'cb idle_server \<Rightarrow> bool"
  for els :: "'cb \<Rightarrow> nat list list" and push :: "nat list \<Rightarrow> 'cb \<Rightarrow> 'cb" and upd_back :: "(nat list \<Rightarrow> nat list) \<Rightarrow> 'cb \<Rightarrow> 'cb"
where
  Stop: "idle_run els push upd_back s [] s"
| Go: "idle_step els push upd_back s ev s1 \<Longrightarrow> idle_run els push upd_back s1 evs s' \<Longrightarrow> idle_run els push upd_back s (ev # evs) s'"

subsubsection \<open>The age of an entry\<close>

text \<open>The number of buckets behind the last one that holds the entry.\<close>

definition aged :: "nat \<Rightarrow> nat \<Rightarrow> nat list list \<Rightarrow> bool" where
  "aged en k l \<longleftrightarrow> (\<exists>xs b ys. l = xs @ b # ys \<and> en \<in> set b \<and> (\<forall>y \<in> set ys. en \<notin> set y) \<and> length ys = k)"

lemma aged_alive: "aged en k (els cb) \<Longrightarrow> entry_alive els en cb"
  by (auto simp: aged_def entry_alive_def)

lemma aged_tick:
  assumes "aged en k l" "Suc k < length l"
  shows "aged en (Suc k) (tl l @ [[]])"
proof -
  obtain xs b ys where l: "l = xs @ b # ys" "en \<in> set b" "\<forall>y \<in> set ys. en \<notin> set y" "length ys = k"
    using assms(1) by (auto simp: aged_def)
  then have "xs \<noteq> []" using assms(2) by auto
  then have "tl l @ [[]] = tl xs @ b # (ys @ [[]])" using l(1) by simp
  moreover have "\<forall>y \<in> set (ys @ [[]]). en \<notin> set y" "length (ys @ [[]]) = Suc k" using l(3,4) by auto
  ultimately show ?thesis unfolding aged_def using l(2) by blast
qed

lemma aged_last_tick:
  assumes "aged en k l" "Suc k = length l" "b' \<in> set (tl l @ [[]])"
  shows "en \<notin> set b'"
proof -
  obtain xs b ys where l: "l = xs @ b # ys" "\<forall>y \<in> set ys. en \<notin> set y" "length ys = k"
    using assms(1) by (auto simp: aged_def)
  then have "xs = []" using assms(2) by auto
  then show ?thesis using l(1,2) assms(3) by auto
qed

lemma aged_other_insert:
  assumes "aged en k l" "en' \<noteq> en"
  shows "aged en k (butlast l @ [bucket_insert en' (last l)])"
proof -
  obtain xs b ys where l: "l = xs @ b # ys" "en \<in> set b" "\<forall>y \<in> set ys. en \<notin> set y" "length ys = k"
    using assms(1) by (auto simp: aged_def)
  show ?thesis
  proof (cases ys rule: rev_cases)
    case Nil
    then have "butlast l @ [bucket_insert en' (last l)] = xs @ bucket_insert en' b # []" using l(1) by (simp add: butlast_append)
    moreover have "en \<in> set (bucket_insert en' b)" using l(2) by (simp add: bucket_insert_def)
    ultimately show ?thesis unfolding aged_def using l(4) Nil by fastforce
  next
    case (snoc zs z)
    then have e: "butlast l @ [bucket_insert en' (last l)] = xs @ b # (zs @ [bucket_insert en' z])" using l(1) by (simp add: butlast_append)
    have "\<forall>y \<in> set (zs @ [bucket_insert en' z]). en \<notin> set y" using l(3) snoc assms(2) by (auto simp: bucket_insert_def)
    moreover have "length (zs @ [bucket_insert en' z]) = k" using l(4) snoc by simp
    ultimately show ?thesis unfolding aged_def e using l(2) by blast
  qed
qed

lemma aged_insert: "l \<noteq> [] \<Longrightarrow> aged en 0 (butlast l @ [bucket_insert en (last l)])"
  unfolding aged_def by (rule exI [of _ "butlast l"], rule exI [of _ "bucket_insert en (last l)"], rule exI [of _ "[]"])
    (simp add: bucket_insert_def)

text \<open>Every connection has its own entry, and entries not handed out yet are in no bucket.\<close>

definition idle_inv :: "nat \<Rightarrow> ('cb \<Rightarrow> nat list list) \<Rightarrow> 'cb idle_server \<Rightarrow> bool" where
  "idle_inv n els s \<longleftrightarrow> length (els (buckets s)) = n \<and>
     (\<forall>i en. conn_entry s i = Some en \<longrightarrow> en < next_entry s \<and> entry_conn s en = i)"

lemma on_weak_fields:
  "on_weak i f s = Inr s' \<Longrightarrow> buckets s' = buckets s \<and> entry_conn s' = entry_conn s \<and> conn_entry s' = conn_entry s \<and> next_entry s' = next_entry s"
  by (auto simp: on_weak_def split: option.splits)

lemma tc_shutdown_total: "\<exists>c'. tc_shutdown True c = Inr c' \<and> (tc_state c' = tc_state c \<or> tc_state c' = kDisconnecting) \<and> tc_state c' \<noteq> kConnected"
  by (simp add: tc_shutdown_def shutdownInLoop_def Let_def setState_def)

lemma Entry_destroy_total:
  "\<exists>s'. Entry_destroy en s = Inr s' \<and> buckets s' = buckets s \<and> entry_conn s' = entry_conn s \<and> conn_entry s' = conn_entry s \<and>
     next_entry s' = next_entry s \<and> (\<forall>i. i \<noteq> entry_conn s en \<longrightarrow> conns s' i = conns s i) \<and>
     (\<forall>i. (conns s' i = None) = (conns s i = None)) \<and> (\<forall>c. conns s' (entry_conn s en) = Some c \<longrightarrow> tc_state c \<noteq> kConnected)"
proof (cases "conns s (entry_conn s en)")
  case (Some c)
  then show ?thesis using tc_shutdown_total [of c] by (auto simp: Entry_destroy_def on_weak_def)
qed (simp add: Entry_destroy_def on_weak_def)

lemma destroy_all:
  "\<exists>s'. foldR Entry_destroy ens s = Inr s' \<and> buckets s' = buckets s \<and> entry_conn s' = entry_conn s \<and> conn_entry s' = conn_entry s \<and>
     next_entry s' = next_entry s \<and> (\<forall>i. i \<notin> entry_conn s ` set ens \<longrightarrow> conns s' i = conns s i) \<and>
     (\<forall>i c. i \<in> entry_conn s ` set ens \<longrightarrow> conns s' i = Some c \<longrightarrow> tc_state c \<noteq> kConnected)"
proof (induction ens arbitrary: s)
  case (Cons en ens)
  obtain s1 where s1: "Entry_destroy en s = Inr s1" "buckets s1 = buckets s" "entry_conn s1 = entry_conn s" "conn_entry s1 = conn_entry s"
    "next_entry s1 = next_entry s" "\<forall>i. i \<noteq> entry_conn s en \<longrightarrow> conns s1 i = conns s i"
    "\<forall>c. conns s1 (entry_conn s en) = Some c \<longrightarrow> tc_state c \<noteq> kConnected"
    using Entry_destroy_total [of en s] by blast
  obtain s2 where s2: "foldR Entry_destroy ens s1 = Inr s2" "buckets s2 = buckets s1" "entry_conn s2 = entry_conn s1" "conn_entry s2 = conn_entry s1"
    "next_entry s2 = next_entry s1" "\<forall>i. i \<notin> entry_conn s1 ` set ens \<longrightarrow> conns s2 i = conns s1 i"
    "\<forall>i c. i \<in> entry_conn s1 ` set ens \<longrightarrow> conns s2 i = Some c \<longrightarrow> tc_state c \<noteq> kConnected"
    using Cons.IH [of s1] by blast
  have "tc_state c \<noteq> kConnected" if "i \<in> entry_conn s ` set (en # ens)" "conns s2 i = Some c" for i c
  proof (cases "i \<in> entry_conn s ` set ens")
    case True
    then show ?thesis using that(2) s2(7) s1(3) by simp
  next
    case False
    then have "i = entry_conn s en" "conns s2 i = conns s1 i" using that(1) s2(6) s1(3) by auto
    then show ?thesis using that(2) s1(7) by simp
  qed
  moreover have "\<forall>i. i \<notin> entry_conn s ` set (en # ens) \<longrightarrow> conns s2 i = conns s i" using s1(3,6) s2(6) by simp
  ultimately show ?case using s1(1-5) s2(1-5) by (intro exI [of _ s2]) auto
qed simp

text \<open>The connections whose entry the next tick destroys.\<close>

definition expires :: "('cb \<Rightarrow> nat list list) \<Rightarrow> (nat list \<Rightarrow> 'cb \<Rightarrow> 'cb) \<Rightarrow> 'cb idle_server \<Rightarrow> nat \<Rightarrow> bool" where
  "expires els push s i \<longleftrightarrow>
     (\<exists>en. entry_alive els en (buckets s) \<and> \<not> entry_alive els en (push [] (buckets s)) \<and> entry_conn s en = i)"

lemma idle_onTimer_result:
  "\<exists>s'. idle_onTimer els push s = Inr s' \<and> buckets s' = push [] (buckets s) \<and> entry_conn s' = entry_conn s \<and> conn_entry s' = conn_entry s \<and>
     next_entry s' = next_entry s \<and> (\<forall>i. \<not> expires els push s i \<longrightarrow> conns s' i = conns s i) \<and>
     (\<forall>i c. expires els push s i \<longrightarrow> conns s' i = Some c \<longrightarrow> tc_state c \<noteq> kConnected)"
proof -
  let ?cb = "push [] (buckets s)"
  define dead where "dead = filter (\<lambda>en. \<not> entry_alive els en ?cb) (remdups (concat (els (buckets s))))"
  have "en \<in> set dead \<longleftrightarrow> entry_alive els en (buckets s) \<and> \<not> entry_alive els en ?cb" for en
    by (auto simp: dead_def entry_alive_def)
  then have dead: "i \<in> entry_conn s ` set dead \<longleftrightarrow> expires els push s i" for i
    unfolding expires_def image_iff by metis
  have "idle_onTimer els push s = foldR Entry_destroy dead (s\<lparr>buckets := ?cb\<rparr>)" by (simp add: idle_onTimer_def Let_def dead_def)
  then show ?thesis using destroy_all [of dead "s\<lparr>buckets := ?cb\<rparr>"] by (simp add: dead)
qed

lemma circularD:
  assumes "circular n els push upd_back" "length (els cb) = n"
  shows "els (push x cb) = tl (els cb) @ [x]" "els (upd_back f cb) = butlast (els cb) @ [f (last (els cb))]"
  using assms unfolding circular_def by blast+

definition ticks :: "idle_event list \<Rightarrow> nat" where
  "ticks evs = length (filter (\<lambda>ev. ev = ITick) evs)"

lemma idle_step_aged:
  assumes "circular n els push upd_back" "0 < n" "idle_step els push upd_back s ev s'" "idle_inv n els s"
    and "conn_entry s i = Some en" "aged en k (els (buckets s))" "ev \<notin> {IConnection i, IMessage i}" "k + ticks [ev] < n"
  shows "idle_inv n els s' \<and> conn_entry s' i = Some en \<and> entry_conn s' en = i \<and> aged en (k + ticks [ev]) (els (buckets s'))"
  using assms(3)
proof cases
  case Tick
  have len: "length (els (buckets s)) = n" using assms(4) by (simp add: idle_inv_def)
  obtain "buckets s' = push [] (buckets s)" "entry_conn s' = entry_conn s" "conn_entry s' = conn_entry s" "next_entry s' = next_entry s"
    using idle_onTimer_result [of els push s] Tick(2) by auto
  moreover have "els (push [] (buckets s)) = tl (els (buckets s)) @ [[]]" using circularD(1) [OF assms(1) len] .
  moreover have "aged en (Suc k) (tl (els (buckets s)) @ [[]])"
    using aged_tick [OF assms(6)] assms(8) len Tick(1) by (simp add: ticks_def)
  ultimately show ?thesis using assms(2,4,5) len Tick(1) by (auto simp: idle_inv_def ticks_def)
next
  case (Connection nd j)
  have len: "length (els (buckets s)) = n" using assms(4) by (simp add: idle_inv_def)
  have en: "en < next_entry s" "entry_conn s en = i" using assms(4,5) by (auto simp: idle_inv_def)
  have b: "els (upd_back (bucket_insert (next_entry s)) (buckets s)) =
      butlast (els (buckets s)) @ [bucket_insert (next_entry s) (last (els (buckets s)))]"
    using circularD(2) [OF assms(1) len] .
  have "aged en k (els (upd_back (bucket_insert (next_entry s)) (buckets s)))"
    unfolding b using aged_other_insert [OF assms(6)] en(1) by simp
  moreover have "length (els (upd_back (bucket_insert (next_entry s)) (buckets s))) = n" unfolding b using len assms(2) by simp
  moreover have "j \<noteq> i" using Connection(1) assms(7) by auto
  moreover have "\<And>i. conn_entry s i \<noteq> Some (next_entry s)" using assms(4) by (auto simp: idle_inv_def)
  ultimately show ?thesis using assms(4-6) Connection en
    by (auto simp: idle_onConnection_def idle_inv_def ticks_def Let_def less_SucI split: if_splits)
next
  case (Message nd wr j buf buf')
  then have ji: "j \<noteq> i" using assms(7) by auto
  obtain s1 en' where s1: "buckets s1 = buckets s" "entry_conn s1 = entry_conn s" "conn_entry s1 = conn_entry s" "next_entry s1 = next_entry s"
    "conn_entry s j = Some en'"
    "s' = (if entry_alive els en' (buckets s1) then s1\<lparr>buckets := upd_back (bucket_insert en') (buckets s1)\<rparr> else s1)"
    using Message(2) by (auto simp: idle_onMessage_def split: option.splits dest!: on_weak_fields)
  have len: "length (els (buckets s)) = n" using assms(4) by (simp add: idle_inv_def)
  have en: "en' \<noteq> en" "entry_conn s en = i" using assms(4,5) s1(5) ji by (auto simp: idle_inv_def)
  have b: "els (upd_back (bucket_insert en') (buckets s)) = butlast (els (buckets s)) @ [bucket_insert en' (last (els (buckets s)))]"
    using circularD(2) [OF assms(1) len] .
  have "aged en k (els (upd_back (bucket_insert en') (buckets s)))" unfolding b using aged_other_insert [OF assms(6) en(1)] .
  moreover have "length (els (upd_back (bucket_insert en') (buckets s))) = n" unfolding b using len assms(2) by simp
  ultimately show ?thesis using assms(4-6) s1 en Message(1) by (auto simp: idle_inv_def ticks_def)
next
  case (Library cs)
  then show ?thesis using assms(4-6) by (auto simp: idle_inv_def ticks_def)
qed

lemma idle_run_aged:
  assumes "circular n els push upd_back" "0 < n" "idle_run els push upd_back s evs s'" "idle_inv n els s"
    and "conn_entry s i = Some en" "aged en k (els (buckets s))" "IConnection i \<notin> set evs" "IMessage i \<notin> set evs" "k + ticks evs < n"
  shows "idle_inv n els s' \<and> conn_entry s' i = Some en \<and> aged en (k + ticks evs) (els (buckets s'))"
  using assms(3-9)
proof (induction arbitrary: k rule: idle_run.induct)
  case (Stop s)
  then show ?case by (simp add: ticks_def)
next
  case (Go s ev s1 evs s')
  have t: "ticks (ev # evs) = ticks [ev] + ticks evs" by (simp add: ticks_def)
  have "ev \<notin> {IConnection i, IMessage i}" "k + ticks [ev] < n" using Go.prems t by auto
  then have "idle_inv n els s1 \<and> conn_entry s1 i = Some en \<and> entry_conn s1 en = i \<and> aged en (k + ticks [ev]) (els (buckets s1))"
    using idle_step_aged [OF assms(1,2) Go.hyps(1) Go.prems(1-3)] by blast
  with Go.IH [of "k + ticks [ev]"] Go.prems(4-6) t show ?case by (simp add: add.assoc)
qed

text \<open>\<open>en\<close> is the only entry of connection \<open>i\<close> in the buckets.\<close>

definition only_entry :: "('cb \<Rightarrow> nat list list) \<Rightarrow> nat \<Rightarrow> nat \<Rightarrow> 'cb idle_server \<Rightarrow> bool" where
  "only_entry els i en s \<longleftrightarrow> (\<forall>b \<in> set (els (buckets s)). \<forall>en' \<in> set b. entry_conn s en' = i \<longrightarrow> en' = en)"

lemma only_entry_back:
  assumes "circular n els push upd_back" "0 < n" "length (els cb) = n" "b \<in> set (els (upd_back (bucket_insert x) cb))" "y \<in> set b"
  shows "y = x \<or> (\<exists>b' \<in> set (els cb). y \<in> set b')"
proof -
  have l: "els cb \<noteq> []" using assms(2,3) by auto
  have "b \<in> set (butlast (els cb)) \<or> b = bucket_insert x (last (els cb))"
    using assms(4) circularD(2) [OF assms(1,3)] by auto
  then show ?thesis using assms(5) last_in_set [OF l] in_set_butlastD [of b "els cb"]
    by (auto simp: bucket_insert_def split: if_splits)
qed

lemma idle_step_others:
  assumes "circular n els push upd_back" "0 < n" "idle_step els push upd_back s ev s'" "idle_inv n els s"
    and "conn_entry s i = Some en" "only_entry els i en s" "ev \<notin> {IConnection i, IMessage i}"
  shows "only_entry els i en s' \<and> (aged en k (els (buckets s)) \<and> k + ticks [ev] < n \<and> ev \<noteq> ILibrary \<longrightarrow> conns s' i = conns s i)"
  using assms(3)
proof cases
  case Tick
  have len: "length (els (buckets s)) = n" using assms(4) by (simp add: idle_inv_def)
  obtain t where t: "buckets s' = push [] (buckets s)" "entry_conn s' = entry_conn s" "\<forall>j. \<not> expires els push s j \<longrightarrow> conns s' j = conns s j"
    using idle_onTimer_result [of els push s] Tick(2) by auto
  have l: "els (push [] (buckets s)) = tl (els (buckets s)) @ [[]]" using circularD(1) [OF assms(1) len] .
  have "set (tl (els (buckets s))) \<subseteq> set (els (buckets s))" by (cases "els (buckets s)") auto
  then have "only_entry els i en s'" using assms(6) t l unfolding only_entry_def by auto
  moreover have "\<not> expires els push s i" if "aged en k (els (buckets s))" "k + ticks [ev] < n"
  proof
    assume "expires els push s i"
    then obtain en' where e: "entry_alive els en' (buckets s)" "\<not> entry_alive els en' (push [] (buckets s))" "entry_conn s en' = i"
      by (auto simp: expires_def)
    then have "en' = en" using assms(6) by (auto simp: only_entry_def entry_alive_def)
    moreover have "aged en (Suc k) (els (push [] (buckets s)))"
      using aged_tick [OF that(1)] that(2) len l Tick(1) by (simp add: ticks_def)
    ultimately show False using e(2) aged_alive [of en "Suc k" els "push [] (buckets s)"] by simp
  qed
  ultimately show ?thesis using t(3) by blast
next
  case (Connection nd j)
  have len: "length (els (buckets s)) = n" using assms(4) by (simp add: idle_inv_def)
  have "j \<noteq> i" using Connection(1) assms(7) by auto
  then have "only_entry els i en s'"
    using Connection(2) assms(6) only_entry_back [OF assms(1,2) len]
    by (auto simp: idle_onConnection_def only_entry_def Let_def split: if_splits) blast+
  moreover have "conns s' i = conns s i" using Connection(2) by (auto simp: idle_onConnection_def Let_def split: if_splits)
  ultimately show ?thesis by simp
next
  case (Message nd wr j buf buf')
  then have ji: "j \<noteq> i" using assms(7) by auto
  have len: "length (els (buckets s)) = n" using assms(4) by (simp add: idle_inv_def)
  obtain msg s1 en' where s1: "on_weak j (send_string nd True (wr j) (\<lambda>_ _. msg) 0 msg) s = Inr s1" "conn_entry s1 j = Some en'"
    "s' = (if entry_alive els en' (buckets s1) then s1\<lparr>buckets := upd_back (bucket_insert en') (buckets s1)\<rparr> else s1)"
    using Message(2) by (auto simp: idle_onMessage_def split: option.splits)
  note f = on_weak_fields [OF s1(1)]
  have "entry_conn s en' = j" using assms(4) s1(2) f by (auto simp: idle_inv_def)
  then have "only_entry els i en s'"
    using assms(6) s1(3) f ji only_entry_back [OF assms(1,2) len, of _ en'] by (auto simp: only_entry_def) blast+
  moreover have "conns s' i = conns s i" using s1(1,3) ji by (auto simp: on_weak_def split: option.splits)
  ultimately show ?thesis by simp
next
  case (Library cs)
  then show ?thesis using assms(6) by (simp add: only_entry_def)
qed

lemma idle_run_others:
  assumes "circular n els push upd_back" "0 < n" "idle_run els push upd_back s evs s'" "idle_inv n els s"
    and "conn_entry s i = Some en" "aged en k (els (buckets s))" "only_entry els i en s" "IConnection i \<notin> set evs" "IMessage i \<notin> set evs" "k + ticks evs < n"
  shows "only_entry els i en s'"
  using assms(3-10)
proof (induction arbitrary: k rule: idle_run.induct)
  case (Go s ev s1 evs s')
  have t: "ticks (ev # evs) = ticks [ev] + ticks evs" by (simp add: ticks_def)
  have ev: "ev \<notin> {IConnection i, IMessage i}" "k + ticks [ev] < n" using Go.prems t by auto
  have "idle_inv n els s1 \<and> conn_entry s1 i = Some en \<and> entry_conn s1 en = i \<and> aged en (k + ticks [ev]) (els (buckets s1))"
    using idle_step_aged [OF assms(1,2) Go.hyps(1) Go.prems(1-3) ev] .
  moreover have "only_entry els i en s1" using idle_step_others [OF assms(1,2) Go.hyps(1) Go.prems(1,2,4) ev(1)] by blast
  ultimately show ?case using Go.IH [of "k + ticks [ev]"] Go.prems(5-7) t by (simp add: add.assoc)
qed

subsubsection \<open>Properties of the wheel\<close>

text \<open>
  C28: a silent connection is closed by the \<open>n\<close>-th tick of the timer and not before. After its last message, or after it came up, which left it one
  entry in the last bucket, for fewer than \<open>n\<close> ticks and whatever other connections do, its entry survives, and no
  handler of the server (tick, message or connection of another) changes the connection. The \<open>n\<close>-th tick succeeds and destroys
  the entry, and the connection, if its object still exists, is then no longer connected.
\<close>

theorem idle_connection_expires:
  assumes "circular n els push upd_back" "0 < n" "idle_inv n els s" "conn_entry s i = Some en" "aged en 0 (els (buckets s))"
    and "only_entry els i en s"
    and "idle_run els push upd_back s evs s1" "IConnection i \<notin> set evs" "IMessage i \<notin> set evs" "ticks evs < n"
  shows "entry_alive els en (buckets s1) \<and>
     (\<forall>ev s2. idle_step els push upd_back s1 ev s2 \<and> ev \<notin> {IConnection i, IMessage i, ILibrary} \<and> ticks evs + ticks [ev] < n \<longrightarrow>
        conns s2 i = conns s1 i) \<and>
     (\<exists>s2. idle_onTimer els push s1 = Inr s2 \<and> (entry_alive els en (buckets s2) \<longleftrightarrow> ticks evs + 1 < n) \<and>
        (ticks evs + 1 = n \<longrightarrow> (\<forall>c. conns s2 i = Some c \<longrightarrow> tc_state c \<noteq> kConnected)))"
proof -
  let ?l = "els (buckets s1)"
  have inv: "idle_inv n els s1" "conn_entry s1 i = Some en" "aged en (ticks evs) ?l"
    using idle_run_aged [OF assms(1,2,7,3,4,5,8,9)] assms(10) by simp_all
  have only: "only_entry els i en s1"
    using idle_run_others [OF assms(1,2,7,3,4,5,6,8,9)] assms(10) by simp
  have len: "length ?l = n" and ec: "entry_conn s1 en = i" using inv(1,2) by (auto simp: idle_inv_def)
  obtain s2 where s2: "idle_onTimer els push s1 = Inr s2" "buckets s2 = push [] (buckets s1)"
    "\<forall>i c. expires els push s1 i \<longrightarrow> conns s2 i = Some c \<longrightarrow> tc_state c \<noteq> kConnected"
    using idle_onTimer_result [of els push s1] by blast
  have l2: "els (buckets s2) = tl ?l @ [[]]" using circularD(1) [OF assms(1) len] s2(2) by simp
  have alive: "entry_alive els en (buckets s1)" using aged_alive [of en "ticks evs" els] inv(3) .
  have dead: "\<not> entry_alive els en (buckets s2)" if "ticks evs + 1 = n"
    using aged_last_tick [OF inv(3)] that len l2 by (auto simp: entry_alive_def)
  have live: "entry_alive els en (buckets s2)" if "ticks evs + 1 < n"
    using aged_tick [OF inv(3)] that len l2 aged_alive [of en "Suc (ticks evs)" els "buckets s2"] by simp
  have "expires els push s1 i" if "ticks evs + 1 = n"
    using alive dead [OF that] ec s2(2) by (auto simp: expires_def)
  moreover have "entry_alive els en (buckets s2) \<longleftrightarrow> ticks evs + 1 < n" using live dead assms(10) by fastforce
  moreover have "conns s3 i = conns s1 i"
    if "idle_step els push upd_back s1 ev s3" "ev \<notin> {IConnection i, IMessage i, ILibrary}" "ticks evs + ticks [ev] < n" for ev s3
    using idle_step_others [OF assms(1,2) that(1) inv(1,2) only] that(2,3) inv(3) by blast
  ultimately show ?thesis using alive s2(1,3) by blast
qed

lemma idle_onConnection_aged:
  assumes "circular n els push upd_back" "length (els (buckets s)) = n" "conns s i = Some c" "isConnected c"
    and "idle_onConnection nd els upd_back i s = Inr s'"
  shows "conn_entry s' i = Some (next_entry s) \<and> aged (next_entry s) 0 (els (buckets s')) \<and>
     ((\<forall>b \<in> set (els (buckets s)). \<forall>en \<in> set b. entry_conn s en \<noteq> i) \<longrightarrow> only_entry els i (next_entry s) s')"
proof -
  have n: "0 < n" using assms(2,3,4,5) by (auto simp: idle_onConnection_def split: if_splits)
  have s': "buckets s' = upd_back (bucket_insert (next_entry s)) (buckets s)" "entry_conn s' = (entry_conn s)(next_entry s := i)"
    "conn_entry s' i = Some (next_entry s)" "els (buckets s) \<noteq> []"
    using assms(3-5) by (auto simp: idle_onConnection_def Let_def split: if_splits)
  then have "aged (next_entry s) 0 (els (buckets s'))"
    using circularD(2) [OF assms(1,2)] aged_insert [of "els (buckets s)" "next_entry s"] by simp
  moreover have "only_entry els i (next_entry s) s'" if "\<forall>b \<in> set (els (buckets s)). \<forall>en \<in> set b. entry_conn s en \<noteq> i"
    unfolding only_entry_def
  proof (intro ballI impI)
    fix b y
    assume b: "b \<in> set (els (buckets s'))" and y: "y \<in> set b" and e: "entry_conn s' y = i"
    have "y = next_entry s \<or> (\<exists>b' \<in> set (els (buckets s)). y \<in> set b')"
      using only_entry_back [OF assms(1) n assms(2)] b y s'(1) by simp
    then show "y = next_entry s" using that e s'(2) by (auto split: if_splits)
  qed
  ultimately show ?thesis using s'(3) by blast
qed

text \<open>A circular buffer as the list of its elements.\<close>

definition list_push :: "nat list \<Rightarrow> nat list list \<Rightarrow> nat list list" where
  "list_push x l = tl l @ [x]"

definition list_back :: "(nat list \<Rightarrow> nat list) \<Rightarrow> nat list list \<Rightarrow> nat list list" where
  "list_back f l = butlast l @ [f (last l)]"

definition sample_idle :: "nat list list \<Rightarrow> nat list list idle_server" where
  "sample_idle l = \<lparr>buckets = l, conns = [4 \<mapsto> sample_conn False []], entry_conn = (\<lambda>_. 4), conn_entry = [4 \<mapsto> 0], next_entry = 1\<rparr>"

theorem idle_connection_expires_witness:
  "entry_alive (\<lambda>l. l) 0 (buckets (sample_idle [[0], []])) \<and>
   (\<exists>s2. idle_onTimer (\<lambda>l. l) list_push (sample_idle [[0], []]) = Inr s2 \<and> \<not> entry_alive (\<lambda>l. l) 0 (buckets s2) \<and>
     (\<forall>c. conns s2 4 = Some c \<longrightarrow> tc_state c \<noteq> kConnected))"
proof -
  have 1: "circular 2 (\<lambda>l. l) list_push list_back" by (simp add: circular_def list_push_def list_back_def)
  have 2: "idle_inv 2 (\<lambda>l. l) (sample_idle [[], [0]])" by (simp add: idle_inv_def sample_idle_def)
  have 3: "aged 0 0 (buckets (sample_idle [[], [0]]))" using aged_insert [of "[[], []]" 0] by (simp add: sample_idle_def bucket_insert_def)
  have "idle_onTimer (\<lambda>l. l) list_push (sample_idle [[], [0]]) = Inr (sample_idle [[0], []])"
    by (simp add: idle_onTimer_def sample_idle_def list_push_def entry_alive_def)
  then have 4: "idle_run (\<lambda>l. l) list_push list_back (sample_idle [[], [0]]) [ITick] (sample_idle [[0], []])"
    by (rule Go [OF Tick Stop])
  have 5: "conn_entry (sample_idle [[], [0]]) 4 = Some 0" "only_entry (\<lambda>l. l) 4 0 (sample_idle [[], [0]])"
    by (simp_all add: sample_idle_def only_entry_def)
  from idle_connection_expires [OF 1 _ 2 5(1) 3 5(2) 4] show ?thesis by (auto simp: ticks_def)
qed

subsection \<open>The sorted list (\<open>SortedList.cc\<close>)\<close>

text \<open>
  \<open>sl_list\<close> is the \<open>std::list\<close> of weak pointers, each element with the number of its node, which is what an iterator points to.
  \<open>sl_node i\<close> is the context of connection \<open>i\<close>: the time of its last message and its iterator. Every call of
  \<open>Timestamp::now\<close> is an argument; \<open>rnd\<close> is the rounding to \<open>double\<close>.
\<close>

record sorted_server =
  sl_conns :: "nat \<Rightarrow> TcpConnection option"
  sl_list :: "(nat \<times> nat) list"
  sl_node :: "nat \<Rightarrow> (Timestamp \<times> nat) option"
  sl_next :: nat

definition sl_on_conn :: "nat \<Rightarrow> (TcpConnection \<Rightarrow> TcpConnection result) \<Rightarrow> sorted_server \<Rightarrow> sorted_server result" where
  "sl_on_conn i f s =
     (case sl_conns s i of None \<Rightarrow> Inl NullDeref | Some c \<Rightarrow> bindR (f c) (\<lambda>c1. Inr (s\<lparr>sl_conns := (sl_conns s)(i \<mapsto> c1)\<rparr>)))"

text \<open>\<open>splice(end, list, pos)\<close> and \<open>erase(pos)\<close>: an iterator to no element is not allowed.\<close>

definition list_splice_end :: "nat \<Rightarrow> (nat \<times> nat) list \<Rightarrow> (nat \<times> nat) list result" where
  "list_splice_end pos l =
     (if pos \<in> fst ` set l then Inr (filter (\<lambda>x. fst x \<noteq> pos) l @ filter (\<lambda>x. fst x = pos) l) else Inl NullDeref)"

definition list_erase :: "nat \<Rightarrow> (nat \<times> nat) list \<Rightarrow> (nat \<times> nat) list result" where
  "list_erase pos l = (if pos \<in> fst ` set l then Inr (filter (\<lambda>x. fst x \<noteq> pos) l) else Inl NullDeref)"

definition sl_onMessage ::
  "bool \<Rightarrow> (nat \<Rightarrow> char list \<Rightarrow> int + nat) \<Rightarrow> Timestamp \<Rightarrow> nat \<Rightarrow> Buffer \<Rightarrow> sorted_server \<Rightarrow> (Buffer \<times> sorted_server) result" where
  "sl_onMessage nd wr now i buf s =
     bindR (retrieveAllAsString nd buf) (\<lambda>(msg, buf1).
     bindR (sl_on_conn i (send_string nd True (wr i) (\<lambda>_ _. msg) 0 msg) s) (\<lambda>s1.
     case sl_node s1 i of
       None \<Rightarrow> Inl (if nd then NullDeref else AssertFailed)
     | Some (t, pos) \<Rightarrow>
         bindR (list_splice_end pos (sl_list s1)) (\<lambda>l.
         cassert nd (fst (last l) = pos)
           (Inr (buf1, s1\<lparr>sl_node := (sl_node s1)(i \<mapsto> (now, pos)), sl_list := l\<rparr>)))))"

definition sl_onConnection :: "bool \<Rightarrow> Timestamp \<Rightarrow> nat \<Rightarrow> sorted_server \<Rightarrow> sorted_server result" where
  "sl_onConnection nd now i s =
     (if map_option isConnected (sl_conns s i) = Some True then
        let pos = sl_next s
        in Inr (s\<lparr>sl_list := sl_list s @ [(pos, i)], sl_node := (sl_node s)(i \<mapsto> (now, pos)), sl_next := pos + 1\<rparr>)
      else
        (case sl_node s i of
           None \<Rightarrow> Inl (if nd then BadCast else AssertFailed)
         | Some (t, pos) \<Rightarrow> bindR (list_erase pos (sl_list s)) (\<lambda>l. Inr (s\<lparr>sl_list := l\<rparr>))))"

text \<open>
  The loop of \<open>onTimer\<close> from the element at the head of \<open>l\<close>; the result is what is left of \<open>l\<close>. \<open>now i\<close> and \<open>now2 i\<close> are the readings of
  the clock while it is at connection \<open>i\<close>.
\<close>

definition sl_expire :: "TcpConnection \<Rightarrow> TcpConnection result" where
  "sl_expire c = (if isConnected c then bindR (tc_shutdown True c) (\<lambda>c1. Inr (forceCloseWithDelay (7 / 2) c1)) else Inr c)"

fun sl_timer ::
  "bool \<Rightarrow> (rat \<Rightarrow> rat) \<Rightarrow> (nat \<Rightarrow> Timestamp) \<Rightarrow> (nat \<Rightarrow> Timestamp) \<Rightarrow> int \<Rightarrow> (nat \<times> nat) list \<Rightarrow> sorted_server \<Rightarrow> ((nat \<times> nat) list \<times> sorted_server) result" where
  "sl_timer nd rnd now now2 idleSeconds [] s = Inr ([], s)"
| "sl_timer nd rnd now now2 idleSeconds ((pos, i) # l) s =
     (case sl_conns s i of
        None \<Rightarrow> sl_timer nd rnd now now2 idleSeconds l s
      | Some c \<Rightarrow>
          (case sl_node s i of
             None \<Rightarrow> Inl (if nd then NullDeref else AssertFailed)
           | Some (t, p) \<Rightarrow>
               let age = timeDifference rnd (now i) t in
               if of_int idleSeconds < age then
                 bindR (sl_on_conn i sl_expire s) (\<lambda>s1.
                 bindR (sl_timer nd rnd now now2 idleSeconds l s1) (\<lambda>(l1, s2). Inr ((pos, i) # l1, s2)))
               else if age < 0 then
                 bindR (sl_timer nd rnd now now2 idleSeconds l (s\<lparr>sl_node := (sl_node s)(i \<mapsto> (now2 i, p))\<rparr>)) (\<lambda>(l1, s2). Inr ((pos, i) # l1, s2))
               else Inr ((pos, i) # l, s)))"

definition sl_onTimer ::
  "bool \<Rightarrow> (rat \<Rightarrow> rat) \<Rightarrow> (nat \<Rightarrow> Timestamp) \<Rightarrow> (nat \<Rightarrow> Timestamp) \<Rightarrow> int \<Rightarrow> sorted_server \<Rightarrow> sorted_server result" where
  "sl_onTimer nd rnd now now2 idleSeconds s =
     bindR (sl_timer nd rnd now now2 idleSeconds (sl_list s) s) (\<lambda>(l, s1). Inr (s1\<lparr>sl_list := l\<rparr>))"

text \<open>What \<open>dumpConnectionList\<close> prints; \<open>ptr i\<close> is the address of connection \<open>i\<close> as \<open>%p\<close> shows it.\<close>

fun sl_dump :: "(nat \<Rightarrow> string) \<Rightarrow> (nat \<times> nat) list \<Rightarrow> sorted_server \<Rightarrow> string result" where
  "sl_dump ptr [] s = Inr []"
| "sl_dump ptr ((pos, i) # l) s =
     bindR (case sl_conns s i of
              Some c \<Rightarrow>
                (case sl_node s i of
                   None \<Rightarrow> Inl BadCast
                 | Some (t, p) \<Rightarrow> Inr (''conn '' @ ptr i @ [CHR 0x0A] @ ''    time '' @ Timestamp_toString t @ [CHR 0x0A]))
            | None \<Rightarrow> Inr (''expired'' @ [CHR 0x0A])) (\<lambda>x.
     bindR (sl_dump ptr l s) (\<lambda>y. Inr (x @ y)))"

text \<open>Every connection in the list has its node, so that the cast of its context never fails.\<close>

definition sl_nodes :: "(nat \<times> nat) list \<Rightarrow> sorted_server \<Rightarrow> bool" where
  "sl_nodes l s \<longleftrightarrow> snd ` set l \<subseteq> dom (sl_node s)"

lemma sl_nodes_Cons: "sl_nodes ((pos, i) # l) s \<longleftrightarrow> sl_node s i \<noteq> None \<and> sl_nodes l s"
  by (auto simp: sl_nodes_def)

lemma sl_nodes_mono: "sl_nodes l s \<Longrightarrow> set l' \<subseteq> set l \<Longrightarrow> dom (sl_node s) \<subseteq> dom (sl_node s') \<Longrightarrow> sl_nodes l' s'"
  unfolding sl_nodes_def by (meson image_mono order_trans)

lemma sl_nodes_snoc: "sl_nodes (l @ [(pos, i)]) s \<longleftrightarrow> sl_nodes l s \<and> sl_node s i \<noteq> None"
  by (auto simp: sl_nodes_def)

lemma sl_dump_total: "sl_nodes l s \<Longrightarrow> \<exists>t. sl_dump ptr l s = Inr t"
  by (induction ptr l s rule: sl_dump.induct) (auto simp: sl_nodes_Cons split: option.split)

lemma sl_on_conn_node: "sl_on_conn i f s = Inr s' \<Longrightarrow> sl_node s' = sl_node s \<and> sl_list s' = sl_list s"
  by (auto simp: sl_on_conn_def split: option.splits)

lemma sl_nodes_handlers:
  "sl_nodes (sl_list s) s \<Longrightarrow> sl_onConnection nd now i s = Inr s' \<Longrightarrow> sl_nodes (sl_list s') s'"
  "sl_nodes (sl_list s) s \<Longrightarrow> sl_onMessage nd wr now i buf s = Inr (buf', s') \<Longrightarrow> sl_nodes (sl_list s') s'"
proof -
  show "sl_nodes (sl_list s') s'" if n: "sl_nodes (sl_list s) s" and c: "sl_onConnection nd now i s = Inr s'"
  proof (cases "map_option isConnected (sl_conns s i) = Some True")
    case True
    then have "sl_list s' = sl_list s @ [(sl_next s, i)]" "sl_node s' = (sl_node s)(i \<mapsto> (now, sl_next s))"
      using c by (auto simp: sl_onConnection_def Let_def)
    then show ?thesis using sl_nodes_mono [OF n order_refl, of s'] by (auto simp: sl_nodes_snoc)
  next
    case False
    then obtain pos where "sl_list s' = filter (\<lambda>x. fst x \<noteq> pos) (sl_list s)" "sl_node s' = sl_node s"
      using c by (auto simp: sl_onConnection_def list_erase_def split: if_splits option.splits)
    then show ?thesis using sl_nodes_mono [OF n, of "sl_list s'" s'] by auto
  qed
  assume n: "sl_nodes (sl_list s) s" and m: "sl_onMessage nd wr now i buf s = Inr (buf', s')"
  then obtain s1 f where s1: "sl_on_conn i f s = Inr s1" "set (sl_list s') \<subseteq> set (sl_list s1)" "dom (sl_node s1) \<subseteq> dom (sl_node s')"
    by (fastforce simp: sl_onMessage_def list_splice_end_def cassert_Inr_iff split: option.splits if_splits)
  with sl_on_conn_node [OF s1(1)] sl_nodes_mono [OF n] show "sl_nodes (sl_list s') s'" by auto
qed

lemma sl_timer_nodes:
  "sl_nodes l s \<Longrightarrow> sl_timer nd rnd now now2 n l s = Inr (l', s') \<Longrightarrow> set l' \<subseteq> set l \<and> dom (sl_node s) \<subseteq> dom (sl_node s')"
proof (induction l arbitrary: s l' s')
  case (Cons x l)
  obtain pos i where x: "x = (pos, i)" by (cases x)
  note prems = Cons.prems [unfolded x]
  show ?case
  proof (cases "sl_conns s i")
    case None
    then show ?thesis using Cons.IH [of s l' s'] prems x by (auto simp: sl_nodes_Cons)
  next
    case (Some c)
    then obtain t p where t: "sl_node s i = Some (t, p)" using prems(1) by (auto simp: sl_nodes_Cons)
    have "(\<exists>s1 l1. sl_timer nd rnd now now2 n l s1 = Inr (l1, s') \<and> l' = x # l1 \<and> dom (sl_node s) \<subseteq> dom (sl_node s1)) \<or> l' = x # l \<and> s' = s"
      using prems(2) Some t by (fastforce simp: x Let_def dest: sl_on_conn_node split: if_splits)
    then show ?thesis
    proof
      assume "\<exists>s1 l1. sl_timer nd rnd now now2 n l s1 = Inr (l1, s') \<and> l' = x # l1 \<and> dom (sl_node s) \<subseteq> dom (sl_node s1)"
      then obtain s1 l1 where s1: "sl_timer nd rnd now now2 n l s1 = Inr (l1, s')" "l' = x # l1" "dom (sl_node s) \<subseteq> dom (sl_node s1)" by blast
      have "sl_nodes l s1" using prems(1) s1(3) sl_nodes_mono [of l s l s1] by (simp add: sl_nodes_Cons)
      from Cons.IH [OF this s1(1)] have "set l1 \<subseteq> set l" "dom (sl_node s) \<subseteq> dom (sl_node s')" using order_trans [OF s1(3)] by blast+
      then show ?thesis using s1(2) by (simp add: subset_insertI2)
    qed simp
  qed
qed simp

lemma sl_onTimer_nodes:
  assumes "sl_nodes (sl_list s) s" "sl_onTimer nd rnd now now2 n s = Inr s'"
  shows "sl_nodes (sl_list s') s'"
proof -
  obtain l s1 where "sl_timer nd rnd now now2 n (sl_list s) s = Inr (l, s1)" "s' = s1\<lparr>sl_list := l\<rparr>"
    using assms(2) by (auto simp: sl_onTimer_def)
  with sl_timer_nodes [OF assms(1) this(1)] sl_nodes_mono [OF assms(1), of l s1] show ?thesis by (simp add: sl_nodes_def)
qed

subsection \<open>The limit (\<open>maxconnection/Echo.cc\<close>)\<close>

record max_server =
  numConnection :: int
  maxConnections :: int

definition max_onConnection :: "TcpConnection \<Rightarrow> max_server \<Rightarrow> (TcpConnection \<times> max_server) result" where
  "max_onConnection c s =
     (if isConnected c then
        let s1 = s\<lparr>numConnection := numConnection s + 1\<rparr>
        in if maxConnections s1 < numConnection s1
           then bindR (tc_shutdown True c) (\<lambda>c1. Inr (forceCloseWithDelay 3 c1, s1))
           else Inr (c, s1)
      else Inr (c, s\<lparr>numConnection := numConnection s - 1\<rparr>))"

definition max_onMessage ::
  "bool \<Rightarrow> (char list \<Rightarrow> int + nat) \<Rightarrow> Buffer \<Rightarrow> TcpConnection \<Rightarrow> (Buffer \<times> TcpConnection) result" where
  "max_onMessage nd wr buf c =
     bindR (retrieveAllAsString nd buf) (\<lambda>(msg, buf1).
     bindR (send_string nd True wr (\<lambda>_ _. msg) 0 msg c) (\<lambda>c1. Inr (buf1, c1)))"

subsection \<open>Properties of the list and of the limit\<close>

definition last_time :: "sorted_server \<Rightarrow> nat \<Rightarrow> Timestamp" where
  "last_time s i = fst (the (sl_node s i))"

lemma timeDifference_mono:
  assumes "mono rnd" "microSecondsSinceEpoch t \<le> microSecondsSinceEpoch t'"
  shows "timeDifference rnd n t' \<le> timeDifference rnd n t"
  using assms unfolding timeDifference_def Let_def
  by (intro monoD [OF assms(1)] divide_right_mono) (simp_all add: kMicroSecondsPerSecond_def)

lemma timeDifference_nonneg:
  assumes "mono rnd" "rnd 0 = 0" "microSecondsSinceEpoch t \<le> microSecondsSinceEpoch n"
  shows "0 \<le> timeDifference rnd n t"
proof -
  have "timeDifference rnd n n \<le> timeDifference rnd n t" using timeDifference_mono [OF assms(1,3)] .
  then show ?thesis using assms(2) by (simp add: timeDifference_def)
qed

lemma sl_expire_total: "\<exists>c'. sl_expire c = Inr c'"
  using tc_shutdown_total [of c] by (auto simp: sl_expire_def)

lemma not_idle_after:
  assumes "mono rnd" "sorted (map (\<lambda>x. microSecondsSinceEpoch (last_time s (snd x))) (x # l))"
    and "\<not> of_int idleSeconds < timeDifference rnd n (last_time s (snd x))" "j \<in> snd ` set (x # l)"
  shows "\<not> of_int idleSeconds < timeDifference rnd n (last_time s j)"
proof -
  have "microSecondsSinceEpoch (last_time s (snd x)) \<le> microSecondsSinceEpoch (last_time s j)" using assms(2,4) by auto
  from timeDifference_mono [OF assms(1) this, of n] assms(3) show ?thesis by linarith
qed

text \<open>
  C29: the sorted list finds exactly the idle connections. When the list is ordered by the time of the last message, as the
  handlers keep it while the clock does not go back, the timer's loop, which stops at the first connection that is not idle,
  shuts down every connection of the list idle for more than \<open>idleSeconds\<close> and changes no other.
\<close>

theorem sl_timer_finds_all_idle:
  assumes "mono rnd" "rnd 0 = 0" "distinct (map snd l)" "\<And>i. i \<in> snd ` set l \<Longrightarrow> sl_node s i \<noteq> None"
    and "sorted (map (\<lambda>x. microSecondsSinceEpoch (last_time s (snd x))) l)"
    and "\<And>i. i \<in> snd ` set l \<Longrightarrow> microSecondsSinceEpoch (last_time s i) \<le> microSecondsSinceEpoch n"
  shows "\<exists>l' s'. sl_timer nd rnd (\<lambda>_. n) now2 idleSeconds l s = Inr (l', s') \<and>
     (\<forall>i. sl_conns s' i =
        (if i \<in> snd ` set l \<and> of_int idleSeconds < timeDifference rnd n (last_time s i)
         then map_option (\<lambda>c. projr (sl_expire c)) (sl_conns s i) else sl_conns s i))"
  using assms(3-6)
proof (induction l arbitrary: s)
  case Nil
  then show ?case by simp
next
  case (Cons x l)
  obtain pos i where x: "x = (pos, i)" by (cases x)
  obtain t p where node: "sl_node s i = Some (t, p)" using Cons.prems(2) [of i] x by auto
  have t: "last_time s i = t" by (simp add: last_time_def node)
  have i: "i \<notin> snd ` set l" using Cons.prems(1) x by auto
  have nonneg: "0 \<le> timeDifference rnd n t"
    using timeDifference_nonneg [OF assms(1,2), of t n] Cons.prems(4) [of i] x t by simp
  have IH: "\<exists>l' s'. sl_timer nd rnd (\<lambda>_. n) now2 idleSeconds l s1 = Inr (l', s') \<and>
     (\<forall>i. sl_conns s' i =
        (if i \<in> snd ` set l \<and> of_int idleSeconds < timeDifference rnd n (last_time s i)
         then map_option (\<lambda>c. projr (sl_expire c)) (sl_conns s1 i) else sl_conns s1 i))"
    if "sl_node s1 = sl_node s" for s1
    using Cons.IH [of s1] Cons.prems that by (auto simp: last_time_def)
  show ?case
  proof (cases "sl_conns s i")
    case None
    from IH [of s] obtain l' s' where "sl_timer nd rnd (\<lambda>_. n) now2 idleSeconds l s = Inr (l', s')"
      "\<forall>i. sl_conns s' i = (if i \<in> snd ` set l \<and> of_int idleSeconds < timeDifference rnd n (last_time s i)
         then map_option (\<lambda>c. projr (sl_expire c)) (sl_conns s i) else sl_conns s i)" by blast
    with None show ?thesis by (intro exI [of _ l'] exI [of _ s']) (auto simp: x)
  next
    case (Some c)
    show ?thesis
    proof (cases "of_int idleSeconds < timeDifference rnd n t")
      case True
      obtain c' where c': "sl_expire c = Inr c'" using sl_expire_total by blast
      let ?s1 = "s\<lparr>sl_conns := (sl_conns s)(i \<mapsto> c')\<rparr>"
      obtain l' s' where r: "sl_timer nd rnd (\<lambda>_. n) now2 idleSeconds l ?s1 = Inr (l', s')"
        "\<forall>j. sl_conns s' j = (if j \<in> snd ` set l \<and> of_int idleSeconds < timeDifference rnd n (last_time s j)
           then map_option (\<lambda>c. projr (sl_expire c)) (sl_conns ?s1 j) else sl_conns ?s1 j)"
        using IH [of ?s1] by auto
      have "sl_timer nd rnd (\<lambda>_. n) now2 idleSeconds (x # l) s = Inr ((pos, i) # l', s')"
        using r(1) True Some node c' by (simp add: x sl_on_conn_def Let_def)
      with r(2) i t True Some c' show ?thesis by (intro exI [of _ "(pos, i) # l'"] exI [of _ s']) (auto simp: x)
    next
      case False
      then have "\<forall>j. j \<in> snd ` set (x # l) \<longrightarrow> \<not> of_int idleSeconds < timeDifference rnd n (last_time s j)"
        using not_idle_after [OF assms(1) Cons.prems(3), of idleSeconds n] t x by simp
      moreover have "sl_timer nd rnd (\<lambda>_. n) now2 idleSeconds (x # l) s = Inr (x # l, s)"
        using False Some node nonneg by (simp add: x Let_def)
      ultimately show ?thesis by (intro exI [of _ "x # l"] exI [of _ s]) auto
    qed
  qed
qed

definition sample_sorted :: sorted_server where
  "sample_sorted = \<lparr>sl_conns = [4 \<mapsto> sample_conn False [], 5 \<mapsto> sample_conn False []], sl_list = [(0, 4), (1, 5)],
     sl_node = [4 \<mapsto> (\<lparr>microSecondsSinceEpoch = 0\<rparr>, 0), 5 \<mapsto> (\<lparr>microSecondsSinceEpoch = 9000000\<rparr>, 1)], sl_next = 2\<rparr>"

theorem sl_timer_finds_all_idle_witness:
  "\<exists>l' s'. sl_timer False (\<lambda>x. x) (\<lambda>_. \<lparr>microSecondsSinceEpoch = 11000000\<rparr>) (\<lambda>_. \<lparr>microSecondsSinceEpoch = 11000000\<rparr>) 10
       (sl_list sample_sorted) sample_sorted = Inr (l', s') \<and>
     sl_conns s' 4 = Some (projr (sl_expire (sample_conn False []))) \<and> sl_conns s' 5 = Some (sample_conn False [])"
proof -
  let ?n = "\<lparr>microSecondsSinceEpoch = 11000000\<rparr> :: Timestamp"
  have m: "mono (\<lambda>x :: rat. x)" by (simp add: mono_def)
  have 1: "distinct (map snd (sl_list sample_sorted))"
    "\<And>i. i \<in> snd ` set (sl_list sample_sorted) \<Longrightarrow> sl_node sample_sorted i \<noteq> None"
    "sorted (map (\<lambda>x. microSecondsSinceEpoch (last_time sample_sorted (snd x))) (sl_list sample_sorted))"
    "\<And>i. i \<in> snd ` set (sl_list sample_sorted) \<Longrightarrow> microSecondsSinceEpoch (last_time sample_sorted i) \<le> microSecondsSinceEpoch ?n"
    by (auto simp: sample_sorted_def last_time_def)
  obtain l' s' where r: "sl_timer False (\<lambda>x. x) (\<lambda>_. ?n) (\<lambda>_. ?n) 10 (sl_list sample_sorted) sample_sorted = Inr (l', s')"
    "\<forall>i. sl_conns s' i = (if i \<in> snd ` set (sl_list sample_sorted) \<and> of_int 10 < timeDifference (\<lambda>x. x) ?n (last_time sample_sorted i)
         then map_option (\<lambda>c. projr (sl_expire c)) (sl_conns sample_sorted i) else sl_conns sample_sorted i)"
    using sl_timer_finds_all_idle [OF m _ 1, of False "\<lambda>_. ?n" 10] by blast
  have "sl_conns s' 4 = Some (projr (sl_expire (sample_conn False [])))" "sl_conns s' 5 = Some (sample_conn False [])"
    using r(2) [rule_format, of 4] r(2) [rule_format, of 5]
    by (simp_all add: sample_sorted_def last_time_def timeDifference_def kMicroSecondsPerSecond_def)
  with r(1) show ?thesis by blast
qed

text \<open>The limit: a connection that comes up above it is shut down and given three seconds, one below it is left alone.\<close>

lemma max_onConnection_limit:
  assumes "isConnected c"
  shows "\<exists>c' s'. max_onConnection c s = Inr (c', s') \<and> numConnection s' = numConnection s + 1 \<and>
     (if numConnection s < maxConnections s then c' = c
      else tc_state c' = kDisconnecting \<and> delayed c' = delayed c @ [3])"
  using assms
  by (auto simp: max_onConnection_def Let_def isConnected_def tc_shutdown_def shutdownInLoop_def forceCloseWithDelay_def setState_def)

end
