(* ===== verification/Arale_Connector.thy ===== *)
theory Arale_Connector
  imports Arale_Sockets
begin

section \<open>The connector (\<open>arale/net/Connector.*\<close>)\<close>

text \<open>
  A connector opens a socket, waits until it is writable, and hands it to its client; after a
  failure it tries again with a growing delay. Its outside is kept in its state:
  \<open>openFds\<close> are the sockets it has opened and neither closed nor handed over, \<open>handed\<close> those
  handed over, \<open>timers_set\<close> the delays in milliseconds of the retries scheduled and not yet due, \<open>resets\<close>
  the number of posted \<open>resetChannel\<close> functors, \<open>warnings\<close> the lines logged. Results of system calls are arguments.
\<close>

datatype connector_state = ckDisconnected | ckConnecting | ckConnected

record Connector =
  serverAddr :: sockaddr
  connectChannel :: "Channel option"
  cn_state :: connector_state
  connected :: bool
  retryDelayMs :: int
  openFds :: "int list"
  handed :: "int list"
  timers_set :: "int list"
  resets :: nat
  warnings :: "string list"

definition kMaxRetryDelayMs :: int where "kMaxRetryDelayMs = 30 * 1000"
definition kInitRetryDelayMs :: int where "kInitRetryDelayMs = 500"

definition Connector_new :: "sockaddr \<Rightarrow> Connector" where
  "Connector_new addr =
     \<lparr>serverAddr = addr, connectChannel = None, cn_state = ckDisconnected, connected = False,
      retryDelayMs = kInitRetryDelayMs, openFds = [], handed = [], timers_set = [], resets = 0, warnings = []\<rparr>"

definition cn_setState :: "connector_state \<Rightarrow> Connector \<Rightarrow> Connector" where
  "cn_setState s c = c\<lparr>cn_state := s\<rparr>"

definition cn_close :: "int \<Rightarrow> Connector \<Rightarrow> Connector" where
  "cn_close fd c = c\<lparr>openFds := remove1 fd (openFds c)\<rparr>"

definition warn :: "string \<Rightarrow> Connector \<Rightarrow> Connector" where
  "warn s c = c\<lparr>warnings := warnings c @ [s]\<rparr>"

text \<open>\<open>retryDelayMs_ * 2\<close> is computed in \<open>int\<close>.\<close>

definition retry :: "int \<Rightarrow> Connector \<Rightarrow> Connector" where
  "retry sockfd c =
     (let c1 = cn_setState ckDisconnected (cn_close sockfd c)
      in if connected c1 then
           c1\<lparr>timers_set := timers_set c1 @ [retryDelayMs c1],
              retryDelayMs := min (cast_int32 (retryDelayMs c1 * 2)) kMaxRetryDelayMs\<rparr>
         else c1)"

definition connecting :: "bool \<Rightarrow> bool \<Rightarrow> int \<Rightarrow> Connector \<Rightarrow> Connector result" where
  "connecting nd il sockfd c =
     assertInLoopThread il (cassert nd (connected c) (cassert nd (connectChannel c = None)
       (Inr ((cn_setState ckConnecting c)
          \<lparr>connectChannel := Some (Channel_interest EnableWrite (setErrorCallback (setWriteCallback (Channel_new sockfd))))\<rparr>))))"

text \<open>\<open>sock\<close> is what \<open>socket\<close> returned, \<open>savedError\<close> zero or the \<open>errno\<close> of \<open>connect\<close>.\<close>

definition cn_connect :: "bool \<Rightarrow> bool \<Rightarrow> int \<Rightarrow> int \<Rightarrow> Connector \<Rightarrow> Connector result" where
  "cn_connect nd il sock savedError c =
     bindR (createNonblockingOrDie sock) (\<lambda>fd.
     let c1 = c\<lparr>openFds := fd # openFds c\<rparr>
     in if savedError \<in> {0, EINPROGRESS, EINTR, EISCONN} then connecting nd il fd c1
        else if savedError \<in> {EAGAIN, EADDRINUSE, EADDRNOTAVAIL, ECONNREFUSED, ENETUNREACH} then Inr (retry fd c1)
        else if savedError \<in> {EACCES, EPERM, EAFNOSUPPORT, EALREADY, EBADF, EFAULT, ENOTSOCK} then
          Inr (cn_close fd (warn (''connect error in Connector::startInLoop '' @ sdec savedError) c1))
        else Inr (cn_close fd (warn (''Unexpected error in Connector::startInLoop '' @ sdec savedError) c1)))"

definition startInLoop :: "bool \<Rightarrow> bool \<Rightarrow> int \<Rightarrow> int \<Rightarrow> Connector \<Rightarrow> Connector result" where
  "startInLoop nd il sock savedError c =
     assertInLoopThread il (cassert nd (cn_state c = ckDisconnected)
       (if connected c then cn_connect nd il sock savedError c else Inr c))"

text \<open>\<open>start\<close> in the loop's thread; from another thread the second part is a functor.\<close>

definition cn_start :: "bool \<Rightarrow> bool \<Rightarrow> int \<Rightarrow> int \<Rightarrow> Connector \<Rightarrow> Connector result" where
  "cn_start nd il sock savedError c =
     (let c1 = c\<lparr>connected := True\<rparr> in if il then startInLoop nd il sock savedError c1 else Inr c1)"

definition removeAndResetChannel :: "Connector \<Rightarrow> (int \<times> Connector) result" where
  "removeAndResetChannel c =
     (case connectChannel c of
        None \<Rightarrow> Inl NullDeref
      | Some ch \<Rightarrow>
          let ch1 = Channel_unloop (Channel_interest DisableAll ch)
          in Inr (ch_fd ch1, c\<lparr>connectChannel := Some ch1, resets := resets c + 1\<rparr>))"

definition resetChannel :: "bool \<Rightarrow> Connector \<Rightarrow> Connector result" where
  "resetChannel nd c =
     (case connectChannel c of
        None \<Rightarrow> Inr (c\<lparr>resets := resets c - 1\<rparr>)
      | Some ch \<Rightarrow> bindR (Channel_destroy nd ch) (\<lambda>_. Inr (c\<lparr>connectChannel := None, resets := resets c - 1\<rparr>)))"

definition cn_handleWrite :: "bool \<Rightarrow> int \<Rightarrow> bool \<Rightarrow> (int \<Rightarrow> string) \<Rightarrow> Connector \<Rightarrow> Connector result" where
  "cn_handleWrite nd err self strerror c =
     (if cn_state c = ckConnecting then
        bindR (removeAndResetChannel c) (\<lambda>(sockfd, c1).
        if err \<noteq> 0 then
          Inr (retry sockfd (warn (''Connector::handleWrite - SO_ERROR = '' @ sdec err @ '' '' @ strerror err) c1))
        else if self then Inr (retry sockfd (warn ''Connector::handleWrite - Self connect'' c1))
        else if connected c1 then
          Inr ((cn_setState ckConnected c1)\<lparr>openFds := remove1 sockfd (openFds c1), handed := handed c1 @ [sockfd]\<rparr>)
        else Inr (cn_setState ckDisconnected (cn_close sockfd c1)))
      else cassert nd (cn_state c = ckDisconnected) (Inr c))"

definition cn_handleError :: "Connector \<Rightarrow> Connector result" where
  "cn_handleError c =
     (let c0 = warn ''Connector::handleError'' c
      in if cn_state c0 = ckConnecting then
           bindR (removeAndResetChannel c0) (\<lambda>(sockfd, c1). Inr (retry sockfd c1))
         else Inr c0)"

definition stopInLoop :: "bool \<Rightarrow> Connector \<Rightarrow> Connector result" where
  "stopInLoop il c =
     assertInLoopThread il
       (if cn_state c = ckConnecting then
          bindR (removeAndResetChannel (cn_setState ckDisconnected c)) (\<lambda>(sockfd, c1). Inr (retry sockfd c1))
        else Inr c)"

definition cn_stop :: "bool \<Rightarrow> Connector \<Rightarrow> Connector result" where
  "cn_stop il c = (let c1 = c\<lparr>connected := False\<rparr> in if il then stopInLoop il c1 else Inr c1)"

definition restart :: "bool \<Rightarrow> bool \<Rightarrow> int \<Rightarrow> int \<Rightarrow> Connector \<Rightarrow> Connector result" where
  "restart nd il sock savedError c =
     assertInLoopThread il
       (startInLoop nd il sock savedError
          (c\<lparr>connected := True, cn_state := ckDisconnected, retryDelayMs := kInitRetryDelayMs\<rparr>))"

subsection \<open>The connector in its loop\<close>

text \<open>
  The events a connector meets after \<open>start\<close>: a retry timer is due, its socket became writable (with the pending
  error and the outcome of the self-connect test) or reports an error, the loop runs a posted
  \<open>resetChannel\<close>, the client stops it. The loop runs posted functors before it polls again,
  so that no timer fires while one is pending; the error callback may be followed by the write callback in
  the same dispatch.
\<close>

datatype cn_event = EvTimer int int | EvWritable int bool | EvError | EvReset | EvStop

fun cn_enabled :: "cn_event \<Rightarrow> Connector \<Rightarrow> bool" where
  "cn_enabled (EvTimer sock err) c \<longleftrightarrow> timers_set c \<noteq> [] \<and> resets c = 0 \<and> 0 \<le> sock"
| "cn_enabled (EvWritable err self) c \<longleftrightarrow> cn_state c \<noteq> ckConnected"
| "cn_enabled EvError c \<longleftrightarrow> cn_state c = ckConnecting"
| "cn_enabled EvReset c \<longleftrightarrow> 0 < resets c"
| "cn_enabled EvStop c \<longleftrightarrow> True"

fun cn_step :: "bool \<Rightarrow> (int \<Rightarrow> string) \<Rightarrow> cn_event \<Rightarrow> Connector \<Rightarrow> Connector result" where
  "cn_step nd strerror (EvTimer sock err) c = startInLoop nd True sock err (c\<lparr>timers_set := tl (timers_set c)\<rparr>)"
| "cn_step nd strerror (EvWritable err self) c = cn_handleWrite nd err self strerror c"
| "cn_step nd strerror EvError c = cn_handleError c"
| "cn_step nd strerror EvReset c = resetChannel nd c"
| "cn_step nd strerror EvStop c = cn_stop True c"

inductive cn_reach :: "(int \<Rightarrow> string) \<Rightarrow> Connector \<Rightarrow> bool" for strerror where
  started: "0 \<le> sock \<Longrightarrow> cn_start False True sock err (Connector_new addr) = Inr c \<Longrightarrow> cn_reach strerror c"
| stepped: "cn_reach strerror c \<Longrightarrow> cn_enabled e c \<Longrightarrow> cn_step False strerror e c = Inr c' \<Longrightarrow> cn_reach strerror c'"

definition delays_ok :: "Connector \<Rightarrow> bool" where
  "delays_ok c \<longleftrightarrow> 500 \<le> retryDelayMs c \<and> retryDelayMs c \<le> 30000 \<and> (\<forall>d \<in> set (timers_set c). 500 \<le> d \<and> d \<le> 30000)"

definition idle_channel :: "Connector \<Rightarrow> bool" where
  "idle_channel c \<longleftrightarrow> (connectChannel c = None \<and> resets c = 0) \<or>
     (resets c = 1 \<and> (\<exists>ch. connectChannel c = Some ch \<and> \<not> isInLoop ch \<and> \<not> isHandlingEvent ch))"

definition cn_inv :: "Connector \<Rightarrow> bool" where
  "cn_inv c \<longleftrightarrow> delays_ok c \<and> length (timers_set c) \<le> 1 \<and>
     (case cn_state c of
        ckConnecting \<Rightarrow> timers_set c = [] \<and> resets c = 0 \<and>
          (\<exists>ch. connectChannel c = Some ch \<and> isInLoop ch \<and> \<not> isHandlingEvent ch \<and> openFds c = [ch_fd ch])
      | ckConnected \<Rightarrow> timers_set c = [] \<and> openFds c = [] \<and> idle_channel c
      | ckDisconnected \<Rightarrow> openFds c = [] \<and> idle_channel c)"

lemma retry_delay_step: "500 \<le> d \<Longrightarrow> d \<le> 30000 \<Longrightarrow> min (cast_int32 (d * 2)) kMaxRetryDelayMs = min (d * 2) 30000"
  by (simp add: kMaxRetryDelayMs_def int32_range_def)

lemma retry_inv:
  assumes "delays_ok c" "timers_set c = []" "openFds c = [fd]" "idle_channel c"
  shows "cn_inv (retry fd c)"
proof -
  have "500 \<le> retryDelayMs c" "retryDelayMs c \<le> 30000" using assms(1) by (simp_all add: delays_ok_def)
  with retry_delay_step [OF this] assms show ?thesis
    by (auto simp: retry_def Let_def cn_setState_def cn_close_def cn_inv_def delays_ok_def idle_channel_def)
qed

lemma remove_ready:
  assumes "cn_inv c" "cn_state c = ckConnecting"
  shows "\<exists>fd c1. removeAndResetChannel c = Inr (fd, c1) \<and> delays_ok c1 \<and> timers_set c1 = [] \<and>
     openFds c1 = [fd] \<and> idle_channel c1 \<and> connected c1 = connected c \<and> cn_state c1 = ckConnecting"
  using assms
  by (auto simp: cn_inv_def removeAndResetChannel_def Let_def delays_ok_def idle_channel_def
      Channel_unloop_def Channel_interest_def)

lemma remove_ready_stopped:
  assumes "cn_inv c" "cn_state c = ckConnecting"
  shows "\<exists>fd c1. removeAndResetChannel (cn_setState ckDisconnected c) = Inr (fd, c1) \<and> delays_ok c1 \<and> timers_set c1 = [] \<and>
     openFds c1 = [fd] \<and> idle_channel c1"
  using assms
  by (auto simp: cn_inv_def removeAndResetChannel_def Let_def delays_ok_def idle_channel_def
      Channel_unloop_def Channel_interest_def cn_setState_def)

lemma warn_fields [simp]:
  "delays_ok (warn s c) = delays_ok c" "timers_set (warn s c) = timers_set c" "openFds (warn s c) = openFds c"
  "idle_channel (warn s c) = idle_channel c" "cn_inv (warn s c) = cn_inv c" "cn_state (warn s c) = cn_state c"
  by (simp_all add: warn_def delays_ok_def idle_channel_def cn_inv_def split: connector_state.split)

lemma connect_inv:
  assumes "delays_ok c" "timers_set c = []" "openFds c = []" "connectChannel c = None" "resets c = 0"
    and "cn_state c = ckDisconnected" "connected c" "0 \<le> sock"
  shows "\<exists>c'. cn_connect nd True sock err c = Inr c' \<and> cn_inv c'"
proof -
  let ?c = "c\<lparr>openFds := sock # openFds c\<rparr>"
  have r: "cn_inv (retry sock ?c)"
    by (rule retry_inv) (use assms in \<open>simp_all add: delays_ok_def idle_channel_def\<close>)
  have k: "\<exists>c'. connecting nd True sock ?c = Inr c' \<and> cn_inv c'"
    using assms by (auto simp: connecting_def cn_setState_def cn_inv_def delays_ok_def Channel_interest_def
        setErrorCallback_def setWriteCallback_def Channel_new_def)
  have x: "cn_inv (cn_close sock (warn s ?c))" for s
    using assms by (auto simp: cn_close_def warn_def cn_inv_def delays_ok_def idle_channel_def)
  show ?thesis using assms(8) r k x by (simp add: cn_connect_def createNonblockingOrDie_def Let_def)
qed

lemma startInLoop_inv:
  assumes "delays_ok c" "timers_set c = []" "openFds c = []" "connectChannel c = None" "resets c = 0"
    and "cn_state c = ckDisconnected" "0 \<le> sock"
  shows "\<exists>c'. startInLoop nd True sock err c = Inr c' \<and> cn_inv c'"
proof (cases "connected c")
  case True
  with connect_inv [OF assms(1-6) True assms(7), of nd err] assms(6) show ?thesis by (simp add: startInLoop_def)
next
  case False
  with assms show ?thesis by (auto simp: startInLoop_def cn_inv_def idle_channel_def)
qed

lemma handleWrite_inv:
  assumes "cn_inv c" "cn_state c \<noteq> ckConnected"
  shows "\<exists>c'. cn_handleWrite nd err self strerror c = Inr c' \<and> cn_inv c'"
proof (cases "cn_state c = ckConnecting")
  case True
  obtain fd c1 where c1: "removeAndResetChannel c = Inr (fd, c1)" "delays_ok c1" "timers_set c1 = []"
    "openFds c1 = [fd]" "idle_channel c1"
    using remove_ready [OF assms(1) True] by blast
  have "cn_inv (retry fd (warn s c1))" for s by (rule retry_inv) (simp_all add: c1)
  moreover have "cn_inv ((cn_setState ckConnected c1)\<lparr>openFds := remove1 fd (openFds c1), handed := handed c1 @ [fd]\<rparr>)"
    "cn_inv (cn_setState ckDisconnected (cn_close fd c1))"
    using c1 by (simp_all add: cn_inv_def cn_setState_def cn_close_def delays_ok_def idle_channel_def)
  ultimately show ?thesis using True c1(1) by (simp add: cn_handleWrite_def)
next
  case False
  with assms(2) have "cn_state c = ckDisconnected" by (cases "cn_state c") simp_all
  with assms(1) show ?thesis by (simp add: cn_handleWrite_def)
qed

lemma handleError_inv:
  assumes "cn_inv c" "cn_state c = ckConnecting"
  shows "\<exists>c'. cn_handleError c = Inr c' \<and> cn_inv c'"
proof -
  have "cn_inv (warn ''Connector::handleError'' c)" "cn_state (warn ''Connector::handleError'' c) = ckConnecting"
    using assms by simp_all
  from remove_ready [OF this] obtain fd c1 where
    "removeAndResetChannel (warn ''Connector::handleError'' c) = Inr (fd, c1)" "delays_ok c1" "timers_set c1 = []"
    "openFds c1 = [fd]" "idle_channel c1" by blast
  with assms(2) retry_inv [of c1 fd] show ?thesis by (simp add: cn_handleError_def Let_def)
qed

lemma stop_inv:
  assumes "cn_inv c"
  shows "\<exists>c'. cn_stop True c = Inr c' \<and> cn_inv c'"
proof -
  have i: "cn_inv (c\<lparr>connected := False\<rparr>)"
    using assms by (simp add: cn_inv_def delays_ok_def idle_channel_def split: connector_state.splits)
  show ?thesis
  proof (cases "cn_state c = ckConnecting")
    case True
    then have "cn_state (c\<lparr>connected := False\<rparr>) = ckConnecting" by simp
    from remove_ready_stopped [OF i this] obtain fd c1 where
      "removeAndResetChannel (cn_setState ckDisconnected (c\<lparr>connected := False\<rparr>)) = Inr (fd, c1)"
      "delays_ok c1" "timers_set c1 = []" "openFds c1 = [fd]" "idle_channel c1" by blast
    with True retry_inv [of c1 fd] show ?thesis by (simp add: cn_stop_def stopInLoop_def)
  next
    case False
    with i show ?thesis by (simp add: cn_stop_def stopInLoop_def)
  qed
qed

lemma reset_inv:
  assumes "cn_inv c" "0 < resets c"
  shows "\<exists>c'. resetChannel nd c = Inr c' \<and> cn_inv c'"
proof -
  have s: "cn_state c \<noteq> ckConnecting" using assms by (auto simp: cn_inv_def)
  then have "idle_channel c" using assms(1) by (auto simp: cn_inv_def split: connector_state.splits)
  with assms(2) obtain ch where ch: "connectChannel c = Some ch" "\<not> isInLoop ch" "\<not> isHandlingEvent ch" "resets c = 1"
    by (auto simp: idle_channel_def)
  with s assms(1) show ?thesis
    by (cases "cn_state c") (auto simp: resetChannel_def Channel_destroy_def cn_inv_def delays_ok_def idle_channel_def)
qed

lemma timer_inv:
  assumes "cn_inv c" "timers_set c \<noteq> []" "resets c = 0" "0 \<le> sock"
  shows "\<exists>c'. startInLoop nd True sock err (c\<lparr>timers_set := tl (timers_set c)\<rparr>) = Inr c' \<and> cn_inv c'"
proof -
  have "tl (timers_set c) = []" using assms(1,2) by (cases "timers_set c") (auto simp: cn_inv_def)
  moreover have "cn_state c = ckDisconnected" using assms(1,2) by (cases "cn_state c") (auto simp: cn_inv_def)
  ultimately show ?thesis using assms
    by (intro startInLoop_inv) (auto simp: cn_inv_def delays_ok_def idle_channel_def)
qed

lemma cn_step_inv:
  assumes "cn_inv c" "cn_enabled e c"
  shows "\<exists>c'. cn_step nd strerror e c = Inr c' \<and> cn_inv c'"
  using assms by (cases e) (simp_all add: timer_inv handleWrite_inv handleError_inv reset_inv stop_inv)

lemma cn_reach_inv: "cn_reach strerror c \<Longrightarrow> cn_inv c"
proof (induction rule: cn_reach.induct)
  case (started sock err addr c)
  have "\<exists>c'. startInLoop False True sock err ((Connector_new addr)\<lparr>connected := True\<rparr>) = Inr c' \<and> cn_inv c'"
    by (rule startInLoop_inv) (use started(1) in \<open>simp_all add: Connector_new_def delays_ok_def kInitRetryDelayMs_def\<close>)
  with started show ?case by (auto simp: cn_start_def)
next
  case (stepped c e c')
  with cn_step_inv [of c e False strerror] show ?case by auto
qed


lemma connector_started_sample:
  "cn_reach (\<lambda>_. []) (retry 7 ((Connector_new bzero6)\<lparr>connected := True, openFds := [7]\<rparr>))"
proof (rule started)
  show "cn_start False True 7 ECONNREFUSED (Connector_new bzero6) =
      Inr (retry 7 ((Connector_new bzero6)\<lparr>connected := True, openFds := [7]\<rparr>))"
    by (simp add: cn_start_def startInLoop_def cn_connect_def createNonblockingOrDie_def Connector_new_def
        ECONNREFUSED_def EINPROGRESS_def EINTR_def EISCONN_def)
qed simp


text \<open>
  The delay between attempts doubles from half a second and stays at thirty seconds: the \<open>i\<close>-th of any number
  of failed attempts is followed by a delay of \<open>500 * 2^i\<close> milliseconds, or thirty seconds if that is less.
\<close>

theorem retry_backoff:
  assumes "connected c" "retryDelayMs c = kInitRetryDelayMs"
  shows "timers_set (((\<lambda>c. retry (f c) c) ^^ k) c) = timers_set c @ map (\<lambda>i. min (500 * 2 ^ i) 30000) [0..<k]"
proof -
  have "timers_set (((\<lambda>c. retry (f c) c) ^^ k) c) = timers_set c @ map (\<lambda>i. min (500 * 2 ^ i) 30000) [0..<k] \<and>
      retryDelayMs (((\<lambda>c. retry (f c) c) ^^ k) c) = min (500 * 2 ^ k) 30000 \<and> connected (((\<lambda>c. retry (f c) c) ^^ k) c)"
  proof (induction k)
    case 0
    then show ?case using assms by (simp add: kInitRetryDelayMs_def)
  next
    case (Suc k)
    let ?d = "min (500 * 2 ^ k) 30000 :: int"
    have "1 \<le> (2 :: int) ^ k" by simp
    then have "500 \<le> ?d" "?d \<le> 30000" by auto
    note retry_delay_step [OF this]
    moreover have "min (?d * 2) 30000 = min (500 * 2 ^ Suc k) 30000" by (simp add: min_def)
    ultimately show ?case using Suc by (simp add: retry_def Let_def cn_setState_def cn_close_def)
  qed
  then show ?thesis by blast
qed

theorem retry_backoff_witness:
  "timers_set (((\<lambda>c. retry 3 c) ^^ 8) ((Connector_new bzero6)\<lparr>connected := True\<rparr>)) =
     [500, 1000, 2000, 4000, 8000, 16000, 30000, 30000]"
  using retry_backoff [of "(Connector_new bzero6)\<lparr>connected := True\<rparr>" 8 "\<lambda>_. 3"]
  by (simp add: Connector_new_def upt_conv_Cons)

text \<open>
  The client that stops a connector and starts it again before the loop has run the
  posted \<open>resetChannel\<close> fails the assertion on the channel.
\<close>

theorem stop_then_start_asserts:
  assumes "cn_inv c" "cn_state c = ckConnecting" "0 \<le> sock" "cn_stop True c = Inr c1"
  shows "cn_start False True sock 0 c1 = Inl AssertFailed"
proof -
  obtain ch where ch: "connectChannel c = Some ch" using assms(1,2) by (auto simp: cn_inv_def)
  then have "\<exists>ch'. connectChannel c1 = Some ch' \<and> cn_state c1 = ckDisconnected"
    using assms(2,4) by (auto simp: cn_stop_def stopInLoop_def removeAndResetChannel_def cn_setState_def retry_def cn_close_def Let_def
        split: if_splits)
  with assms(3) show ?thesis
    by (auto simp: cn_start_def startInLoop_def cn_connect_def createNonblockingOrDie_def connecting_def cassert_def)
qed

end
