(* ===== verification/Arale_TimerQueue.thy ===== *)
theory Arale_TimerQueue
  imports Arale_OrderedSet Arale_Timestamp Arale_StringPiece
begin

section \<open>Timers (\<open>arale/net/Timer.*\<close>, \<open>TimerID.h\<close>, \<open>TimerQueue.*\<close>)\<close>

text \<open>
  Timers live on a heap, a map from addresses to \<open>Timer\<close> objects. The queue keeps two sets
  of pointers: \<open>timers\<close>, ordered by expiration and address, and \<open>activeTimers\<close>, ordered by
  address and sequence number. A callback is the list of what it does, in order; it runs in the loop's thread: it adds and
  cancels timers, and \<open>DoT e\<close> stands for anything else, which is recorded in \<open>tq_effects\<close>. The arguments of the operations:
  \<open>nd\<close> (is \<open>NDEBUG\<close> defined), \<open>il\<close> (is the caller in the loop's thread), \<open>alloc\<close> (the
  address \<open>new\<close> returns for a heap, if any), \<open>rnd\<close> (floating point rounding) and \<open>clk\<close> (the clock
  when the timer descriptor is armed). \<open>cancelTimerInLoop\<close> reads a set node after erasing
  it, which is undefined behaviour; \<open>freed\<close> says what that read gives for the pointer the
  node held: \<open>Inr\<close> where the allocator has left the node as it was.
\<close>

datatype action = AddT "action list" Timestamp rat | CancelT nat int | DoT nat

record Timer =
  timerCallback :: "action list"
  expiration :: Timestamp
  interval :: rat
  tm_sequence :: int

record TimerID =
  tid_timer :: nat
  tid_sequence :: int

type_synonym Entry = "int \<times> nat"
type_synonym ActiveTimerEntry = "nat \<times> int"

record TimerQueue =
  heap :: "nat \<rightharpoonup> Timer"
  counter :: "64 word"
  timers :: "Entry list"
  activeTimers :: "ActiveTimerEntry list"
  isHandlingTimeout :: bool
  cancelledTimers :: "ActiveTimerEntry list"
  armed :: "(int \<times> int) option"
  tq_effects :: "nat list"

definition UINTPTR_MAX :: nat where
  "UINTPTR_MAX = 2 ^ 64 - 1"

subsection \<open>One timer\<close>

definition Timer_new ::
  "action list \<Rightarrow> Timestamp \<Rightarrow> rat \<Rightarrow> 64 word \<Rightarrow> Timer \<times> 64 word" where
  "Timer_new cb e i cnt =
     (let (v, cnt') = incrementAndGet cnt in
      (\<lparr>timerCallback = cb, expiration = e, interval = i, tm_sequence = sint v\<rparr>, cnt'))"

definition isRepeated :: "Timer \<Rightarrow> bool" where
  "isRepeated t \<longleftrightarrow> interval t > 0"

definition Timer_reset :: "(rat \<Rightarrow> rat) \<Rightarrow> Timestamp \<Rightarrow> Timer \<Rightarrow> Timer" where
  "Timer_reset rnd time t =
     (if interval t > 0 then t\<lparr>expiration := addTime rnd time (interval t)\<rparr>
      else t\<lparr>expiration := Timestamp_invalid\<rparr>)"

definition deref :: "nat \<Rightarrow> TimerQueue \<Rightarrow> Timer result" where
  "deref p q = (case heap q p of None \<Rightarrow> Inl NullDeref | Some t \<Rightarrow> Inr t)"

definition Timer_delete :: "nat \<Rightarrow> TimerQueue \<Rightarrow> TimerQueue result" where
  "Timer_delete p q = bindR (deref p q) (\<lambda>_. Inr (q\<lparr>heap := (heap q)(p := None)\<rparr>))"

subsection \<open>The timer descriptor\<close>

text \<open>The pair of \<open>tv_sec\<close> and \<open>tv_nsec\<close>.\<close>

definition howMuchTimeFromNow :: "Timestamp \<Rightarrow> Timestamp \<Rightarrow> int \<times> int" where
  "howMuchTimeFromNow now when =
     (let us0 = microSecondsSinceEpoch when - microSecondsSinceEpoch now;
          us = (if us0 < 100 then 100 else us0)
      in (tdiv us kMicroSecondsPerSecond, tmod us kMicroSecondsPerSecond * 1000))"

text \<open>\<open>armed\<close> is the last value given to \<open>timerfd_settime\<close>; a failure is only logged.\<close>

definition resetTimerfd :: "Timestamp \<Rightarrow> Timestamp \<Rightarrow> TimerQueue \<Rightarrow> TimerQueue" where
  "resetTimerfd clk when q = q\<lparr>armed := Some (howMuchTimeFromNow clk when)\<rparr>"

subsection \<open>Adding and cancelling\<close>

definition sizes_agree :: "TimerQueue \<Rightarrow> bool" where
  "sizes_agree q \<longleftrightarrow> length (timers q) = length (activeTimers q)"

definition loop_assert :: "bool \<Rightarrow> 'a result \<Rightarrow> 'a result" where
  "loop_assert il k = (if il then k else Inl Fatal)"

definition TimerQueue_insert :: "bool \<Rightarrow> bool \<Rightarrow> nat \<Rightarrow> TimerQueue \<Rightarrow> (bool \<times> TimerQueue) result" where
  "TimerQueue_insert nd il p q =
     cassert nd (sizes_agree q) (loop_assert il
       (bindR (deref p q) (\<lambda>t.
        let when = microSecondsSinceEpoch (expiration t);
            needResetTimerfd = (timers q = [] \<or> when < fst (hd (timers q)));
            (ok1, ts) = set_insert (when, p) (timers q);
            (ok2, as) = set_insert (p, tm_sequence t) (activeTimers q);
            q' = q\<lparr>timers := ts, activeTimers := as\<rparr>
        in cassert nd ok1 (cassert nd ok2 (cassert nd (sizes_agree q') (Inr (needResetTimerfd, q')))))))"

definition addTimerInLoop ::
  "bool \<Rightarrow> bool \<Rightarrow> Timestamp \<Rightarrow> nat \<Rightarrow> TimerQueue \<Rightarrow> TimerQueue result" where
  "addTimerInLoop nd il clk p q =
     loop_assert il
       (bindR (TimerQueue_insert nd il p q) (\<lambda>(earliestChanged, q1).
        if earliestChanged then bindR (deref p q1) (\<lambda>t. Inr (resetTimerfd clk (expiration t) q1))
        else Inr q1))"

definition cancelTimerInLoop ::
  "bool \<Rightarrow> bool \<Rightarrow> (nat \<Rightarrow> nat result) \<Rightarrow> TimerID \<Rightarrow> TimerQueue \<Rightarrow> TimerQueue result" where
  "cancelTimerInLoop nd il freed timer q =
     loop_assert il (cassert nd (sizes_agree q)
       (let canceledTimer = (tid_timer timer, tid_sequence timer) in
        bindR
          (if canceledTimer \<in> set (activeTimers q) then
             bindR (deref (fst canceledTimer) q) (\<lambda>t.
             let (num, ts) = set_erase (microSecondsSinceEpoch (expiration t), tid_timer timer) (timers q);
                 (num', as) = set_erase canceledTimer (activeTimers q)
             in cassert nd (num = 1) (cassert nd (num' = 1)
                  (bindR (freed (fst canceledTimer)) (\<lambda>p.
                   Timer_delete p (q\<lparr>timers := ts, activeTimers := as\<rparr>)))))
           else if isHandlingTimeout q then
             let (new, cs) = set_insert canceledTimer (cancelledTimers q) in
             cassert nd new (Inr (q\<lparr>cancelledTimers := cs\<rparr>))
           else Inr q)
          (\<lambda>q'. cassert nd (sizes_agree q') (Inr q'))))"

text \<open>
  What \<open>runInLoop\<close> does with the bound function: run it at once in the loop's thread,
  queue it otherwise.
\<close>

datatype tq_functor = FAddTimer nat | FCancelTimer TimerID

definition addTimer ::
  "bool \<Rightarrow> bool \<Rightarrow> ((nat \<rightharpoonup> Timer) \<Rightarrow> nat option) \<Rightarrow> Timestamp \<Rightarrow> action list \<Rightarrow> Timestamp \<Rightarrow> rat \<Rightarrow> TimerQueue \<Rightarrow>
   (TimerID \<times> tq_functor list \<times> TimerQueue) result" where
  "addTimer nd il alloc clk cb when i q =
     (case alloc (heap q) of
        None \<Rightarrow> Inl BadAlloc
      | Some p \<Rightarrow>
          (let (t, cnt) = Timer_new cb when i (counter q);
               q1 = q\<lparr>heap := (heap q)(p \<mapsto> t), counter := cnt\<rparr>;
               ident = \<lparr>tid_timer = p, tid_sequence = tm_sequence t\<rparr>
           in if il then bindR (addTimerInLoop nd il clk p q1) (\<lambda>q2. Inr (ident, [], q2))
              else Inr (ident, [FAddTimer p], q1)))"

definition cancelTimer ::
  "bool \<Rightarrow> bool \<Rightarrow> (nat \<Rightarrow> nat result) \<Rightarrow> TimerID \<Rightarrow> TimerQueue \<Rightarrow> (tq_functor list \<times> TimerQueue) result" where
  "cancelTimer nd il freed timer q =
     (if il then bindR (cancelTimerInLoop nd il freed timer q) (\<lambda>q'. Inr ([], q'))
      else Inr ([FCancelTimer timer], q))"

subsection \<open>Expiry\<close>

fun erase_active :: "bool \<Rightarrow> Entry list \<Rightarrow> TimerQueue \<Rightarrow> TimerQueue result" where
  "erase_active nd [] q = Inr q"
| "erase_active nd ((w, p) # es) q =
     bindR (deref p q) (\<lambda>t.
     let (num, as) = set_erase (p, tm_sequence t) (activeTimers q) in
     cassert nd (num = 1) (erase_active nd es (q\<lparr>activeTimers := as\<rparr>)))"

definition getExpiredTimers ::
  "bool \<Rightarrow> Timestamp \<Rightarrow> TimerQueue \<Rightarrow> (Entry list \<times> TimerQueue) result" where
  "getExpiredTimers nd now q =
     cassert nd (sizes_agree q)
       (let sentry = (microSecondsSinceEpoch now, UINTPTR_MAX);
            expiredTimers = set_below sentry (timers q);
            q1 = q\<lparr>timers := set_from sentry (timers q)\<rparr>
        in bindR (erase_active nd expiredTimers q1) (\<lambda>q2.
           cassert nd (sizes_agree q2) (Inr (expiredTimers, q2))))"

fun run_action ::
  "bool \<Rightarrow> ((nat \<rightharpoonup> Timer) \<Rightarrow> nat option) \<Rightarrow> (nat \<Rightarrow> nat result) \<Rightarrow> Timestamp \<Rightarrow> action \<Rightarrow> TimerQueue \<Rightarrow>
   TimerQueue result" where
  "run_action nd alloc freed clk (AddT cb when i) q =
     bindR (addTimer nd True alloc clk cb when i q) (\<lambda>(_, _, q'). Inr q')"
| "run_action nd alloc freed clk (CancelT p sq) q =
     bindR (cancelTimer nd True freed \<lparr>tid_timer = p, tid_sequence = sq\<rparr> q) (\<lambda>(_, q'). Inr q')"
| "run_action nd alloc freed clk (DoT e) q = Inr (q\<lparr>tq_effects := tq_effects q @ [e]\<rparr>)"

fun run_actions ::
  "bool \<Rightarrow> ((nat \<rightharpoonup> Timer) \<Rightarrow> nat option) \<Rightarrow> (nat \<Rightarrow> nat result) \<Rightarrow> Timestamp \<Rightarrow> action list \<Rightarrow> TimerQueue \<Rightarrow>
   TimerQueue result" where
  "run_actions nd alloc freed clk [] q = Inr q"
| "run_actions nd alloc freed clk (a # as) q =
     bindR (run_action nd alloc freed clk a q) (run_actions nd alloc freed clk as)"

definition Timer_run ::
  "bool \<Rightarrow> ((nat \<rightharpoonup> Timer) \<Rightarrow> nat option) \<Rightarrow> (nat \<Rightarrow> nat result) \<Rightarrow> Timestamp \<Rightarrow> nat \<Rightarrow> TimerQueue \<Rightarrow>
   TimerQueue result" where
  "Timer_run nd alloc freed clk p q =
     bindR (deref p q) (\<lambda>t. run_actions nd alloc freed clk (timerCallback t) q)"

fun run_timers ::
  "bool \<Rightarrow> ((nat \<rightharpoonup> Timer) \<Rightarrow> nat option) \<Rightarrow> (nat \<Rightarrow> nat result) \<Rightarrow> Timestamp \<Rightarrow> Entry list \<Rightarrow> TimerQueue \<Rightarrow>
   TimerQueue result" where
  "run_timers nd alloc freed clk [] q = Inr q"
| "run_timers nd alloc freed clk ((w, p) # es) q =
     bindR (Timer_run nd alloc freed clk p q) (run_timers nd alloc freed clk es)"

fun reset_loop ::
  "bool \<Rightarrow> (rat \<Rightarrow> rat) \<Rightarrow> Timestamp \<Rightarrow> Entry list \<Rightarrow> TimerQueue \<Rightarrow> TimerQueue result" where
  "reset_loop nd rnd now [] q = Inr q"
| "reset_loop nd rnd now ((w, p) # es) q =
     bindR (deref p q) (\<lambda>t.
     bindR
       (if isRepeated t \<and> (p, tm_sequence t) \<notin> set (cancelledTimers q) then
          bindR (TimerQueue_insert nd True p (q\<lparr>heap := (heap q)(p \<mapsto> Timer_reset rnd now t)\<rparr>))
            (\<lambda>(_, q'). Inr q')
        else Timer_delete p q)
       (reset_loop nd rnd now es))"

definition resetTimers ::
  "bool \<Rightarrow> (rat \<Rightarrow> rat) \<Rightarrow> Timestamp \<Rightarrow> Entry list \<Rightarrow> Timestamp \<Rightarrow> TimerQueue \<Rightarrow> TimerQueue result" where
  "resetTimers nd rnd clk es now q =
     cassert nd (sizes_agree q)
       (bindR (reset_loop nd rnd now es q) (\<lambda>q1.
        bindR
          (if timers q1 \<noteq> [] then
             bindR (deref (snd (hd (timers q1))) q1) (\<lambda>t.
             Inr (if Timestamp_valid (expiration t) then resetTimerfd clk (expiration t) q1 else q1))
           else Inr q1)
          (\<lambda>q2. cassert nd (sizes_agree q2) (Inr q2))))"

definition handleTimeout ::
  "bool \<Rightarrow> bool \<Rightarrow> ((nat \<rightharpoonup> Timer) \<Rightarrow> nat option) \<Rightarrow> (nat \<Rightarrow> nat result) \<Rightarrow> (rat \<Rightarrow> rat) \<Rightarrow> Timestamp \<Rightarrow> Timestamp \<Rightarrow>
   TimerQueue \<Rightarrow> TimerQueue result" where
  "handleTimeout nd il alloc freed rnd now clk q =
     loop_assert il (cassert nd (sizes_agree q)
       (bindR (getExpiredTimers nd now q) (\<lambda>(es, q1).
        bindR (run_timers nd alloc freed clk es (q1\<lparr>isHandlingTimeout := True, cancelledTimers := []\<rparr>))
          (\<lambda>q2.
        bindR (resetTimers nd rnd clk es now (q2\<lparr>isHandlingTimeout := False\<rparr>)) (\<lambda>q3.
        cassert nd (sizes_agree q3) (Inr q3))))))"

text \<open>The constructor; \<open>isHandlingTimeout_\<close> is not initialised.\<close>

definition TimerQueue_new :: "bool \<Rightarrow> TimerQueue" where
  "TimerQueue_new garbage =
     \<lparr>heap = Map.empty, counter = 0, timers = [], activeTimers = [], isHandlingTimeout = garbage,
      cancelledTimers = [], armed = None, tq_effects = []\<rparr>"

subsection \<open>The invariant\<close>

text \<open>
  \<open>tq_inv es q\<close>: the queue while the expired entries \<open>es\<close> are being handled (empty
  otherwise). Both sets are ordered; every entry, queued or expired, points to a live
  timer and carries its expiration; no timer has two entries; and \<open>activeTimers\<close> holds
  exactly the queued timers with their sequence numbers.
\<close>

definition tq_wf ::
  "(nat \<rightharpoonup> Timer) \<Rightarrow> Entry list \<Rightarrow> ActiveTimerEntry list \<Rightarrow> ActiveTimerEntry list \<Rightarrow> Entry list \<Rightarrow> bool" where
  "tq_wf h ts as cs es \<longleftrightarrow>
     oset ts \<and> oset as \<and> oset cs \<and> finite (dom h) \<and> (\<forall>p \<in> dom h. p < UINTPTR_MAX) \<and>
     distinct (map snd (ts @ es)) \<and>
     (\<forall>w p. (w, p) \<in> set (ts @ es) \<longrightarrow>
        (\<exists>t. h p = Some t \<and> microSecondsSinceEpoch (expiration t) = w)) \<and>
     set as = (\<lambda>(w, p). (p, tm_sequence (the (h p)))) ` set ts"

definition tq_inv :: "Entry list \<Rightarrow> TimerQueue \<Rightarrow> bool" where
  "tq_inv es q \<longleftrightarrow> tq_wf (heap q) (timers q) (activeTimers q) (cancelledTimers q) es"

lemma tq_wfI:
  assumes "oset ts" "oset as" "oset cs" "finite (dom h)" "\<And>p. p \<in> dom h \<Longrightarrow> p < UINTPTR_MAX"
    and "distinct (map snd (ts @ es))"
    and "\<And>w p. (w, p) \<in> set (ts @ es) \<Longrightarrow> \<exists>t. h p = Some t \<and> microSecondsSinceEpoch (expiration t) = w"
    and "set as = (\<lambda>(w, p). (p, tm_sequence (the (h p)))) ` set ts"
  shows "tq_wf h ts as cs es"
  using assms unfolding tq_wf_def by blast

lemma tq_wf_dest:
  assumes "tq_wf h ts as cs es"
  shows "oset ts" "oset as" "oset cs" "finite (dom h)" "p \<in> dom h \<Longrightarrow> p < UINTPTR_MAX"
    "distinct (map snd (ts @ es))"
    "(w, p) \<in> set (ts @ es) \<Longrightarrow> \<exists>t. h p = Some t \<and> microSecondsSinceEpoch (expiration t) = w"
    "set as = (\<lambda>(w, p). (p, tm_sequence (the (h p)))) ` set ts"
  using assms unfolding tq_wf_def by blast+

lemmas tq_inv_dest = tq_wf_dest [OF tq_inv_def [THEN iffD1]]

lemma tq_sizes: "tq_inv es q \<Longrightarrow> sizes_agree q"
proof -
  assume i: "tq_inv es q"
  note d = tq_inv_dest [OF i]
  have "inj_on snd (set (timers q))" using d(6) by (simp add: distinct_map)
  then have "inj_on (\<lambda>(w, p). (p, tm_sequence (the (heap q p)))) (set (timers q))"
    unfolding inj_on_def by fastforce
  then have "card (set (activeTimers q)) = card (set (timers q))"
    using card_image d(8) by fastforce
  then show "sizes_agree q"
    using oset.size_card [OF d(1)] oset.size_card [OF d(2)] by (simp add: sizes_agree_def)
qed

lemma TimerQueue_new_inv: "tq_inv [] (TimerQueue_new g)"
  by (simp add: tq_inv_def tq_wf_def TimerQueue_new_def)

text \<open>
  \<open>ends F P r\<close>: the operation ends well with a result that satisfies \<open>P\<close>, or with one of the faults \<open>F\<close>.
\<close>

definition ends :: "fault set \<Rightarrow> ('a \<Rightarrow> bool) \<Rightarrow> 'a result \<Rightarrow> bool" where
  "ends F P r \<longleftrightarrow> (case r of Inr x \<Rightarrow> P x | Inl f \<Rightarrow> f \<in> F)"

lemma ends_simps [simp]: "ends F P (Inr x) = P x" "ends F P (Inl f) = (f \<in> F)"
  by (simp_all add: ends_def)

lemma ends_bind:
  "ends F Q r \<Longrightarrow> (\<And>x. Q x \<Longrightarrow> ends F P (f x)) \<Longrightarrow> ends F P (bindR r f)"
  by (cases r) auto

lemma ends_assert: "(\<not> nd \<Longrightarrow> \<not> b \<Longrightarrow> AssertFailed \<in> F) \<Longrightarrow> (b \<or> nd \<Longrightarrow> ends F P k) \<Longrightarrow> ends F P (cassert nd b k)"
  by (cases b; cases nd) (auto simp: cassert_def)

lemma ends_mono: "ends F P r \<Longrightarrow> (\<And>x. P x \<Longrightarrow> Q x) \<Longrightarrow> ends F Q r"
  by (cases r) auto

lemma deref_Some [simp]: "heap q p = Some t \<Longrightarrow> deref p q = Inr t"
  by (simp add: deref_def)

lemma loop_assert_True [simp]: "loop_assert True k = k"
  by (simp add: loop_assert_def)

lemma tq_wf_heap:
  assumes "tq_wf h ts as cs ((w, p) # es)" "v = None \<or> p < UINTPTR_MAX"
  shows "tq_wf (h(p := v)) ts as cs es"
proof (rule tq_wfI)
  note d = tq_wf_dest [OF assms(1)]
  have np: "p \<notin> snd ` set ts" "p \<notin> snd ` set es" using d(6) by auto
  show "oset ts" "oset as" "oset cs" "distinct (map snd (ts @ es))" using d by simp_all
  show "finite (dom (h(p := v)))" using d(4) by simp
  show "r < UINTPTR_MAX" if "r \<in> dom (h(p := v))" for r
    using d(5) [of r] assms(2) that by (auto split: if_splits)
  show "\<exists>t. (h(p := v)) r = Some t \<and> microSecondsSinceEpoch (expiration t) = u"
    if "(u, r) \<in> set (ts @ es)" for u r
  proof -
    have "r \<in> snd ` set (ts @ es)" using that by (rule image_eqI [rotated]) simp
    then have "r \<noteq> p" using np by auto
    then show ?thesis using d(7) [of u r] that by auto
  qed
  have "(\<lambda>(w, r). (r, tm_sequence (the ((h(p := v)) r)))) ` set ts =
      (\<lambda>(w, r). (r, tm_sequence (the (h r)))) ` set ts"
    using np(1) by (intro image_cong) (auto simp: image_iff)
  with d(8) show "set as = (\<lambda>(w, r). (r, tm_sequence (the ((h(p := v)) r)))) ` set ts" by simp
qed

lemma TimerQueue_insert_spec:
  assumes "tq_inv es q" "heap q p = Some t" "p \<notin> snd ` set (timers q @ es)"
  shows "\<exists>ts as. TimerQueue_insert nd True p q =
       Inr (\<forall>(w, r) \<in> set (timers q). microSecondsSinceEpoch (expiration t) < w,
            q\<lparr>timers := ts, activeTimers := as\<rparr>) \<and>
     set ts = insert (microSecondsSinceEpoch (expiration t), p) (set (timers q)) \<and>
     tq_inv es (q\<lparr>timers := ts, activeTimers := as\<rparr>)"
proof -
  note d = tq_inv_dest [OF assms(1)]
  let ?e = "(microSecondsSinceEpoch (expiration t), p)" and ?a = "(p, tm_sequence t)"
  have new: "?e \<notin> set (timers q)" "?a \<notin> set (activeTimers q)"
    using assms(3) unfolding d(8) by (force, force)
  obtain ts as where ts: "set_insert ?e (timers q) = (True, ts)" "set_insert ?a (activeTimers q) = (True, as)"
    using new by (simp add: set_insert_def)
  have ts': "oset ts" "set ts = insert ?e (set (timers q))" "oset as" "set as = insert ?a (set (activeTimers q))"
    using oset.ins_wf [OF d(1), of ?e] oset.ins_elems [OF d(1), of ?e]
      oset.ins_wf [OF d(2), of ?a] oset.ins_elems [OF d(2), of ?a] ts by simp_all
  let ?q = "q\<lparr>timers := ts, activeTimers := as\<rparr>"
  have "distinct (map snd ts)"
  proof -
    have "inj_on snd (set ts)" using d(6) assms(3) unfolding ts'(2) by (auto simp: distinct_map inj_on_insert)
    then show ?thesis using oset.wf_distinct [OF ts'(1)] by (simp add: distinct_map)
  qed
  then have dist: "distinct (map snd (ts @ es))" using d(6) assms(3) ts'(2) by auto
  have "set as = (\<lambda>(w, p). (p, tm_sequence (the (heap q p)))) ` set ts"
    using ts' d(8) assms(2) by auto
  moreover have "\<exists>t. heap q r = Some t \<and> microSecondsSinceEpoch (expiration t) = w"
    if "(w, r) \<in> set (ts @ es)" for w r
    using that ts'(2) d(7) [of w r] assms(2) by auto
  ultimately have "tq_wf (heap q) ts as (cancelledTimers q) es"
    using ts' d(3,4,5) dist by (intro tq_wfI)
  then have inv: "tq_inv es ?q" by (simp add: tq_inv_def)
  have need: "(timers q = [] \<or> fst ?e < fst (hd (timers q))) \<longleftrightarrow>
      (\<forall>(w, r) \<in> set (timers q). fst ?e < w)"
  proof (cases "timers q")
    case (Cons x xs)
    have "fst x \<le> w" if "(w, r) \<in> set (timers q)" for w r
      using oset_hd_le [OF d(1) that] Cons by (cases x) auto
    then show ?thesis using Cons by (cases x) force
  qed simp
  have "TimerQueue_insert nd True p q =
      Inr (\<forall>(w, r) \<in> set (timers q). microSecondsSinceEpoch (expiration t) < w, ?q)"
    using ts tq_sizes [OF assms(1)] tq_sizes [OF inv] need assms(2)
    by (simp add: TimerQueue_insert_def Let_def)
  with ts'(2) inv show ?thesis by blast
qed

lemma cancelTimerInLoop_active:
  assumes "tq_inv es q" "(p, sq) \<in> set (activeTimers q)" "freed p = Inr p"
  obtains t q' where "heap q p = Some t" "tm_sequence t = sq"
    "(microSecondsSinceEpoch (expiration t), p) \<in> set (timers q)"
    "cancelTimerInLoop nd True freed \<lparr>tid_timer = p, tid_sequence = sq\<rparr> q = Inr q'"
    "tq_inv es q'" "heap q' = (heap q)(p := None)"
    "set (timers q') = set (timers q) - {(microSecondsSinceEpoch (expiration t), p)}"
    "set (activeTimers q') = set (activeTimers q) - {(p, sq)}"
    "cancelledTimers q' = cancelledTimers q" "isHandlingTimeout q' = isHandlingTimeout q" "tq_effects q' = tq_effects q"
proof -
  note d = tq_inv_dest [OF assms(1)]
  from assms(2) d(8) obtain w where w: "(w, p) \<in> set (timers q)" "sq = tm_sequence (the (heap q p))"
    by auto
  with d(7) [of w p] obtain t where t: "heap q p = Some t" "microSecondsSinceEpoch (expiration t) = w"
    by auto
  have sq: "tm_sequence t = sq" using w t by simp
  obtain ts as where ts: "set_erase (w, p) (timers q) = (1, ts)" "set_erase (p, sq) (activeTimers q) = (1, as)"
    using w(1) assms(2) by (simp add: set_erase_def)
  have ts': "oset ts" "set ts = set (timers q) - {(w, p)}" "oset as" "set as = set (activeTimers q) - {(p, sq)}"
    using oset.del_wf [OF d(1), of "(w, p)"] oset.del_elems [OF d(1), of "(w, p)"]
      oset.del_wf [OF d(2), of "(p, sq)"] oset.del_elems [OF d(2), of "(p, sq)"] ts by simp_all
  have ts_def: "ts = remove1 (w, p) (timers q)" using ts(1) w(1) by (simp add: set_erase_def)
  have inj: "inj_on snd (set (timers q))" using d(6) by (simp add: distinct_map)
  have disj: "distinct (map snd (ts @ (w, p) # es))"
  proof -
    have "p \<notin> snd ` set es" using d(6) w(1) by force
    moreover have "p \<notin> snd ` set ts"
      using inj w(1) unfolding ts'(2) inj_on_def by force
    moreover have "distinct (map snd ts)"
      using inj oset.wf_distinct [OF ts'(1)] ts'(2) by (auto simp: distinct_map inj_on_def)
    moreover have "snd ` set ts \<inter> snd ` set es = {}" using d(6) ts'(2) by auto
    ultimately show ?thesis using d(6) by auto
  qed
  let ?q = "q\<lparr>timers := ts, activeTimers := as\<rparr>"
  have "set as = (\<lambda>(w, p). (p, tm_sequence (the (heap q p)))) ` set ts"
  proof -
    have "(p, sq) \<notin> (\<lambda>(w, p). (p, tm_sequence (the (heap q p)))) ` set ts"
      using disj by force
    then show ?thesis using ts'(2,4) d(8) w by auto
  qed
  moreover have "\<exists>t. heap q r = Some t \<and> microSecondsSinceEpoch (expiration t) = u"
    if "(u, r) \<in> set (ts @ (w, p) # es)" for u r
    using that ts'(2) d(7) [of u r] w(1) t by auto
  ultimately have "tq_wf (heap q) ts as (cancelledTimers q) ((w, p) # es)"
    using ts' d(3,4,5) disj by (intro tq_wfI)
  from tq_wf_heap [OF this, of None] have inv: "tq_inv es (?q\<lparr>heap := (heap q)(p := None)\<rparr>)"
    by (simp add: tq_inv_def)
  have "cancelTimerInLoop nd True freed \<lparr>tid_timer = p, tid_sequence = sq\<rparr> q =
      Inr (?q\<lparr>heap := (heap q)(p := None)\<rparr>)"
    using assms(2,3) ts t tq_sizes [OF assms(1)] tq_sizes [OF inv]
    by (simp add: cancelTimerInLoop_def Timer_delete_def Let_def)
  with inv t sq w(1) ts' show ?thesis by (intro that [of t "?q\<lparr>heap := (heap q)(p := None)\<rparr>"]) simp_all
qed

lemma cancelTimerInLoop_inactive:
  assumes "tq_inv es q" "(p, sq) \<notin> set (activeTimers q)"
  shows "cancelTimerInLoop nd True freed \<lparr>tid_timer = p, tid_sequence = sq\<rparr> q =
     (if isHandlingTimeout q
      then cassert nd ((p, sq) \<notin> set (cancelledTimers q))
             (Inr (q\<lparr>cancelledTimers := snd (set_insert (p, sq) (cancelledTimers q))\<rparr>))
      else Inr q)"
proof -
  obtain new cs where c: "set_insert (p, sq) (cancelledTimers q) = (new, cs)" by (meson surj_pair)
  have n: "new \<longleftrightarrow> (p, sq) \<notin> set (cancelledTimers q)"
    using oset.ins_new [OF tq_inv_dest(3) [OF assms(1)], of "(p, sq)"] c by simp
  have z: "sizes_agree q" "sizes_agree (q\<lparr>cancelledTimers := cs\<rparr>)"
    using tq_sizes [OF assms(1)] by (simp_all add: sizes_agree_def)
  show ?thesis
    by (cases "isHandlingTimeout q"; cases new)
      (simp_all add: cancelTimerInLoop_def assms(2) c n z Let_def cassert_def)
qed

definition alloc_ok :: "((nat \<rightharpoonup> Timer) \<Rightarrow> nat option) \<Rightarrow> bool" where
  "alloc_ok alloc \<longleftrightarrow> (\<forall>h p. alloc h = Some p \<longrightarrow> p \<notin> dom h \<and> p < UINTPTR_MAX)"

lemma addTimerInLoop_spec:
  assumes "tq_inv es q" "heap q p = Some t" "p \<notin> snd ` set (timers q @ es)"
  shows "\<exists>q'. addTimerInLoop nd True clk p q = Inr q' \<and> tq_inv es q' \<and> heap q' = heap q \<and>
     set (timers q') = insert (microSecondsSinceEpoch (expiration t), p) (set (timers q)) \<and>
     isHandlingTimeout q' = isHandlingTimeout q \<and> cancelledTimers q' = cancelledTimers q \<and> tq_effects q' = tq_effects q \<and>
     armed q' = (if \<forall>(w, r) \<in> set (timers q). microSecondsSinceEpoch (expiration t) < w
                 then Some (howMuchTimeFromNow clk (expiration t)) else armed q)"
proof -
  obtain ts as where i: "TimerQueue_insert nd True p q =
       Inr (\<forall>(w, r) \<in> set (timers q). microSecondsSinceEpoch (expiration t) < w,
            q\<lparr>timers := ts, activeTimers := as\<rparr>)"
     "set ts = insert (microSecondsSinceEpoch (expiration t), p) (set (timers q))"
     "tq_inv es (q\<lparr>timers := ts, activeTimers := as\<rparr>)"
    using TimerQueue_insert_spec [OF assms, of nd] by blast
  then have "tq_inv es (q\<lparr>timers := ts, activeTimers := as, armed := a\<rparr>)" for a
    by (simp add: tq_inv_def)
  with i assms(2) show ?thesis
    unfolding addTimerInLoop_def loop_assert_True i(1) by (simp add: resetTimerfd_def)
qed

lemma alloc_fresh:
  assumes "tq_inv es q" "alloc_ok alloc" "alloc (heap q) = Some p"
  shows "p \<notin> snd ` set (timers q @ es)" "heap q p = None" "p < UINTPTR_MAX"
    "tq_inv es (q\<lparr>heap := (heap q)(p \<mapsto> t), counter := c\<rparr>)"
proof -
  note d = tq_inv_dest [OF assms(1)]
  have p: "p \<notin> dom (heap q)" "p < UINTPTR_MAX" using assms(2,3) unfolding alloc_ok_def by blast+
  show "heap q p = None" "p < UINTPTR_MAX" using p by auto
  show np: "p \<notin> snd ` set (timers q @ es)" using d(7) p(1) by fastforce
  have "(\<lambda>(w, r). (r, tm_sequence (the (((heap q)(p \<mapsto> t)) r)))) ` set (timers q) =
      (\<lambda>(w, r). (r, tm_sequence (the (heap q r)))) ` set (timers q)"
    using np by (intro image_cong) force+
  moreover have "\<exists>t'. ((heap q)(p \<mapsto> t)) r = Some t' \<and> microSecondsSinceEpoch (expiration t') = w"
    if "(w, r) \<in> set (timers q @ es)" for w r
    using d(7) [OF that] p(1) by (cases "r = p") auto
  ultimately have "tq_wf ((heap q)(p \<mapsto> t)) (timers q) (activeTimers q) (cancelledTimers q) es"
  proof (intro tq_wfI)
    show "finite (dom ((heap q)(p \<mapsto> t)))" using d(4) by simp
    show "r < UINTPTR_MAX" if "r \<in> dom ((heap q)(p \<mapsto> t))" for r
      using d(5) [of r] p(2) that by (cases "r = p") auto
  qed (use d in simp_all)
  then show "tq_inv es (q\<lparr>heap := (heap q)(p \<mapsto> t), counter := c\<rparr>)" by (simp add: tq_inv_def)
qed

subsection \<open>What callbacks do to the queue\<close>

fun cancels :: "action list \<Rightarrow> ActiveTimerEntry list" where
  "cancels [] = []"
| "cancels (CancelT p sq # as) = (p, sq) # cancels as"
| "cancels (a # as) = cancels as"

fun effects :: "action list \<Rightarrow> nat list" where
  "effects [] = []"
| "effects (DoT e # as) = e # effects as"
| "effects (a # as) = effects as"

definition adds :: "action list \<Rightarrow> bool" where
  "adds as \<longleftrightarrow> (\<exists>cb wh i. AddT cb wh i \<in> set as)"

lemma actions_append [simp]:
  "cancels (as @ bs) = cancels as @ cancels bs" "effects (as @ bs) = effects as @ effects bs"
  "adds (as @ bs) \<longleftrightarrow> adds as \<or> adds bs"
  by (induction as rule: cancels.induct, simp_all, induction as rule: effects.induct) (auto simp: adds_def)

abbreviation seq_of :: "(nat \<rightharpoonup> Timer) \<Rightarrow> nat \<Rightarrow> int" where
  "seq_of h p \<equiv> tm_sequence (the (h p))"

text \<open>
  \<open>ran es as q q'\<close>: from \<open>q\<close> the actions \<open>as\<close> have led to \<open>q'\<close> while the expired entries \<open>es\<close> are handled. The expired timers are untouched; those that
  were cancelled are remembered; other effects have happened in order; and if nothing was added, exactly the cancelled timers have gone.
\<close>

definition ran :: "Entry list \<Rightarrow> action list \<Rightarrow> TimerQueue \<Rightarrow> TimerQueue \<Rightarrow> bool" where
  "ran es as q q' \<longleftrightarrow> tq_inv es q' \<and> isHandlingTimeout q' = isHandlingTimeout q \<and>
     (\<forall>(w, p) \<in> set es. heap q' p = heap q p) \<and>
     set (cancelledTimers q') \<subseteq> set (cancelledTimers q) \<union> set (cancels as) \<and>
     (\<forall>(w, p) \<in> set es. isHandlingTimeout q \<longrightarrow> ((p, seq_of (heap q) p) \<in> set (cancelledTimers q') \<longleftrightarrow>
        (p, seq_of (heap q) p) \<in> set (cancelledTimers q) \<union> set (cancels as))) \<and>
     tq_effects q' = tq_effects q @ effects as \<and>
     (\<not> adds as \<longrightarrow> set (timers q') = {(w, p) \<in> set (timers q). (p, seq_of (heap q) p) \<notin> set (cancels as)} \<and>
        (\<forall>(w, p) \<in> set (timers q'). heap q' p = heap q p))"

lemma ran_inv: "ran es as q q' \<Longrightarrow> tq_inv es q'"
  by (simp add: ran_def)

lemma ran_heap: "ran es as q q' \<Longrightarrow> (w, p) \<in> set es \<Longrightarrow> heap q' p = heap q p"
  by (auto simp: ran_def)

lemma ran_Nil: "tq_inv es q \<Longrightarrow> ran es [] q q"
  by (auto simp: ran_def adds_def)

lemma ran_trans:
  assumes "ran es as q q1" "ran es bs q1 q2"
  shows "ran es (as @ bs) q q2"
proof -
  have h1: "heap q1 p = heap q p" if "(w, p) \<in> set es" for w p using assms(1) that unfolding ran_def by blast
  have h2: "heap q2 p = heap q p" if "(w, p) \<in> set es" for w p using assms h1 that unfolding ran_def by fastforce
  have c: "(p, seq_of (heap q) p) \<in> set (cancelledTimers q2) \<longleftrightarrow>
      (p, seq_of (heap q) p) \<in> set (cancelledTimers q) \<union> set (cancels (as @ bs))"
    if "(w, p) \<in> set es" "isHandlingTimeout q" for w p
  proof -
    have "(p, seq_of (heap q) p) \<in> set (cancelledTimers q1) \<longleftrightarrow>
        (p, seq_of (heap q) p) \<in> set (cancelledTimers q) \<union> set (cancels as)"
      using assms(1) that unfolding ran_def by blast
    moreover have "(p, seq_of (heap q1) p) \<in> set (cancelledTimers q2) \<longleftrightarrow>
        (p, seq_of (heap q1) p) \<in> set (cancelledTimers q1) \<union> set (cancels bs)"
      using assms that unfolding ran_def by blast
    ultimately show ?thesis using h1 [OF that(1)] by auto
  qed
  have t: "set (timers q2) = {(w, p) \<in> set (timers q). (p, seq_of (heap q) p) \<notin> set (cancels (as @ bs))} \<and>
      (\<forall>(w, p) \<in> set (timers q2). heap q2 p = heap q p)" if "\<not> adds (as @ bs)"
  proof -
    have 1: "set (timers q1) = {(w, p) \<in> set (timers q). (p, seq_of (heap q) p) \<notin> set (cancels as)}"
      "\<forall>(w, p) \<in> set (timers q1). heap q1 p = heap q p" using assms(1) that unfolding ran_def by auto
    have 2: "set (timers q2) = {(w, p) \<in> set (timers q1). (p, seq_of (heap q1) p) \<notin> set (cancels bs)}"
      "\<forall>(w, p) \<in> set (timers q2). heap q2 p = heap q1 p" using assms(2) that unfolding ran_def by auto
    show ?thesis using 1 2 by fastforce
  qed
  show ?thesis
    unfolding ran_def
    using assms h2 c t by (intro conjI) (auto simp: ran_def)
qed

lemma cancelTimerInLoop_ran:
  assumes "tq_inv es q" "freed p = Inr p \<or> (\<exists>f \<in> F. freed p = Inl f)"
    and "\<not> nd \<Longrightarrow> (p, sq) \<in> set (cancelledTimers q) \<Longrightarrow> AssertFailed \<in> F"
  shows "ends F (ran es [CancelT p sq] q) (cancelTimerInLoop nd True freed \<lparr>tid_timer = p, tid_sequence = sq\<rparr> q)"
proof (cases "(p, sq) \<in> set (activeTimers q)")
  case active: True
  show ?thesis
  proof (cases "freed p = Inr p")
    case True
    obtain t q' where q': "heap q p = Some t" "tm_sequence t = sq"
      "(microSecondsSinceEpoch (expiration t), p) \<in> set (timers q)"
      "cancelTimerInLoop nd True freed \<lparr>tid_timer = p, tid_sequence = sq\<rparr> q = Inr q'"
      "tq_inv es q'" "heap q' = (heap q)(p := None)"
      "set (timers q') = set (timers q) - {(microSecondsSinceEpoch (expiration t), p)}"
      "set (activeTimers q') = set (activeTimers q) - {(p, sq)}"
      "cancelledTimers q' = cancelledTimers q" "isHandlingTimeout q' = isHandlingTimeout q" "tq_effects q' = tq_effects q"
      by (rule cancelTimerInLoop_active [OF assms(1) active, of freed nd]) (use True in simp)
    have ne: "p \<noteq> r" if "(w, r) \<in> set es" for w r
      using tq_inv_dest(6) [OF assms(1)] q'(3) that by force
    have one: "w = microSecondsSinceEpoch (expiration t)" if "(w, p) \<in> set (timers q)" for w
      using tq_inv_dest(7) [OF assms(1), of w p] that q'(1) by auto
    have ces: "(r, seq_of (heap q) r) \<notin> set (cancels [CancelT p sq])" if "(w, r) \<in> set es" for w r
      using ne [OF that] by auto
    have "set (timers q') = {(w, r) \<in> set (timers q). (r, seq_of (heap q) r) \<notin> set (cancels [CancelT p sq])}"
      unfolding q'(7) using q'(1,2) one by auto
    moreover have "\<forall>(w, r) \<in> set (timers q'). heap q' r = heap q r"
      unfolding q'(6,7) using one by auto
    moreover have "\<forall>(w, r) \<in> set es. heap q' r = heap q r" unfolding q'(6) using ne by auto
    ultimately show ?thesis
      unfolding q'(4) ends_simps ran_def q'(9,10,11) using q'(5) ces by (auto simp del: cancels.simps)
  next
    case False
    then obtain f where "f \<in> F" "freed p = Inl f" using assms(2) by blast
    moreover obtain w t where "(w, p) \<in> set (timers q)" "heap q p = Some t" "microSecondsSinceEpoch (expiration t) = w"
      using active tq_inv_dest(7,8) [OF assms(1)] by fastforce
    ultimately show ?thesis
      using active tq_sizes [OF assms(1)] by (simp add: cancelTimerInLoop_def set_erase_def Let_def)
  qed
next
  case False
  let ?q = "q\<lparr>cancelledTimers := snd (set_insert (p, sq) (cancelledTimers q))\<rparr>"
  have inv: "tq_inv es ?q"
    using assms(1) oset.ins_wf [OF tq_inv_dest(3) [OF assms(1)], of "(p, sq)"]
    by (simp add: tq_inv_def tq_wf_def)
  have set: "set (cancelledTimers ?q) = insert (p, sq) (set (cancelledTimers q))"
    using oset.ins_elems [OF tq_inv_dest(3) [OF assms(1)], of "(p, sq)"] by simp
  have "(r, seq_of (heap q) r) \<noteq> (p, sq)" if "(w, r) \<in> set (timers q)" for w r
    using False tq_inv_dest(8) [OF assms(1)] that by force
  then have t: "set (timers q) = {(w, r) \<in> set (timers q). (r, seq_of (heap q) r) \<notin> set (cancels [CancelT p sq])}"
    by auto
  have "ran es [CancelT p sq] q ?q"
    unfolding ran_def set using inv t by auto
  moreover have "ran es [CancelT p sq] q q" if "\<not> isHandlingTimeout q"
    unfolding ran_def using assms(1) t that by auto
  ultimately show ?thesis
    unfolding cancelTimerInLoop_inactive [OF assms(1) False]
    using assms(3) by (cases "isHandlingTimeout q") (auto intro!: ends_assert)
qed

lemma addTimer_ran:
  assumes "tq_inv es q" "alloc_ok alloc" "alloc (heap q) = None \<Longrightarrow> BadAlloc \<in> F"
  shows "ends F (\<lambda>(_, _, q'). ran es [AddT cb wh i] q q') (addTimer nd True alloc clk cb wh i q)"
proof (cases "alloc (heap q)")
  case None
  then show ?thesis using assms(3) by (simp add: addTimer_def)
next
  case (Some p)
  note f = alloc_fresh [OF assms(1,2) Some]
  obtain t c where t: "Timer_new cb wh i (counter q) = (t, c)" by (meson surj_pair)
  let ?q = "q\<lparr>heap := (heap q)(p \<mapsto> t), counter := c\<rparr>"
  have "heap ?q p = Some t" "p \<notin> snd ` set (timers ?q @ es)" using f(1) by simp_all
  then obtain q' where q': "addTimerInLoop nd True clk p ?q = Inr q'" "tq_inv es q'" "heap q' = heap ?q"
    "isHandlingTimeout q' = isHandlingTimeout ?q" "cancelledTimers q' = cancelledTimers ?q" "tq_effects q' = tq_effects ?q"
    using addTimerInLoop_spec [OF f(4)] by blast
  have "p \<noteq> r" if "(w, r) \<in> set es" for w r using f(1) that by force
  with q' t Some show ?thesis by (auto simp: addTimer_def ran_def adds_def)
qed

text \<open>
  \<open>faults_ok F\<close>: \<open>F\<close> has the faults that actions may end with: no memory for a new timer; an assertion when one of the identifiers \<open>ds\<close> that may
  have been noted before, or an earlier one of the actions, is cancelled again; and what the read of an erased node may give.
\<close>

definition faults_ok ::
  "bool \<Rightarrow> ((nat \<rightharpoonup> Timer) \<Rightarrow> nat option) \<Rightarrow> (nat \<Rightarrow> nat result) \<Rightarrow> ActiveTimerEntry list \<Rightarrow> action list \<Rightarrow> fault set \<Rightarrow> bool" where
  "faults_ok nd alloc freed ds as F \<longleftrightarrow>
     (adds as \<and> (\<exists>h. alloc h = None) \<longrightarrow> BadAlloc \<in> F) \<and>
     (\<not> nd \<and> \<not> distinct (ds @ cancels as) \<longrightarrow> AssertFailed \<in> F) \<and>
     (\<forall>(p, sq) \<in> set (cancels as). freed p = Inr p \<or> (\<exists>f \<in> F. freed p = Inl f))"

lemma faults_ok_split:
  assumes "faults_ok nd alloc freed ds (as @ bs) F"
  shows "faults_ok nd alloc freed ds as F" "faults_ok nd alloc freed (ds @ cancels as) bs F"
  using assms by (auto simp: faults_ok_def)

lemma run_action_ran:
  assumes "tq_inv es q" "alloc_ok alloc" "faults_ok nd alloc freed ds [a] F" "set (cancelledTimers q) \<subseteq> set ds"
  shows "ends F (ran es [a] q) (run_action nd alloc freed clk a q)"
proof (cases a)
  case (AddT cb wh i)
  have "ends F (\<lambda>(_, _, q'). ran es [AddT cb wh i] q q') (addTimer nd True alloc clk cb wh i q)"
    using assms(3) AddT by (intro addTimer_ran assms) (auto simp: faults_ok_def adds_def)
  with AddT show ?thesis by (auto intro: ends_bind)
next
  case (CancelT p sq)
  have "ends F (ran es [CancelT p sq] q) (cancelTimerInLoop nd True freed \<lparr>tid_timer = p, tid_sequence = sq\<rparr> q)"
    using assms(3,4) CancelT by (intro cancelTimerInLoop_ran assms) (auto simp: faults_ok_def)
  then have "ends F (\<lambda>(_, q'). ran es [CancelT p sq] q q') (cancelTimer nd True freed \<lparr>tid_timer = p, tid_sequence = sq\<rparr> q)"
    unfolding cancelTimer_def by (auto intro: ends_bind)
  with CancelT show ?thesis by (auto intro: ends_bind)
next
  case (DoT e)
  then show ?thesis using assms(1) by (auto simp: ran_def tq_inv_def adds_def)
qed

lemma ran_noted: "ran es as q q' \<Longrightarrow> set (cancelledTimers q) \<subseteq> set ds \<Longrightarrow> set (cancelledTimers q') \<subseteq> set (ds @ cancels as)"
  unfolding ran_def by auto

lemma run_actions_ran:
  assumes "tq_inv es q" "alloc_ok alloc" "faults_ok nd alloc freed ds as F" "set (cancelledTimers q) \<subseteq> set ds"
  shows "ends F (ran es as q) (run_actions nd alloc freed clk as q)"
  using assms(1,3,4)
proof (induction as arbitrary: q ds)
  case Nil
  then show ?case by (simp add: ran_Nil)
next
  case (Cons a as)
  note f = faults_ok_split [of nd alloc freed ds "[a]" as, simplified append_Cons append_Nil, OF Cons.prems(2)]
  show ?case
    unfolding run_actions.simps
  proof (rule ends_bind [OF run_action_ran [OF Cons.prems(1) assms(2) f(1) Cons.prems(3)]])
    fix q1 assume q1: "ran es [a] q q1"
    show "ends F (ran es (a # as) q) (run_actions nd alloc freed clk as q1)"
      using Cons.IH [OF ran_inv [OF q1] f(2) ran_noted [OF q1 Cons.prems(3)]] ran_trans [OF q1]
      by (auto elim: ends_mono)
  qed
qed

text \<open>All that the callbacks of a list of entries do.\<close>

definition entry_actions :: "(nat \<rightharpoonup> Timer) \<Rightarrow> Entry list \<Rightarrow> action list" where
  "entry_actions h es = concat (map (\<lambda>(w, p). timerCallback (the (h p))) es)"

lemma run_timers_ran:
  assumes "tq_inv es q" "alloc_ok alloc" "set fs \<subseteq> set es"
    and "faults_ok nd alloc freed ds (entry_actions (heap q) fs) F" "set (cancelledTimers q) \<subseteq> set ds"
  shows "ends F (ran es (entry_actions (heap q) fs) q) (run_timers nd alloc freed clk fs q)"
  using assms(1,3-)
proof (induction fs arbitrary: q ds)
  case Nil
  then show ?case by (simp add: ran_Nil entry_actions_def)
next
  case (Cons e fs)
  obtain w p where e: "e = (w, p)" by (cases e)
  then obtain t where t: "heap q p = Some t" using tq_inv_dest(7) [OF Cons.prems(1), of w p] Cons.prems(2) by auto
  let ?as = "timerCallback t" and ?bs = "entry_actions (heap q) fs"
  have ab: "entry_actions (heap q) (e # fs) = ?as @ ?bs" using t by (simp add: entry_actions_def e)
  note f = faults_ok_split [OF Cons.prems(3) [unfolded ab]]
  have "ends F (ran es ?as q) (Timer_run nd alloc freed clk p q)"
    using run_actions_ran [OF Cons.prems(1) assms(2) f(1) Cons.prems(4)] t by (simp add: Timer_run_def)
  then show ?case
    unfolding ab unfolding e run_timers.simps
  proof (rule ends_bind)
    fix q1 assume q1: "ran es ?as q q1"
    have "heap q1 r = heap q r" if "(u, r) \<in> set fs" for u r
      using ran_heap [OF q1, of u r] Cons.prems(2) that by auto
    then have same: "entry_actions (heap q1) fs = ?bs"
      unfolding entry_actions_def by (intro arg_cong [of _ _ concat] map_cong) auto
    show "ends F (ran es (?as @ ?bs) q) (run_timers nd alloc freed clk fs q1)"
    proof (rule ends_mono)
      show "ends F (ran es ?bs q1) (run_timers nd alloc freed clk fs q1)"
        by (rule Cons.IH [OF ran_inv [OF q1] _ _ ran_noted [OF q1 Cons.prems(4)], unfolded same, OF _ f(2)])
          (use Cons.prems(2) in auto)
      show "ran es (?as @ ?bs) q x" if "ran es ?bs q1 x" for x by (rule ran_trans [OF q1 that])
    qed
  qed
qed

subsection \<open>Expiry keeps the invariant\<close>

text \<open>
  Erasing the expired timers from \<open>activeTimers\<close>: \<open>done\<close> entries have left it already.
\<close>

lemma erase_active_spec:
  assumes "oset (activeTimers q)" "distinct (map snd es)"
    and "\<And>w p. (w, p) \<in> set es \<Longrightarrow> \<exists>t. heap q p = Some t \<and> (p, tm_sequence t) \<in> set (activeTimers q)"
  shows "\<exists>as. erase_active nd es q = Inr (q\<lparr>activeTimers := as\<rparr>) \<and> oset as \<and>
     set as = set (activeTimers q) - (\<lambda>(w, p). (p, tm_sequence (the (heap q p)))) ` set es"
  using assms
proof (induction es arbitrary: q)
  case Nil
  then show ?case by (intro exI [of _ "activeTimers q"]) simp
next
  case (Cons e es)
  obtain w p where e: "e = (w, p)" by (cases e)
  obtain t where t: "heap q p = Some t" "(p, tm_sequence t) \<in> set (activeTimers q)"
    using Cons.prems(3) [of w p] e by auto
  let ?a = "(p, tm_sequence t)"
  obtain as where as: "set_erase ?a (activeTimers q) = (1, as)" using t(2) by (simp add: set_erase_def)
  have as': "oset as" "set as = set (activeTimers q) - {?a}"
    using oset.del_wf [OF Cons.prems(1), of ?a] oset.del_elems [OF Cons.prems(1), of ?a] as by simp_all
  have "\<exists>t'. heap q r = Some t' \<and> (r, tm_sequence t') \<in> set as" if "(u, r) \<in> set es" for u r
  proof -
    have "r \<noteq> p" using Cons.prems(2) e that by force
    then show ?thesis using Cons.prems(3) [of u r] that as'(2) by auto
  qed
  then obtain bs where bs: "erase_active nd es (q\<lparr>activeTimers := as\<rparr>) = Inr (q\<lparr>activeTimers := bs\<rparr>)"
    "oset bs" "set bs = set as - (\<lambda>(w, p). (p, tm_sequence (the (heap q p)))) ` set es"
    using Cons.IH [of "q\<lparr>activeTimers := as\<rparr>"] Cons.prems(2) as'(1) by auto
  have "erase_active nd (e # es) q = Inr (q\<lparr>activeTimers := bs\<rparr>)"
    using t as bs(1) by (simp add: e)
  moreover have "set bs = set (activeTimers q) -
      (\<lambda>(w, p). (p, tm_sequence (the (heap q p)))) ` set (e # es)"
    using bs(3) as'(2) t(1) e by auto
  ultimately show ?case using bs(2) by blast
qed

lemma getExpiredTimers_spec:
  assumes "tq_inv [] q"
  obtains es q' where "getExpiredTimers nd now q = Inr (es, q')" "tq_inv es q'" "heap q' = heap q"
    "es = set_below (microSecondsSinceEpoch now, UINTPTR_MAX) (timers q)"
    "timers q' = set_from (microSecondsSinceEpoch now, UINTPTR_MAX) (timers q)"
    "set es = {(w, p) \<in> set (timers q). w \<le> microSecondsSinceEpoch now}"
    "set (timers q') = {(w, p) \<in> set (timers q). microSecondsSinceEpoch now < w}"
    "oset es" "isHandlingTimeout q' = isHandlingTimeout q" "tq_effects q' = tq_effects q"
proof -
  note d = tq_inv_dest [OF assms]
  let ?s = "(microSecondsSinceEpoch now, UINTPTR_MAX)"
  define es fs where "es = set_below ?s (timers q)" and "fs = set_from ?s (timers q)"
  have ef: "es @ fs = timers q" by (simp add: es_def fs_def)
  have o: "oset es" "oset fs" using set_below_oset [OF d(1)] by (simp_all add: es_def fs_def)
  have small: "p < UINTPTR_MAX" if "(w, p) \<in> set (timers q)" for w p
    using d(7) [of w p] d(5) [of p] that by auto
  have S: "set es = {(w, p) \<in> set (timers q). w \<le> microSecondsSinceEpoch now}"
    "set fs = {(w, p) \<in> set (timers q). microSecondsSinceEpoch now < w}"
    unfolding es_def fs_def set_below_set [OF d(1)] using small by force+
  have dist: "distinct (map snd (es @ fs))" using d(6) ef by simp
  have act: "set (activeTimers q) = (\<lambda>(w, p). (p, tm_sequence (the (heap q p)))) ` (set es \<union> set fs)"
    using d(8) by (simp add: ef [symmetric])
  have live: "\<exists>t. heap q p = Some t \<and> (p, tm_sequence t) \<in> set (activeTimers q)"
    if "(w, p) \<in> set es" for w p
    using d(7) [of w p] that act by (force simp: ef [symmetric])
  let ?q = "q\<lparr>timers := fs\<rparr>"
  obtain as where as: "erase_active nd es ?q = Inr (?q\<lparr>activeTimers := as\<rparr>)" "oset as"
    "set as = set (activeTimers q) - (\<lambda>(w, p). (p, tm_sequence (the (heap q p)))) ` set es"
    using erase_active_spec [of ?q es nd] d(2) dist live by auto
  have "set as = (\<lambda>(w, p). (p, tm_sequence (the (heap q p)))) ` set fs"
  proof -
    have "(\<lambda>(w, p). (p, tm_sequence (the (heap q p)))) ` set es \<inter>
        (\<lambda>(w, p). (p, tm_sequence (the (heap q p)))) ` set fs = {}" using dist by force
    then show ?thesis using as(3) act by (auto simp: image_Un)
  qed
  moreover have "distinct (map snd (fs @ es))" using dist by auto
  moreover have "\<exists>t. heap q p = Some t \<and> microSecondsSinceEpoch (expiration t) = w"
    if "(w, p) \<in> set (fs @ es)" for w p
    using d(7) [of w p] that by (auto simp: ef [symmetric])
  ultimately have "tq_wf (heap q) fs as (cancelledTimers q) es"
    using d(3,4,5) o as(2) by (intro tq_wfI)
  then have inv: "tq_inv es (?q\<lparr>activeTimers := as\<rparr>)" by (simp add: tq_inv_def)
  have "getExpiredTimers nd now q = Inr (es, ?q\<lparr>activeTimers := as\<rparr>)"
    using tq_sizes [OF assms] tq_sizes [OF inv] as(1)
    by (simp add: getExpiredTimers_def Let_def es_def [symmetric] fs_def [symmetric])
  then show ?thesis by (rule that) (use inv S o in \<open>simp_all add: es_def fs_def\<close>)
qed

text \<open>
  The loop of \<open>resetTimers\<close>: a repeated timer that was not cancelled is queued again at
  \<open>now\<close> plus its interval, every other one is deleted.
\<close>

definition again :: "(nat \<times> int) set \<Rightarrow> Timer \<Rightarrow> nat \<Rightarrow> bool" where
  "again cs t p \<longleftrightarrow> isRepeated t \<and> (p, tm_sequence t) \<notin> cs"

definition requeued ::
  "(nat \<times> int) set \<Rightarrow> (rat \<Rightarrow> rat) \<Rightarrow> Timestamp \<Rightarrow> (nat \<rightharpoonup> Timer) \<Rightarrow> Entry list \<Rightarrow> Entry set" where
  "requeued cs rnd now h es =
     {(microSecondsSinceEpoch (expiration (Timer_reset rnd now t)), p) | w p t.
        (w, p) \<in> set es \<and> h p = Some t \<and> again cs t p}"

lemma requeued_Nil [simp]: "requeued cs rnd now h [] = {}"
  by (simp add: requeued_def)

lemma requeued_Cons:
  "h p = Some t \<Longrightarrow> requeued cs rnd now h ((w, p) # es) =
     (if again cs t p then {(microSecondsSinceEpoch (expiration (Timer_reset rnd now t)), p)} else {}) \<union>
     requeued cs rnd now h es"
  by (auto simp: requeued_def)

lemma requeued_cong:
  assumes "\<And>w p. (w, p) \<in> set es \<Longrightarrow> h p = h' p"
  shows "requeued cs rnd now h es = requeued cs rnd now h' es"
proof -
  have "(w, p) \<in> set es \<and> h p = Some t \<and> again cs t p \<longleftrightarrow> (w, p) \<in> set es \<and> h' p = Some t \<and> again cs t p"
    for w p t using assms by auto
  then show ?thesis unfolding requeued_def by presburger
qed

lemma reset_loop_spec:
  assumes "tq_inv es q"
  shows "\<exists>q'. reset_loop nd rnd now es q = Inr q' \<and> tq_inv [] q' \<and>
     cancelledTimers q' = cancelledTimers q \<and> isHandlingTimeout q' = isHandlingTimeout q \<and> tq_effects q' = tq_effects q \<and>
     (\<forall>p. p \<notin> snd ` set es \<longrightarrow> heap q' p = heap q p) \<and>
     (\<forall>(w, p) \<in> set es. \<forall>t. heap q p = Some t \<longrightarrow>
        heap q' p = (if again (set (cancelledTimers q)) t p then Some (Timer_reset rnd now t) else None)) \<and>
     set (timers q') = set (timers q) \<union> requeued (set (cancelledTimers q)) rnd now (heap q) es"
  using assms
proof (induction es arbitrary: q)
  case Nil
  then show ?case by simp
next
  case (Cons e es)
  obtain w p where e: "e = (w, p)" by (cases e)
  note d = tq_inv_dest [OF Cons.prems]
  obtain t where t: "heap q p = Some t" using d(7) [of w p] e by auto
  have p: "p < UINTPTR_MAX" using d(5) [of p] t by auto
  have np: "p \<notin> snd ` set (timers q @ es)" using d(6) e by auto
  define C where "C = set (cancelledTimers q)"
  define q1 where "q1 = q\<lparr>heap := (heap q)(p := if again C t p then Some (Timer_reset rnd now t) else None)\<rparr>"
  have i1: "tq_inv es q1"
    using tq_wf_heap [OF Cons.prems [unfolded tq_inv_def e], of "if again C t p then Some (Timer_reset rnd now t) else None"] p
    by (simp add: q1_def tq_inv_def)
  obtain q2 where q2: "reset_loop nd rnd now (e # es) q = reset_loop nd rnd now es q2" "tq_inv es q2"
    "heap q2 = heap q1" "cancelledTimers q2 = cancelledTimers q" "isHandlingTimeout q2 = isHandlingTimeout q" "tq_effects q2 = tq_effects q"
    "set (timers q2) = set (timers q) \<union>
       (if again C t p then {(microSecondsSinceEpoch (expiration (Timer_reset rnd now t)), p)} else {})"
  proof (cases "again C t p")
    case True
    have "heap q1 p = Some (Timer_reset rnd now t)" "p \<notin> snd ` set (timers q1 @ es)"
      using True np by (simp_all add: q1_def)
    from TimerQueue_insert_spec [OF i1 this, of nd] obtain ts as need where
      "TimerQueue_insert nd True p q1 = Inr (need, q1\<lparr>timers := ts, activeTimers := as\<rparr>)"
      "set ts = insert (microSecondsSinceEpoch (expiration (Timer_reset rnd now t)), p) (set (timers q1))"
      "tq_inv es (q1\<lparr>timers := ts, activeTimers := as\<rparr>)" by blast
    with True t show ?thesis
      by (intro that [of "q1\<lparr>timers := ts, activeTimers := as\<rparr>"])
        (simp_all add: e q1_def again_def C_def)
  next
    case False
    with t i1 show ?thesis
      by (intro that [of q1]) (auto simp: e q1_def again_def C_def Timer_delete_def)
  qed
  obtain q' where q': "reset_loop nd rnd now es q2 = Inr q'" "tq_inv [] q'"
    "cancelledTimers q' = cancelledTimers q2" "isHandlingTimeout q' = isHandlingTimeout q2" "tq_effects q' = tq_effects q2"
    "\<forall>p. p \<notin> snd ` set es \<longrightarrow> heap q' p = heap q2 p"
    "\<forall>(w, p) \<in> set es. \<forall>t. heap q2 p = Some t \<longrightarrow>
        heap q' p = (if again C t p then Some (Timer_reset rnd now t) else None)"
    "set (timers q') = set (timers q2) \<union> requeued C rnd now (heap q2) es"
    using Cons.IH [OF q2(2)] q2(4) unfolding C_def by auto
  have other: "heap q2 r = heap q r" if "r \<noteq> p" for r using that q2(3) by (simp add: q1_def)
  have ner: "r \<noteq> p" if "(u, r) \<in> set es" for u r using np that by force
  have hp: "heap q' p = (if again C t p then Some (Timer_reset rnd now t) else None)"
    using q'(6) np q2(3) by (auto simp: q1_def)
  have "\<forall>r. r \<notin> snd ` set (e # es) \<longrightarrow> heap q' r = heap q r"
    using q'(6) other by (simp add: e)
  moreover have "\<forall>(w, r) \<in> set (e # es). \<forall>t. heap q r = Some t \<longrightarrow>
      heap q' r = (if again C t r then Some (Timer_reset rnd now t) else None)"
    using q'(7) other ner hp t by (fastforce simp: e)
  moreover have "requeued C rnd now (heap q2) es = requeued C rnd now (heap q) es"
    using other ner by (intro requeued_cong) blast
  then have "set (timers q') = set (timers q) \<union> requeued C rnd now (heap q) (e # es)"
    using q'(8) q2(7) by (auto simp: e requeued_Cons [where h = "heap q", OF t])
  ultimately show ?case
    using q'(1-5) q2(1,4-6) unfolding C_def [symmetric] by (intro exI [of _ q'] conjI) simp_all
qed

lemma resetTimers_spec:
  assumes "tq_inv es q"
  shows "\<exists>q1 a. reset_loop nd rnd now es q = Inr q1 \<and> tq_inv [] q1 \<and>
     resetTimers nd rnd clk es now q = Inr (q1\<lparr>armed := a\<rparr>) \<and>
     a = (if timers q1 \<noteq> [] \<and> 0 < fst (hd (timers q1))
          then Some (howMuchTimeFromNow clk (Timestamp_new (fst (hd (timers q1))))) else armed q1)"
proof -
  obtain q1 where q1: "reset_loop nd rnd now es q = Inr q1" "tq_inv [] q1"
    using reset_loop_spec [OF assms, of nd rnd now] by blast
  have armed: "tq_inv [] (q1\<lparr>armed := a\<rparr>)" for a using q1(2) by (simp add: tq_inv_def)
  have z: "sizes_agree q" "sizes_agree q1" "sizes_agree (q1\<lparr>armed := a\<rparr>)" for a
    using tq_sizes assms q1(2) armed by blast+
  show ?thesis
  proof (cases "timers q1")
    case Nil
    then show ?thesis using q1 z by (simp add: resetTimers_def)
  next
    case (Cons e r)
    obtain w p where e: "e = (w, p)" by (cases e)
    obtain t where t: "heap q1 p = Some t" "microSecondsSinceEpoch (expiration t) = w"
      using tq_inv_dest(7) [OF q1(2), of w p] Cons e by auto
    then have "expiration t = Timestamp_new w" by (cases "expiration t") (simp add: Timestamp_new_def)
    with Cons e t q1 z show ?thesis
      by (simp add: resetTimers_def resetTimerfd_def Timestamp_valid_def)
  qed
qed


subsection \<open>Properties of the timer queue\<close>

definition due :: "Timestamp \<Rightarrow> TimerQueue \<Rightarrow> Entry list" where
  "due now q = filter (\<lambda>(w, p). w \<le> microSecondsSinceEpoch now) (timers q)"

definition due_actions :: "Timestamp \<Rightarrow> TimerQueue \<Rightarrow> action list" where
  "due_actions now q = entry_actions (heap q) (due now q)"

lemma getExpiredTimers_due:
  assumes "tq_inv [] q"
  obtains q1 where "getExpiredTimers nd now q = Inr (due now q, q1)" "tq_inv (due now q) q1" "heap q1 = heap q"
    "set (timers q1) = {(w, p) \<in> set (timers q). microSecondsSinceEpoch now < w}" "tq_effects q1 = tq_effects q"
proof -
  obtain es q1 where q1: "getExpiredTimers nd now q = Inr (es, q1)" "tq_inv es q1" "heap q1 = heap q"
    "set es = {(w, p) \<in> set (timers q). w \<le> microSecondsSinceEpoch now}"
    "set (timers q1) = {(w, p) \<in> set (timers q). microSecondsSinceEpoch now < w}" "oset es" "tq_effects q1 = tq_effects q"
    by (rule getExpiredTimers_spec [OF assms])
  have "es = due now q"
    using q1(4,6) tq_inv_dest(1) [OF assms]
    by (intro strict_sorted_equal) (auto simp: due_def sorted_wrt_filter)
  with q1 that show ?thesis by blast
qed

text \<open>One whole \<open>handleTimeout\<close>, in terms of the queue between its two halves.\<close>

lemma handleTimeout_ends:
  assumes "tq_inv [] q" "alloc_ok alloc" "faults_ok nd alloc freed [] (due_actions now q) F"
    and "\<And>q1 q2 q3 a. \<lbrakk>heap q1 = heap q; cancelledTimers q1 = []; isHandlingTimeout q1; tq_effects q1 = tq_effects q;
      set (timers q1) = {(w, p) \<in> set (timers q). microSecondsSinceEpoch now < w};
      ran (due now q) (due_actions now q) q1 q2;
      reset_loop nd rnd now (due now q) (q2\<lparr>isHandlingTimeout := False\<rparr>) = Inr q3; tq_inv [] q3;
      a = (if timers q3 \<noteq> [] \<and> 0 < fst (hd (timers q3))
          then Some (howMuchTimeFromNow clk (Timestamp_new (fst (hd (timers q3))))) else armed q3)\<rbrakk>
      \<Longrightarrow> P (q3\<lparr>armed := a\<rparr>)"
  shows "ends F P (handleTimeout nd True alloc freed rnd now clk q)"
proof -
  let ?es = "due now q"
  obtain q1 where q1: "getExpiredTimers nd now q = Inr (?es, q1)" "tq_inv ?es q1" "heap q1 = heap q"
    "set (timers q1) = {(w, p) \<in> set (timers q). microSecondsSinceEpoch now < w}" "tq_effects q1 = tq_effects q"
    by (rule getExpiredTimers_due [OF assms(1)])
  let ?q1 = "q1\<lparr>isHandlingTimeout := True, cancelledTimers := []\<rparr>"
  have "tq_inv ?es ?q1" using q1(2) by (simp add: tq_inv_def tq_wf_def)
  then have run: "ends F (ran ?es (due_actions now q) ?q1) (run_timers nd alloc freed clk ?es ?q1)"
    using run_timers_ran [of ?es ?q1 alloc ?es nd freed "[]" F clk] assms(2,3) q1(3) by (simp add: due_actions_def)
  have reset: "ends F P (bindR (resetTimers nd rnd clk ?es now (q2\<lparr>isHandlingTimeout := False\<rparr>))
        (\<lambda>q3. cassert nd (sizes_agree q3) (Inr q3)))" if q2: "ran ?es (due_actions now q) ?q1 q2" for q2
  proof -
    have i2: "tq_inv ?es (q2\<lparr>isHandlingTimeout := False\<rparr>)" using ran_inv [OF q2] by (simp add: tq_inv_def)
    obtain q3 a where q3: "reset_loop nd rnd now ?es (q2\<lparr>isHandlingTimeout := False\<rparr>) = Inr q3" "tq_inv [] q3"
      "resetTimers nd rnd clk ?es now (q2\<lparr>isHandlingTimeout := False\<rparr>) = Inr (q3\<lparr>armed := a\<rparr>)"
      "a = (if timers q3 \<noteq> [] \<and> 0 < fst (hd (timers q3))
          then Some (howMuchTimeFromNow clk (Timestamp_new (fst (hd (timers q3))))) else armed q3)"
      using resetTimers_spec [OF i2, of nd rnd now clk] by blast
    have "tq_inv [] (q3\<lparr>armed := a\<rparr>)" using q3(2) by (simp add: tq_inv_def)
    moreover have "P (q3\<lparr>armed := a\<rparr>)" by (rule assms(4) [OF _ _ _ _ _ q2 q3(1,2,4)]) (simp_all add: q1)
    ultimately show ?thesis unfolding q3(3) using tq_sizes by simp
  qed
  have "handleTimeout nd True alloc freed rnd now clk q =
      bindR (run_timers nd alloc freed clk ?es ?q1) (\<lambda>q2.
      bindR (resetTimers nd rnd clk ?es now (q2\<lparr>isHandlingTimeout := False\<rparr>)) (\<lambda>q3.
      cassert nd (sizes_agree q3) (Inr q3)))"
    using q1(1) tq_sizes [OF assms(1)] by (simp add: handleTimeout_def)
  then show ?thesis using ends_bind [OF run reset] by simp
qed

text \<open>
  C4: \<open>handleTimeout\<close>, whatever the callbacks of the expired timers do: add timers, cancel any timer, themselves included, with valid or
  stale identifiers. When it returns, the invariant of the queue holds again (every entry points to a live timer, the two sets agree) and no timer is
  marked as being handled. It never follows a pointer to a deleted timer, and there are three ways not to return: \<open>new\<close> has no
  memory for a timer that a callback adds; without \<open>NDEBUG\<close> the assertion that no timer is cancelled twice while it
  is handled, only if one identifier is cancelled twice; and the read of the set node that \<open>cancelTimerInLoop\<close> has just
  erased, if that read traps for a timer that a callback cancels. That read is undefined behaviour; the hypothesis is that it
  traps or gives the pointer the node held. The allocator returns addresses that are not in use.
\<close>

theorem handleTimeout_safe:
  assumes "tq_inv [] q" and "alloc_ok alloc" and "\<And>p. freed p = Inr p \<or> (\<exists>f. freed p = Inl f)"
  shows "case handleTimeout nd True alloc freed rnd now clk q of
      Inr q' \<Rightarrow> tq_inv [] q' \<and> \<not> isHandlingTimeout q'
    | Inl f \<Rightarrow> f = BadAlloc \<and> adds (due_actions now q) \<and> (\<exists>h. alloc h = None) \<or>
        f = AssertFailed \<and> \<not> nd \<and> \<not> distinct (cancels (due_actions now q)) \<or>
        (\<exists>(p, sq) \<in> set (cancels (due_actions now q)). freed p = Inl f)"
proof -
  let ?F = "{f. f = BadAlloc \<and> adds (due_actions now q) \<and> (\<exists>h. alloc h = None) \<or>
        f = AssertFailed \<and> \<not> nd \<and> \<not> distinct (cancels (due_actions now q)) \<or>
        (\<exists>(p, sq) \<in> set (cancels (due_actions now q)). freed p = Inl f)}"
  have "faults_ok nd alloc freed [] (due_actions now q) ?F"
    unfolding faults_ok_def using assms(3) by fastforce
  then have "ends ?F (\<lambda>q'. tq_inv [] q' \<and> \<not> isHandlingTimeout q') (handleTimeout nd True alloc freed rnd now clk q)"
  proof (rule handleTimeout_ends [OF assms(1,2)])
    fix q1 q2 q3 a
    assume ran: "ran (due now q) (due_actions now q) q1 q2" and
      q3: "reset_loop nd rnd now (due now q) (q2\<lparr>isHandlingTimeout := False\<rparr>) = Inr q3" "tq_inv [] q3"
    have "tq_inv (due now q) (q2\<lparr>isHandlingTimeout := False\<rparr>)" using ran_inv [OF ran] by (simp add: tq_inv_def)
    from reset_loop_spec [OF this, of nd rnd now] q3
    show "tq_inv [] (q3\<lparr>armed := a\<rparr>) \<and> \<not> isHandlingTimeout (q3\<lparr>armed := a\<rparr>)" by (auto simp: tq_inv_def)
  qed
  then show ?thesis by (simp add: ends_def split: sum.splits)
qed

definition two_cells :: "(nat \<rightharpoonup> Timer) \<Rightarrow> nat option" where
  "two_cells h = (if h 1 = None then Some 1 else if h 2 = None then Some 2 else None)"

lemma two_cells_ok: "alloc_ok two_cells"
  by (auto simp: alloc_ok_def UINTPTR_MAX_def two_cells_def split: if_splits)

definition one_timer :: "action list \<Rightarrow> TimerQueue" where
  "one_timer cb = \<lparr>heap = [1 \<mapsto> \<lparr>timerCallback = cb, expiration = Timestamp_new 3, interval = 2, tm_sequence = 1\<rparr>],
     counter = 1, timers = [(3, 1)], activeTimers = [(1, 1)], isHandlingTimeout = False, cancelledTimers = [],
     armed = None, tq_effects = []\<rparr>"

lemma one_timer_inv: "tq_inv [] (one_timer cb)"
  by (auto simp: tq_inv_def tq_wf_def UINTPTR_MAX_def one_timer_def split: if_splits)

text \<open>A repeated timer whose callback adds a timer, cancels itself, and cancels the new timer and adds it again.\<close>

theorem handleTimeout_safe_witness:
  "\<exists>q'. handleTimeout False True two_cells Inr id (Timestamp_new 5) (Timestamp_new 5)
       (one_timer [AddT [] (Timestamp_new 9) 0, CancelT 1 1, CancelT 2 2, AddT [] (Timestamp_new 8) 0]) = Inr q' \<and>
     timers q' = [(8, 2)] \<and> heap q' 1 = None \<and> heap q' 2 \<noteq> None \<and> tq_inv [] q' \<and> \<not> isHandlingTimeout q'"
proof -
  let ?q = "one_timer [AddT [] (Timestamp_new 9) 0, CancelT 1 1, CancelT 2 2, AddT [] (Timestamp_new 8) 0]"
  let ?r = "handleTimeout False True two_cells Inr id (Timestamp_new 5) (Timestamp_new 5) ?q"
  have "case ?r of Inr q' \<Rightarrow> timers q' = [(8, 2)] \<and> heap q' 1 = None \<and> heap q' 2 \<noteq> None | Inl f \<Rightarrow> False"
    by (simp add: one_timer_def handleTimeout_def getExpiredTimers_def sizes_agree_def set_below_def set_from_def UINTPTR_MAX_def
        set_erase_def set_insert_def Timer_run_def deref_def addTimer_def two_cells_def Timer_new_def incrementAndGet_eq addTimerInLoop_def
        TimerQueue_insert_def resetTimerfd_def cancelTimer_def cancelTimerInLoop_def Timer_delete_def resetTimers_def isRepeated_def Timestamp_valid_def)
  with handleTimeout_safe [where q = ?q and freed = Inr and now = "Timestamp_new 5" and clk = "Timestamp_new 5" and nd = False and rnd = id,
      OF one_timer_inv two_cells_ok]
  show ?thesis by (auto split: sum.splits)
qed

text \<open>
  C5: which timers \<open>handleTimeout\<close> runs and what becomes of all of them, for callbacks that do anything but add timers (they may cancel timers, each
  identifier once in a debug build), where the read of an erased node gives the pointer it held. It returns; it has
  run the callbacks of exactly the timers whose expiration is not after \<open>now\<close>, each once, in the order of the set. Queued are then the later timers
  that no callback cancelled, and the repeated ones among those that ran, unless cancelled, at \<open>now\<close> plus their interval. The others that
  ran are deleted. The descriptor is armed for the earliest timer.
\<close>

theorem handleTimeout_expired:
  assumes "tq_inv [] q" and "alloc_ok alloc" and "\<not> adds (due_actions now q)"
    and "\<And>p sq. (p, sq) \<in> set (cancels (due_actions now q)) \<Longrightarrow> freed p = Inr p"
    and "nd \<or> distinct (cancels (due_actions now q))"
  shows "\<exists>q'. handleTimeout nd True alloc freed rnd now clk q = Inr q' \<and> tq_inv [] q' \<and>
     tq_effects q' = tq_effects q @
       concat (map (\<lambda>(w, p). effects (timerCallback (the (heap q p)))) (filter (\<lambda>(w, p). w \<le> microSecondsSinceEpoch now) (timers q))) \<and>
     set (timers q') =
       {(w, p) \<in> set (timers q). microSecondsSinceEpoch now < w \<and>
          (p, tm_sequence (the (heap q p))) \<notin> set (cancels (due_actions now q))} \<union>
       {(microSecondsSinceEpoch (addTime rnd now (interval t)), p) | w p t.
          (w, p) \<in> set (timers q) \<and> w \<le> microSecondsSinceEpoch now \<and> heap q p = Some t \<and> isRepeated t \<and>
          (p, tm_sequence t) \<notin> set (cancels (due_actions now q))} \<and>
     (\<forall>(w, p) \<in> set (timers q). w \<le> microSecondsSinceEpoch now \<longrightarrow>
        \<not> isRepeated (the (heap q p)) \<or> (p, tm_sequence (the (heap q p))) \<in> set (cancels (due_actions now q)) \<longrightarrow>
        heap q' p = None) \<and>
     (timers q' \<noteq> [] \<and> 0 < fst (hd (timers q')) \<longrightarrow>
        armed q' = Some (howMuchTimeFromNow clk (Timestamp_new (fst (hd (timers q'))))))" (is "\<exists>q'. _ = Inr q' \<and> ?P q'")
proof -
  let ?C = "set (cancels (due_actions now q))"
  have "faults_ok nd alloc freed [] (due_actions now q) {}"
    using assms(3-5) by (auto simp: faults_ok_def)
  then have "ends {} ?P (handleTimeout nd True alloc freed rnd now clk q)"
  proof (rule handleTimeout_ends [OF assms(1,2)])
    fix q1 q2 q3 a
    assume q1: "heap q1 = heap q" "cancelledTimers q1 = []" "isHandlingTimeout q1" "tq_effects q1 = tq_effects q"
      "set (timers q1) = {(w, p) \<in> set (timers q). microSecondsSinceEpoch now < w}"
      and ran: "ran (due now q) (due_actions now q) q1 q2"
      and q3: "reset_loop nd rnd now (due now q) (q2\<lparr>isHandlingTimeout := False\<rparr>) = Inr q3" "tq_inv [] q3"
      and a: "a = (if timers q3 \<noteq> [] \<and> 0 < fst (hd (timers q3))
          then Some (howMuchTimeFromNow clk (Timestamp_new (fst (hd (timers q3))))) else armed q3)"
    have "tq_inv (due now q) (q2\<lparr>isHandlingTimeout := False\<rparr>)" using ran_inv [OF ran] by (simp add: tq_inv_def)
    from reset_loop_spec [OF this, of nd rnd now] q3(1)
    have r: "\<forall>(w, p) \<in> set (due now q). \<forall>t. heap q2 p = Some t \<longrightarrow>
        heap q3 p = (if again (set (cancelledTimers q2)) t p then Some (Timer_reset rnd now t) else None)"
      "set (timers q3) = set (timers q2) \<union> requeued (set (cancelledTimers q2)) rnd now (heap q2) (due now q)"
      "tq_effects q3 = tq_effects q2" by auto
    have es: "set (due now q) = {(w, p) \<in> set (timers q). w \<le> microSecondsSinceEpoch now}" by (auto simp: due_def)
    have live: "\<exists>t. heap q p = Some t \<and> heap q2 p = Some t \<and> (again (set (cancelledTimers q2)) t p \<longleftrightarrow> again ?C t p)"
      if in_due: "(w, p) \<in> set (due now q)" for w p
    proof -
      obtain t where t: "heap q p = Some t" using tq_inv_dest(7) [OF assms(1), of w p] in_due es by auto
      moreover have "(p, tm_sequence t) \<in> set (cancelledTimers q2) \<longleftrightarrow> (p, tm_sequence t) \<in> ?C"
        using ran in_due q1(1-3) t unfolding ran_def by fastforce
      ultimately show ?thesis using ran_heap [OF ran in_due] q1(1) by (simp add: again_def)
    qed
    have "requeued (set (cancelledTimers q2)) rnd now (heap q2) (due now q) = requeued ?C rnd now (heap q) (due now q)"
      unfolding requeued_def using live by fastforce
    moreover have "requeued ?C rnd now (heap q) (due now q) = {(microSecondsSinceEpoch (addTime rnd now (interval t)), p) | w p t.
        (w, p) \<in> set (timers q) \<and> w \<le> microSecondsSinceEpoch now \<and> heap q p = Some t \<and> isRepeated t \<and> (p, tm_sequence t) \<notin> ?C}"
      unfolding requeued_def again_def isRepeated_def es Timer_reset_def by auto
    moreover have "set (timers q2) = {(w, p) \<in> set (timers q). microSecondsSinceEpoch now < w \<and> (p, seq_of (heap q) p) \<notin> ?C}"
      using ran assms(3) q1(1,5) unfolding ran_def by auto
    moreover have "heap q3 p = None" if "(w, p) \<in> set (timers q)" "w \<le> microSecondsSinceEpoch now"
      "\<not> isRepeated (the (heap q p)) \<or> (p, seq_of (heap q) p) \<in> ?C" for w p
      using live [of w p] r(1) that es by (auto simp: again_def)
    moreover have "effects (entry_actions h es) = concat (map (\<lambda>(w, p). effects (timerCallback (the (h p)))) es)" for h es
      by (induction es) (auto simp: entry_actions_def)
    then have "tq_effects q2 = tq_effects q @ concat (map (\<lambda>(w, p). effects (timerCallback (the (heap q p)))) (due now q))"
      using ran q1(1,4) by (simp add: ran_def due_actions_def)
    ultimately show "?P (q3\<lparr>armed := a\<rparr>)"
      using r(2,3) q3(2) a unfolding due_def by (auto simp: tq_inv_def)
  qed
  then show ?thesis by (auto simp: ends_def split: sum.splits)
qed

theorem handleTimeout_expired_witness:
  "\<exists>q'. handleTimeout False True two_cells Inr id (Timestamp_new 5) (Timestamp_new 6) (one_timer [DoT 7, CancelT 8 8]) = Inr q' \<and>
     set (timers q') = {(microSecondsSinceEpoch (addTime id (Timestamp_new 5) 2), 1)} \<and> tq_effects q' = [7]"
proof -
  have d: "due_actions (Timestamp_new 5) (one_timer [DoT 7, CancelT 8 8]) = [DoT 7, CancelT 8 8]"
    by (simp add: due_actions_def due_def one_timer_def entry_actions_def)
  show ?thesis
    using handleTimeout_expired [OF one_timer_inv [of "[DoT 7, CancelT 8 8]"] two_cells_ok, of "Timestamp_new 5", unfolded d, of Inr False id "Timestamp_new 6"]
    by (auto simp: isRepeated_def adds_def one_timer_def split: if_splits)
qed

text \<open>
  C6: \<open>cancelTimerInLoop\<close> outside the handling of a timeout. An identifier whose address
  and sequence number are those of a queued timer removes exactly that timer from both
  sets and deletes it; any other identifier, for instance one of a deleted timer whose
  address is in use again, changes nothing. This holds if the erased set node
  still holds its pointer when \<open>delete it->first\<close> reads it; if that read traps, every
  cancellation of a queued timer does.
\<close>

theorem cancelTimerInLoop_correct:
  assumes "tq_inv [] q" and "\<not> isHandlingTimeout q"
  shows "if (p, sq) \<in> set (activeTimers q)
     then (\<exists>w q'. (w, p) \<in> set (timers q) \<and>
            cancelTimerInLoop nd True Inr \<lparr>tid_timer = p, tid_sequence = sq\<rparr> q = Inr q' \<and> tq_inv [] q' \<and>
            heap q' = (heap q)(p := None) \<and> set (timers q') = set (timers q) - {(w, p)} \<and>
            set (activeTimers q') = set (activeTimers q) - {(p, sq)}) \<and>
          cancelTimerInLoop nd True (\<lambda>_. Inl NullDeref) \<lparr>tid_timer = p, tid_sequence = sq\<rparr> q =
            Inl NullDeref
     else cancelTimerInLoop nd True freed \<lparr>tid_timer = p, tid_sequence = sq\<rparr> q = Inr q"
proof (cases "(p, sq) \<in> set (activeTimers q)")
  case True
  obtain t q' where q': "heap q p = Some t" "tm_sequence t = sq"
    "(microSecondsSinceEpoch (expiration t), p) \<in> set (timers q)"
    "cancelTimerInLoop nd True Inr \<lparr>tid_timer = p, tid_sequence = sq\<rparr> q = Inr q'"
    "tq_inv [] q'" "heap q' = (heap q)(p := None)"
    "set (timers q') = set (timers q) - {(microSecondsSinceEpoch (expiration t), p)}"
    "set (activeTimers q') = set (activeTimers q) - {(p, sq)}"
    "cancelledTimers q' = cancelledTimers q" "isHandlingTimeout q' = isHandlingTimeout q"
    by (rule cancelTimerInLoop_active [OF assms(1) True, of Inr nd]) simp
  have "cancelTimerInLoop nd True (\<lambda>_. Inl NullDeref) \<lparr>tid_timer = p, tid_sequence = sq\<rparr> q = Inl NullDeref"
    using True q'(1,3) tq_sizes [OF assms(1)]
    by (simp add: cancelTimerInLoop_def set_erase_def Let_def)
  with True q' show ?thesis by auto
next
  case False
  then show ?thesis using cancelTimerInLoop_inactive [OF assms(1) False] assms(2) by simp
qed

theorem cancelTimerInLoop_correct_witness:
  "cancelTimerInLoop False True Inr \<lparr>tid_timer = 1, tid_sequence = 7\<rparr>
     (one_timer []) =
   Inr (one_timer [])"
  using cancelTimerInLoop_correct [OF one_timer_inv [of "[]"], of 1 7 False Inr] by (simp add: one_timer_def)

text \<open>
  \<open>addTimer\<close> in the loop's thread puts the new timer into the queue under a sequence
  number that no other of the last \<open>2 ^ 64\<close> timers has, and re-arms the descriptor exactly
  when the new timer is the earliest one; the time it is armed for is at least 100
  microseconds, and its nanosecond part is in the range the kernel accepts.
\<close>

theorem addTimer_arms:
  assumes "tq_inv [] q" and "alloc_ok alloc" and "alloc (heap q) = Some p" and "n < 2 ^ 64"
  shows "\<exists>q'. addTimer nd True alloc clk cb wh i q =
       Inr (\<lparr>tid_timer = p, tid_sequence = sint (counter q + 1)\<rparr>, [], q') \<and> tq_inv [] q' \<and>
     set (timers q') = insert (microSecondsSinceEpoch wh, p) (set (timers q)) \<and>
     distinct (ticks n (counter q)) \<and>
     armed q' = (if \<forall>(w, r) \<in> set (timers q). microSecondsSinceEpoch wh < w
                 then Some (howMuchTimeFromNow clk wh) else armed q) \<and>
     (let (s, ns) = howMuchTimeFromNow clk wh in
        0 \<le> s \<and> 0 \<le> ns \<and> ns < 1000000000 \<and>
        s * 1000000000 + ns = 1000 * max 100 (microSecondsSinceEpoch wh - microSecondsSinceEpoch clk))"
proof -
  note f = alloc_fresh [OF assms(1-3)]
  let ?t = "\<lparr>timerCallback = cb, expiration = wh, interval = i, tm_sequence = sint (counter q + 1)\<rparr>"
  let ?q = "q\<lparr>heap := (heap q)(p \<mapsto> ?t), counter := counter q + 1\<rparr>"
  have new: "Timer_new cb wh i (counter q) = (?t, counter q + 1)"
    by (simp add: Timer_new_def incrementAndGet_eq)
  have "heap ?q p = Some ?t" "p \<notin> snd ` set (timers ?q @ [])" using f(1) by simp_all
  from addTimerInLoop_spec [OF f(4) this, of nd clk] obtain q' where
    q': "addTimerInLoop nd True clk p ?q = Inr q'" "tq_inv [] q'"
    "set (timers q') = insert (microSecondsSinceEpoch wh, p) (set (timers q))"
    "armed q' = (if \<forall>(w, r) \<in> set (timers q). microSecondsSinceEpoch wh < w
                 then Some (howMuchTimeFromNow clk wh) else armed q)" by auto
  define u where "u = max 100 (microSecondsSinceEpoch wh - microSecondsSinceEpoch clk)"
  have u: "100 \<le> u" "howMuchTimeFromNow clk wh = (u div 1000000, u mod 1000000 * 1000)"
    by (simp_all add: u_def howMuchTimeFromNow_def kMicroSecondsPerSecond_def Let_def max_def)
  define x y where "x = u div 1000000" and "y = u mod 1000000"
  have "x * 1000000 + y = u" unfolding x_def y_def by (rule div_mult_mod_eq)
  then have "x * 1000000000 + y * 1000 = 1000 * u" by simp
  then have "let (s, ns) = howMuchTimeFromNow clk wh in
      0 \<le> s \<and> 0 \<le> ns \<and> ns < 1000000000 \<and> s * 1000000000 + ns = 1000 * u"
    using u by (simp add: x_def y_def)
  moreover have "distinct (ticks n (counter q))" using assms(4) by (intro ticks_distinct) simp
  ultimately show ?thesis
    using q' assms(3) by (simp add: addTimer_def new u_def)
qed

theorem addTimer_arms_witness:
  "\<exists>q'. addTimer False True two_cells (Timestamp_new 0) []
      (Timestamp_new 2000000) 0 (TimerQueue_new True) =
      Inr (\<lparr>tid_timer = 1, tid_sequence = 1\<rparr>, [], q') \<and> set (timers q') = {(2000000, 1)}"
  using addTimer_arms [OF TimerQueue_new_inv [of True] two_cells_ok, of 1 0 False "Timestamp_new 0" "[]" "Timestamp_new 2000000" 0]
  by (auto simp: TimerQueue_new_def two_cells_def)

end
