(* ===== verification/Arale_EventLoop.thy ===== *)
theory Arale_EventLoop
  imports Arale_TimerQueue Arale_Channel
begin

section \<open>The event loop (\<open>arale/net/EventLoop.*\<close>)\<close>

text \<open>
  An event loop belongs to the thread that created it. Other threads hand it functors:
  they push onto \<open>pendingFunctors_\<close> under the mutex and then write to an event descriptor,
  which ends the poll. The theory has two views. The operations are functions on the loop's
  state, with functors of any type \<open>'f\<close>; \<open>loop\<close> runs them to completion, given what each poll returns.
  \<open>loop_step\<close> is the interleaving of the loop thread with any number of other threads, in
  the atomic steps of the code: the mutex makes a push one step, and the write that follows
  it is another. The state of the event descriptor is its 64-bit counter: a write adds one and fails when it would reach
  \<open>2^64 - 1\<close>, a read returns and clears it and fails when it is zero (\<open>EFD_NONBLOCK\<close>).
\<close>

definition kPollTimeMs :: int where "kPollTimeMs = 10000"

record 'f EventLoop =
  threadID :: int
  islooping :: bool
  timerQueue :: TimerQueue
  isHandlingPendingFunctors :: bool
  pendingFunctors :: "'f list"
  quit :: bool
  wakeupCount :: nat
  wakeupChannel :: Channel
  errorLog :: "string list"

definition isInLoopThread :: "int \<Rightarrow> 'f EventLoop \<Rightarrow> bool" where
  "isInLoopThread tid l \<longleftrightarrow> threadID l = tid"

definition loop_assertInLoopThread :: "int \<Rightarrow> 'f EventLoop \<Rightarrow> 'a result \<Rightarrow> 'a result" where
  "loop_assertInLoopThread tid l k = (if \<not> isInLoopThread tid l then Inl Fatal else k)"

text \<open>
  \<open>current\<close> is the thread-local \<open>currentThreadEventLoop\<close>, by thread; \<open>this\<close> is the address
  of the new loop. \<open>wakeFd\<close> is what \<open>eventfd\<close> returned.
\<close>

definition EventLoop_new ::
  "int \<Rightarrow> int \<Rightarrow> bool \<Rightarrow> nat \<Rightarrow> (int \<rightharpoonup> nat) \<Rightarrow> ((int \<rightharpoonup> nat) \<times> 'f EventLoop) result" where
  "EventLoop_new tid wakeFd garbage this current =
     (if wakeFd < 0 then Inl Fatal
      else if current tid \<noteq> None then Inl Fatal
      else Inr (current(tid \<mapsto> this),
        \<lparr>threadID = tid, islooping = False, timerQueue = TimerQueue_new garbage,
         isHandlingPendingFunctors = False, pendingFunctors = [], quit = False, wakeupCount = 0,
         wakeupChannel = Channel_interest EnableRead (setReadCallback (Channel_new wakeFd)),
         errorLog = []\<rparr>))"

text \<open>The destructor runs in thread \<open>tid\<close>; the poller's removal of the channel is \<open>rem\<close>.\<close>

definition EventLoop_destroy ::
  "bool \<Rightarrow> int \<Rightarrow> (Channel \<Rightarrow> unit result) \<Rightarrow> (int \<rightharpoonup> nat) \<Rightarrow> 'f EventLoop \<Rightarrow> (int \<rightharpoonup> nat) result" where
  "EventLoop_destroy nd tid rem current l =
     cassert nd (\<not> islooping l)
       (bindR (rem (Channel_unloop (Channel_interest DisableAll (wakeupChannel l)))) (\<lambda>_. Inr (current(tid := None))))"

definition getCurrentEventLoop :: "int \<Rightarrow> (int \<rightharpoonup> nat) \<Rightarrow> nat option" where
  "getCurrentEventLoop tid current = current tid"

text \<open>
  \<open>poller_op\<close> is the poller's \<open>updateChannel\<close> or \<open>removeChannel\<close>; \<open>chLoop\<close> is the loop the
  channel belongs to.
\<close>

definition EventLoop_updateChannel ::
  "bool \<Rightarrow> int \<Rightarrow> nat \<Rightarrow> nat \<Rightarrow> ('p \<Rightarrow> 'p result) \<Rightarrow> 'f EventLoop \<Rightarrow> 'p \<Rightarrow> 'p result" where
  "EventLoop_updateChannel nd tid chLoop this poller_update l p =
     cassert nd (chLoop = this) (loop_assertInLoopThread tid l (poller_update p))"

definition EventLoop_removeChannel ::
  "bool \<Rightarrow> int \<Rightarrow> nat \<Rightarrow> nat \<Rightarrow> ('p \<Rightarrow> 'p result) \<Rightarrow> 'f EventLoop \<Rightarrow> 'p \<Rightarrow> 'p result" where
  "EventLoop_removeChannel nd tid chLoop this poller_remove l p =
     cassert nd (chLoop = this) (loop_assertInLoopThread tid l (poller_remove p))"

subsection \<open>The descriptors\<close>

text \<open>
  What the constructors of the loop and of its timer queue make of the descriptors, given what the system calls returned, and the channel of the timer
  queue from its constructor to its destructor, which leaves the queued timers in the heap.
\<close>

definition creatWeakupFd :: "int \<Rightarrow> int result" where
  "creatWeakupFd evtfd = (if evtfd < 0 then Inl Fatal else Inr evtfd)"

definition createTimerFd :: "int \<Rightarrow> int result" where
  "createTimerFd fd = (if fd < 0 then Inl Fatal else Inr fd)"

definition timerfd_channel :: "int \<Rightarrow> Channel result" where
  "timerfd_channel fd = bindR (createTimerFd fd) (\<lambda>timerfd. Inr (Channel_interest EnableRead (setReadCallback (Channel_new timerfd))))"

definition TimerQueue_destroy :: "(Channel \<Rightarrow> unit result) \<Rightarrow> Channel \<Rightarrow> TimerQueue \<Rightarrow> (Channel \<times> (nat \<rightharpoonup> Timer)) result" where
  "TimerQueue_destroy rem ch q =
     (let ch1 = Channel_unloop (Channel_interest DisableAll ch) in bindR (rem ch1) (\<lambda>_. Inr (ch1, heap q)))"

text \<open>The errors logged when \<open>read\<close> returned \<open>n\<close>.\<close>

definition readTimerfd :: "int \<Rightarrow> string list" where
  "readTimerfd n = (if n \<noteq> 8 then [''TimerQueue::handleRead() reads '' @ sdec n @ '' bytes instead of 8''] else [])"

subsection \<open>Functors and wake-ups\<close>

definition weakup :: "'f EventLoop \<Rightarrow> 'f EventLoop" where
  "weakup l =
     (if wakeupCount l < 2 ^ 64 - 2 then l\<lparr>wakeupCount := wakeupCount l + 1\<rparr>
      else l\<lparr>errorLog := errorLog l @ [''EventLoop::wakeup() writes -1 bytes instead of 8'']\<rparr>)"

definition handleWakeup :: "'f EventLoop \<Rightarrow> 'f EventLoop" where
  "handleWakeup l =
     (if 0 < wakeupCount l then l\<lparr>wakeupCount := 0\<rparr>
      else l\<lparr>errorLog := errorLog l @ [''EventLoop::handleRead() reads -1 bytes instead of 8'']\<rparr>)"

definition push_functor :: "'f \<Rightarrow> 'f EventLoop \<Rightarrow> 'f EventLoop" where
  "push_functor f l = l\<lparr>pendingFunctors := pendingFunctors l @ [f]\<rparr>"

definition postFuntor :: "int \<Rightarrow> 'f \<Rightarrow> 'f EventLoop \<Rightarrow> 'f EventLoop" where
  "postFuntor tid f l =
     (let l1 = push_functor f l
      in if \<not> isInLoopThread tid l1 \<or> isHandlingPendingFunctors l1 then weakup l1 else l1)"

text \<open>\<open>run f\<close> is the effect of calling the functor \<open>f\<close>.\<close>

definition runInLoop ::
  "('f \<Rightarrow> 'f EventLoop \<Rightarrow> 'f EventLoop result) \<Rightarrow> int \<Rightarrow> 'f \<Rightarrow> 'f EventLoop \<Rightarrow> 'f EventLoop result" where
  "runInLoop run tid f l = (if isInLoopThread tid l then run f l else Inr (postFuntor tid f l))"

definition quitLoop :: "int \<Rightarrow> 'f EventLoop \<Rightarrow> 'f EventLoop" where
  "quitLoop tid l =
     (let l1 = l\<lparr>quit := True\<rparr> in if \<not> isInLoopThread tid l1 then weakup l1 else l1)"

fun run_functors ::
  "('f \<Rightarrow> 'f EventLoop \<Rightarrow> 'f EventLoop result) \<Rightarrow> 'f list \<Rightarrow> 'f EventLoop \<Rightarrow> 'f EventLoop result" where
  "run_functors run [] l = Inr l"
| "run_functors run (f # fs) l = bindR (run f l) (run_functors run fs)"

definition doPendingFunctors ::
  "('f \<Rightarrow> 'f EventLoop \<Rightarrow> 'f EventLoop result) \<Rightarrow> int \<Rightarrow> 'f EventLoop \<Rightarrow> 'f EventLoop result" where
  "doPendingFunctors run tid l =
     loop_assertInLoopThread tid l
       (let l1 = l\<lparr>isHandlingPendingFunctors := True\<rparr>; functors = pendingFunctors l1
        in bindR (run_functors run functors (l1\<lparr>pendingFunctors := []\<rparr>))
             (\<lambda>l2. Inr (l2\<lparr>isHandlingPendingFunctors := False\<rparr>)))"

subsection \<open>The loop\<close>

text \<open>
  \<open>polls\<close> lists what the successive polls return, each the handlers of the active channels
  in order. The loop runs until \<open>quit_\<close> is seen; \<open>None\<close> stands for a loop that is still
  waiting in the poll after the last of them.
\<close>

fun handle_active ::
  "('f EventLoop \<Rightarrow> 'f EventLoop result) list \<Rightarrow> 'f EventLoop \<Rightarrow> 'f EventLoop result" where
  "handle_active [] l = Inr l"
| "handle_active (h # hs) l = bindR (h l) (handle_active hs)"

fun loop_while ::
  "('f \<Rightarrow> 'f EventLoop \<Rightarrow> 'f EventLoop result) \<Rightarrow> int \<Rightarrow>
   ('f EventLoop \<Rightarrow> 'f EventLoop result) list list \<Rightarrow> 'f EventLoop \<Rightarrow> 'f EventLoop option result" where
  "loop_while run tid polls l =
     (if quit l then Inr (Some l)
      else case polls of
          [] \<Rightarrow> Inr None
        | activeChannels # polls' \<Rightarrow>
            bindR (handle_active activeChannels l) (\<lambda>l1.
            bindR (doPendingFunctors run tid l1) (loop_while run tid polls')))"

definition loop ::
  "bool \<Rightarrow> ('f \<Rightarrow> 'f EventLoop \<Rightarrow> 'f EventLoop result) \<Rightarrow> int \<Rightarrow>
   ('f EventLoop \<Rightarrow> 'f EventLoop result) list list \<Rightarrow> 'f EventLoop \<Rightarrow> 'f EventLoop option result" where
  "loop nd run tid polls l =
     cassert nd (\<not> islooping l) (loop_assertInLoopThread tid l
       (bindR (loop_while run tid polls (l\<lparr>islooping := True, quit := False\<rparr>))
          (\<lambda>r. Inr (map_option (\<lambda>l'. l'\<lparr>islooping := False\<rparr>) r))))"

declare loop_while.simps [simp del]

subsection \<open>Timers through the loop\<close>

text \<open>
  The timer queue hands its functors to \<open>runInLoop\<close>; \<open>wrap\<close> makes a functor of the loop of
  one of the queue.
\<close>

definition with_timerQueue ::
  "int \<Rightarrow> (tq_functor \<Rightarrow> 'f) \<Rightarrow> 'f EventLoop \<Rightarrow> tq_functor list \<Rightarrow> TimerQueue \<Rightarrow> 'f EventLoop" where
  "with_timerQueue tid wrap l fs q = fold (\<lambda>f. postFuntor tid (wrap f)) fs (l\<lparr>timerQueue := q\<rparr>)"

definition loop_addTimer ::
  "bool \<Rightarrow> int \<Rightarrow> ((nat \<rightharpoonup> Timer) \<Rightarrow> nat option) \<Rightarrow> (tq_functor \<Rightarrow> 'f) \<Rightarrow> Timestamp \<Rightarrow> action list \<Rightarrow> Timestamp \<Rightarrow> rat \<Rightarrow>
   'f EventLoop \<Rightarrow> (TimerID \<times> 'f EventLoop) result" where
  "loop_addTimer nd tid alloc wrap clk cb when i l =
     bindR (addTimer nd (isInLoopThread tid l) alloc clk cb when i (timerQueue l))
       (\<lambda>(ident, fs, q). Inr (ident, with_timerQueue tid wrap l fs q))"

definition runAt ::
  "bool \<Rightarrow> int \<Rightarrow> ((nat \<rightharpoonup> Timer) \<Rightarrow> nat option) \<Rightarrow> (tq_functor \<Rightarrow> 'f) \<Rightarrow> Timestamp \<Rightarrow> Timestamp \<Rightarrow> action list \<Rightarrow>
   'f EventLoop \<Rightarrow> (TimerID \<times> 'f EventLoop) result" where
  "runAt nd tid alloc wrap clk when callback l = loop_addTimer nd tid alloc wrap clk callback when 0 l"

definition runAfter ::
  "bool \<Rightarrow> (rat \<Rightarrow> rat) \<Rightarrow> int \<Rightarrow> ((nat \<rightharpoonup> Timer) \<Rightarrow> nat option) \<Rightarrow> (tq_functor \<Rightarrow> 'f) \<Rightarrow> Timestamp \<Rightarrow> Timestamp \<Rightarrow> rat \<Rightarrow>
   action list \<Rightarrow> 'f EventLoop \<Rightarrow> (TimerID \<times> 'f EventLoop) result" where
  "runAfter nd rnd tid alloc wrap now clk delay callback l =
     runAt nd tid alloc wrap clk (addTime rnd now delay) callback l"

definition runEvery ::
  "bool \<Rightarrow> (rat \<Rightarrow> rat) \<Rightarrow> int \<Rightarrow> ((nat \<rightharpoonup> Timer) \<Rightarrow> nat option) \<Rightarrow> (tq_functor \<Rightarrow> 'f) \<Rightarrow> Timestamp \<Rightarrow> Timestamp \<Rightarrow> rat \<Rightarrow>
   action list \<Rightarrow> 'f EventLoop \<Rightarrow> (TimerID \<times> 'f EventLoop) result" where
  "runEvery nd rnd tid alloc wrap now clk ivl callback l =
     loop_addTimer nd tid alloc wrap clk callback (addTime rnd now ivl) ivl l"

definition loop_cancelTimer ::
  "bool \<Rightarrow> int \<Rightarrow> (nat \<Rightarrow> nat result) \<Rightarrow> (tq_functor \<Rightarrow> 'f) \<Rightarrow> TimerID \<Rightarrow> 'f EventLoop \<Rightarrow> 'f EventLoop result" where
  "loop_cancelTimer nd tid freed wrap timer l =
     bindR (cancelTimer nd (isInLoopThread tid l) freed timer (timerQueue l))
       (\<lambda>(fs, q). Inr (with_timerQueue tid wrap l fs q))"

text \<open>What the functors of the timer queue do when the loop runs them.\<close>

fun run_tq_functor :: "bool \<Rightarrow> int \<Rightarrow> (nat \<Rightarrow> nat result) \<Rightarrow> Timestamp \<Rightarrow> tq_functor \<Rightarrow> 'f EventLoop \<Rightarrow> 'f EventLoop result" where
  "run_tq_functor nd tid freed clk (FAddTimer p) l =
     bindR (addTimerInLoop nd (isInLoopThread tid l) clk p (timerQueue l)) (\<lambda>q. Inr (l\<lparr>timerQueue := q\<rparr>))"
| "run_tq_functor nd tid freed clk (FCancelTimer timer) l =
     bindR (cancelTimerInLoop nd (isInLoopThread tid l) freed timer (timerQueue l)) (\<lambda>q. Inr (l\<lparr>timerQueue := q\<rparr>))"

subsection \<open>The loop among other threads\<close>

text \<open>
  Where the loop thread is: about to test \<open>quit_\<close>, in the poll, calling the handlers of the
  active channels (the flag says whether the wake-up channel is among those still to be called), between the
  two first statements of \<open>doPendingFunctors\<close> and the swap, running the swapped functors,
  or past the loop. \<open>owed\<close> counts the other threads that have pushed a functor or set \<open>quit_\<close> and
  have not yet written to the event descriptor. \<open>posted\<close> and \<open>executed\<close> record the functors
  in the order of their pushes and calls, \<open>swaps\<close> the number of swaps.
\<close>

datatype 'f phase = AtTest | AtPoll | InEvents bool | AtSwap | Draining "'f list" | Stopped

record 'f World =
  el :: "'f EventLoop"
  ph :: "'f phase"
  owed :: nat
  posted :: "'f list"
  executed :: "'f list"
  swaps :: nat

text \<open>
  What a callback or a functor may do to its own loop: post a functor, which is the
  whole of \<open>postFuntor\<close> in the loop's thread, or end the loop.
\<close>

inductive loop_step :: "'f World \<Rightarrow> 'f World \<Rightarrow> bool" where
  other_push: "loop_step w (w\<lparr>el := push_functor f (el w), posted := posted w @ [f], owed := owed w + 1\<rparr>)"
| other_quit: "loop_step w (w\<lparr>el := (el w)\<lparr>quit := True\<rparr>, owed := owed w + 1\<rparr>)"
| other_wake: "0 < owed w \<Longrightarrow> loop_step w (w\<lparr>el := weakup (el w), owed := owed w - 1\<rparr>)"
| test_quit: "ph w = AtTest \<Longrightarrow> quit (el w) \<Longrightarrow>
    loop_step w (w\<lparr>el := (el w)\<lparr>islooping := False\<rparr>, ph := Stopped\<rparr>)"
| test_go: "ph w = AtTest \<Longrightarrow> \<not> quit (el w) \<Longrightarrow> loop_step w (w\<lparr>ph := AtPoll\<rparr>)"
| poll_return: "ph w = AtPoll \<Longrightarrow> woken \<longrightarrow> 0 < wakeupCount (el w) \<Longrightarrow> loop_step w (w\<lparr>ph := InEvents woken\<rparr>)"
| event_wakeup: "ph w = InEvents True \<Longrightarrow>
    loop_step w (w\<lparr>el := handleWakeup (el w), ph := InEvents False\<rparr>)"
| event_post: "ph w = InEvents b \<Longrightarrow>
    loop_step w (w\<lparr>el := postFuntor (threadID (el w)) f (el w), posted := posted w @ [f]\<rparr>)"
| event_quit: "ph w = InEvents b \<Longrightarrow> loop_step w (w\<lparr>el := quitLoop (threadID (el w)) (el w)\<rparr>)"
| events_done: "ph w = InEvents False \<Longrightarrow>
    loop_step w (w\<lparr>el := (el w)\<lparr>isHandlingPendingFunctors := True\<rparr>, ph := AtSwap\<rparr>)"
| swap: "ph w = AtSwap \<Longrightarrow>
    loop_step w (w\<lparr>el := (el w)\<lparr>pendingFunctors := []\<rparr>, ph := Draining (pendingFunctors (el w)), swaps := swaps w + 1\<rparr>)"
| drain_call: "ph w = Draining (f # fs) \<Longrightarrow>
    loop_step w (w\<lparr>ph := Draining fs, executed := executed w @ [f]\<rparr>)"
| drain_post: "ph w = Draining fs \<Longrightarrow>
    loop_step w (w\<lparr>el := postFuntor (threadID (el w)) f (el w), posted := posted w @ [f]\<rparr>)"
| drain_quit: "ph w = Draining fs \<Longrightarrow> loop_step w (w\<lparr>el := quitLoop (threadID (el w)) (el w)\<rparr>)"
| drain_done: "ph w = Draining [] \<Longrightarrow>
    loop_step w (w\<lparr>el := (el w)\<lparr>isHandlingPendingFunctors := False\<rparr>, ph := AtTest\<rparr>)"

text \<open>The world at the first test of \<open>quit_\<close>, for a loop nothing was posted to before.\<close>

definition loop_start :: "'f EventLoop \<Rightarrow> 'f World" where
  "loop_start l =
     \<lparr>el = l\<lparr>islooping := True, quit := False\<rparr>, ph = AtTest, owed = 0, posted = [], executed = [], swaps = 0\<rparr>"

definition fresh_loop :: "'f EventLoop \<Rightarrow> bool" where
  "fresh_loop l \<longleftrightarrow> pendingFunctors l = [] \<and> \<not> isHandlingPendingFunctors l \<and> wakeupCount l < 2 ^ 64 - 1"

abbreviation loop_reach :: "'f World \<Rightarrow> 'f World \<Rightarrow> bool" where
  "loop_reach \<equiv> loop_step\<^sup>*\<^sup>*"

fun draining :: "'f phase \<Rightarrow> 'f list" where
  "draining (Draining fs) = fs"
| "draining _ = []"

subsection \<open>Invariants of the interleaving\<close>

lemma weakup_pos [simp]: "0 < wakeupCount (weakup l)"
  by (simp add: weakup_def)

lemma weakup_fields [simp]:
  "pendingFunctors (weakup l) = pendingFunctors l" "quit (weakup l) = quit l"
  "isHandlingPendingFunctors (weakup l) = isHandlingPendingFunctors l" "threadID (weakup l) = threadID l"
  "islooping (weakup l) = islooping l" "timerQueue (weakup l) = timerQueue l"
  by (simp_all add: weakup_def)

lemma handleWakeup_fields [simp]:
  "pendingFunctors (handleWakeup l) = pendingFunctors l" "quit (handleWakeup l) = quit l"
  "isHandlingPendingFunctors (handleWakeup l) = isHandlingPendingFunctors l" "threadID (handleWakeup l) = threadID l"
  by (simp_all add: handleWakeup_def)

lemma push_functor_fields [simp]:
  "pendingFunctors (push_functor f l) = pendingFunctors l @ [f]" "quit (push_functor f l) = quit l"
  "isHandlingPendingFunctors (push_functor f l) = isHandlingPendingFunctors l"
  "wakeupCount (push_functor f l) = wakeupCount l" "threadID (push_functor f l) = threadID l"
  "timerQueue (push_functor f l) = timerQueue l"
  by (simp_all add: push_functor_def)

lemma postFuntor_other: "tid \<noteq> threadID l \<Longrightarrow> postFuntor tid f l = weakup (push_functor f l)"
  by (simp add: postFuntor_def isInLoopThread_def)

lemma quitLoop_other: "tid \<noteq> threadID l \<Longrightarrow> quitLoop tid l = weakup (l\<lparr>quit := True\<rparr>)"
  by (simp add: quitLoop_def isInLoopThread_def)

lemma postFuntor_own:
  "postFuntor (threadID l) f l = (if isHandlingPendingFunctors l then weakup (push_functor f l) else push_functor f l)"
  by (simp add: postFuntor_def isInLoopThread_def)

lemma quitLoop_own [simp]: "quitLoop (threadID l) l = l\<lparr>quit := True\<rparr>"
  by (simp add: quitLoop_def isInLoopThread_def)

lemma postFuntor_pending [simp]: "pendingFunctors (postFuntor tid f l) = pendingFunctors l @ [f]"
  by (simp add: postFuntor_def Let_def)

definition wake_inv :: "'f World \<Rightarrow> bool" where
  "wake_inv w \<longleftrightarrow>
     (case ph w of
        AtTest \<Rightarrow> \<not> isHandlingPendingFunctors (el w) \<and> (pendingFunctors (el w) \<noteq> [] \<longrightarrow> 0 < wakeupCount (el w) \<or> 0 < owed w)
      | AtPoll \<Rightarrow> \<not> isHandlingPendingFunctors (el w) \<and>
          (pendingFunctors (el w) \<noteq> [] \<or> quit (el w) \<longrightarrow> 0 < wakeupCount (el w) \<or> 0 < owed w)
      | InEvents b \<Rightarrow> \<not> isHandlingPendingFunctors (el w)
      | AtSwap \<Rightarrow> isHandlingPendingFunctors (el w)
      | Draining fs \<Rightarrow> isHandlingPendingFunctors (el w) \<and> (pendingFunctors (el w) \<noteq> [] \<longrightarrow> 0 < wakeupCount (el w) \<or> 0 < owed w)
      | Stopped \<Rightarrow> True)"

lemma wake_inv_step: "loop_step w w' \<Longrightarrow> wake_inv w \<Longrightarrow> wake_inv w'"
  by (induction rule: loop_step.induct)
    (auto simp: wake_inv_def postFuntor_own split: phase.splits)

definition fifo_inv :: "'f World \<Rightarrow> bool" where
  "fifo_inv w \<longleftrightarrow> posted w = executed w @ draining (ph w) @ pendingFunctors (el w)"

lemma fifo_inv_step: "loop_step w w' \<Longrightarrow> fifo_inv w \<Longrightarrow> fifo_inv w'"
  by (induction rule: loop_step.induct) (simp_all add: fifo_inv_def)

lemma loop_reach_inv:
  assumes "loop_reach w w'" "wake_inv w" "fifo_inv w"
  shows "wake_inv w' \<and> fifo_inv w'"
  using assms by (induction rule: rtranclp_induct) (auto intro: wake_inv_step fifo_inv_step)

lemma loop_start_inv: "fresh_loop l \<Longrightarrow> wake_inv (loop_start l) \<and> fifo_inv (loop_start l)"
  by (simp add: fresh_loop_def loop_start_def wake_inv_def fifo_inv_def)

lemma loop_step_mono:
  "loop_step w w' \<Longrightarrow>
     swaps w \<le> swaps w' \<and> (\<exists>xs. posted w' = posted w @ xs) \<and>
     length (executed w) + length (draining (ph w)) \<le> length (executed w') + length (draining (ph w'))"
  by (induction rule: loop_step.induct) auto

lemma swap_takes_all:
  assumes "loop_step w w'" "fifo_inv w" "swaps w < swaps w'"
  shows "posted w = executed w' @ draining (ph w')"
  using assms by (induction rule: loop_step.induct) (simp_all add: fifo_inv_def)

lemma drained_after_swap:
  assumes "loop_reach w w'" "fifo_inv w" "swaps w < swaps w'"
  shows "length (posted w) \<le> length (executed w') + length (draining (ph w'))"
  using assms
proof (induction rule: rtranclp_induct)
  case (step y z)
  have mono: "\<exists>xs. posted y = posted w @ xs"
    using step.hyps(1) by (induction rule: rtranclp_induct) (auto dest: loop_step_mono)
  have fy: "fifo_inv y"
    using step.hyps(1) step.prems(1) by (induction rule: rtranclp_induct) (auto intro: fifo_inv_step)
  show ?case
  proof (cases "swaps w < swaps y")
    case True
    with step show ?thesis using loop_step_mono [OF step.hyps(2)] by fastforce
  next
    case False
    with step.prems have "swaps y < swaps z" by simp
    from swap_takes_all [OF step.hyps(2) fy this] mono
    obtain xs where "executed z @ draining (ph z) = posted w @ xs" by auto
    then have "length (executed z @ draining (ph z)) = length (posted w @ xs)" by (rule arg_cong)
    then show ?thesis by simp
  qed
qed simp

lemma loop_reach_posted: "loop_reach w w' \<Longrightarrow> \<exists>xs. posted w' = posted w @ xs"
  by (induction rule: rtranclp_induct) (auto dest: loop_step_mono)

subsection \<open>The sequential loop is one of the interleavings\<close>

datatype 'f act = APost 'f | AQuit

fun run_act :: "int \<Rightarrow> 'f act \<Rightarrow> 'f EventLoop \<Rightarrow> 'f EventLoop" where
  "run_act tid (APost f) l = postFuntor tid f l"
| "run_act tid AQuit l = quitLoop tid l"

definition run_acts :: "int \<Rightarrow> 'f act list \<Rightarrow> 'f EventLoop \<Rightarrow> 'f EventLoop" where
  "run_acts tid as l = fold (run_act tid) as l"

text \<open>The active channels of one poll: the wake-up channel when its descriptor is readable, and channels with callbacks.\<close>

definition active_of :: "int \<Rightarrow> 'f act list list \<Rightarrow> ('f EventLoop \<Rightarrow> 'f EventLoop result) list" where
  "active_of tid cbs =
     (\<lambda>l. Inr (if 0 < wakeupCount l then handleWakeup l else l)) # map (\<lambda>as l. Inr (run_acts tid as l)) cbs"

lemma run_acts_thread [simp]: "threadID (run_acts tid as l) = threadID l"
proof (induction as arbitrary: l)
  case (Cons a as)
  moreover have "threadID (run_act tid a l) = threadID l"
    by (cases a) (simp_all add: postFuntor_def quitLoop_def Let_def)
  ultimately show ?case by (simp add: run_acts_def)
qed (simp add: run_acts_def)

lemma acts_steps:
  assumes "\<And>u f. ph u = p \<Longrightarrow> loop_step u (u\<lparr>el := postFuntor (threadID (el u)) f (el u), posted := posted u @ [f]\<rparr>)"
    and "\<And>u. ph u = p \<Longrightarrow> loop_step u (u\<lparr>el := quitLoop (threadID (el u)) (el u)\<rparr>)"
    and "ph w = p"
  shows "\<exists>w'. loop_reach w w' \<and> ph w' = p \<and> el w' = run_acts (threadID (el w)) as (el w)"
  using assms(3)
proof (induction as arbitrary: w)
  case Nil
  then show ?case by (auto simp: run_acts_def)
next
  case (Cons a as)
  obtain w1 where w1: "loop_step w w1" "ph w1 = p" "el w1 = run_act (threadID (el w)) a (el w)"
  proof (cases a)
    case (APost f)
    show ?thesis by (rule that [OF assms(1) [OF Cons.prems, of f]]) (simp_all add: APost Cons.prems)
  next
    case AQuit
    show ?thesis by (rule that [OF assms(2) [OF Cons.prems]]) (simp_all add: AQuit Cons.prems)
  qed
  have "threadID (el w1) = threadID (el w)"
    using run_acts_thread [of "threadID (el w)" "[a]" "el w"] w1(3) by (simp add: run_acts_def)
  moreover obtain w2 where "loop_reach w1 w2" "ph w2 = p" "el w2 = run_acts (threadID (el w1)) as (el w1)"
    using Cons.IH [OF w1(2)] by blast
  ultimately have "loop_reach w w2 \<and> ph w2 = p \<and> el w2 = run_acts (threadID (el w)) (a # as) (el w)"
    using w1 converse_rtranclp_into_rtranclp [of loop_step, OF w1(1)] by (simp add: run_acts_def)
  then show ?case by blast
qed

lemma event_acts_steps:
  "ph w = InEvents b \<Longrightarrow>
     \<exists>w'. loop_reach w w' \<and> ph w' = InEvents b \<and> el w' = run_acts (threadID (el w)) as (el w)"
  by (rule acts_steps [OF event_post event_quit])

lemma drain_acts_steps:
  "ph w = Draining fs \<Longrightarrow>
     \<exists>w'. loop_reach w w' \<and> ph w' = Draining fs \<and> el w' = run_acts (threadID (el w)) as (el w)"
  by (rule acts_steps [OF drain_post drain_quit])

lemma callbacks_steps:
  assumes "ph w = InEvents False"
  shows "\<exists>w' l'. handle_active (map (\<lambda>as l. Inr (run_acts (threadID (el w)) as l)) cbs) (el w) = Inr l' \<and>
     loop_reach w w' \<and> ph w' = InEvents False \<and> el w' = l' \<and> threadID l' = threadID (el w)"
  using assms
proof (induction cbs arbitrary: w)
  case (Cons as cbs)
  obtain w1 where w1: "loop_reach w w1" "ph w1 = InEvents False" "el w1 = run_acts (threadID (el w)) as (el w)"
    using event_acts_steps [OF Cons.prems, of as] by blast
  have t: "threadID (el w1) = threadID (el w)" using w1 by simp
  obtain w2 where "handle_active (map (\<lambda>as l. Inr (run_acts (threadID (el w)) as l)) cbs) (el w1) = Inr (el w2)"
    "loop_reach w1 w2" "ph w2 = InEvents False" "threadID (el w2) = threadID (el w)"
    using Cons.IH [OF w1(2)] t by auto
  moreover from this(2) have "loop_reach w w2" using w1(1) by (rule rtranclp_trans [rotated])
  ultimately show ?case using w1(3) by auto
qed auto

lemma drain_steps:
  assumes "ph w = Draining fs"
  shows "\<exists>w' l'. run_functors (\<lambda>f l. Inr (run_acts (threadID (el w)) (prog f) l)) fs (el w) = Inr l' \<and>
     loop_reach w w' \<and> ph w' = Draining [] \<and> el w' = l' \<and> threadID l' = threadID (el w)"
  using assms
proof (induction fs arbitrary: w)
  case (Cons f fs)
  define w0 where "w0 = w\<lparr>ph := Draining fs, executed := executed w @ [f]\<rparr>"
  have w0: "loop_step w w0" "ph w0 = Draining fs" "el w0 = el w"
    using drain_call [OF Cons.prems] by (simp_all add: w0_def)
  obtain w1 where w1: "loop_reach w0 w1" "ph w1 = Draining fs" "el w1 = run_acts (threadID (el w)) (prog f) (el w)"
    using drain_acts_steps [OF w0(2), of "prog f"] w0(3) by auto
  have t: "threadID (el w1) = threadID (el w)" using w1 by simp
  obtain w2 where "run_functors (\<lambda>f l. Inr (run_acts (threadID (el w)) (prog f) l)) fs (el w1) = Inr (el w2)"
    "loop_reach w1 w2" "ph w2 = Draining []" "threadID (el w2) = threadID (el w)"
    using Cons.IH [OF w1(2)] t by auto
  moreover from this(2) have "loop_reach w w2"
    using w1(1) w0(1) by (meson converse_rtranclp_into_rtranclp rtranclp_trans)
  ultimately show ?case using w1(3) by auto
qed auto

lemma iteration_steps:
  assumes "ph w = AtTest" "\<not> quit (el w)" and run: "run = (\<lambda>f l. Inr (run_acts (threadID (el w)) (prog f) l))"
  shows "\<exists>w' l1. handle_active (active_of (threadID (el w)) cbs) (el w) = Inr l1 \<and>
     doPendingFunctors run (threadID (el w)) l1 = Inr (el w') \<and>
     loop_reach w w' \<and> ph w' = AtTest \<and> threadID (el w') = threadID (el w)"
proof -
  let ?t = "threadID (el w)"
  obtain w1 where w1: "loop_reach w w1" "ph w1 = InEvents False" "threadID (el w1) = ?t"
    "el w1 = (if 0 < wakeupCount (el w) then handleWakeup (el w) else el w)"
  proof (cases "0 < wakeupCount (el w)")
    case True
    have "loop_reach w (w\<lparr>ph := AtPoll\<rparr>)" using test_go [OF assms(1,2)] by auto
    moreover have "loop_step (w\<lparr>ph := AtPoll\<rparr>) (w\<lparr>ph := InEvents True\<rparr>)"
      using poll_return [of "w\<lparr>ph := AtPoll\<rparr>" True] True by simp
    moreover have "loop_step (w\<lparr>ph := InEvents True\<rparr>) (w\<lparr>el := handleWakeup (el w), ph := InEvents False\<rparr>)"
      using event_wakeup [of "w\<lparr>ph := InEvents True\<rparr>"] by simp
    ultimately have "loop_reach w (w\<lparr>el := handleWakeup (el w), ph := InEvents False\<rparr>)"
      by (meson rtranclp.rtrancl_into_rtrancl)
    then show ?thesis by (rule that) (simp_all add: True)
  next
    case False
    have "loop_reach w (w\<lparr>ph := AtPoll\<rparr>)" using test_go [OF assms(1,2)] by auto
    moreover have "loop_step (w\<lparr>ph := AtPoll\<rparr>) (w\<lparr>ph := InEvents False\<rparr>)"
      using poll_return [of "w\<lparr>ph := AtPoll\<rparr>" False] by simp
    ultimately have "loop_reach w (w\<lparr>ph := InEvents False\<rparr>)"
      by (meson rtranclp.rtrancl_into_rtrancl)
    then show ?thesis by (rule that) (use False in simp_all)
  qed
  obtain w2 where w2: "handle_active (map (\<lambda>as l. Inr (run_acts ?t as l)) cbs) (el w1) = Inr (el w2)"
    "loop_reach w1 w2" "ph w2 = InEvents False" "threadID (el w2) = ?t"
    using callbacks_steps [OF w1(2), of cbs] w1(3) by auto
  define w4 where "w4 = w2\<lparr>el := (el w2)\<lparr>isHandlingPendingFunctors := True, pendingFunctors := []\<rparr>,
     ph := Draining (pendingFunctors (el w2)), swaps := swaps w2 + 1\<rparr>"
  have "loop_step w2 (w2\<lparr>el := (el w2)\<lparr>isHandlingPendingFunctors := True\<rparr>, ph := AtSwap\<rparr>)"
    by (rule events_done [OF w2(3)])
  moreover have "loop_step (w2\<lparr>el := (el w2)\<lparr>isHandlingPendingFunctors := True\<rparr>, ph := AtSwap\<rparr>) w4"
    using swap [of "w2\<lparr>el := (el w2)\<lparr>isHandlingPendingFunctors := True\<rparr>, ph := AtSwap\<rparr>"] by (simp add: w4_def)
  ultimately have w4: "loop_reach w2 w4" "ph w4 = Draining (pendingFunctors (el w2))" "threadID (el w4) = ?t"
    "el w4 = (el w2)\<lparr>isHandlingPendingFunctors := True, pendingFunctors := []\<rparr>"
    using w2(4) by (auto simp: w4_def intro: converse_rtranclp_into_rtranclp)
  obtain w5 where w5: "run_functors run (pendingFunctors (el w2)) (el w4) = Inr (el w5)"
    "loop_reach w4 w5" "ph w5 = Draining []" "threadID (el w5) = ?t"
    using drain_steps [OF w4(2), of prog] w4(3) run by auto
  define w6 where "w6 = w5\<lparr>el := (el w5)\<lparr>isHandlingPendingFunctors := False\<rparr>, ph := AtTest\<rparr>"
  have "loop_step w5 w6" unfolding w6_def by (rule drain_done [OF w5(3)])
  with w1(1) w2(2) w4(1) w5(2) have "loop_reach w w6" by (meson rtranclp.rtrancl_into_rtrancl rtranclp_trans)
  moreover have "handle_active (active_of ?t cbs) (el w) = Inr (el w2)"
    using w2(1) w1(4) by (simp add: active_of_def)
  moreover have "doPendingFunctors run ?t (el w2) = Inr (el w6)"
    using w5(1) w2(4) by (simp add: doPendingFunctors_def loop_assertInLoopThread_def isInLoopThread_def w4(4) w6_def)
  moreover have "ph w6 = AtTest" "threadID (el w6) = ?t" using w5(4) by (simp_all add: w6_def)
  ultimately show ?thesis by blast
qed

lemma loop_while_steps:
  assumes "ph w = AtTest" and run: "run = (\<lambda>f l. Inr (run_acts (threadID (el w)) (prog f) l))"
  shows "\<exists>w' r. loop_while run (threadID (el w)) (map (active_of (threadID (el w))) cbss) (el w) = Inr r \<and>
     loop_reach w w' \<and> threadID (el w') = threadID (el w) \<and>
     (case r of None \<Rightarrow> ph w' = AtPoll | Some l \<Rightarrow> ph w' = Stopped \<and> el w' = l\<lparr>islooping := False\<rparr>)"
  using assms
proof (induction cbss arbitrary: w)
  case Nil
  show ?case
  proof (cases "quit (el w)")
    case True
    show ?thesis
      by (rule exI [of _ "w\<lparr>el := (el w)\<lparr>islooping := False\<rparr>, ph := Stopped\<rparr>"], rule exI [of _ "Some (el w)"])
        (use True test_quit [OF Nil(1) True] in \<open>simp add: loop_while.simps r_into_rtranclp\<close>)
  next
    case False
    show ?thesis
      by (rule exI [of _ "w\<lparr>ph := AtPoll\<rparr>"], rule exI [of _ None])
        (use False test_go [OF Nil(1) False] in \<open>simp add: loop_while.simps r_into_rtranclp\<close>)
  qed
next
  case (Cons cbs cbss)
  show ?case
  proof (cases "quit (el w)")
    case True
    show ?thesis
      by (rule exI [of _ "w\<lparr>el := (el w)\<lparr>islooping := False\<rparr>, ph := Stopped\<rparr>"], rule exI [of _ "Some (el w)"])
        (use True test_quit [OF Cons(2) True] in \<open>simp add: loop_while.simps r_into_rtranclp\<close>)
  next
    case False
    obtain w1 l1 where w1: "handle_active (active_of (threadID (el w)) cbs) (el w) = Inr l1"
      "doPendingFunctors run (threadID (el w)) l1 = Inr (el w1)" "loop_reach w w1" "ph w1 = AtTest"
      "threadID (el w1) = threadID (el w)"
      using iteration_steps [OF Cons(2) False Cons(3), of cbs] by auto
    with Cons.IH [OF w1(4)] Cons(3) obtain w' r where
      "loop_while run (threadID (el w)) (map (active_of (threadID (el w))) cbss) (el w1) = Inr r"
      "loop_reach w1 w'" "threadID (el w') = threadID (el w)"
      "case r of None \<Rightarrow> ph w' = AtPoll | Some l \<Rightarrow> ph w' = Stopped \<and> el w' = l\<lparr>islooping := False\<rparr>"
      by auto
    moreover from this(2) have "loop_reach w w'" using w1(3) by (rule rtranclp_trans [rotated])
    moreover have "loop_while run (threadID (el w)) (map (active_of (threadID (el w))) (cbs # cbss)) (el w) =
        loop_while run (threadID (el w)) (map (active_of (threadID (el w))) cbss) (el w1)"
      using False w1(1,2) by (simp add: loop_while.simps [of run "threadID (el w)" "_ # _"])
    ultimately show ?thesis by auto
  qed
qed

subsection \<open>Properties of the event loop\<close>

text \<open>
  C1: no wake-up is lost. However the loop thread and the other threads interleave, whenever the
  loop thread is in the poll while functors are pending or \<open>quit_\<close> is set, the event
  descriptor is readable, so that the poll returns at once, or some thread is about to make it readable.
\<close>

theorem no_lost_wakeup:
  assumes "fresh_loop l" "loop_reach (loop_start l) w" "ph w = AtPoll"
    and "pendingFunctors (el w) \<noteq> [] \<or> quit (el w)"
  shows "0 < wakeupCount (el w) \<or> 0 < owed w"
  using loop_reach_inv [OF assms(2)] loop_start_inv [OF assms(1)] assms(3,4) by (auto simp: wake_inv_def)

definition sample_loop :: "nat EventLoop" where
  "sample_loop =
     \<lparr>threadID = 7, islooping = False, timerQueue = TimerQueue_new False,
      isHandlingPendingFunctors = False, pendingFunctors = [], quit = False, wakeupCount = 0,
      wakeupChannel = Channel_interest EnableRead (setReadCallback (Channel_new 4)), errorLog = []\<rparr>"

lemma sample_fresh: "fresh_loop sample_loop"
  by (simp add: fresh_loop_def sample_loop_def)

lemma sample_push:
  "loop_reach (loop_start sample_loop) ((loop_start sample_loop)\<lparr>ph := AtPoll\<rparr>)"
  "loop_reach (loop_start sample_loop)
     ((loop_start sample_loop)\<lparr>ph := AtPoll, el := push_functor 5 (el (loop_start sample_loop)), posted := [5], owed := 1\<rparr>)"
proof -
  let ?w = "loop_start sample_loop"
  show 1: "loop_reach ?w (?w\<lparr>ph := AtPoll\<rparr>)"
    using test_go [of ?w] by (auto simp: loop_start_def)
  have "loop_step (?w\<lparr>ph := AtPoll\<rparr>) (?w\<lparr>ph := AtPoll, el := push_functor 5 (el ?w), posted := [5], owed := 1\<rparr>)"
    using other_push [of "?w\<lparr>ph := AtPoll\<rparr>" 5] by (simp add: loop_start_def)
  with 1 show "loop_reach ?w (?w\<lparr>ph := AtPoll, el := push_functor 5 (el ?w), posted := [5], owed := 1\<rparr>)"
    by (rule rtranclp.rtrancl_into_rtrancl)
qed

theorem no_lost_wakeup_witness:
  "let w = (loop_start sample_loop)\<lparr>ph := AtPoll, el := push_functor 5 (el (loop_start sample_loop)), posted := [5], owed := 1\<rparr>
   in 0 < wakeupCount (el w) \<or> 0 < owed w"
  using no_lost_wakeup [OF sample_fresh sample_push(2)] by simp

text \<open>
  C2: every functor posted to the loop, by whatever thread, is called exactly once and in the order of
  the posts. At any later moment when the loop has swapped the pending functors again and is not running any, all functors
  posted up to the earlier moment have been called, and what has been posted in all is what has
  been called followed by what is pending.
\<close>

theorem functors_called_once_in_order:
  assumes "fresh_loop l" "loop_reach (loop_start l) w" "loop_reach w w'"
    and "swaps w < swaps w'" "draining (ph w') = []"
  shows "(\<exists>later. executed w' = posted w @ later) \<and> posted w' = executed w' @ pendingFunctors (el w')"
proof -
  have f: "fifo_inv w" "fifo_inv w'"
    using loop_start_inv [OF assms(1)] assms(2,3) by (auto dest: loop_reach_inv)
  from f(2) assms(5) have all: "posted w' = executed w' @ pendingFunctors (el w')"
    by (simp add: fifo_inv_def)
  obtain xs where "posted w' = posted w @ xs" using loop_reach_posted [OF assms(3)] by blast
  with all have "executed w' @ pendingFunctors (el w') = posted w @ xs" by simp
  moreover have "length (posted w) \<le> length (executed w')"
    using drained_after_swap [OF assms(3) f(1) assms(4)] assms(5) by simp
  ultimately have "take (length (posted w)) (executed w') = posted w"
    by (metis append_eq_conv_conj take_append diff_is_0_eq take_0 append_Nil2)
  then have "\<exists>later. executed w' = posted w @ later" by (metis append_take_drop_id)
  with all show ?thesis by blast
qed

lemma sample_drain:
  assumes "ph w = AtPoll" "pendingFunctors (el w) = [f]"
  shows "\<exists>w'. loop_reach w w' \<and> ph w' = AtTest \<and> executed w' = executed w @ [f] \<and> swaps w < swaps w'"
proof -
  define w2 where "w2 = w\<lparr>ph := InEvents False\<rparr>"
  define w3 where "w3 = w2\<lparr>el := (el w2)\<lparr>isHandlingPendingFunctors := True\<rparr>, ph := AtSwap\<rparr>"
  define w4 where "w4 = w3\<lparr>el := (el w3)\<lparr>pendingFunctors := []\<rparr>, ph := Draining (pendingFunctors (el w3)), swaps := swaps w3 + 1\<rparr>"
  define w5 where "w5 = w4\<lparr>ph := Draining [], executed := executed w4 @ [f]\<rparr>"
  define w6 where "w6 = w5\<lparr>el := (el w5)\<lparr>isHandlingPendingFunctors := False\<rparr>, ph := AtTest\<rparr>"
  have "loop_step w w2" unfolding w2_def by (rule poll_return) (simp_all add: assms)
  moreover have "loop_step w2 w3" unfolding w3_def by (rule events_done) (simp add: w2_def)
  moreover have "loop_step w3 w4" unfolding w4_def by (rule swap) (simp add: w3_def)
  moreover have "loop_step w4 w5" unfolding w5_def by (rule drain_call) (simp add: w4_def w3_def w2_def assms)
  moreover have "loop_step w5 w6" unfolding w6_def by (rule drain_done) (simp add: w5_def)
  ultimately have "loop_reach w w6" by (meson r_into_rtranclp rtranclp_trans)
  moreover have "ph w6 = AtTest" "executed w6 = executed w @ [f]" "swaps w < swaps w6"
    by (simp_all add: w6_def w5_def w4_def w3_def w2_def)
  ultimately show ?thesis by blast
qed

theorem functors_called_once_in_order_witness:
  "\<exists>w'. executed w' = [5 :: nat] \<and> posted w' = executed w' @ pendingFunctors (el w') \<and>
     loop_reach (loop_start sample_loop) w'"
proof -
  let ?w = "(loop_start sample_loop)\<lparr>ph := AtPoll, el := push_functor 5 (el (loop_start sample_loop)), posted := [5], owed := 1\<rparr>"
  obtain v where v: "loop_reach ?w v" "ph v = AtTest" "executed v = [5]" "swaps ?w < swaps v"
    using sample_drain [of ?w 5] by (auto simp: loop_start_def sample_loop_def)
  have "posted v = executed v @ pendingFunctors (el v)"
    using functors_called_once_in_order [OF sample_fresh sample_push(2) v(1,4)] v(2) by simp
  then show ?thesis using v(3) rtranclp_trans [OF sample_push(2) v(1)] by blast
qed

text \<open>
  C3: the loop runs as the interleaving without other threads. With callbacks and functors that post functors or quit,
  whatever the polls return, \<open>loop()\<close> fails no check; it ends in a state the step
  relation reaches, past the loop when \<open>quit_\<close> was seen, and waiting in the poll otherwise.
\<close>

theorem loop_is_an_interleaving:
  assumes "\<not> islooping l"
  shows "\<exists>r w'. loop nd (\<lambda>f l'. Inr (run_acts (threadID l) (prog f) l')) (threadID l)
       (map (active_of (threadID l)) cbss) l = Inr r \<and>
     loop_reach (loop_start l) w' \<and>
     (case r of None \<Rightarrow> ph w' = AtPoll | Some l' \<Rightarrow> ph w' = Stopped \<and> el w' = l')"
proof -
  let ?run = "\<lambda>f l'. Inr (run_acts (threadID l) (prog f) l')"
  have "ph (loop_start l) = AtTest" "threadID (el (loop_start l)) = threadID l" by (simp_all add: loop_start_def)
  with loop_while_steps [of "loop_start l" ?run prog cbss]
  obtain w' r where r: "loop_while ?run (threadID l) (map (active_of (threadID l)) cbss) (el (loop_start l)) = Inr r"
    "loop_reach (loop_start l) w'"
    "case r of None \<Rightarrow> ph w' = AtPoll | Some l \<Rightarrow> ph w' = Stopped \<and> el w' = l\<lparr>islooping := False\<rparr>"
    by auto
  have "loop nd ?run (threadID l) (map (active_of (threadID l)) cbss) l =
      Inr (map_option (\<lambda>l'. l'\<lparr>islooping := False\<rparr>) r)"
    using r(1) assms by (simp add: loop_def loop_assertInLoopThread_def isInLoopThread_def loop_start_def)
  with r(2,3) show ?thesis by (intro exI [of _ "map_option (\<lambda>l'. l'\<lparr>islooping := False\<rparr>) r"] exI [of _ w'])
    (auto split: option.splits)
qed

theorem loop_is_an_interleaving_witness:
  "\<exists>r w'. loop False (\<lambda>f l'. Inr (run_acts 7 [AQuit] l')) 7 (map (active_of 7) [[[APost 3]], []]) sample_loop = Inr r \<and>
     loop_reach (loop_start sample_loop) w' \<and>
     (case r of None \<Rightarrow> ph w' = AtPoll | Some l' \<Rightarrow> ph w' = Stopped \<and> el w' = l')"
  using loop_is_an_interleaving [of sample_loop False "\<lambda>f. [AQuit]" "[[[APost 3]], []]"]
  by (simp add: sample_loop_def)

text \<open>
  A \<open>quitLoop()\<close> that comes before \<open>loop()\<close> has no effect: \<open>loop()\<close> clears \<open>quit_\<close> first, so the loop runs
  as if it had never been asked to end.
\<close>

theorem quit_before_loop_is_lost:
  assumes "isInLoopThread tid l"
  shows "loop nd run tid polls (quitLoop tid l) = loop nd run tid polls l"
  using assms by (simp add: loop_def quitLoop_def isInLoopThread_def loop_assertInLoopThread_def)

theorem quit_before_loop_is_lost_witness:
  "loop False (\<lambda>f l. Inr l) 7 [[]] (quitLoop 7 sample_loop) = Inr None"
  using quit_before_loop_is_lost [of 7 sample_loop False "\<lambda>f l. Inr l" "[[]]"]
  by (simp add: sample_loop_def isInLoopThread_def loop_def loop_assertInLoopThread_def loop_while.simps
      doPendingFunctors_def)

text \<open>
  A timer added from another thread. The caller gets the timer's identifier at once and leaves the
  ordered sets of the queue alone: one functor is posted and the loop is woken. When the loop
  runs the functor, in any state with the queue as the caller left it, the queue becomes what adding the timer in the loop's
  thread at that time makes of it.
\<close>

theorem addTimer_from_other_thread:
  assumes "tid \<noteq> threadID l" "loop_addTimer nd tid alloc wrap clk cb expiry i l = Inr (ident, l1)"
    and "timerQueue l2 = timerQueue l1"
  shows "pendingFunctors l1 = pendingFunctors l @ [wrap (FAddTimer (tid_timer ident))] \<and> 0 < wakeupCount l1 \<and>
     timers (timerQueue l1) = timers (timerQueue l) \<and> activeTimers (timerQueue l1) = activeTimers (timerQueue l) \<and>
     run_tq_functor nd (threadID l2) freed clk' (FAddTimer (tid_timer ident)) l2 =
       bindR (addTimer nd True alloc clk' cb expiry i (timerQueue l)) (\<lambda>(ident', fs, q). Inr (l2\<lparr>timerQueue := q\<rparr>))"
proof -
  have "alloc (heap (timerQueue l)) \<noteq> None"
    using assms(2) by (auto simp: loop_addTimer_def addTimer_def split: option.splits)
  then obtain p where p: "alloc (heap (timerQueue l)) = Some p" by blast
  obtain t cnt where t: "Timer_new cb expiry i (counter (timerQueue l)) = (t, cnt)" by (cases "Timer_new cb expiry i (counter (timerQueue l))")
  let ?q = "(timerQueue l)\<lparr>heap := (heap (timerQueue l))(p \<mapsto> t), counter := cnt\<rparr>"
  have e: "ident = \<lparr>tid_timer = p, tid_sequence = tm_sequence t\<rparr>"
    "l1 = postFuntor tid (wrap (FAddTimer p)) (l\<lparr>timerQueue := ?q\<rparr>)"
    using assms(1,2) p t by (auto simp: loop_addTimer_def addTimer_def isInLoopThread_def with_timerQueue_def)
  have q: "timerQueue l1 = ?q" "0 < wakeupCount l1"
    using assms(1) by (simp_all add: e(2) postFuntor_other)
  have "addTimer nd True alloc clk' cb expiry i (timerQueue l) =
      bindR (addTimerInLoop nd True clk' p ?q) (\<lambda>q2. Inr (ident, [], q2))"
    using p t e(1) by (simp add: addTimer_def)
  then show ?thesis
    using q assms(3) e(1) by (simp add: bindR_assoc isInLoopThread_def e(2))
qed

theorem addTimer_from_other_thread_witness:
  "\<exists>ident l1. loop_addTimer False 8 (\<lambda>h. Some 16) (\<lambda>f. 0) (Timestamp_new 0) [] (Timestamp_new 500) 0 sample_loop = Inr (ident, l1) \<and>
     pendingFunctors l1 = [0] \<and> timers (timerQueue l1) = []"
proof -
  let ?r = "loop_addTimer False 8 (\<lambda>h. Some 16) (\<lambda>f. 0) (Timestamp_new 0) [] (Timestamp_new 500) 0 sample_loop"
  have "\<exists>ident l1. ?r = Inr (ident, l1)"
    by (simp add: loop_addTimer_def addTimer_def isInLoopThread_def sample_loop_def Timer_new_def incrementAndGet_eq)
  then obtain ident l1 where r: "?r = Inr (ident, l1)" by blast
  have "8 \<noteq> threadID sample_loop" by (simp add: sample_loop_def)
  from addTimer_from_other_thread [OF this r refl] r show ?thesis
    by (simp add: sample_loop_def TimerQueue_new_def)
qed

end
