(* ===== verification/Arale_LoopThread.thy ===== *)
theory Arale_LoopThread
  imports Arale_EventLoop "HOL-Library.Multiset"
begin

section \<open>Loop threads and the pool of loops (\<open>EventLoopThread.*\<close>, \<open>EventLoopThreadPool.*\<close>)\<close>

subsection \<open>Starting a loop in a thread\<close>

text \<open>
  The handshake of \<open>startLoop\<close> and \<open>threadFunc\<close> over two mutexes and two condition
  variables. A thread that finds its condition false under the mutex goes to sleep in the same step (the
  mutex is released by the wait); a notification under the mutex wakes it up, and it may
  wake up without one. \<open>loopAddr\<close> is the address of the loop on the stack of the new thread.
\<close>

datatype thread_pc = TCheck | TAsleep | TBuild | TLooping | TDone
datatype owner_pc = OIdle | OCheck | OAsleep | OReturned "nat option"

record EventLoopThread =
  loop_ptr :: "nat option"
  elt_name :: string
  exiting :: bool
  elt_start :: bool
  thread_at :: thread_pc
  owner_at :: owner_pc

definition EventLoopThread_new :: "string \<Rightarrow> EventLoopThread" where
  "EventLoopThread_new name =
     \<lparr>loop_ptr = None, elt_name = name, exiting = False, elt_start = False, thread_at = TCheck, owner_at = OIdle\<rparr>"

text \<open>The first critical section of \<open>startLoop\<close>: set the flag and notify.\<close>

definition startLoop_notify :: "bool \<Rightarrow> EventLoopThread \<Rightarrow> EventLoopThread result" where
  "startLoop_notify nd t =
     cassert nd (loop_ptr t = None)
       (Inr (t\<lparr>elt_start := True, thread_at := (if thread_at t = TAsleep then TCheck else thread_at t), owner_at := OCheck\<rparr>))"

text \<open>The second one: wait until \<open>loop_\<close> is set, then return it.\<close>

definition startLoop_wait :: "EventLoopThread \<Rightarrow> EventLoopThread" where
  "startLoop_wait t =
     (if loop_ptr t = None then t\<lparr>owner_at := OAsleep\<rparr> else t\<lparr>owner_at := OReturned (loop_ptr t)\<rparr>)"

text \<open>The three parts of \<open>threadFunc\<close>: wait for the flag, publish the loop, leave it.\<close>

definition threadFunc_wait :: "EventLoopThread \<Rightarrow> EventLoopThread" where
  "threadFunc_wait t = (if \<not> elt_start t then t\<lparr>thread_at := TAsleep\<rparr> else t\<lparr>thread_at := TBuild\<rparr>)"

definition threadFunc_publish :: "bool \<Rightarrow> nat \<Rightarrow> EventLoopThread \<Rightarrow> EventLoopThread result" where
  "threadFunc_publish nd loopAddr t =
     cassert nd (elt_start t)
       (Inr (t\<lparr>loop_ptr := Some loopAddr, thread_at := TLooping,
               owner_at := (if owner_at t = OAsleep then OCheck else owner_at t)\<rparr>))"

definition threadFunc_leave :: "EventLoopThread \<Rightarrow> EventLoopThread" where
  "threadFunc_leave t = t\<lparr>loop_ptr := None, thread_at := TDone\<rparr>"

text \<open>
  The destructor. With \<open>loop_\<close> set it ends the loop and joins the thread; otherwise the member
  \<open>thread_\<close> is destroyed while joinable, which is \<open>std::terminate\<close>.
\<close>

definition EventLoopThread_destroy :: "EventLoopThread \<Rightarrow> (bool \<times> EventLoopThread) result" where
  "EventLoopThread_destroy t =
     (let t1 = t\<lparr>exiting := True\<rparr>
      in if loop_ptr t1 \<noteq> None then Inr (True, threadFunc_leave t1) else Inl Fatal)"

inductive thread_step :: "nat \<Rightarrow> EventLoopThread \<Rightarrow> EventLoopThread \<Rightarrow> bool" for loopAddr where
  notify: "owner_at t = OIdle \<Longrightarrow> startLoop_notify False t = Inr t' \<Longrightarrow> thread_step loopAddr t t'"
| owner_wait: "owner_at t = OCheck \<Longrightarrow> thread_step loopAddr t (startLoop_wait t)"
| thread_wait: "thread_at t = TCheck \<Longrightarrow> thread_step loopAddr t (threadFunc_wait t)"
| publish: "thread_at t = TBuild \<Longrightarrow> threadFunc_publish False loopAddr t = Inr t' \<Longrightarrow> thread_step loopAddr t t'"

inductive spurious_step :: "EventLoopThread \<Rightarrow> EventLoopThread \<Rightarrow> bool" where
  owner_spurious: "owner_at t = OAsleep \<Longrightarrow> spurious_step t (t\<lparr>owner_at := OCheck\<rparr>)"
| thread_spurious: "thread_at t = TAsleep \<Longrightarrow> spurious_step t (t\<lparr>thread_at := TCheck\<rparr>)"

inductive thread_reach :: "nat \<Rightarrow> string \<Rightarrow> EventLoopThread \<Rightarrow> bool" for loopAddr name where
  reach_new: "thread_reach loopAddr name (EventLoopThread_new name)"
| reach_step: "thread_reach loopAddr name t \<Longrightarrow> thread_step loopAddr t t' \<Longrightarrow> thread_reach loopAddr name t'"
| reach_spurious: "thread_reach loopAddr name t \<Longrightarrow> spurious_step t t' \<Longrightarrow> thread_reach loopAddr name t'"

definition thread_inv :: "nat \<Rightarrow> EventLoopThread \<Rightarrow> bool" where
  "thread_inv loopAddr t \<longleftrightarrow>
     (loop_ptr t = (if thread_at t = TLooping then Some loopAddr else None)) \<and>
     (elt_start t \<longleftrightarrow> owner_at t \<noteq> OIdle) \<and> thread_at t \<noteq> TDone \<and>
     (thread_at t = TAsleep \<longrightarrow> \<not> elt_start t) \<and>
     (thread_at t \<in> {TBuild, TLooping} \<longrightarrow> elt_start t) \<and>
     (owner_at t = OAsleep \<longrightarrow> thread_at t \<noteq> TLooping) \<and>
     (\<forall>r. owner_at t = OReturned r \<longrightarrow> r = Some loopAddr)"

lemmas thread_defs = startLoop_notify_def startLoop_wait_def threadFunc_wait_def threadFunc_publish_def

lemma thread_inv_step: "thread_step loopAddr t t' \<Longrightarrow> thread_inv loopAddr t \<Longrightarrow> thread_inv loopAddr t'"
  by (induction rule: thread_step.induct)
    (auto simp: thread_inv_def thread_defs cassert_def split: if_splits)

lemma thread_inv_spurious: "spurious_step t t' \<Longrightarrow> thread_inv loopAddr t \<Longrightarrow> thread_inv loopAddr t'"
  by (induction rule: spurious_step.induct) (auto simp: thread_inv_def)

lemma thread_reach_inv: "thread_reach loopAddr name t \<Longrightarrow> thread_inv loopAddr t"
proof (induction rule: thread_reach.induct)
  case reach_new
  show ?case by (simp add: thread_inv_def EventLoopThread_new_def)
qed (auto intro: thread_inv_step thread_inv_spurious)

fun thread_rank :: "thread_pc \<Rightarrow> nat" where
  "thread_rank TCheck = 4" | "thread_rank TAsleep = 3" | "thread_rank TBuild = 2"
| "thread_rank TLooping = 0" | "thread_rank TDone = 0"

fun owner_rank :: "owner_pc \<Rightarrow> nat" where
  "owner_rank OIdle = 5" | "owner_rank OCheck = 2" | "owner_rank OAsleep = 1" | "owner_rank (OReturned r) = 0"

definition handshake_rank :: "EventLoopThread \<Rightarrow> nat" where
  "handshake_rank t = thread_rank (thread_at t) + owner_rank (owner_at t)"

lemma handshake_rank_step: "thread_step loopAddr t t' \<Longrightarrow> handshake_rank t' < handshake_rank t"
  by (induction rule: thread_step.induct)
    (auto simp: handshake_rank_def thread_defs cassert_def split: if_splits)

lemma thread_ready:
  assumes "thread_at t \<in> {TCheck, TBuild}" "elt_start t"
  shows "\<exists>t'. thread_step loopAddr t t'"
proof (cases "thread_at t = TCheck")
  case True
  then show ?thesis by (blast intro: thread_wait)
next
  case False
  with assms(1) have "thread_at t = TBuild" by simp
  moreover have "\<exists>t'. threadFunc_publish False loopAddr t = Inr t'"
    using assms(2) by (simp add: threadFunc_publish_def)
  ultimately show ?thesis by (blast intro: publish)
qed

lemma thread_progress:
  assumes "thread_inv loopAddr t" "thread_at t \<noteq> TLooping \<or> owner_at t \<noteq> OReturned (Some loopAddr)"
  shows "\<exists>t'. thread_step loopAddr t t'"
proof (cases "owner_at t")
  case OIdle
  then have "loop_ptr t = None" using assms(1) by (auto simp: thread_inv_def)
  then have "\<exists>t'. startLoop_notify False t = Inr t'" by (simp add: startLoop_notify_def)
  then show ?thesis using OIdle by (blast intro: notify)
next
  case OCheck
  then show ?thesis by (blast intro: owner_wait)
next
  case OAsleep
  then have "thread_at t \<in> {TCheck, TBuild}" "elt_start t"
    using assms(1) by (cases "thread_at t"; auto simp: thread_inv_def)+
  then show ?thesis by (rule thread_ready)
next
  case (OReturned r)
  then have "thread_at t \<in> {TCheck, TBuild}" "elt_start t"
    using assms by (cases "thread_at t"; auto simp: thread_inv_def)+
  then show ?thesis by (rule thread_ready)
qed

subsection \<open>The pool\<close>

text \<open>
  \<open>mk i name\<close> is the loop that \<open>startLoop\<close> of the \<open>i\<close>-th new thread returned. \<open>called\<close> lists the
  loops on which \<open>start\<close> itself called the initialisation callback.
\<close>

record EventLoopThreadPool =
  baseLoop :: nat
  pool_name :: string
  numThread :: int
  pool_start :: bool
  threads :: "string list"
  next_loop :: int
  loops :: "nat list"

definition EventLoopThreadPool_new :: "nat \<Rightarrow> string \<Rightarrow> EventLoopThreadPool" where
  "EventLoopThreadPool_new base name =
     \<lparr>baseLoop = base, pool_name = name, numThread = 0, pool_start = False, threads = [], next_loop = 0, loops = []\<rparr>"

definition setThreadNum :: "int \<Rightarrow> EventLoopThreadPool \<Rightarrow> EventLoopThreadPool" where
  "setThreadNum n p = p\<lparr>numThread := n\<rparr>"

fun start_threads :: "(nat \<Rightarrow> string \<Rightarrow> nat) \<Rightarrow> nat list \<Rightarrow> EventLoopThreadPool \<Rightarrow> EventLoopThreadPool" where
  "start_threads mk [] p = p"
| "start_threads mk (i # is) p =
     (let buf = snprintf (length (pool_name p) + 32) (pool_name p @ dec i)
      in start_threads mk is (p\<lparr>threads := threads p @ [buf], loops := loops p @ [mk i buf]\<rparr>))"

definition EventLoopThreadPool_start ::
  "bool \<Rightarrow> bool \<Rightarrow> (nat \<Rightarrow> string \<Rightarrow> nat) \<Rightarrow> bool \<Rightarrow> EventLoopThreadPool \<Rightarrow> (nat list \<times> EventLoopThreadPool) result" where
  "EventLoopThreadPool_start nd il mk callback p =
     cassert nd (\<not> pool_start p) (assertInLoopThread il
       (let p1 = start_threads mk [0..<nat (numThread p)] (p\<lparr>pool_start := True\<rparr>)
        in Inr (if numThread p1 = 0 \<and> callback then [baseLoop p1] else [], p1)))"

definition getNextLoop :: "bool \<Rightarrow> EventLoopThreadPool \<Rightarrow> (nat \<times> EventLoopThreadPool) result" where
  "getNextLoop il p =
     assertInLoopThread il
       (if loops p \<noteq> [] then
          if 0 \<le> next_loop p \<and> nat (next_loop p) < length (loops p) then
            let lp = loops p ! nat (next_loop p); p1 = p\<lparr>next_loop := next_loop p + 1\<rparr>
            in Inr (lp, if length (loops p1) \<le> nat (next_loop p1) then p1\<lparr>next_loop := 0\<rparr> else p1)
          else Inl OutOfBounds
        else Inr (baseLoop p, p))"

definition getAllLoops :: "bool \<Rightarrow> bool \<Rightarrow> EventLoopThreadPool \<Rightarrow> nat list result" where
  "getAllLoops nd il p =
     cassert nd (pool_start p) (assertInLoopThread il
       (Inr (if loops p = [] then [baseLoop p] else loops p)))"

text \<open>A client that asks for \<open>k\<close> loops in a row.\<close>

fun next_loops :: "nat \<Rightarrow> EventLoopThreadPool \<Rightarrow> (nat list \<times> EventLoopThreadPool) result" where
  "next_loops 0 p = Inr ([], p)"
| "next_loops (Suc k) p =
     bindR (getNextLoop True p) (\<lambda>(l, p1). bindR (next_loops k p1) (\<lambda>(ls, p2). Inr (l # ls, p2)))"

definition pool_inv :: "EventLoopThreadPool \<Rightarrow> bool" where
  "pool_inv p \<longleftrightarrow> 0 \<le> next_loop p \<and> (nat (next_loop p) < length (loops p) \<or> loops p = [] \<and> next_loop p = 0)"

lemma start_threads_spec:
  "start_threads mk is p =
     p\<lparr>threads := threads p @ map (\<lambda>i. snprintf (length (pool_name p) + 32) (pool_name p @ dec i)) is,
       loops := loops p @ map (\<lambda>i. mk i (snprintf (length (pool_name p) + 32) (pool_name p @ dec i))) is\<rparr>"
  by (induction "is" arbitrary: p) (simp_all add: Let_def)

lemma getNextLoop_step:
  assumes "pool_inv p" "loops p \<noteq> []"
  shows "getNextLoop True p =
     Inr (loops p ! nat (next_loop p), p\<lparr>next_loop := int (Suc (nat (next_loop p)) mod length (loops p))\<rparr>)"
proof -
  let ?k = "nat (next_loop p)"
  have k: "?k < length (loops p)" "0 \<le> next_loop p" using assms by (auto simp: pool_inv_def)
  show ?thesis
  proof (cases "Suc ?k < length (loops p)")
    case True
    then have "int (Suc ?k mod length (loops p)) = next_loop p + 1" using k by simp
    with True k assms(2) show ?thesis by (simp add: getNextLoop_def Let_def nat_add_distrib)
  next
    case False
    then have "Suc ?k = length (loops p)" using k by simp
    with k assms(2) show ?thesis by (simp add: getNextLoop_def Let_def nat_add_distrib)
  qed
qed

lemma next_loops_spec:
  assumes "pool_inv p" "loops p \<noteq> []"
  shows "next_loops k p =
     Inr (map (\<lambda>i. loops p ! ((nat (next_loop p) + i) mod length (loops p))) [0..<k],
          p\<lparr>next_loop := int ((nat (next_loop p) + k) mod length (loops p))\<rparr>)"
  using assms
proof (induction k arbitrary: p)
  case 0
  then show ?case by (auto simp: pool_inv_def)
next
  case (Suc k)
  let ?n = "length (loops p)" and ?j = "nat (next_loop p)"
  let ?p = "p\<lparr>next_loop := int (Suc ?j mod ?n)\<rparr>"
  have j: "?j < ?n" using Suc.prems by (auto simp: pool_inv_def)
  have inv: "pool_inv ?p" "loops ?p \<noteq> []" using Suc.prems by (auto simp: pool_inv_def)
  have "map (\<lambda>i. loops p ! ((?j + i) mod ?n)) [0..<Suc k] =
      loops p ! ?j # map (\<lambda>i. loops p ! ((Suc ?j mod ?n + i) mod ?n)) [0..<k]"
    using j by (simp add: upt_conv_Cons map_Suc_upt [symmetric] mod_add_left_eq del: upt_Suc)
  moreover have "(Suc ?j mod ?n + k) mod ?n = (?j + Suc k) mod ?n" by (simp add: mod_add_left_eq)
  ultimately show ?case
    using Suc.IH [OF inv] getNextLoop_step [OF Suc.prems] by simp
qed

lemma rotation_mset:
  assumes "j < length xs"
  shows "mset (map (\<lambda>i. xs ! ((j + i) mod length xs)) [0..<length xs]) = mset xs"
proof -
  have "map (\<lambda>i. xs ! ((j + i) mod length xs)) [0..<length xs] = rotate j xs"
    by (rule nth_equalityI) (auto simp: nth_rotate)
  moreover have "mset (rotate j xs) = mset xs"
    by (metis append_take_drop_id mset_append rotate_drop_take union_commute)
  ultimately show ?thesis by simp
qed

subsection \<open>Properties of the loop threads\<close>



text \<open>
  The pool hands out its loops in turn. After \<open>start\<close> with \<open>n > 0\<close> threads the pool has \<open>n\<close> loops, and any \<open>n\<close>
  consecutive calls of \<open>getNextLoop\<close>, made after any number \<open>k\<close> of earlier ones, return each loop exactly as
  often as the pool has it; no call reads outside the vector.
\<close>

theorem getNextLoop_round_robin:
  assumes "0 < n"
  shows "\<exists>p ls p1 rs p2.
     EventLoopThreadPool_start nd True mk cb (setThreadNum (int n) (EventLoopThreadPool_new base name)) = Inr ([], p) \<and>
     length (loops p) = n \<and> getAllLoops nd True p = Inr (loops p) \<and>
     next_loops k p = Inr (ls, p1) \<and> next_loops n p1 = Inr (rs, p2) \<and> mset rs = mset (loops p)"
proof -
  define p where "p = start_threads mk [0..<n] ((setThreadNum (int n) (EventLoopThreadPool_new base name))\<lparr>pool_start := True\<rparr>)"
  have p: "length (loops p) = n" "next_loop p = 0" "numThread p = int n" "pool_start p"
    by (simp_all add: p_def start_threads_spec setThreadNum_def EventLoopThreadPool_new_def)
  have s: "EventLoopThreadPool_start nd True mk cb (setThreadNum (int n) (EventLoopThreadPool_new base name)) = Inr ([], p)"
    using assms p(3) by (simp add: EventLoopThreadPool_start_def p_def setThreadNum_def EventLoopThreadPool_new_def Let_def)
  have ne: "loops p \<noteq> []" and inv: "pool_inv p" using assms p(1,2) by (auto simp: pool_inv_def)
  define p1 where "p1 = p\<lparr>next_loop := int (k mod n)\<rparr>"
  obtain ls where k: "next_loops k p = Inr (ls, p1)"
    using next_loops_spec [OF inv ne, of k] p by (simp add: p1_def)
  have "pool_inv p1" "loops p1 \<noteq> []" "length (loops p1) = n" "nat (next_loop p1) < length (loops p1)"
    using assms ne p(1) by (auto simp: p1_def pool_inv_def)
  with next_loops_spec [of p1 n] rotation_mset [of "nat (next_loop p1)" "loops p1"]
  obtain rs p2 where "next_loops n p1 = Inr (rs, p2)" "mset rs = mset (loops p)"
    by (auto simp: p1_def)
  with s k p(1,4) ne show ?thesis by (auto simp: getAllLoops_def)
qed

theorem getNextLoop_round_robin_witness:
  "\<exists>p ls p1 rs p2.
     EventLoopThreadPool_start False True (\<lambda>i s. i + 10) True (setThreadNum (int 3) (EventLoopThreadPool_new 1 ''pool'')) = Inr ([], p) \<and>
     length (loops p) = 3 \<and> getAllLoops False True p = Inr (loops p) \<and>
     next_loops 5 p = Inr (ls, p1) \<and> next_loops 3 p1 = Inr (rs, p2) \<and> mset rs = mset (loops p)"
  by (rule getNextLoop_round_robin) simp

end
