(* ===== verification/Arale_TcpServer.thy ===== *)
theory Arale_TcpServer
  imports Arale_TcpConnection Arale_Connector Arale_LoopThread
begin

section \<open>Servers and clients (\<open>arale/net/TcpServer.*\<close>, \<open>TcpClient.*\<close>)\<close>

text \<open>
  Both ends keep their connections as shared pointers: addresses into \<open>conns\<close>, which also
  says to which loop a connection belongs. The functions they hand to \<open>runInLoop\<close> and \<open>postFuntor\<close> of a
  loop are kept, with the loop's address, in \<open>srv_run\<close> and \<open>srv_posted\<close>.
\<close>

datatype end_functor = FEstablished nat | FDestroyed nat | FRemove nat | FListen | FSetCloseCallback nat

subsection \<open>The server\<close>

datatype server_option = kNoReusePort | kReusePort

record TcpServer =
  srv_loop :: nat
  srv_name :: string
  srv_ipPort :: string
  nextConnId :: int
  srv_acceptor :: Acceptor
  srv_pool :: EventLoopThreadPool
  connections :: "string \<rightharpoonup> nat"
  conns :: "nat \<rightharpoonup> nat \<times> TcpConnection"
  started :: "32 word"
  srv_writeComplete :: bool
  srv_run :: "(nat \<times> end_functor) list"
  srv_posted :: "(nat \<times> end_functor) list"

definition TcpServer_new ::
  "bool \<Rightarrow> byte_order \<Rightarrow> (char list \<Rightarrow> string) \<Rightarrow> int \<times> int \<times> int \<times> int \<Rightarrow> nat \<Rightarrow> string \<Rightarrow> sockaddr \<Rightarrow> server_option \<Rightarrow> TcpServer result" where
  "TcpServer_new nd e ntop6 sys lp name serveraddr opt =
     bindR (addr_toIpPort nd e ntop6 serveraddr) (\<lambda>ipPort.
     case sys of (sock, bound, optret, nullfd) \<Rightarrow>
     bindR (Acceptor_new sock bound optret nullfd (opt = kReusePort)) (\<lambda>(a, opts).
     Inr \<lparr>srv_loop = lp, srv_name = name, srv_ipPort = ipPort, nextConnId = 1,
          srv_acceptor = a\<lparr>hasNewConnectionCallback := True\<rparr>, srv_pool = EventLoopThreadPool_new lp name,
          connections = Map.empty, conns = Map.empty, started = 0, srv_writeComplete = False, srv_run = [], srv_posted = []\<rparr>))"

definition connName :: "TcpServer \<Rightarrow> string" where
  "connName s = srv_name s @ snprintf 64 (CHR ''-'' # srv_ipPort s @ CHR ''#'' # sdec (nextConnId s))"

text \<open>\<open>obj\<close> is the address of the new connection, \<open>localaddr\<close> what \<open>getLocalAddr\<close> returned.\<close>

definition newConncetion ::
  "bool \<Rightarrow> bool \<Rightarrow> nat \<Rightarrow> sockaddr \<Rightarrow> int \<Rightarrow> sockaddr \<Rightarrow> TcpServer \<Rightarrow> TcpServer result" where
  "newConncetion nd il obj localaddr newconnfd peeraddr s =
     assertInLoopThread il
       (bindR (getNextLoop il (srv_pool s)) (\<lambda>(lp, pool).
        let name = connName s; s1 = s\<lparr>srv_pool := pool, nextConnId := nextConnId s + 1\<rparr>
        in bindR (TcpConnection_new nd name newconnfd localaddr peeraddr) (\<lambda>(conn, _).
           let conn1 = setWriteCompleteCallback (srv_writeComplete s1) conn
           in Inr (s1\<lparr>conns := (conns s1)(obj \<mapsto> (lp, conn1)), connections := (connections s1)(name \<mapsto> obj),
                      srv_run := srv_run s1 @ [(lp, FEstablished obj)]\<rparr>))))"

definition srv_removeConnection :: "nat \<Rightarrow> TcpServer \<Rightarrow> TcpServer" where
  "srv_removeConnection obj s = s\<lparr>srv_run := srv_run s @ [(srv_loop s, FRemove obj)]\<rparr>"

definition removeConnectionInLoop :: "bool \<Rightarrow> bool \<Rightarrow> nat \<Rightarrow> TcpServer \<Rightarrow> TcpServer result" where
  "removeConnectionInLoop nd il obj s =
     assertInLoopThread il
       (case conns s obj of
          None \<Rightarrow> Inl NullDeref
        | Some (lp, conn) \<Rightarrow>
            cassert nd (connections s (tc_name conn) \<noteq> None)
              (let ret = (if connections s (tc_name conn) = None then 0 else 1 :: nat);
                   s1 = s\<lparr>connections := (connections s)(tc_name conn := None)\<rparr>
               in cassert nd (ret = 1) (Inr (s1\<lparr>srv_posted := srv_posted s1 @ [(lp, FDestroyed obj)]\<rparr>))))"

text \<open>\<open>objs\<close> lists the addresses of the connections in the order of the map.\<close>

definition TcpServer_destroy :: "bool \<Rightarrow> nat list \<Rightarrow> TcpServer \<Rightarrow> TcpServer result" where
  "TcpServer_destroy il objs s =
     assertInLoopThread il
       (Inr (s\<lparr>connections := Map.empty,
               srv_run := srv_run s @ map (\<lambda>obj. (fst (the (conns s obj)), FDestroyed obj)) objs\<rparr>))"

definition TcpServer_start :: "bool \<Rightarrow> bool \<Rightarrow> (nat \<Rightarrow> string \<Rightarrow> nat) \<Rightarrow> bool \<Rightarrow> TcpServer \<Rightarrow> TcpServer result" where
  "TcpServer_start nd il mk initCallback s =
     (let (old, st) = getAndAdd 1 (started s); s1 = s\<lparr>started := st\<rparr>
      in if old = 0 then
           bindR (EventLoopThreadPool_start nd il mk initCallback (srv_pool s1)) (\<lambda>(_, pool).
           cassert nd (\<not> isListening (srv_acceptor s1))
             (Inr (s1\<lparr>srv_pool := pool, srv_run := srv_run s1 @ [(srv_loop s1, FListen)]\<rparr>)))
         else Inr s1)"

definition TcpServer_setThreadNum :: "int \<Rightarrow> TcpServer \<Rightarrow> TcpServer" where
  "TcpServer_setThreadNum num s = s\<lparr>srv_pool := setThreadNum num (srv_pool s)\<rparr>"

subsection \<open>The client\<close>

record TcpClient =
  cl_loop :: nat
  cl_name :: string
  connID :: int
  cl_retry :: bool
  cl_connect :: bool
  connector :: Connector
  cl_connection :: "nat option"
  cl_conns :: "nat \<rightharpoonup> TcpConnection"
  cl_writeComplete :: bool
  cl_run :: "end_functor list"
  cl_posted :: "end_functor list"

definition TcpClient_new :: "nat \<Rightarrow> string \<Rightarrow> sockaddr \<Rightarrow> TcpClient" where
  "TcpClient_new lp name addr =
     \<lparr>cl_loop = lp, cl_name = name, connID = 1, cl_retry = False, cl_connect = True, connector = Connector_new addr,
      cl_connection = None, cl_conns = Map.empty, cl_writeComplete = False, cl_run = [], cl_posted = []\<rparr>"

definition enableRetry :: "TcpClient \<Rightarrow> TcpClient" where
  "enableRetry c = c\<lparr>cl_retry := True\<rparr>"

definition cl_newConnection ::
  "bool \<Rightarrow> bool \<Rightarrow> byte_order \<Rightarrow> (char list \<Rightarrow> string) \<Rightarrow> nat \<Rightarrow> sockaddr \<Rightarrow> sockaddr \<Rightarrow> int \<Rightarrow> TcpClient \<Rightarrow> TcpClient result" where
  "cl_newConnection nd il e ntop6 obj peerAddr localAddr' sockfd c =
     assertInLoopThread il
       (bindR (addr_toIpPort nd e ntop6 peerAddr) (\<lambda>ipPort.
        let name = cl_name c @ snprintf 32 (CHR '':'' # ipPort @ CHR ''#'' # sdec (connID c));
            c1 = c\<lparr>connID := connID c + 1\<rparr>
        in bindR (TcpConnection_new nd name sockfd localAddr' peerAddr) (\<lambda>(conn, _).
           Inr (c1\<lparr>cl_conns := (cl_conns c1)(obj \<mapsto> setWriteCompleteCallback (cl_writeComplete c1) conn),
                   cl_connection := Some obj, cl_run := cl_run c1 @ [FEstablished obj]\<rparr>))))"

text \<open>\<open>sock\<close> and \<open>err\<close> are for the attempt to connect again.\<close>

definition cl_removeConnection ::
  "bool \<Rightarrow> bool \<Rightarrow> nat \<Rightarrow> nat \<Rightarrow> int \<Rightarrow> int \<Rightarrow> TcpClient \<Rightarrow> TcpClient result" where
  "cl_removeConnection nd il obj connLoop sock err c =
     assertInLoopThread il (cassert nd (cl_loop c = connLoop) (cassert nd (cl_connection c = Some obj)
       (let c1 = c\<lparr>cl_connection := None\<rparr>; c2 = c1\<lparr>cl_posted := cl_posted c1 @ [FDestroyed obj]\<rparr>
        in if cl_retry c2 \<and> cl_connect c2 then
             bindR (restart nd il sock err (connector c2)) (\<lambda>k. Inr (c2\<lparr>connector := k\<rparr>))
           else Inr c2)))"

definition cl_connect_op :: "bool \<Rightarrow> bool \<Rightarrow> int \<Rightarrow> int \<Rightarrow> TcpClient \<Rightarrow> TcpClient result" where
  "cl_connect_op nd il sock err c =
     (let c1 = c\<lparr>cl_connect := True\<rparr> in bindR (cn_start nd il sock err (connector c1)) (\<lambda>k. Inr (c1\<lparr>connector := k\<rparr>)))"

definition cl_stop :: "bool \<Rightarrow> TcpClient \<Rightarrow> TcpClient result" where
  "cl_stop il c =
     (let c1 = c\<lparr>cl_connect := False\<rparr> in bindR (cn_stop il (connector c1)) (\<lambda>k. Inr (c1\<lparr>connector := k\<rparr>)))"

definition cl_disconnect :: "bool \<Rightarrow> TcpClient \<Rightarrow> TcpClient result" where
  "cl_disconnect il c =
     (let c1 = c\<lparr>cl_connect := False\<rparr>
      in case cl_connection c1 of
           None \<Rightarrow> Inr c1
         | Some obj \<Rightarrow>
             (case cl_conns c1 obj of
                None \<Rightarrow> Inl NullDeref
              | Some conn \<Rightarrow> bindR (tc_shutdown il conn) (\<lambda>conn'. Inr (c1\<lparr>cl_conns := (cl_conns c1)(obj \<mapsto> conn')\<rparr>))))"

text \<open>
  The destructor; \<open>unique\<close> says whether the client holds the only pointer to the connection.
\<close>

definition TcpClient_destroy ::
  "bool \<Rightarrow> bool \<Rightarrow> bool \<Rightarrow> nat \<Rightarrow> (TcpConnection \<Rightarrow> TcpConnection result) \<Rightarrow> (TcpConnection \<Rightarrow> TcpConnection result) \<Rightarrow>
   TcpClient \<Rightarrow> TcpClient result" where
  "TcpClient_destroy nd il unique connLoop ccb clcb c =
     (case cl_connection c of
        Some obj \<Rightarrow>
          cassert nd (cl_loop c = connLoop)
            (let c1 = c\<lparr>cl_run := cl_run c @ [FSetCloseCallback obj]\<rparr>
             in if unique then
                  (case cl_conns c1 obj of
                     None \<Rightarrow> Inl NullDeref
                   | Some conn \<Rightarrow> bindR (forceClose nd il ccb clcb conn) (\<lambda>conn'. Inr (c1\<lparr>cl_conns := (cl_conns c1)(obj \<mapsto> conn')\<rparr>)))
                else Inr c1)
      | None \<Rightarrow> bindR (cn_stop il (connector c)) (\<lambda>k. Inr (c\<lparr>connector := k\<rparr>)))"

definition removeTcpConnection :: "nat \<Rightarrow> TcpClient \<Rightarrow> TcpClient" where
  "removeTcpConnection obj c = c\<lparr>cl_posted := cl_posted c @ [FDestroyed obj]\<rparr>"

subsection \<open>Properties\<close>

definition name_of :: "TcpServer \<Rightarrow> int \<Rightarrow> string" where
  "name_of s i = srv_name s @ snprintf 64 (CHR ''-'' # srv_ipPort s @ CHR ''#'' # sdec i)"

definition srv_inv :: "TcpServer \<Rightarrow> bool" where
  "srv_inv s \<longleftrightarrow> pool_inv (srv_pool s) \<and> 1 \<le> nextConnId s \<and> length (srv_ipPort s) \<le> 51 \<and>
     (\<forall>name obj. connections s name = Some obj \<longrightarrow>
        (\<exists>lp conn i. conns s obj = Some (lp, conn) \<and> tc_name conn = name \<and> 1 \<le> i \<and> i < nextConnId s \<and> name = name_of s i))"

lemma name_of_full:
  assumes "length (srv_ipPort s) \<le> 51" "1 \<le> i" "i < 2 ^ 31"
  shows "name_of s i = srv_name s @ CHR ''-'' # srv_ipPort s @ CHR ''#'' # dec (nat i)"
proof -
  have "nat i < 2 ^ 31" using assms(2,3) by (simp add: nat_less_iff)
  then have "nat i < 10 ^ 10" by simp
  then have "length (dec (nat i)) \<le> 10" using length_dec_le [of "nat i" 10] by simp
  then show ?thesis using assms by (simp add: name_of_def sdec_def)
qed

lemma name_of_inj:
  assumes "length (srv_ipPort s) \<le> 51" "1 \<le> i" "i < 2 ^ 31" "1 \<le> j" "j < 2 ^ 31" "name_of s i = name_of s j"
  shows "i = j"
proof -
  have "dec (nat i) = dec (nat j)" using assms by (simp add: name_of_full)
  then have "nat i = nat j" using undec_dec by metis
  with assms show ?thesis by simp
qed

lemma getNextLoop_ok:
  assumes "pool_inv p"
  shows "\<exists>lp p'. getNextLoop True p = Inr (lp, p') \<and> pool_inv p' \<and> lp \<in> insert (baseLoop p) (set (loops p))"
proof (cases "loops p = []")
  case True
  with assms show ?thesis by (simp add: getNextLoop_def)
next
  case False
  have "nat (next_loop p) < length (loops p)" using assms False by (auto simp: pool_inv_def)
  with getNextLoop_step [OF assms False] False show ?thesis by (auto simp: pool_inv_def)
qed

lemma TcpConnection_new_ok:
  "\<exists>conn opt. TcpConnection_new nd name fd la pa = Inr (conn, opt) \<and> tc_name conn = name \<and> tc_state conn = kConnecting \<and>
     isNoneEvent (readWriteChannel conn)"
  by (auto simp: TcpConnection_new_def Buffer_new_default isNoneEvent_def Channel_new_def setReadCallback_def setWriteCallback_def
      setCloseCallback_def setErrorCallback_def kNoneEvent_def)

definition server_after_accept :: "nat \<Rightarrow> nat \<Rightarrow> EventLoopThreadPool \<Rightarrow> TcpConnection \<Rightarrow> TcpServer \<Rightarrow> TcpServer" where
  "server_after_accept obj lp pool conn s = s\<lparr>srv_pool := pool, nextConnId := nextConnId s + 1,
     conns := (conns s)(obj \<mapsto> (lp, conn)), connections := (connections s)(connName s \<mapsto> obj),
     srv_run := srv_run s @ [(lp, FEstablished obj)]\<rparr>"

lemma connName_fresh:
  assumes "srv_inv s" "nextConnId s < 2 ^ 31"
  shows "connections s (connName s) = None"
proof (rule ccontr)
  assume "connections s (connName s) \<noteq> None"
  then obtain i where "1 \<le> i" "i < nextConnId s" "connName s = name_of s i"
    using assms(1) by (auto simp: srv_inv_def)
  moreover have "connName s = name_of s (nextConnId s)" by (simp add: connName_def name_of_def)
  ultimately show False using name_of_inj [of s "nextConnId s" i] assms by (auto simp: srv_inv_def)
qed

lemma server_after_accept_inv:
  assumes "srv_inv s" "conns s obj = None" "pool_inv pool" "tc_name conn = connName s"
  shows "srv_inv (server_after_accept obj lp pool conn s)"
proof -
  define s' where "s' = server_after_accept obj lp pool conn s"
  have nof: "name_of s' i = name_of s i" for i by (simp add: name_of_def s'_def server_after_accept_def)
  have "\<exists>lp' conn' i. conns s' obj' = Some (lp', conn') \<and> tc_name conn' = name \<and> 1 \<le> i \<and> i < nextConnId s' \<and> name = name_of s' i"
    if at: "connections s' name = Some obj'" for name obj'
  proof (cases "name = connName s")
    case True
    have "conns s' obj' = Some (lp, conn)" "1 \<le> nextConnId s" "nextConnId s < nextConnId s'"
      using at True assms(1) by (auto simp: s'_def server_after_accept_def srv_inv_def)
    moreover have "connName s = name_of s (nextConnId s)" by (simp add: connName_def name_of_def)
    ultimately show ?thesis using assms(4) True
      by (intro exI [of _ lp] exI [of _ conn] exI [of _ "nextConnId s"]) (simp add: nof)
  next
    case False
    with at have "connections s name = Some obj'" by (simp add: s'_def server_after_accept_def)
    with assms(1) obtain lp' conn' i where *: "conns s obj' = Some (lp', conn')" "tc_name conn' = name" "1 \<le> i"
      "i < nextConnId s" "name = name_of s i"
      unfolding srv_inv_def by blast
    with assms(2) have "conns s' obj' = Some (lp', conn')" by (auto simp: s'_def server_after_accept_def)
    with * show ?thesis by (intro exI [of _ lp'] exI [of _ conn'] exI [of _ i]) (simp add: nof, simp add: s'_def server_after_accept_def)
  qed
  then show ?thesis using assms(1,3) unfolding s'_def [symmetric] by (simp add: srv_inv_def, simp add: s'_def server_after_accept_def)
qed

lemma newConncetion_result:
  assumes "srv_inv s"
  shows "\<exists>lp pool conn. newConncetion nd True obj la fd pa s = Inr (server_after_accept obj lp pool conn s) \<and>
     pool_inv pool \<and> lp \<in> insert (baseLoop (srv_pool s)) (set (loops (srv_pool s))) \<and>
     tc_name conn = connName s \<and> tc_state conn = kConnecting \<and> isNoneEvent (readWriteChannel conn)"
proof -
  obtain lp pool where lp: "getNextLoop True (srv_pool s) = Inr (lp, pool)" "pool_inv pool"
    "lp \<in> insert (baseLoop (srv_pool s)) (set (loops (srv_pool s)))"
    using getNextLoop_ok [of "srv_pool s"] assms unfolding srv_inv_def by blast
  obtain conn opt where conn: "TcpConnection_new nd (connName s) fd la pa = Inr (conn, opt)" "tc_name conn = connName s"
    "tc_state conn = kConnecting" "isNoneEvent (readWriteChannel conn)"
    using TcpConnection_new_ok by blast
  then show ?thesis using lp
    by (intro exI [of _ lp] exI [of _ pool] exI [of _ "setWriteCompleteCallback (srv_writeComplete s) conn"])
      (simp add: newConncetion_def server_after_accept_def setWriteCompleteCallback_def Let_def)
qed

text \<open>
  C14: a server never confuses its connections. Each new one gets a name no connection of the server has, so that no entry
  of the map is overwritten, belongs to the server's own loop or one of the pool's,
  and is handed to that loop once. Closing it removes exactly this entry and posts its destruction to the same loop; a second close
  is caught by the assertion.
\<close>

theorem server_connection_registered:
  assumes "srv_inv s" "nextConnId s < 2 ^ 31" "conns s obj = None"
  shows "\<exists>s' lp s''. newConncetion nd True obj la fd pa s = Inr s' \<and> srv_inv s' \<and>
     connections s (connName s) = None \<and> connections s' = (connections s)(connName s \<mapsto> obj) \<and>
     lp \<in> insert (baseLoop (srv_pool s)) (set (loops (srv_pool s))) \<and> srv_run s' = srv_run s @ [(lp, FEstablished obj)] \<and>
     removeConnectionInLoop nd True obj s' = Inr s'' \<and> connections s'' = connections s \<and>
     srv_posted s'' = srv_posted s @ [(lp, FDestroyed obj)] \<and>
     removeConnectionInLoop False True obj s'' = Inl AssertFailed"
proof -
  obtain lp pool conn where r: "newConncetion nd True obj la fd pa s = Inr (server_after_accept obj lp pool conn s)"
    and pool: "pool_inv pool" and lp: "lp \<in> insert (baseLoop (srv_pool s)) (set (loops (srv_pool s)))" and n1: "tc_name conn = connName s"
    using newConncetion_result [OF assms(1)] by blast
  note new = connName_fresh [OF assms(1,2)]
  define s' where "s' = server_after_accept obj lp pool conn s"
  have i': "srv_inv s'" unfolding s'_def by (rule server_after_accept_inv [OF assms(1,3) pool n1])
  define s'' where "s'' = s'\<lparr>connections := (connections s')(connName s := None), srv_posted := srv_posted s' @ [(lp, FDestroyed obj)]\<rparr>"
  have rem: "removeConnectionInLoop nd True obj s' = Inr s''"
    using n1 by (simp add: removeConnectionInLoop_def s'_def s''_def server_after_accept_def Let_def)
  have "connections s'' = connections s" using new by (auto simp: s''_def s'_def server_after_accept_def)
  moreover have "removeConnectionInLoop False True obj s'' = Inl AssertFailed"
    using n1 by (simp add: removeConnectionInLoop_def s'_def s''_def server_after_accept_def cassert_def)
  ultimately show ?thesis
    using r i' new lp rem by (intro exI [of _ s'] exI [of _ lp] exI [of _ s'']) (simp add: s''_def s'_def server_after_accept_def)
qed

definition sample_server :: TcpServer where
  "sample_server =
     \<lparr>srv_loop = 1, srv_name = ''echo'', srv_ipPort = ''0.0.0.0:2007'', nextConnId = 1,
      srv_acceptor = \<lparr>acceptSocket = 3, acceptChannel = Channel_new 3, hasNewConnectionCallback = True, isListening = True, backupFd = 4\<rparr>,
      srv_pool = EventLoopThreadPool_new 1 ''echo'', connections = Map.empty, conns = Map.empty, started = 1,
      srv_writeComplete = False, srv_run = [], srv_posted = []\<rparr>"

theorem server_connection_registered_witness:
  "\<exists>s'. newConncetion False True 100 bzero6 9 bzero6 sample_server = Inr s' \<and>
     connections s' = [connName sample_server \<mapsto> 100] \<and> srv_run s' = [(1, FEstablished 100)]"
proof -
  have "srv_inv sample_server" "nextConnId sample_server < 2 ^ 31" "conns sample_server 100 = None"
    by (simp_all add: sample_server_def srv_inv_def pool_inv_def EventLoopThreadPool_new_def)
  from server_connection_registered [OF this, of False bzero6 9 bzero6] show ?thesis
    by (auto simp: sample_server_def EventLoopThreadPool_new_def)
qed

text \<open>
  A client whose connection ends. It forgets the connection and posts its destruction once. With retrying enabled, and
  unless it was told to stop or disconnect, it starts its connector again, which succeeds without a failed assertion from the state a completed connection leaves
  it in, with the delay back at its first value; otherwise the connector is left alone.
\<close>

theorem client_reconnects:
  assumes "cl_connection c = Some obj" "cn_inv (connector c)" "cn_state (connector c) = ckConnected"
    and "resets (connector c) = 0" "0 \<le> sock"
  shows "\<exists>c'. cl_removeConnection False True obj (cl_loop c) sock err c = Inr c' \<and> cl_connection c' = None \<and>
     cl_posted c' = cl_posted c @ [FDestroyed obj] \<and> cn_inv (connector c') \<and>
     (if cl_retry c \<and> cl_connect c
      then cn_state (connector c') = ckConnecting \<longleftrightarrow> err \<in> {0, EINPROGRESS, EINTR, EISCONN}
      else connector c' = connector c)"
proof (cases "cl_retry c \<and> cl_connect c")
  case False
  with assms(1,2) show ?thesis by (auto simp: cl_removeConnection_def Let_def)
next
  case True
  define k where "k = (connector c)\<lparr>connected := True, cn_state := ckDisconnected, retryDelayMs := kInitRetryDelayMs\<rparr>"
  have k: "delays_ok k" "timers_set k = []" "openFds k = []" "connectChannel k = None" "resets k = 0"
    "cn_state k = ckDisconnected" "connected k"
    using assms(2-4) by (auto simp: k_def cn_inv_def delays_ok_def idle_channel_def kInitRetryDelayMs_def)
  obtain k' where k': "startInLoop False True sock err k = Inr k'" "cn_inv k'"
    using startInLoop_inv [OF k(1-6) assms(5), of False err] by blast
  have "cn_state k' = ckConnecting \<longleftrightarrow> err \<in> {0, EINPROGRESS, EINTR, EISCONN}"
    using k'(1) k(4,6,7) assms(5)
    by (auto simp: startInLoop_def cn_connect_def createNonblockingOrDie_def connecting_def cn_setState_def retry_def
        cn_close_def Let_def split: if_splits)
  with k' True assms(1) show ?thesis by (simp add: cl_removeConnection_def restart_def k_def Let_def)
qed

theorem client_reconnects_witness:
  "\<exists>c'. cl_removeConnection False True 5 1 8 EINPROGRESS
      ((TcpClient_new 1 ''c'' bzero6)\<lparr>cl_connection := Some 5, cl_retry := True,
         connector := (Connector_new bzero6)\<lparr>cn_state := ckConnected\<rparr>\<rparr>) = Inr c' \<and>
     cn_state (connector c') = ckConnecting"
proof -
  let ?c = "(TcpClient_new 1 ''c'' bzero6)\<lparr>cl_connection := Some 5, cl_retry := True,
     connector := (Connector_new bzero6)\<lparr>cn_state := ckConnected\<rparr>\<rparr>"
  have "cl_connection ?c = Some 5" "cn_inv (connector ?c)" "cn_state (connector ?c) = ckConnected" "resets (connector ?c) = 0"
    by (simp_all add: cn_inv_def delays_ok_def idle_channel_def Connector_new_def kInitRetryDelayMs_def)
  from client_reconnects [OF this, of 8 EINPROGRESS] show ?thesis by (auto simp: TcpClient_new_def)
qed

text \<open>Starting a server a second time starts nothing.\<close>

theorem server_starts_once:
  assumes "TcpServer_start nd il mk cb s = Inr s1" "started s = 0"
  shows "TcpServer_start nd' il' mk' cb' s1 = Inr (s1\<lparr>started := 2\<rparr>)"
proof -
  have "started s1 = 1" using assms by (auto simp: TcpServer_start_def getAndAdd_def cassert_def Let_def split: if_splits)
  then show ?thesis by (simp add: TcpServer_start_def getAndAdd_def)
qed

end
