(* ===== verification/Arale_Stream.thy ===== *)
theory Arale_Stream
  imports Arale_TcpConnection
begin

section \<open>The stream of a connection\<close>

text \<open>
  What has been handed to a connection is what the kernel has, then what is queued. The lemmas follow this stream through every successful call of
  \<open>sendInLoop\<close> and \<open>handleWrite\<close>, for kernels that may refuse data, and say which functors the calls leave behind. They are what the servers
  of the examples rest on.
\<close>

definition stream :: "TcpConnection \<Rightarrow> char list" where
  "stream c = wire c @ Buffer_content (outputBuffer c)"

text \<open>
  A kernel does not take more than it is offered. As long as it takes all or nothing of what \<open>sendInLoop\<close> offers, the stream is what has been handed
  over; \<open>handleWrite\<close> may write any part.
\<close>

definition kernel_any :: "(char list \<Rightarrow> int + nat) \<Rightarrow> bool" where
  "kernel_any wr \<longleftrightarrow> (\<forall>d n. wr d = Inr n \<longrightarrow> n \<le> length d)"

text \<open>The functors that only call back the user.\<close>

fun callback_functor :: "conn_functor \<Rightarrow> bool" where
  "callback_functor FWriteComplete = True"
| "callback_functor (FHighWater _) = True"
| "callback_functor _ = False"

definition adds_callbacks :: "TcpConnection \<Rightarrow> TcpConnection \<Rightarrow> bool" where
  "adds_callbacks c c' \<longleftrightarrow> (\<exists>fs. functors c' = functors c @ fs \<and> list_all callback_functor fs)"

lemma adds_callbacks_refl [simp]: "adds_callbacks c c"
  by (simp add: adds_callbacks_def)

lemma adds_callbacksI:
  "functors c' = functors c \<Longrightarrow> adds_callbacks c c'" "functors c' = functors c @ [FWriteComplete] \<Longrightarrow> adds_callbacks c c'"
  "functors c' = functors c @ [FHighWater n] \<Longrightarrow> adds_callbacks c c'"
  by (auto simp: adds_callbacks_def)

lemma adds_callbacks_trans: "adds_callbacks c c1 \<Longrightarrow> adds_callbacks c1 c2 \<Longrightarrow> adds_callbacks c c2"
  by (auto simp: adds_callbacks_def)

lemma adds_callbacks_all:
  "adds_callbacks c c' \<Longrightarrow> list_all callback_functor (functors c) \<Longrightarrow> list_all callback_functor (functors c')"
  by (auto simp: adds_callbacks_def)

lemma callback_functor_iff: "callback_functor f \<longleftrightarrow> f = FWriteComplete \<or> (\<exists>n. f = FHighWater n)"
  by (cases f) simp_all

lemma send_queue_Inr:
  assumes "send_queue nd data left c = Inr c'" "Buffer_inv (outputBuffer c)" "length data \<le> vector_max"
  shows "conn_inv c' \<and> stream c' = stream c @ take left data \<and> adds_callbacks c c' \<and> tc_given c' = tc_given c \<and> tc_whole c' = tc_whole c"
proof -
  obtain b where "Buffer_append nd (take left data) (outputBuffer c) = Inr b" "outputBuffer c' = b" "wire c' = wire c"
      "tc_given c' = tc_given c" "tc_whole c' = tc_whole c"
      "isWriting (readWriteChannel c')" "\<exists>n. functors c' = functors c \<or> functors c' = functors c @ [FHighWater n]"
    using assms(1) by (auto simp: send_queue_def Let_def conn_defs split: if_splits)
  moreover from this(1) have "Buffer_inv b \<and> Buffer_content b = Buffer_content (outputBuffer c) @ take left data"
    using buf.app_Inr [OF assms(2), of "take left data" nd b] assms(3) by simp
  ultimately show ?thesis by (auto simp: conn_inv_def stream_def intro: adds_callbacksI)
qed

lemma send_direct_parts:
  assumes "send_direct wr data c = (left, error, c1)"
  shows "outputBuffer c1 = outputBuffer c \<and> readWriteChannel c1 = readWriteChannel c \<and> tc_given c1 = tc_given c \<and> tc_whole c1 = tc_whole c \<and>
    (functors c1 = functors c \<or> functors c1 = functors c @ [FWriteComplete]) \<and>
    (case wr data of
       Inr n \<Rightarrow> \<not> error \<and> wire c1 = wire c @ take n data \<and> left = length data - n
     | Inl err \<Rightarrow> wire c1 = wire c \<and> left = length data \<and> (error \<longleftrightarrow> err = EPIPE \<or> err = ECONNRESET))"
  using assms errnos_differ by (auto simp: send_direct_def Let_def post_def log_error_def split: if_splits sum.splits)

lemma sendInLoop_given:
  assumes "sendInLoop nd True wr data c = Inr c'" "conn_inv c" "length data \<le> vector_max"
  shows "conn_inv c' \<and> tc_given c' = tc_given c @ data \<and> (tc_whole c' \<longrightarrow> tc_whole c \<and> stream c' = stream c @ data) \<and>
    adds_callbacks c c' \<and> tc_state c' = tc_state c"
proof -
  define c0 where "c0 = note_given wr data c"
  obtain left error c1 where r: "(if \<not> isWriting (readWriteChannel c) \<and> readableBytes (outputBuffer c) = 0
      then send_direct wr data c0 else (length data, False, c0)) = (left, error, c1)" by (metis prod_cases3)
  have inv: "Buffer_inv (outputBuffer c)" using assms(2) by (simp add: conn_inv_def)
  have g0: "tc_given c0 = tc_given c @ data" "tc_whole c0 \<Longrightarrow> tc_whole c" "stream c0 = stream c"
    by (simp_all add: c0_def note_given_def stream_def)
  have c1: "conn_inv c1" "adds_callbacks c c1" "tc_given c1 = tc_given c @ data" "tc_whole c1 = tc_whole c0"
    "tc_whole c0 \<Longrightarrow> if \<not> error \<and> 0 < left then stream c1 = stream c \<and> left = length data else stream c1 = stream c @ data"
  proof -
    have "outputBuffer c1 = outputBuffer c \<and> readWriteChannel c1 = readWriteChannel c \<and> tc_given c1 = tc_given c0 \<and> tc_whole c1 = tc_whole c0 \<and>
        (functors c1 = functors c \<or> functors c1 = functors c @ [FWriteComplete])"
      using r send_direct_parts [of wr data c0 left error c1] by (auto simp: c0_def split: if_splits)
    then show "conn_inv c1" "adds_callbacks c c1" "tc_given c1 = tc_given c @ data" "tc_whole c1 = tc_whole c0"
      using assms(2) g0(1) by (auto simp: conn_inv_def intro: adds_callbacksI)
    show "if \<not> error \<and> 0 < left then stream c1 = stream c \<and> left = length data else stream c1 = stream c @ data" if w: "tc_whole c0"
    proof (cases "\<not> isWriting (readWriteChannel c) \<and> readableBytes (outputBuffer c) = 0")
      case True
      have empty: "Buffer_content (outputBuffer c) = []" using True readable_zero [OF inv] by simp
      have d: "send_direct wr data c0 = (left, error, c1)" using r True by simp
      have "case wr data of Inr n \<Rightarrow> n = 0 \<or> n = length data | Inl err \<Rightarrow> err \<noteq> EPIPE \<and> err \<noteq> ECONNRESET"
        using w True by (simp add: c0_def note_given_def)
      with send_direct_parts [OF d] empty show ?thesis
        by (auto simp: c0_def stream_def split: sum.splits)
    next
      case False
      with r have "left = length data" "\<not> error" "c1 = c0" by auto
      then show ?thesis using g0(3) by simp
    qed
  qed
  have s: "tc_state c' = tc_state c" by (rule sendInLoop_state [OF assms(1)])
  show ?thesis
  proof (cases "\<not> error \<and> 0 < left")
    case True
    then have q: "send_queue nd data left c1 = Inr c'" "Buffer_inv (outputBuffer c1)"
      using assms(1) c1(1) unfolding sendInLoop_def c0_def [symmetric] r by (simp_all add: cassert_Inr_iff conn_inv_def)
    from send_queue_Inr [OF q assms(3)] c1 g0(2) True s show ?thesis by (auto intro: adds_callbacks_trans)
  next
    case False
    then show ?thesis using assms(1) c1 g0(2) s unfolding sendInLoop_def c0_def [symmetric] r by (auto simp: cassert_Inr_iff)
  qed
qed

text \<open>The stream of a connection is what it was given, as long as all was taken whole.\<close>

definition stream_ok :: "TcpConnection \<Rightarrow> bool" where
  "stream_ok c \<longleftrightarrow> (tc_whole c \<longrightarrow> stream c = tc_given c)"

lemma sendInLoop_stream_ok:
  "sendInLoop nd True wr data c = Inr c' \<Longrightarrow> conn_inv c \<Longrightarrow> length data \<le> vector_max \<Longrightarrow> stream_ok c \<Longrightarrow> stream_ok c'"
  using sendInLoop_given [of nd wr data c c'] by (auto simp: stream_ok_def)

lemma handleWrite_cases:
  assumes "handleWrite nd True wr c = Inr c'" "Buffer_inv (outputBuffer c)"
  obtains (same) "c' = c \<or> c' = log_error ''TcpConnection::handleWrite'' c"
  | (moved) n b where "wr (Buffer_content (outputBuffer c)) = Inr n" "retrieve nd n (outputBuffer c) = Inr b"
      "outputBuffer c' = b" "wire c' = wire c @ take n (Buffer_content (outputBuffer c))" "isWriting (readWriteChannel c')"
      "functors c' = functors c \<or> functors c' = functors c @ [FWriteComplete]" "tc_state c' = tc_state c"
      "inputBuffer c' = inputBuffer c" "tc_given c' = tc_given c" "tc_whole c' = tc_whole c"
proof -
  let ?b = "outputBuffer c" and ?d = "Buffer_content (outputBuffer c)"
  have r: "mem_read ?b (peek ?b) (readableBytes ?b) = Inr ?d"
    using mem_read_content [OF assms(2), of "readableBytes ?b"] Buffer_content_all [OF assms(2)] by (simp add: peek_def)
  show ?thesis
  proof (cases "isWriting (readWriteChannel c) \<and> (\<exists>n. wr ?d = Inr n \<and> 0 < n)")
    case False
    then have "c' = c \<or> c' = log_error ''TcpConnection::handleWrite'' c"
      using assms(1) r by (auto simp: handleWrite_def split: if_splits sum.splits)
    then show ?thesis by (rule same)
  next
    case True
    then obtain n where w: "isWriting (readWriteChannel c)" "wr ?d = Inr n" "0 < n" by blast
    then obtain b where b: "retrieve nd n ?b = Inr b" using assms(1) r by (auto simp: handleWrite_def)
    define c1 where "c1 = c\<lparr>outputBuffer := b, wire := wire c @ take n ?d\<rparr>"
    define c3 where "c3 = (if hasWriteCompleteCallback (interest DisableWrite c1) then post FWriteComplete (interest DisableWrite c1) else interest DisableWrite c1)"
    have iw: "isWriting (readWriteChannel c1)" "isWriting (readWriteChannel c3)" using w(1) by (simp_all add: c1_def c3_def)
    have eq: "handleWrite nd True wr c = (if readableBytes b = 0 then if tc_state c3 = kDisconnecting then shutdownInLoop True c3 else Inr c3 else Inr c1)"
      using w r b by (simp add: handleWrite_def c1_def c3_def Let_def)
    have "c' = c1 \<or> c' = c3" using assms(1) iw unfolding eq by (auto simp: shutdownInLoop_def split: if_splits)
    then show ?thesis using w(2) b iw by (intro moved [of n b]) (auto simp: c1_def c3_def post_def interest_def split: if_splits)
  qed
qed

lemma handleWrite_Inr:
  assumes "handleWrite nd True wr c = Inr c'" "kernel_any wr" "Buffer_inv (outputBuffer c)"
  shows "Buffer_inv (outputBuffer c') \<and> (conn_inv c \<longrightarrow> conn_inv c') \<and> stream c' = stream c \<and> adds_callbacks c c' \<and> tc_state c' = tc_state c \<and>
     tc_given c' = tc_given c \<and> tc_whole c' = tc_whole c"
  using assms(1,3)
proof (cases rule: handleWrite_cases)
  case same
  then show ?thesis using assms(3) by (auto simp: conn_inv_def stream_def log_error_def intro: adds_callbacksI)
next
  case (moved n b)
  have "n \<le> length (Buffer_content (outputBuffer c))" using assms(2) moved(1) by (simp add: kernel_any_def)
  from buf.ret_Inr [OF assms(3) this moved(2)] moved show ?thesis
    by (auto simp: conn_inv_def stream_def intro: adds_callbacksI)
qed

lemma tc_shutdown_Inr:
  "tc_shutdown True c = Inr c' \<Longrightarrow> c' = c \<or>
     tc_state c = kConnected \<and> (c' = c\<lparr>tc_state := kDisconnecting\<rparr> \<or> c' = c\<lparr>tc_state := kDisconnecting, wrShut := True\<rparr>)"
  by (auto simp: tc_shutdown_def shutdownInLoop_def setState_def Let_def split: if_splits)

subsection \<open>Well-formed connections\<close>

text \<open>A connection is well formed when both buffers are; \<open>keeps_wf\<close> says that an operation that succeeds leaves it so.\<close>

definition conn_wf :: "TcpConnection \<Rightarrow> bool" where
  "conn_wf c \<longleftrightarrow> Buffer_inv (inputBuffer c) \<and> Buffer_inv (outputBuffer c)"

definition keeps_wf :: "(TcpConnection \<Rightarrow> TcpConnection result) \<Rightarrow> bool" where
  "keeps_wf f \<longleftrightarrow> (\<forall>c c'. conn_wf c \<longrightarrow> f c = Inr c' \<longrightarrow> conn_wf c')"

text \<open>\<open>readv\<close> delivers no more than there is room for.\<close>

definition readv_fits :: "(int \<Rightarrow> nat list \<Rightarrow> int + char list) \<Rightarrow> bool" where
  "readv_fits readv \<longleftrightarrow> (\<forall>fd lens bytes. readv fd lens = Inr bytes \<longrightarrow> length bytes \<le> sum_list lens)"

lemma conn_wf_fields [simp]:
  "conn_wf (post f c) = conn_wf c" "conn_wf (interest op c) = conn_wf c" "conn_wf (log_error s c) = conn_wf c" "conn_wf (setState st c) = conn_wf c"
  "conn_wf (c\<lparr>readWriteChannel := ch\<rparr>) = conn_wf c" "conn_wf (c\<lparr>wrShut := b\<rparr>) = conn_wf c" "conn_wf (c\<lparr>wire := w\<rparr>) = conn_wf c"
  "conn_wf (c\<lparr>reading := b\<rparr>) = conn_wf c" "conn_wf (c\<lparr>delayed := ds\<rparr>) = conn_wf c" "conn_wf (note_given wr d c) = conn_wf c"
  by (simp_all add: conn_wf_def conn_defs)

lemma keeps_wfI: "(\<And>c c'. conn_wf c \<Longrightarrow> f c = Inr c' \<Longrightarrow> conn_wf c') \<Longrightarrow> keeps_wf f"
  by (simp add: keeps_wf_def)

lemma keeps_wfD: "keeps_wf f \<Longrightarrow> f c = Inr c' \<Longrightarrow> conn_wf c \<Longrightarrow> conn_wf c'"
  unfolding keeps_wf_def by blast

lemma retrieve_wf: "Buffer_inv b \<Longrightarrow> retrieve nd n b = Inr b' \<Longrightarrow> Buffer_inv b'"
  using retrieve_spec [of b n nd] retrieveAll_spec(1) [of b]
  by (cases "n < readableBytes b") (auto simp: retrieve_def cassert_Inr_iff)

lemma readFd_wf:
  assumes "Buffer_inv b" "readFd nd readv fd b = Inr (n, err, b')" "readv_fits readv"
  shows "Buffer_inv b'"
proof (cases "readv fd [writableBytes b, extrabufSize]")
  case (Inl e)
  then show ?thesis using assms(1,2) by (simp add: readFd_def)
next
  case (Inr bytes)
  note sz = Buffer_sizes(2) [OF assms(1)]
  have len: "length bytes \<le> writableBytes b + extrabufSize" using assms(3) Inr by (fastforce simp: readv_fits_def)
  obtain a where a: "array_write (writeIndex b) (take (writableBytes b) bytes) (buffer b) = Inr a"
    using assms(2) Inr by (auto simp: readFd_def beginWrite_def Let_def)
  have la: "length a = length (buffer b)" by (rule array_write_length [OF a])
  show ?thesis
  proof (cases "length bytes \<le> writableBytes b")
    case True
    then have "writeIndex b + length bytes \<le> length (buffer b)" using assms(1) by (auto simp: sz Buffer_inv_def)
    from store_spec [OF assms(1) this, of nd] True Inr assms(2) show ?thesis
      by (auto simp: readFd_def Let_def beginWrite_def)
  next
    case False
    have inv: "Buffer_inv (b\<lparr>buffer := a, writeIndex := length a\<rparr>)" using assms(1) la by (auto simp: Buffer_inv_def)
    have "length (take (length bytes - writableBytes b) (drop (writableBytes b) bytes)) \<le> vector_max"
      using len by (simp add: extrabufSize_def vector_max_def)
    from buf.app_Inr [OF inv this] show ?thesis using assms(2) Inr False a by (auto simp: readFd_def Let_def beginWrite_def)
  qed
qed

lemma send_queue_wf:
  assumes "conn_wf c" "send_queue nd data left c = Inr c'" "length data \<le> vector_max"
  shows "conn_wf c'"
proof -
  obtain b where "Buffer_append nd (take left data) (outputBuffer c) = Inr b" "outputBuffer c' = b" "inputBuffer c' = inputBuffer c"
    using assms(2) by (auto simp: send_queue_def Let_def conn_defs split: if_splits)
  moreover from this(1) have "Buffer_inv b" using buf.app_Inr [of "outputBuffer c" "take left data" nd b] assms(1,3) by (simp add: conn_wf_def)
  ultimately show ?thesis using assms(1) by (simp add: conn_wf_def)
qed

lemma sendInLoop_wf:
  assumes "length data \<le> vector_max"
  shows "keeps_wf (sendInLoop nd il wr data)"
proof (rule keeps_wfI)
  fix c c'
  assume c: "conn_wf c" "sendInLoop nd il wr data c = Inr c'"
  obtain left error c1 where r: "(if \<not> isWriting (readWriteChannel c) \<and> readableBytes (outputBuffer c) = 0
      then send_direct wr data (note_given wr data c) else (length data, False, note_given wr data c)) = (left, error, c1)" by (metis prod_cases3)
  have c1: "conn_wf c1" using r c(1) by (auto simp: send_direct_def Let_def split: if_splits sum.splits)
  show "conn_wf c'" using c(2) c1 send_queue_wf [OF c1 _ assms] unfolding sendInLoop_def r
    by (auto simp: assertInLoopThread_def cassert_Inr_iff split: if_splits)
qed

lemma handleWrite_wf: "keeps_wf (handleWrite nd il wr)"
proof (rule keeps_wfI)
  fix c c'
  assume c: "conn_wf c" "handleWrite nd il wr c = Inr c'"
  show "conn_wf c'"
  proof (cases il)
    case True
    have "Buffer_inv (outputBuffer c)" using c(1) by (simp add: conn_wf_def)
    moreover have "handleWrite nd True wr c = Inr c'" using c(2) True by simp
    ultimately show ?thesis
      by (cases rule: handleWrite_cases [rotated]) (use c(1) retrieve_wf in \<open>auto simp: conn_wf_def log_error_def\<close>)
  qed (use c in \<open>simp add: handleWrite_def assertInLoopThread_def\<close>)
qed

lemma simple_wf:
  "keeps_wf (tc_shutdown il)" "keeps_wf (\<lambda>c. Inr (forceCloseWithDelay r c))" "keeps_wf (startRead nd il)" "keeps_wf (stopRead nd il)"
  "keeps_wf (shutdownInLoop il)" "keeps_wf (startReadInLoop il)" "keeps_wf (stopReadInLoop il)"
  by (auto simp: keeps_wf_def tc_shutdown_def shutdownInLoop_def forceCloseWithDelay_def startRead_def startReadInLoop_def
      stopRead_def stopReadInLoop_def assertInLoopThread_def cassert_Inr_iff Let_def split: if_splits)

lemma handleClose_wf: "keeps_wf ccb \<Longrightarrow> keeps_wf clcb \<Longrightarrow> keeps_wf (handleClose nd il ccb clcb)"
  by (rule keeps_wfI) (auto simp: handleClose_def assertInLoopThread_def cassert_Inr_iff dest: keeps_wfD split: if_splits)

lemma lifecycle_wf:
  assumes "keeps_wf ccb"
  shows "keeps_wf (connectionEstablished nd il self ccb)" "keeps_wf (connectionDestroyed nd il ccb)"
  using assms by (auto simp: connectionEstablished_def connectionDestroyed_def assertInLoopThread_def cassert_Inr_iff Let_def
      intro!: keeps_wfI dest!: keeps_wfD [OF assms] split: if_splits)

lemma forceClose_wf:
  assumes "keeps_wf ccb" "keeps_wf clcb"
  shows "keeps_wf (forceClose nd il ccb clcb)" "keeps_wf (forceCloseInLoop nd il ccb clcb)"
  by (auto simp: forceClose_def forceCloseInLoop_def assertInLoopThread_def cassert_Inr_iff Let_def
      intro!: keeps_wfI dest!: keeps_wfD [OF handleClose_wf [OF assms]] split: if_splits)

lemma handleRead_wf:
  assumes "keeps_wf ccb" "keeps_wf (mcb t)" "keeps_wf clcb" "readv_fits readv"
  shows "keeps_wf (handleRead nd il readv t strerror err ccb mcb clcb)"
proof (rule keeps_wfI)
  fix c c'
  assume c: "conn_wf c" and h: "handleRead nd il readv t strerror err ccb mcb clcb c = Inr c'"
  then obtain n sv b where b: "readFd nd readv (tc_fd c) (inputBuffer c) = Inr (n, sv, b)"
    by (auto simp: handleRead_def assertInLoopThread_def split: if_splits)
  have "conn_wf (c\<lparr>inputBuffer := b\<rparr>)" using readFd_wf [OF _ b assms(4)] c by (simp add: conn_wf_def)
  moreover have "mcb t (c\<lparr>inputBuffer := b\<rparr>) = Inr c' \<or> handleClose nd il ccb clcb (c\<lparr>inputBuffer := b\<rparr>) = Inr c'"
    using h b by (auto simp: handleRead_def assertInLoopThread_def Let_def split: if_splits)
  ultimately show "conn_wf c'" using keeps_wfD [OF assms(2)] keeps_wfD [OF handleClose_wf [OF assms(1,3)]] by blast
qed

lemma send_ptr_wf: "length (mem p n) \<le> vector_max \<Longrightarrow> keeps_wf (send_ptr nd il wr mem p n)"
  by (auto simp: send_ptr_def intro!: keeps_wfI dest: keeps_wfD [OF sendInLoop_wf] split: if_splits)

lemma functor_wf:
  assumes "keeps_wf ccb" "keeps_wf clcb" "keeps_wf wcb" "\<And>n. keeps_wf (hcb n)" "\<And>p n. length (mem p n) \<le> vector_max"
    and "\<And>s. f = FSendString s \<Longrightarrow> length s \<le> vector_max"
  shows "keeps_wf (run_conn_functor nd wr mem ccb clcb wcb hcb f)"
proof (cases f)
  case (FSendString s)
  then show ?thesis using assms(6) send_ptr_wf [of "\<lambda>_ _. s"] by (simp add: run_conn_functor_def [abs_def])
qed (use assms sendInLoop_wf simple_wf forceClose_wf in \<open>simp_all add: run_conn_functor_def [abs_def]\<close>)

text \<open>
  C11: connections stay well formed. Whatever operation, event or posted functor runs on a connection, in any state, in any thread and whatever the system calls return,
  if it returns at all both buffers of the connection still satisfy the invariant of \<open>Buffer\<close>, provided the callbacks keep
  it, \<open>readv\<close> delivers no more than there is room for, and no string is longer than a vector can be.
\<close>

theorem connection_keeps_buffers:
  assumes "keeps_wf ccb" "keeps_wf (mcb t)" "keeps_wf clcb" "keeps_wf wcb" "\<And>n. keeps_wf (hcb n)"
    and "readv_fits readv" "length data \<le> vector_max" "\<And>p n. length (mem p n) \<le> vector_max"
    and "\<And>s. f = FSendString s \<Longrightarrow> length s \<le> vector_max"
  shows "list_all keeps_wf
    [connectionEstablished nd il self ccb, connectionDestroyed nd il ccb,
     handleRead nd il readv t strerror err ccb mcb clcb, handleWrite nd il wr, handleClose nd il ccb clcb,
     sendInLoop nd il wr data, send_ptr nd il wr mem p n, tc_shutdown il, forceClose nd il ccb clcb,
     \<lambda>c. Inr (forceCloseWithDelay r c), startRead nd il, stopRead nd il,
     run_conn_functor nd wr mem ccb clcb wcb hcb f]"
  using assms by (simp add: lifecycle_wf handleRead_wf handleWrite_wf handleClose_wf sendInLoop_wf send_ptr_wf simple_wf forceClose_wf functor_wf)

theorem connection_keeps_buffers_witness:
  "list_all keeps_wf
    [connectionEstablished False True 1 Inr, connectionDestroyed False True Inr,
     handleRead False True (\<lambda>_ _. Inr []) (Timestamp_new 0) (\<lambda>_. []) 0 Inr (\<lambda>_. Inr) Inr,
     handleWrite False True (\<lambda>_. Inr 0), handleClose False True Inr Inr,
     sendInLoop False True (\<lambda>_. Inr 0) ''a'', send_ptr False True (\<lambda>_. Inr 0) (\<lambda>_ _. ''a'') 0 1, tc_shutdown True,
     forceClose False True Inr Inr, \<lambda>c. Inr (forceCloseWithDelay 1 c), startRead False True, stopRead False True,
     run_conn_functor False (\<lambda>_. Inr 0) (\<lambda>_ _. ''a'') Inr Inr Inr (\<lambda>_. Inr) (FSendString ''b'')]"
  by (rule connection_keeps_buffers) (simp_all add: keeps_wf_def readv_fits_def vector_max_def)

end
