(* ===== verification/Arale_ServerLife.thy ===== *)
theory Arale_ServerLife
  imports Arale_IdleConnection Arale_TcpServer Arale_Stream
begin

section \<open>The life of a connection across server, loops and threads\<close>

text \<open>
  \<open>TcpServer\<close> hands functions to the loops of its connections, and they hand functions back
  to the server's own loop. This theory puts the pieces together: the world is the server with its connections and the queue
  of pending functors of every loop; a step is one event, one functor or one operation in the thread of some loop, in any order.
  A function given to \<open>runInLoop\<close> of the loop of the running thread is called at once, otherwise it is queued; one
  given to \<open>postFuntor\<close> is always queued. Functors and the server's map hold shared pointers to the connections: when a functor
  has run, or a handler returns, the connection it was about is destroyed if neither the map nor a queued functor refers to it any more.
\<close>

subsection \<open>Running functors\<close>

record server_world =
  sw_srv :: TcpServer
  sw_queue :: "nat \<Rightarrow> end_functor list"

definition sw_enqueue :: "nat \<times> end_functor \<Rightarrow> server_world \<Rightarrow> server_world" where
  "sw_enqueue p w = w\<lparr>sw_queue := (sw_queue w)(fst p := sw_queue w (fst p) @ [snd p])\<rparr>"

definition sw_conn :: "nat \<Rightarrow> nat \<times> TcpConnection \<Rightarrow> server_world \<Rightarrow> server_world" where
  "sw_conn obj x w = w\<lparr>sw_srv := (sw_srv w)\<lparr>conns := (conns (sw_srv w))(obj \<mapsto> x)\<rparr>\<rparr>"

definition sw_on_conn :: "nat \<Rightarrow> (nat \<Rightarrow> TcpConnection \<Rightarrow> TcpConnection result) \<Rightarrow> server_world \<Rightarrow> server_world result" where
  "sw_on_conn obj f w =
     (case conns (sw_srv w) obj of
        None \<Rightarrow> Inl NullDeref
      | Some (lp, c) \<Rightarrow> bindR (f lp c) (\<lambda>c'. Inr (sw_conn obj (lp, c') w)))"

definition sw_release :: "bool \<Rightarrow> nat \<Rightarrow> server_world \<Rightarrow> server_world result" where
  "sw_release nd obj w =
     (case conns (sw_srv w) obj of
        None \<Rightarrow> Inl NullDeref
      | Some (lp, c) \<Rightarrow>
          bindR (TcpConnection_destroy nd c) (\<lambda>_.
          Inr (w\<lparr>sw_srv := (sw_srv w)\<lparr>conns := (conns (sw_srv w))(obj := None)\<rparr>\<rparr>)))"

text \<open>
  What keeps a connection alive: the map entry under its name, and the functors about it in the queues of its loop, of the server's loop and of the loops of the pool.
  Whoever drops a pointer destroys the connection if that was the last one.
\<close>

fun fobj :: "end_functor \<Rightarrow> nat option" where
  "fobj (FEstablished obj) = Some obj"
| "fobj (FDestroyed obj) = Some obj"
| "fobj (FRemove obj) = Some obj"
| "fobj (FSetCloseCallback obj) = Some obj"
| "fobj FListen = None"

definition sw_held :: "server_world \<Rightarrow> nat \<Rightarrow> nat \<Rightarrow> TcpConnection \<Rightarrow> bool" where
  "sw_held w obj lp c \<longleftrightarrow> connections (sw_srv w) (tc_name c) = Some obj \<or>
     list_ex (\<lambda>l. list_ex (\<lambda>f. fobj f = Some obj) (sw_queue w l)) (lp # srv_loop (sw_srv w) # loops (srv_pool (sw_srv w)))"

definition sw_unref :: "bool \<Rightarrow> nat \<Rightarrow> server_world \<Rightarrow> server_world result" where
  "sw_unref nd obj w =
     (case conns (sw_srv w) obj of
        None \<Rightarrow> Inr w
      | Some (lp, c) \<Rightarrow> if sw_held w obj lp c then Inr w else sw_release nd obj w)"

text \<open>The calls of \<open>postFuntor\<close> a server operation made are queued; \<open>listened\<close> is what \<open>listen\<close> returned.\<close>

definition sw_posted :: "TcpServer \<Rightarrow> server_world \<Rightarrow> server_world" where
  "sw_posted s w = fold sw_enqueue (srv_posted s) (w\<lparr>sw_srv := s\<lparr>srv_posted := []\<rparr>\<rparr>)"

fun run_functor :: "bool \<Rightarrow> (TcpConnection \<Rightarrow> TcpConnection result) \<Rightarrow> int \<Rightarrow> nat \<Rightarrow> end_functor \<Rightarrow> server_world \<Rightarrow> server_world result" where
  "run_functor nd ccb listened me (FEstablished obj) w = sw_on_conn obj (\<lambda>lp. connectionEstablished nd (lp = me) obj ccb) w"
| "run_functor nd ccb listened me (FDestroyed obj) w = sw_on_conn obj (\<lambda>lp. connectionDestroyed nd (lp = me) ccb) w"
| "run_functor nd ccb listened me (FRemove obj) w =
     bindR (removeConnectionInLoop nd (srv_loop (sw_srv w) = me) obj (sw_srv w)) (\<lambda>s. Inr (sw_posted s w))"
| "run_functor nd ccb listened me FListen w =
     bindR (startListening (srv_loop (sw_srv w) = me) listened (srv_acceptor (sw_srv w))) (\<lambda>a.
     Inr (w\<lparr>sw_srv := (sw_srv w)\<lparr>srv_acceptor := a\<rparr>\<rparr>))"
| "run_functor nd ccb listened me (FSetCloseCallback obj) w = Inr w"

definition exec_functor ::
  "bool \<Rightarrow> (TcpConnection \<Rightarrow> TcpConnection result) \<Rightarrow> int \<Rightarrow> nat \<Rightarrow> end_functor \<Rightarrow> server_world \<Rightarrow> server_world result" where
  "exec_functor nd ccb listened me f w =
     bindR (run_functor nd ccb listened me f w) (case fobj f of None \<Rightarrow> Inr | Some obj \<Rightarrow> sw_unref nd obj)"

text \<open>The calls of \<open>runInLoop\<close> a server operation made in the thread of loop \<open>me\<close>.\<close>

definition sw_run :: "bool \<Rightarrow> (TcpConnection \<Rightarrow> TcpConnection result) \<Rightarrow> int \<Rightarrow> nat \<Rightarrow> TcpServer \<Rightarrow> server_world \<Rightarrow> server_world result" where
  "sw_run nd ccb listened me s w =
     foldR (\<lambda>(lp, f) w. if lp = me then exec_functor nd ccb listened me f w else Inr (sw_enqueue (lp, f) w))
       (srv_run s) (w\<lparr>sw_srv := s\<lparr>srv_run := []\<rparr>\<rparr>)"

definition sw_next :: "bool \<Rightarrow> (TcpConnection \<Rightarrow> TcpConnection result) \<Rightarrow> int \<Rightarrow> nat \<Rightarrow> server_world \<Rightarrow> server_world result" where
  "sw_next nd ccb listened me w =
     (case sw_queue w me of
        [] \<Rightarrow> Inr w
      | f # fs \<Rightarrow> exec_functor nd ccb listened me f (w\<lparr>sw_queue := (sw_queue w)(me := fs)\<rparr>))"

text \<open>A loop runs the next \<open>n\<close> of its pending functors.\<close>

fun sw_drain :: "bool \<Rightarrow> (TcpConnection \<Rightarrow> TcpConnection result) \<Rightarrow> nat \<Rightarrow> nat \<Rightarrow> server_world \<Rightarrow> server_world result" where
  "sw_drain nd ccb me 0 w = Inr w"
| "sw_drain nd ccb me (Suc n) w = bindR (sw_next nd ccb 0 me w) (sw_drain nd ccb me n)"

subsection \<open>Events\<close>

text \<open>The acceptor's callback in the server's loop, and the end of a connection in its own loop.\<close>

definition sw_start :: "bool \<Rightarrow> (TcpConnection \<Rightarrow> TcpConnection result) \<Rightarrow> int \<Rightarrow> (nat \<Rightarrow> string \<Rightarrow> nat) \<Rightarrow> bool \<Rightarrow> server_world \<Rightarrow> server_world result" where
  "sw_start nd ccb listened mk initCallback w =
     bindR (TcpServer_start nd True mk initCallback (sw_srv w)) (\<lambda>s. sw_run nd ccb listened (srv_loop s) s w)"

definition sw_accept ::
  "bool \<Rightarrow> (TcpConnection \<Rightarrow> TcpConnection result) \<Rightarrow> nat \<Rightarrow> sockaddr \<Rightarrow> int \<Rightarrow> sockaddr \<Rightarrow> server_world \<Rightarrow> server_world result" where
  "sw_accept nd ccb obj la fd pa w =
     bindR (newConncetion nd True obj la fd pa (sw_srv w)) (\<lambda>s.
     bindR (sw_run nd ccb 0 (srv_loop s) s w) (sw_unref nd obj))"

definition sw_close :: "bool \<Rightarrow> (TcpConnection \<Rightarrow> TcpConnection result) \<Rightarrow> nat \<Rightarrow> server_world \<Rightarrow> server_world result" where
  "sw_close nd ccb obj w =
     (case conns (sw_srv w) obj of
        None \<Rightarrow> Inl NullDeref
      | Some (lp, c) \<Rightarrow>
          bindR (sw_on_conn obj (\<lambda>_. handleClose nd True ccb Inr) w) (\<lambda>w1.
          bindR (sw_run nd ccb 0 lp (srv_removeConnection obj (sw_srv w1)) w1) (sw_unref nd obj)))"

subsection \<open>Steps\<close>

text \<open>
  A connection ends by an event of its channel, which the poller reports only when the channel asks for events, or
  by \<open>forceClose\<close>, which looks at the state. \<open>steady_at\<close>: what an operation did to a connection without ending it. It kept the name and the channel's
  registration, changed the state at most from connected to
  disconnecting, and asked for no events on a connection that is not up. \<open>steady\<close> operations do so on every connection.
\<close>

definition quiet :: "TcpConnection \<Rightarrow> bool" where
  "quiet c \<longleftrightarrow> isNoneEvent (readWriteChannel c)"

definition in_loop :: "TcpConnection \<Rightarrow> bool" where
  "in_loop c \<longleftrightarrow> isInLoop (readWriteChannel c)"

definition conn_up :: "TcpConnection \<Rightarrow> bool" where
  "conn_up c \<longleftrightarrow> tc_state c = kConnected \<or> tc_state c = kDisconnecting"

definition steady_at :: "TcpConnection \<Rightarrow> TcpConnection \<Rightarrow> bool" where
  "steady_at c c' \<longleftrightarrow> tc_name c' = tc_name c \<and> (in_loop c \<longrightarrow> in_loop c') \<and>
     (tc_state c' = tc_state c \<or> tc_state c = kConnected \<and> tc_state c' = kDisconnecting) \<and>
     (quiet c \<and> \<not> conn_up c \<longrightarrow> quiet c')"

definition steady :: "(TcpConnection \<Rightarrow> TcpConnection result) \<Rightarrow> bool" where
  "steady f \<longleftrightarrow> (\<forall>c c'. f c = Inr c' \<longrightarrow> steady_at c c')"

inductive server_step :: "bool \<Rightarrow> (TcpConnection \<Rightarrow> TcpConnection result) \<Rightarrow> server_world \<Rightarrow> server_world \<Rightarrow> bool"
  for nd :: bool and ccb :: "TcpConnection \<Rightarrow> TcpConnection result" where
  accept: "conns (sw_srv w) obj = None \<Longrightarrow> nextConnId (sw_srv w) < 2 ^ 31 \<Longrightarrow> sw_accept nd ccb obj la fd pa w = Inr w' \<Longrightarrow>
    server_step nd ccb w w'"
| functor_call: "sw_next nd ccb l me w = Inr w' \<Longrightarrow> server_step nd ccb w w'"
| operation: "conns (sw_srv w) obj = Some (lp, c) \<Longrightarrow> steady_at c c' \<Longrightarrow> server_step nd ccb w (sw_conn obj (lp, c') w)"
| closing: "conns (sw_srv w) obj = Some (lp, c) \<Longrightarrow> \<not> quiet c \<or> conn_up c \<Longrightarrow> sw_close nd ccb obj w = Inr w' \<Longrightarrow> server_step nd ccb w w'"

inductive server_run :: "bool \<Rightarrow> (TcpConnection \<Rightarrow> TcpConnection result) \<Rightarrow> server_world \<Rightarrow> server_world \<Rightarrow> bool"
  for nd :: bool and ccb :: "TcpConnection \<Rightarrow> TcpConnection result" and w :: server_world where
  start: "server_run nd ccb w w"
| more: "server_run nd ccb w w1 \<Longrightarrow> server_step nd ccb w1 w2 \<Longrightarrow> server_run nd ccb w w2"

definition fresh_world :: "server_world \<Rightarrow> bool" where
  "fresh_world w \<longleftrightarrow> srv_inv (sw_srv w) \<and> connections (sw_srv w) = Map.empty \<and> conns (sw_srv w) = Map.empty \<and>
     srv_run (sw_srv w) = [] \<and> srv_posted (sw_srv w) = [] \<and> sw_queue w = (\<lambda>_. [])"

subsection \<open>Operations that do not end a connection\<close>

lemma steady_atD:
  assumes "steady_at c c'"
  shows "tc_name c' = tc_name c" "tc_state c' = tc_state c \<or> tc_state c = kConnected \<and> tc_state c' = kDisconnecting"
    "quiet c \<Longrightarrow> \<not> conn_up c \<Longrightarrow> quiet c'" "in_loop c \<Longrightarrow> in_loop c'"
  using assms unfolding steady_at_def by blast+

lemma steadyI:
  "(\<And>c c'. f c = Inr c' \<Longrightarrow> tc_name c' = tc_name c) \<Longrightarrow>
   (\<And>c c'. f c = Inr c' \<Longrightarrow> tc_state c' = tc_state c \<or> tc_state c = kConnected \<and> tc_state c' = kDisconnecting) \<Longrightarrow>
   (\<And>c c'. f c = Inr c' \<Longrightarrow> quiet c \<Longrightarrow> \<not> conn_up c \<Longrightarrow> quiet c') \<Longrightarrow>
   (\<And>c c'. f c = Inr c' \<Longrightarrow> in_loop c \<Longrightarrow> in_loop c') \<Longrightarrow> steady f"
  unfolding steady_def steady_at_def by blast

lemma steadyD:
  assumes "steady f" "f c = Inr c'"
  shows "steady_at c c'" "tc_name c' = tc_name c" "tc_state c' = tc_state c \<or> tc_state c = kConnected \<and> tc_state c' = kDisconnecting"
    "quiet c \<Longrightarrow> \<not> conn_up c \<Longrightarrow> quiet c'" "in_loop c \<Longrightarrow> in_loop c'"
  using assms unfolding steady_def steady_at_def by blast+

lemma quiet_not_writing: "quiet c \<Longrightarrow> \<not> isWriting (readWriteChannel c)"
  by (simp add: quiet_def isNoneEvent_def isWriting_def kNoneEvent_def)

lemma quiet_fields [simp]:
  "quiet (post f c) = quiet c" "quiet (log_error s c) = quiet c" "quiet (setState st c) = quiet c"
  "quiet (c\<lparr>wire := v\<rparr>) = quiet c" "quiet (c\<lparr>wrShut := b\<rparr>) = quiet c" "quiet (c\<lparr>outputBuffer := x\<rparr>) = quiet c"
  "quiet (c\<lparr>inputBuffer := x\<rparr>) = quiet c" "quiet (c\<lparr>reading := b\<rparr>) = quiet c"
  "tc_name (post f c) = tc_name c" "tc_name (log_error s c) = tc_name c" "tc_name (setState st c) = tc_name c"
  "tc_name (interest op c) = tc_name c"
  by (simp_all add: quiet_def conn_defs)

lemma in_loop_fields [simp]:
  "in_loop (post f c) = in_loop c" "in_loop (log_error s c) = in_loop c" "in_loop (setState st c) = in_loop c"
  "in_loop (c\<lparr>wire := v\<rparr>) = in_loop c" "in_loop (c\<lparr>wrShut := b\<rparr>) = in_loop c" "in_loop (c\<lparr>outputBuffer := x\<rparr>) = in_loop c"
  "in_loop (c\<lparr>inputBuffer := x\<rparr>) = in_loop c" "in_loop (c\<lparr>reading := b\<rparr>) = in_loop c" "in_loop (interest op c)"
  "in_loop (note_given wr d c) = in_loop c" "quiet (note_given wr d c) = quiet c"
  by (simp_all add: in_loop_def quiet_def conn_defs Channel_interest_def)

lemma steady_shutdown: "steady (tc_shutdown il)" "steady (shutdownInLoop il)"
  by (auto intro!: steadyI simp: tc_shutdown_def shutdownInLoop_def assertInLoopThread_def Let_def setState_def quiet_def in_loop_def post_def
      conn_up_def split: if_splits)

lemma steady_delay: "steady (\<lambda>c. Inr (forceCloseWithDelay r c))"
  by (auto intro!: steadyI simp: forceCloseWithDelay_def Let_def setState_def quiet_def in_loop_def split: if_splits)

lemma steady_seq:
  assumes "steady f" "steady g"
  shows "steady (\<lambda>c. bindR (f c) g)"
proof (rule steadyI)
  fix c c'
  assume "bindR (f c) g = Inr c'"
  then obtain c1 where "f c = Inr c1" "g c1 = Inr c'" by auto
  note d = steadyD [OF assms(1) this(1)] steadyD [OF assms(2) this(2)]
  show "tc_name c' = tc_name c" "tc_state c' = tc_state c \<or> tc_state c = kConnected \<and> tc_state c' = kDisconnecting"
    using d by auto
  show "quiet c'" if "quiet c" "\<not> conn_up c" using d that by (auto simp: conn_up_def)
  show "in_loop c'" if "in_loop c" using d that by blast
qed

definition same_place :: "TcpConnection \<Rightarrow> TcpConnection \<Rightarrow> bool" where
  "same_place c c' \<longleftrightarrow> tc_name c' = tc_name c \<and> tc_state c' = tc_state c \<and> (in_loop c \<longrightarrow> in_loop c')"

lemma send_direct_place: "send_direct wr d c = (n, e, c') \<Longrightarrow> same_place c c'"
  by (auto simp: send_direct_def same_place_def Let_def split: if_splits sum.splits)

lemma send_queue_place: "send_queue nd d n c = Inr c' \<Longrightarrow> same_place c c'"
  by (auto simp: send_queue_def same_place_def Let_def conn_fields split: if_splits)

lemma sendInLoop_name_state:
  assumes "sendInLoop nd il wr d c = Inr c'"
  shows "tc_name c' = tc_name c \<and> tc_state c' = tc_state c \<and> (in_loop c \<longrightarrow> in_loop c')"
proof -
  let ?c = "note_given wr d c"
  have n: "same_place c ?c" by (simp add: same_place_def)
  have t: "same_place x y \<Longrightarrow> same_place y z \<Longrightarrow> same_place x z" for x y z by (simp add: same_place_def)
  define d1 where "d1 = (if \<not> isWriting (readWriteChannel c) \<and> readableBytes (outputBuffer c) = 0 then send_direct wr d ?c else (length d, False, ?c))"
  obtain left e c1 where d1: "d1 = (left, e, c1)" by (cases d1) auto
  have c1: "same_place c c1" using d1 t [OF n] send_direct_place [of wr d ?c left e c1] n unfolding d1_def by (auto split: if_splits)
  have "(if \<not> e \<and> 0 < left then send_queue nd d left c1 else Inr c1) = Inr c'"
    using assms unfolding sendInLoop_def d1_def [symmetric] d1 by (auto simp: assertInLoopThread_def cassert_Inr_iff split: if_splits)
  then have "same_place c c'" using c1 t [OF c1] send_queue_place [of nd d left c1 c'] by (auto split: if_splits)
  then show ?thesis by (simp add: same_place_def)
qed

text \<open>What another thread's \<open>send\<close> left behind does not end a connection that is still up.\<close>

lemma steady_at_send: "conn_up c \<Longrightarrow> sendInLoop nd il wr d c = Inr c' \<Longrightarrow> steady_at c c'"
  using sendInLoop_name_state [of nd il wr d c c'] by (simp add: steady_at_def)

lemma steady_send: "steady (send_ptr nd True wr mem p n)"
  by (rule steadyI) (auto simp: send_ptr_def conn_up_def dest: sendInLoop_name_state split: if_splits)

lemma handleWrite_name_state:
  assumes "handleWrite nd il wr c = Inr c'"
  shows "tc_name c' = tc_name c \<and> tc_state c' = tc_state c \<and> (in_loop c \<longrightarrow> in_loop c')"
proof (cases "il \<and> isWriting (readWriteChannel c)")
  case True
  then obtain d where d: "mem_read (outputBuffer c) (peek (outputBuffer c)) (readableBytes (outputBuffer c)) = Inr d"
    using assms by (auto simp: handleWrite_def)
  show ?thesis
  proof (cases "\<exists>res. wr d = Inr res \<and> 0 < res")
    case False
    then have "c' = log_error ''TcpConnection::handleWrite'' c"
      using assms True d by (auto simp: handleWrite_def split: sum.splits if_splits)
    then show ?thesis by simp
  next
    case w: True
    then obtain res b where "wr d = Inr res" "0 < res" "retrieve nd res (outputBuffer c) = Inr b"
      using assms True d by (auto simp: handleWrite_def)
    then show ?thesis using assms True d
      by (auto simp: handleWrite_def shutdownInLoop_def Let_def conn_defs in_loop_def Channel_interest_def split: if_splits)
  qed
qed (use assms in \<open>auto simp: handleWrite_def assertInLoopThread_def split: if_splits\<close>)

lemma steady_handleWrite: "steady (handleWrite nd il wr)"
proof (rule steadyI)
  fix c c'
  assume h: "handleWrite nd il wr c = Inr c'"
  show "tc_name c' = tc_name c" "tc_state c' = tc_state c \<or> tc_state c = kConnected \<and> tc_state c' = kDisconnecting"
    "in_loop c \<Longrightarrow> in_loop c'"
    using handleWrite_name_state [OF h] by simp_all
  show "quiet c'" if "quiet c"
    using h that quiet_not_writing [OF that] by (simp add: handleWrite_def assertInLoopThread_def split: if_splits)
qed

lemma steady_message:
  assumes "steady (mcb t)" "readFd nd readv (tc_fd c) (inputBuffer c) = Inr (n, err, b)" "n \<noteq> 0" "- (2 ^ 64) < n"
    and "handleRead nd True readv t strerror e ccb mcb clcb c = Inr c'"
  shows "\<exists>f. steady f \<and> f c = Inr c'"
proof (intro exI conjI)
  have "0 < (if n < 0 then 2 ^ 64 - nat (- n) else nat n)" using assms(3,4) by (auto simp: nat_less_iff)
  then show "mcb t (c\<lparr>inputBuffer := b\<rparr>) = Inr c'" using assms(2,5) by (simp add: handleRead_def Let_def)
  show "steady (\<lambda>c. mcb t (c\<lparr>inputBuffer := b\<rparr>))"
  proof (rule steadyI)
    fix c c' assume "mcb t (c\<lparr>inputBuffer := b\<rparr>) = Inr c'"
    note d = steadyD [OF assms(1) this]
    show "tc_name c' = tc_name c" "tc_state c' = tc_state c \<or> tc_state c = kConnected \<and> tc_state c' = kDisconnecting"
      "quiet c \<Longrightarrow> \<not> conn_up c \<Longrightarrow> quiet c'" "in_loop c \<Longrightarrow> in_loop c'"
      using d by (simp_all add: conn_up_def)
  qed
qed

lemma steady_functors:
  assumes "steady wcb" "\<And>n. steady (hcb n)" "f \<in> {FWriteComplete, FHighWater k, FShutdownInLoop, FSendString str}"
  shows "steady (run_conn_functor nd wr mem ccb clcb wcb hcb f)"
  using assms steady_shutdown(2) steady_send by (cases f) (auto simp: run_conn_functor_def [abs_def])

text \<open>
  It is not steady on every connection: when it runs after the connection has gone down, what it cannot write is queued and
  the channel is asked to report write events again.
\<close>

lemma late_send_wakes_channel:
  assumes "tc_state c = kDisconnected" "quiet c" "wr d = Inl EAGAIN" "d \<noteq> []" "conn_wf c" "readableBytes (outputBuffer c) = 0"
    and "mem p n = d" "run_conn_functor nd wr mem ccb clcb wcb hcb (FSendInLoop p n) c = Inr c'"
  shows "tc_state c' = kDisconnected \<and> \<not> quiet c'"
proof -
  have "send_queue nd d (length d) (note_given wr d c) = Inr c'"
    using assms quiet_not_writing [OF assms(2)] by (simp add: run_conn_functor_def sendInLoop_def send_direct_def cassert_Inr_iff)
  then obtain b c2 where c': "c' = interest EnableWrite (c2\<lparr>outputBuffer := b\<rparr>)" and c2: "tc_state c2 = tc_state c"
    using quiet_not_writing [OF assms(2)] by (fastforce simp: send_queue_def Let_def split: if_splits)
  have "isWriting (readWriteChannel c')" "tc_state c' = tc_state c" using c2 by (simp_all add: c')
  with assms(1) quiet_not_writing show ?thesis by metis
qed

subsection \<open>Where a connection stands\<close>

definition pending :: "server_world \<Rightarrow> nat \<Rightarrow> nat \<Rightarrow> end_functor list" where
  "pending w obj lp = filter (\<lambda>f. fobj f = Some obj) (sw_queue w lp)"

definition only_at :: "nat \<Rightarrow> end_functor \<Rightarrow> nat \<Rightarrow> end_functor list" where
  "only_at lp f = (\<lambda>l. if l = lp then [f] else [])"

text \<open>
  The stages: handed to its loop but not yet established; up; down in a loop of the pool, with its removal on the way to the server's loop; out of the map,
  with its destruction on the way to its own loop. Each stage fixes the state of the connection, whether the map has it, and all the functors about it that are queued
  anywhere.
\<close>

datatype life = Arriving | Up | Leaving | Removed

fun in_stage :: "life \<Rightarrow> nat \<Rightarrow> nat \<Rightarrow> bool \<Rightarrow> (nat \<Rightarrow> end_functor list) \<Rightarrow> nat \<Rightarrow> TcpConnection \<Rightarrow> bool" where
  "in_stage Arriving base obj reg pend lp c \<longleftrightarrow> tc_state c = kConnecting \<and> quiet c \<and> reg \<and> pend = only_at lp (FEstablished obj)"
| "in_stage Up base obj reg pend lp c \<longleftrightarrow> conn_up c \<and> reg \<and> pend = (\<lambda>_. [])"
| "in_stage Leaving base obj reg pend lp c \<longleftrightarrow>
     tc_state c = kDisconnected \<and> quiet c \<and> in_loop c \<and> reg \<and> lp \<noteq> base \<and> pend = only_at base (FRemove obj)"
| "in_stage Removed base obj reg pend lp c \<longleftrightarrow>
     tc_state c = kDisconnected \<and> quiet c \<and> in_loop c \<and> \<not> reg \<and> pend = only_at lp (FDestroyed obj)"

definition at_stage :: "server_world \<Rightarrow> nat \<Rightarrow> nat \<Rightarrow> TcpConnection \<Rightarrow> life \<Rightarrow> bool" where
  "at_stage w obj lp c st \<longleftrightarrow>
     in_stage st (srv_loop (sw_srv w)) obj (connections (sw_srv w) (tc_name c) = Some obj) (pending w obj) lp c"

definition obj_ok :: "server_world \<Rightarrow> nat \<Rightarrow> bool" where
  "obj_ok w obj \<longleftrightarrow>
     (case conns (sw_srv w) obj of
        None \<Rightarrow> pending w obj = (\<lambda>_. []) \<and> (\<forall>n. connections (sw_srv w) n \<noteq> Some obj)
      | Some (lp, c) \<Rightarrow> \<exists>st. at_stage w obj lp c st)"

definition life_inv :: "server_world \<Rightarrow> bool" where
  "life_inv w \<longleftrightarrow> srv_inv (sw_srv w) \<and> srv_run (sw_srv w) = [] \<and> srv_posted (sw_srv w) = [] \<and>
     (\<forall>lp f. f \<in> set (sw_queue w lp) \<longrightarrow> fobj f \<noteq> None) \<and> (\<forall>obj. obj_ok w obj)"

lemma only_at_simps [simp]:
  "only_at lp f lp = [f]" "only_at lp f \<noteq> (\<lambda>_. [])" "(\<lambda>_. []) \<noteq> only_at lp f"
  "(\<lambda>_. [])(lp := [f]) = only_at lp f" "(only_at lp f)(lp := []) = (\<lambda>_. [])"
  by (auto simp: only_at_def fun_eq_iff)

lemma only_at_inj: "only_at lp f l = g # gs \<Longrightarrow> l = lp \<and> g = f \<and> gs = []"
  by (auto simp: only_at_def split: if_splits)

lemma pending_enqueue:
  "pending (sw_enqueue (lp, f) w) obj =
     (if fobj f = Some obj then (pending w obj)(lp := pending w obj lp @ [f]) else pending w obj)"
  by (auto simp: pending_def sw_enqueue_def fun_eq_iff)

lemma pending_pop:
  assumes "sw_queue w me = f # fs"
  shows "pending (w\<lparr>sw_queue := (sw_queue w)(me := fs)\<rparr>) obj =
     (if fobj f = Some obj then (pending w obj)(me := tl (pending w obj me)) else pending w obj)"
  using assms by (auto simp: pending_def fun_eq_iff)

lemma pending_srv [simp]: "pending (w\<lparr>sw_srv := s\<rparr>) = pending w" "pending (sw_conn obj x w) = pending w"
  by (simp_all add: pending_def sw_conn_def fun_eq_iff)

lemma sw_enqueue_srv [simp]: "sw_srv (sw_enqueue p w) = sw_srv w"
  by (simp add: sw_enqueue_def)

lemma life_invD:
  assumes "life_inv w"
  shows "srv_inv (sw_srv w)" "srv_run (sw_srv w) = []" "srv_posted (sw_srv w) = []"
    "f \<in> set (sw_queue w lp) \<Longrightarrow> fobj f \<noteq> None" "obj_ok w obj"
  using assms unfolding life_inv_def by blast+

text \<open>A step concerns one connection; what is left to show is where that one stands.\<close>

definition life_except :: "nat \<Rightarrow> server_world \<Rightarrow> bool" where
  "life_except obj w \<longleftrightarrow> srv_inv (sw_srv w) \<and> srv_run (sw_srv w) = [] \<and> srv_posted (sw_srv w) = [] \<and>
     (\<forall>lp f. f \<in> set (sw_queue w lp) \<longrightarrow> fobj f \<noteq> None) \<and> (\<forall>o'. o' \<noteq> obj \<longrightarrow> obj_ok w o')"

lemma life_except_of: "life_inv w \<Longrightarrow> life_except obj w"
  by (simp add: life_inv_def life_except_def)

lemma life_inv_of: "life_except obj w \<Longrightarrow> obj_ok w obj \<Longrightarrow> life_inv w"
  unfolding life_inv_def life_except_def by metis

lemma life_exceptD:
  assumes "life_except obj w"
  shows "srv_inv (sw_srv w)" "srv_run (sw_srv w) = []" "srv_posted (sw_srv w) = []"
    "f \<in> set (sw_queue w lp) \<Longrightarrow> fobj f \<noteq> None" "o' \<noteq> obj \<Longrightarrow> obj_ok w o'"
  using assms unfolding life_except_def by blast+

lemma life_except_frame:
  assumes "life_except obj w" "srv_inv (sw_srv w')" "srv_run (sw_srv w') = []" "srv_posted (sw_srv w') = []"
    and "srv_loop (sw_srv w') = srv_loop (sw_srv w)" "\<And>lp f. f \<in> set (sw_queue w' lp) \<Longrightarrow> fobj f \<noteq> None"
    and "\<And>o'. o' \<noteq> obj \<Longrightarrow> conns (sw_srv w') o' = conns (sw_srv w) o'"
    and "\<And>o'. o' \<noteq> obj \<Longrightarrow> pending w' o' = pending w o'"
    and "\<And>o' n. o' \<noteq> obj \<Longrightarrow> (connections (sw_srv w') n = Some o') = (connections (sw_srv w) n = Some o')"
  shows "life_except obj w'"
proof -
  have "obj_ok w' o'" if "o' \<noteq> obj" for o'
    using that life_exceptD(5) [OF assms(1) that]
    by (simp add: obj_ok_def at_stage_def assms(5,7-9) cong: option.case_cong)
  then show ?thesis using assms(2-4,6) unfolding life_except_def by blast
qed

lemma pop_except:
  assumes "life_inv w" "sw_queue w me = f # fs" "fobj f = Some obj"
  shows "life_except obj (w\<lparr>sw_queue := (sw_queue w)(me := fs)\<rparr>)"
proof (rule life_except_frame [OF life_except_of [OF assms(1)]])
  show "fobj g \<noteq> None" if "g \<in> set (sw_queue (w\<lparr>sw_queue := (sw_queue w)(me := fs)\<rparr>) lp)" for lp g
    using that life_invD(4) [OF assms(1), of g lp] assms(2) by (cases "lp = me") auto
qed (use life_invD [OF assms(1)] assms(3) pending_pop [OF assms(2)] in auto)

lemma srv_inv_conn:
  assumes "srv_inv s" "conns s obj = Some (lp, c)" "tc_name c' = tc_name c"
  shows "srv_inv (s\<lparr>conns := (conns s)(obj \<mapsto> (lp, c'))\<rparr>)"
  using assms unfolding srv_inv_def by (fastforce simp: name_of_def)

lemma fresh_life_inv: "fresh_world w \<Longrightarrow> life_inv w"
  by (auto simp: fresh_world_def life_inv_def obj_ok_def pending_def fun_eq_iff)

text \<open>Replacing a connection by one of the same name.\<close>

lemma sw_conn_except:
  assumes "life_except obj w" "conns (sw_srv w) obj = Some (lp, c)" "tc_name c' = tc_name c"
  shows "life_except obj (sw_conn obj (lp, c') w)"
  by (rule life_except_frame [OF assms(1)])
    (use life_exceptD [OF assms(1)] srv_inv_conn [OF _ assms(2,3)] in \<open>auto simp: sw_conn_def pending_def [abs_def]\<close>)

lemma sw_conn_simps [simp]:
  "conns (sw_srv (sw_conn obj x w)) = (conns (sw_srv w))(obj \<mapsto> x)" "connections (sw_srv (sw_conn obj x w)) = connections (sw_srv w)"
  "srv_loop (sw_srv (sw_conn obj x w)) = srv_loop (sw_srv w)" "srv_run (sw_srv (sw_conn obj x w)) = srv_run (sw_srv w)"
  "sw_queue (sw_conn obj x w) = sw_queue w"
  by (simp_all add: sw_conn_def)

lemma life_inv_conn:
  assumes "life_except obj w" "conns (sw_srv w) obj = Some (lp, c)" "tc_name c' = tc_name c" "at_stage w obj lp c' st"
  shows "life_inv (sw_conn obj (lp, c') w)" "at_stage (sw_conn obj (lp, c') w) obj lp c' st"
proof -
  show "at_stage (sw_conn obj (lp, c') w) obj lp c' st" using assms(4) by (simp add: at_stage_def)
  then show "life_inv (sw_conn obj (lp, c') w)"
    using life_inv_of [OF sw_conn_except [OF assms(1-3)]] by (auto simp: obj_ok_def)
qed

lemma life_stage: "life_inv w \<Longrightarrow> conns (sw_srv w) obj = Some (lp, c) \<Longrightarrow> \<exists>st. at_stage w obj lp c st"
  using life_invD(5) [of w obj] by (simp add: obj_ok_def)

lemma at_stage_steady:
  assumes "steady_at c c'" "at_stage w obj lp c st"
  shows "at_stage w obj lp c' st"
  using assms(2) steady_atD [OF assms(1)] by (cases st) (auto simp: at_stage_def conn_up_def)

lemma steady_step:
  assumes "life_inv w" "conns (sw_srv w) obj = Some (lp, c)" "steady_at c c'"
  shows "life_inv (sw_conn obj (lp, c') w)"
  using life_stage [OF assms(1,2)] at_stage_steady [OF assms(3)] steady_atD(1) [OF assms(3)]
    life_inv_conn(1) [OF life_except_of [OF assms(1)] assms(2)] by blast

text \<open>At every stage something holds the connection.\<close>

lemma pending_in_queue: "pending w obj l \<noteq> [] \<longleftrightarrow> list_ex (\<lambda>f. fobj f = Some obj) (sw_queue w l)"
  by (simp add: pending_def filter_empty_conv list_ex_iff)

lemma stage_held: "at_stage w obj lp c st \<Longrightarrow> sw_held w obj lp c"
  by (cases st) (auto simp: at_stage_def sw_held_def pending_in_queue [symmetric])

lemma unref_stage: "conns (sw_srv w) obj = Some (lp, c) \<Longrightarrow> at_stage w obj lp c st \<Longrightarrow> sw_unref nd obj w = Inr w"
  by (simp add: sw_unref_def stage_held)

lemma not_held: "connections (sw_srv w) (tc_name c) \<noteq> Some obj \<Longrightarrow> pending w obj = (\<lambda>_. []) \<Longrightarrow> \<not> sw_held w obj lp c"
  by (simp add: sw_held_def pending_in_queue [symmetric] list_ex_iff [where xs = "loops _"])

lemma unref_frame:
  assumes "sw_unref nd obj w = Inr w'"
  shows "sw_queue w' = sw_queue w" "pending w' = pending w" "\<And>o'. o' \<noteq> obj \<Longrightarrow> conns (sw_srv w') o' = conns (sw_srv w) o'"
    "conns (sw_srv w) obj = None \<Longrightarrow> w' = w" "connections (sw_srv w') = connections (sw_srv w)"
  using assms by (auto simp: sw_unref_def sw_release_def pending_def [abs_def] split: option.splits if_splits)

lemma exec_at_stage:
  assumes "run_functor nd ccb l me f w = Inr w'" "fobj f = Some obj" "conns (sw_srv w') obj = Some (lp, c)" "at_stage w' obj lp c st"
  shows "exec_functor nd ccb l me f w = Inr w'"
  using assms(1,2) unref_stage [OF assms(3,4)] by (simp add: exec_functor_def)

subsection \<open>The server takes a connection out of its map\<close>

lemma registered_name: "srv_inv s \<Longrightarrow> connections s n = Some obj \<Longrightarrow> conns s obj = Some (lp, c) \<Longrightarrow> n = tc_name c"
  unfolding srv_inv_def by fastforce

lemma srv_inv_unregister:
  assumes "srv_inv s"
  shows "srv_inv (s\<lparr>connections := (connections s)(n := None)\<rparr>)"
proof -
  have "name_of (s\<lparr>connections := (connections s)(n := None)\<rparr>) i = name_of s i" for i by (simp add: name_of_def)
  then show ?thesis using assms by (auto simp: srv_inv_def split: if_splits)
qed

lemma srv_inv_release: "srv_inv s \<Longrightarrow> (\<And>n. connections s n \<noteq> Some obj) \<Longrightarrow> srv_inv (s\<lparr>conns := (conns s)(obj := None)\<rparr>)"
  unfolding srv_inv_def by (fastforce simp: name_of_def)

lemma srv_inv_queues [simp]: "srv_inv (s\<lparr>srv_posted := xs\<rparr>) = srv_inv s" "srv_inv (s\<lparr>srv_run := xs\<rparr>) = srv_inv s"
  by (simp_all add: srv_inv_def name_of_def)

lemma exec_remove:
  assumes "life_except obj w" "conns (sw_srv w) obj = Some (lp, c)" "connections (sw_srv w) (tc_name c) = Some obj"
    and "tc_state c = kDisconnected" "quiet c" "in_loop c" "pending w obj = (\<lambda>_. [])"
  shows "\<exists>w'. exec_functor nd ccb l (srv_loop (sw_srv w)) (FRemove obj) w = Inr w' \<and> life_inv w' \<and>
     conns (sw_srv w') obj = Some (lp, c) \<and> at_stage w' obj lp c Removed"
proof -
  let ?s = "sw_srv w"
  define s1 where "s1 = ?s\<lparr>connections := (connections ?s)(tc_name c := None)\<rparr>"
  define w' where "w' = sw_enqueue (lp, FDestroyed obj) (w\<lparr>sw_srv := s1\<rparr>)"
  note e = life_exceptD [OF assms(1)]
  have p: "srv_posted s1 = []" "srv_run s1 = []" "srv_loop s1 = srv_loop ?s" "conns s1 = conns ?s" using e(2,3) by (simp_all add: s1_def)
  then have r: "s1\<lparr>srv_posted := []\<rparr> = s1" by (cases s1) simp
  have "removeConnectionInLoop nd True obj ?s = Inr (s1\<lparr>srv_posted := [(lp, FDestroyed obj)]\<rparr>)"
    using assms(2,3) e(3) by (simp add: removeConnectionInLoop_def Let_def s1_def)
  then have x: "run_functor nd ccb l (srv_loop ?s) (FRemove obj) w = Inr w'"
    by (simp add: sw_posted_def w'_def r)
  have "life_except obj w'"
  proof (rule life_except_frame [OF assms(1)])
    show "srv_inv (sw_srv w')" using srv_inv_unregister [OF e(1)] by (simp add: w'_def s1_def)
    show "fobj f \<noteq> None" if "f \<in> set (sw_queue w' l)" for l f
      using that e(4) [of f l] by (auto simp: w'_def sw_enqueue_def split: if_splits)
  qed (use p assms(3) in \<open>auto simp: w'_def pending_enqueue s1_def\<close>)
  moreover have st: "at_stage w' obj lp c Removed"
    using assms(4-7) by (simp add: at_stage_def w'_def s1_def pending_enqueue)
  moreover have c: "conns (sw_srv w') obj = Some (lp, c)" using assms(2) p by (simp add: w'_def)
  moreover have "obj_ok w' obj" using st c by (auto simp: obj_ok_def)
  ultimately show ?thesis using exec_at_stage [OF x _ c st] life_inv_of by fastforce
qed

lemma exec_destroyed:
  assumes "life_except obj w" "conns (sw_srv w) obj = Some (lp, c)" "connections (sw_srv w) (tc_name c) \<noteq> Some obj"
    and "tc_state c = kDisconnected" "quiet c" "in_loop c" "pending w obj = (\<lambda>_. [])"
  shows "\<exists>w'. exec_functor nd ccb l lp (FDestroyed obj) w = Inr w' \<and> life_inv w' \<and> conns (sw_srv w') obj = None"
proof -
  let ?s = "sw_srv w"
  define w' where "w' = w\<lparr>sw_srv := ?s\<lparr>conns := (conns ?s)(obj := None)\<rparr>\<rparr>"
  note e = life_exceptD [OF assms(1)]
  have n: "connections ?s n \<noteq> Some obj" for n using registered_name [OF e(1) _ assms(2)] assms(3) by blast
  define c1 where "c1 = c\<lparr>readWriteChannel := Channel_unloop (readWriteChannel c)\<rparr>"
  define w1 where "w1 = sw_conn obj (lp, c1) w"
  have "connectionDestroyed nd True ccb c = Inr c1"
    using assms(4-6) by (simp add: connectionDestroyed_def Channel_remove_def quiet_def in_loop_def c1_def)
  then have r: "run_functor nd ccb l lp (FDestroyed obj) w = Inr w1" using assms(2) by (simp add: sw_on_conn_def w1_def)
  have "\<not> sw_held w1 obj lp c1" using assms(3,7) by (intro not_held) (simp_all add: w1_def c1_def)
  then have "sw_unref nd obj w1 = Inr w'"
    using assms(4) by (simp add: sw_unref_def sw_release_def TcpConnection_destroy_def w1_def c1_def sw_conn_def w'_def)
  then have x: "exec_functor nd ccb l lp (FDestroyed obj) w = Inr w'" using r by (simp add: exec_functor_def)
  have "life_except obj w'"
    by (rule life_except_frame [OF assms(1)])
      (use e srv_inv_release [OF e(1) n] in \<open>auto simp: w'_def\<close>)
  moreover have "obj_ok w' obj" "conns (sw_srv w') obj = None" using n assms(7) by (simp_all add: obj_ok_def w'_def)
  ultimately show ?thesis using x life_inv_of by blast
qed

text \<open>An operation of the server that made a single call of \<open>runInLoop\<close>.\<close>

lemma sw_run_one:
  assumes "srv_run s = []"
  shows "sw_run nd ccb l me (s\<lparr>srv_run := [(lp, f)]\<rparr>) w =
     (if lp = me then exec_functor nd ccb l me f (w\<lparr>sw_srv := s\<rparr>) else Inr (sw_enqueue (lp, f) (w\<lparr>sw_srv := s\<rparr>)))"
proof -
  have "s\<lparr>srv_run := []\<rparr> = s" using assms by (cases s) simp
  moreover have "bindR m (foldR g []) = m" for m :: "server_world result" and g :: "nat \<times> end_functor \<Rightarrow> server_world \<Rightarrow> server_world result"
    by (cases m) simp_all
  ultimately show ?thesis by (simp add: sw_run_def)
qed

text \<open>A functor leaves the other connections and what is queued about them alone.\<close>

lemma pending_eqI: "(\<And>l. filter (\<lambda>f. fobj f = Some obj) (sw_queue w l) = filter (\<lambda>f. fobj f = Some obj) (sw_queue w' l)) \<Longrightarrow> pending w obj = pending w' obj"
  by (simp add: pending_def fun_eq_iff)

lemma sw_on_conn_Inr:
  assumes "sw_on_conn obj f w = Inr w'"
  obtains lp c c' where "conns (sw_srv w) obj = Some (lp, c)" "f lp c = Inr c'" "w' = sw_conn obj (lp, c') w"
  using assms by (auto simp: sw_on_conn_def split: option.splits)

definition own_effect :: "end_functor \<Rightarrow> nat \<Rightarrow> server_world \<Rightarrow> server_world \<Rightarrow> bool" where
  "own_effect f obj w w' \<longleftrightarrow>
     (conns (sw_srv w) obj = None \<longrightarrow> conns (sw_srv w') obj = None) \<and>
     (f = FRemove obj \<longrightarrow> conns (sw_srv w') = conns (sw_srv w) \<and>
        (\<forall>lp c. conns (sw_srv w) obj = Some (lp, c) \<longrightarrow> connections (sw_srv w') (tc_name c) \<noteq> Some obj))"

lemma run_frame:
  assumes "run_functor nd ccb l me f w = Inr w'" "fobj f = Some obj" "srv_posted (sw_srv w) = []"
  shows "(\<exists>zs. sw_queue w' me = sw_queue w me @ zs) \<and>
     (\<forall>o'. o' \<noteq> obj \<longrightarrow> conns (sw_srv w') o' = conns (sw_srv w) o' \<and> pending w' o' = pending w o') \<and>
     own_effect f obj w w' \<and> (f = FRemove obj \<longrightarrow> sw_unref nd obj w' = Inr w')"
proof (cases f)
  case (FEstablished o')
  with assms show ?thesis by (auto simp: own_effect_def elim!: sw_on_conn_Inr)
next
  case (FDestroyed o')
  with assms show ?thesis by (auto simp: own_effect_def elim!: sw_on_conn_Inr)
next
  case (FRemove o')
  with assms(1) obtain s where s: "removeConnectionInLoop nd (srv_loop (sw_srv w) = me) o' (sw_srv w) = Inr s" "w' = sw_posted s w" by auto
  then obtain lp c where c: "conns (sw_srv w) o' = Some (lp, c)" "srv_posted s = [(lp, FDestroyed o')]" "conns s = conns (sw_srv w)"
    "connections s (tc_name c) = None"
    using assms(3) by (auto simp: removeConnectionInLoop_def assertInLoopThread_def cassert_Inr_iff Let_def split: if_splits option.splits)
  then have w': "w' = sw_enqueue (lp, FDestroyed o') (w\<lparr>sw_srv := s\<lparr>srv_posted := []\<rparr>\<rparr>)" using s(2) by (simp add: sw_posted_def)
  moreover have "sw_queue (sw_enqueue (lp, FDestroyed o') w1) me = sw_queue w1 me @ (if lp = me then [FDestroyed o'] else [])" for w1
    by (simp add: sw_enqueue_def)
  moreover have "sw_held w' o' lp c" by (simp add: w' sw_held_def sw_enqueue_def)
  then have "sw_unref nd o' w' = Inr w'" using c w' by (simp add: sw_unref_def)
  ultimately show ?thesis using c assms(2) FRemove by (simp add: pending_enqueue own_effect_def)
qed (use assms in \<open>auto simp: own_effect_def\<close>)

lemma exec_frame:
  assumes "exec_functor nd ccb l me f w = Inr w'" "fobj f = Some obj" "srv_posted (sw_srv w) = []"
  shows "(\<exists>zs. sw_queue w' me = sw_queue w me @ zs) \<and>
     (\<forall>o'. o' \<noteq> obj \<longrightarrow> conns (sw_srv w') o' = conns (sw_srv w) o' \<and> pending w' o' = pending w o') \<and>
     own_effect f obj w w'"
proof -
  obtain w1 where w1: "run_functor nd ccb l me f w = Inr w1" "sw_unref nd obj w1 = Inr w'"
    using assms(1,2) by (auto simp: exec_functor_def)
  note r = run_frame [OF w1(1) assms(2,3)]
  have "own_effect f obj w w'"
  proof (cases "f = FRemove obj")
    case True
    then show ?thesis using r w1(2) by auto
  next
    case False
    then show ?thesis using r unref_frame(4) [OF w1(2)] by (auto simp: own_effect_def)
  qed
  then show ?thesis using r unref_frame [OF w1(2)] by simp
qed

subsection \<open>Applications\<close>

text \<open>
  What an application's connection callback has to keep to: it returns, and it does not end the connection itself. It may send,
  shut down and set timers.
\<close>

locale connection_callback =
  fixes ccb :: "TcpConnection \<Rightarrow> TcpConnection result"
  assumes steady_ccb: "steady ccb" and total_ccb: "\<exists>c'. ccb c = Inr c'"
begin

lemma established:
  assumes "tc_state c = kConnecting"
  shows "\<exists>c'. connectionEstablished nd True obj ccb c = Inr c' \<and> tc_name c' = tc_name c \<and> conn_up c'"
proof -
  define c1 where "c1 = interest EnableRead ((setState kConnected c)\<lparr>readWriteChannel := tieTo obj (readWriteChannel (setState kConnected c))\<rparr>)"
  obtain c' where c': "ccb c1 = Inr c'" using total_ccb by blast
  have "connectionEstablished nd True obj ccb c = Inr c'"
    using assms c' by (simp add: connectionEstablished_def Let_def c1_def)
  moreover have "tc_name c1 = tc_name c" "tc_state c1 = kConnected" by (simp_all add: c1_def conn_defs)
  ultimately show ?thesis using steadyD [OF steady_ccb c'] by (auto simp: conn_up_def)
qed

lemma closed:
  assumes "conn_up c"
  shows "\<exists>c'. handleClose nd True ccb Inr c = Inr c' \<and> tc_name c' = tc_name c \<and> tc_state c' = kDisconnected \<and> quiet c' \<and> in_loop c'"
proof -
  define c1 where "c1 = interest DisableAll (setState kDisconnected c)"
  obtain c' where c': "ccb c1 = Inr c'" using total_ccb by blast
  have "handleClose nd True ccb Inr c = Inr c'" using assms c' by (auto simp: handleClose_def conn_up_def c1_def)
  moreover have "tc_name c1 = tc_name c" "tc_state c1 = kDisconnected" "quiet c1" "in_loop c1"
    by (simp_all add: c1_def conn_defs quiet_def in_loop_def isNoneEvent_def Channel_interest_def)
  ultimately show ?thesis using steadyD [OF steady_ccb c'] by (auto simp: conn_up_def)
qed

lemma exec_established:
  assumes "life_except obj w" "conns (sw_srv w) obj = Some (lp, c)" "connections (sw_srv w) (tc_name c) = Some obj"
    and "tc_state c = kConnecting" "pending w obj = (\<lambda>_. [])"
  shows "\<exists>w' c'. exec_functor nd ccb l lp (FEstablished obj) w = Inr w' \<and> life_inv w' \<and>
     conns (sw_srv w') obj = Some (lp, c') \<and> at_stage w' obj lp c' Up"
proof -
  obtain c' where c': "connectionEstablished nd True obj ccb c = Inr c'" "tc_name c' = tc_name c" "conn_up c'"
    using established [OF assms(4)] by blast
  have "at_stage w obj lp c' Up" using assms(3,5) c'(2,3) by (simp add: at_stage_def)
  note st = life_inv_conn [OF assms(1,2) c'(2) this]
  have "run_functor nd ccb l lp (FEstablished obj) w = Inr (sw_conn obj (lp, c') w)"
    using assms(2) c'(1) by (simp add: sw_on_conn_def)
  from exec_at_stage [OF this _ _ st(2)] st show ?thesis
    by (intro exI [of _ "sw_conn obj (lp, c') w"] exI [of _ c']) simp
qed

text \<open>The functor at the head of a queue finds its connection, in the thread and the state it needs.\<close>

lemma next_functor:
  assumes "life_inv w"
  shows "\<exists>w'. sw_next nd ccb l me w = Inr w' \<and> life_inv w' \<and>
     (\<forall>obj fs. sw_queue w me = FDestroyed obj # fs \<longrightarrow> conns (sw_srv w') obj = None)"
proof (cases "sw_queue w me")
  case Nil
  then show ?thesis using assms by (simp add: sw_next_def)
next
  case (Cons f fs)
  define w0 where "w0 = w\<lparr>sw_queue := (sw_queue w)(me := fs)\<rparr>"
  obtain obj where f: "fobj f = Some obj" using life_invD(4) [OF assms, of f me] Cons by auto
  have x: "life_except obj w0" unfolding w0_def by (rule pop_except [OF assms Cons f])
  have p: "pending w obj me = f # tl (pending w obj me)" using Cons f by (simp add: pending_def)
  obtain lp c st where c: "conns (sw_srv w) obj = Some (lp, c)" and st: "at_stage w obj lp c st"
    using life_invD(5) [OF assms, of obj] p by (fastforce simp: obj_ok_def split: option.splits)
  have "pending w obj = only_at me f" using st p by (cases st) (auto simp: at_stage_def dest: only_at_inj)
  then have p0: "pending w0 obj = (\<lambda>_. [])" using pending_pop [OF Cons, of obj] f by (simp add: w0_def)
  have c0: "conns (sw_srv w0) obj = Some (lp, c)" "sw_srv w0 = sw_srv w" using c by (simp_all add: w0_def)
  have "\<exists>w'. exec_functor nd ccb l me f w0 = Inr w' \<and> life_inv w' \<and> (f = FDestroyed obj \<longrightarrow> conns (sw_srv w') obj = None)"
  proof (cases st)
    case Arriving
    then have "f = FEstablished obj" "me = lp" "connections (sw_srv w0) (tc_name c) = Some obj" "tc_state c = kConnecting"
      using st p c0(2) only_at_inj [of lp "FEstablished obj" me] by (auto simp: at_stage_def)
    with exec_established [OF x c0(1) _ _ p0] show ?thesis by blast
  next
    case Up
    then show ?thesis using st p by (auto simp: at_stage_def)
  next
    case Leaving
    then have "f = FRemove obj" "me = srv_loop (sw_srv w0)" "connections (sw_srv w0) (tc_name c) = Some obj"
      "tc_state c = kDisconnected" "quiet c" "in_loop c"
      using st p c0(2) only_at_inj [of "srv_loop (sw_srv w)" "FRemove obj" me] by (auto simp: at_stage_def)
    with exec_remove [OF x c0(1) _ _ _ _ p0] show ?thesis by blast
  next
    case Removed
    then have "f = FDestroyed obj" "me = lp" "connections (sw_srv w0) (tc_name c) \<noteq> Some obj" "tc_state c = kDisconnected"
      "quiet c" "in_loop c"
      using st p c0(2) only_at_inj [of lp "FDestroyed obj" me] by (auto simp: at_stage_def)
    with exec_destroyed [OF x c0(1) _ _ _ _ p0] show ?thesis by blast
  qed
  then show ?thesis using Cons f by (auto simp: sw_next_def w0_def)
qed

lemma close_step:
  assumes "life_inv w" "conns (sw_srv w) obj = Some (lp, c)" "\<not> quiet c \<or> conn_up c"
  shows "\<exists>w' c'. sw_close nd ccb obj w = Inr w' \<and> life_inv w' \<and> conns (sw_srv w') obj = Some (lp, c') \<and> tc_state c' = kDisconnected"
proof -
  obtain st where st: "at_stage w obj lp c st" using life_stage [OF assms(1,2)] by blast
  have u: "conn_up c" "connections (sw_srv w) (tc_name c) = Some obj" "pending w obj = (\<lambda>_. [])"
    using st assms(3) by (cases st; auto simp: at_stage_def conn_up_def)+
  obtain c' where c': "handleClose nd True ccb Inr c = Inr c'" "tc_name c' = tc_name c" "tc_state c' = kDisconnected" "quiet c'" "in_loop c'"
    using closed [OF u(1)] by blast
  define w1 where "w1 = sw_conn obj (lp, c') w"
  have x: "life_except obj w1" unfolding w1_def by (rule sw_conn_except [OF life_except_of [OF assms(1)] assms(2) c'(2)])
  have w1: "conns (sw_srv w1) obj = Some (lp, c')" "connections (sw_srv w1) (tc_name c') = Some obj" "pending w1 obj = (\<lambda>_. [])"
    "srv_run (sw_srv w1) = []"
    using u c'(2) life_invD(2) [OF assms(1)] by (simp_all add: w1_def)
  have r: "sw_close nd ccb obj w = bindR
      (if srv_loop (sw_srv w1) = lp then exec_functor nd ccb 0 lp (FRemove obj) w1 else Inr (sw_enqueue (srv_loop (sw_srv w1), FRemove obj) w1))
      (sw_unref nd obj)"
    using assms(2) c'(1) sw_run_one [of "sw_srv w1" nd ccb 0 lp "srv_loop (sw_srv w1)" "FRemove obj" w1] w1(4)
    by (simp add: sw_close_def sw_on_conn_def w1_def [symmetric] srv_removeConnection_def)
  show ?thesis
  proof (cases "srv_loop (sw_srv w1) = lp")
    case True
    obtain w' where w': "exec_functor nd ccb 0 (srv_loop (sw_srv w1)) (FRemove obj) w1 = Inr w'" "life_inv w'"
      "conns (sw_srv w') obj = Some (lp, c')" "at_stage w' obj lp c' Removed"
      using exec_remove [OF x w1(1,2) c'(3-5) w1(3), of nd ccb 0] by blast
    with r True c'(3) unref_stage [OF w'(3,4), of nd] show ?thesis by (intro exI [of _ w'] exI [of _ c']) simp
  next
    case False
    define w2 where "w2 = sw_enqueue (srv_loop (sw_srv w1), FRemove obj) w1"
    have "life_except obj w2"
    proof (rule life_except_frame [OF x])
      show "fobj f \<noteq> None" if "f \<in> set (sw_queue w2 l)" for l f
        using that life_exceptD(4) [OF x, of f l] by (auto simp: w2_def sw_enqueue_def split: if_splits)
    qed (use life_exceptD [OF x] in \<open>auto simp: w2_def pending_enqueue\<close>)
    moreover have st2: "at_stage w2 obj lp c' Leaving" using False c'(3-5) w1(2,3) by (simp add: at_stage_def w2_def pending_enqueue)
    then have "obj_ok w2 obj" using w1(1) by (auto simp: obj_ok_def w2_def)
    moreover have c2: "conns (sw_srv w2) obj = Some (lp, c')" using w1(1) by (simp add: w2_def)
    ultimately show ?thesis using r False life_inv_of c'(3) unref_stage [OF c2 st2, of nd] w2_def
      by (intro exI [of _ w2] exI [of _ c']) simp
  qed
qed

lemma accept_step:
  assumes "life_inv w" "conns (sw_srv w) obj = None" "nextConnId (sw_srv w) < 2 ^ 31"
  shows "\<exists>w' lp c. sw_accept nd ccb obj la fd pa w = Inr w' \<and> life_inv w' \<and> conns (sw_srv w') obj = Some (lp, c) \<and>
     lp \<in> insert (baseLoop (srv_pool (sw_srv w))) (set (loops (srv_pool (sw_srv w)))) \<and> (lp = srv_loop (sw_srv w) \<longrightarrow> conn_up c)"
proof -
  let ?s = "sw_srv w"
  note e = life_invD [OF assms(1)]
  obtain lp pool conn where r: "newConncetion nd True obj la fd pa ?s = Inr (server_after_accept obj lp pool conn ?s)"
    and n: "pool_inv pool" "tc_name conn = connName ?s" "tc_state conn = kConnecting" "isNoneEvent (readWriteChannel conn)"
    and lp: "lp \<in> insert (baseLoop (srv_pool ?s)) (set (loops (srv_pool ?s)))"
    using newConncetion_result [OF e(1)] by blast
  note new = connName_fresh [OF e(1) assms(3)]
  define s1 where "s1 = (server_after_accept obj lp pool conn ?s)\<lparr>srv_run := []\<rparr>"
  define w1 where "w1 = w\<lparr>sw_srv := s1\<rparr>"
  have s1: "srv_run s1 = []" "srv_posted s1 = []" "srv_loop s1 = srv_loop ?s" "conns s1 = (conns ?s)(obj \<mapsto> (lp, conn))"
    "connections s1 = (connections ?s)(connName ?s \<mapsto> obj)"
    "server_after_accept obj lp pool conn ?s = s1\<lparr>srv_run := [(lp, FEstablished obj)]\<rparr>" "srv_inv s1"
    using e(2,3) server_after_accept_inv [OF e(1) assms(2) n(1,2), of lp] by (simp_all add: s1_def, simp_all add: server_after_accept_def)
  have x: "life_except obj w1"
    by (rule life_except_frame [OF life_except_of [OF assms(1)]]) (use e s1 new in \<open>auto simp: w1_def\<close>)
  have w1: "conns (sw_srv w1) obj = Some (lp, conn)" "connections (sw_srv w1) (tc_name conn) = Some obj" "pending w1 obj = (\<lambda>_. [])"
    using s1 n(2) e(5) [of obj] assms(2) by (simp_all add: w1_def obj_ok_def)
  have a: "sw_accept nd ccb obj la fd pa w = bindR
      (if lp = srv_loop ?s then exec_functor nd ccb 0 lp (FEstablished obj) w1 else Inr (sw_enqueue (lp, FEstablished obj) w1))
      (sw_unref nd obj)"
    using r sw_run_one [OF s1(1), of nd ccb 0 "srv_loop ?s" lp "FEstablished obj" w] by (simp add: sw_accept_def s1(3,6) w1_def)
  show ?thesis
  proof (cases "lp = srv_loop ?s")
    case True
    obtain w' c' where w': "exec_functor nd ccb 0 lp (FEstablished obj) w1 = Inr w'" "life_inv w'"
      "conns (sw_srv w') obj = Some (lp, c')" "at_stage w' obj lp c' Up"
      using exec_established [OF x w1(1,2) n(3) w1(3)] by blast
    then show ?thesis using a True lp unref_stage [OF w'(3,4), of nd] by (intro exI [of _ w'] exI [of _ lp] exI [of _ c']) (simp add: at_stage_def)
  next
    case False
    define w2 where "w2 = sw_enqueue (lp, FEstablished obj) w1"
    have "life_except obj w2"
    proof (rule life_except_frame [OF x])
      show "fobj f \<noteq> None" if "f \<in> set (sw_queue w2 l)" for l f
        using that life_exceptD(4) [OF x, of f l] by (auto simp: w2_def sw_enqueue_def split: if_splits)
    qed (use life_exceptD [OF x] in \<open>auto simp: w2_def pending_enqueue\<close>)
    moreover have st2: "at_stage w2 obj lp conn Arriving" using n(3,4) w1(2,3) by (simp add: at_stage_def w2_def pending_enqueue quiet_def)
    then have "obj_ok w2 obj" using w1(1) by (auto simp: obj_ok_def w2_def)
    moreover have c2: "conns (sw_srv w2) obj = Some (lp, conn)" using w1(1) by (simp add: w2_def)
    ultimately show ?thesis using a False life_inv_of lp unref_stage [OF c2 st2, of nd] w2_def
      by (intro exI [of _ w2] exI [of _ lp] exI [of _ conn]) simp
  qed
qed

lemma life_inv_step:
  assumes "server_step nd ccb w w'" "life_inv w"
  shows "life_inv w'"
  using assms
proof (cases rule: server_step.cases)
  case (accept obj la fd pa)
  then show ?thesis using accept_step [OF assms(2), of obj nd la fd pa] by auto
next
  case (functor_call l me)
  then show ?thesis using next_functor [OF assms(2), of nd l me] by auto
next
  case (operation obj lp c c')
  then show ?thesis using steady_step [OF assms(2)] by blast
next
  case (closing obj lp c)
  then show ?thesis using close_step [OF assms(2), of obj lp c nd] by auto
qed

lemma life_inv_run: "server_run nd ccb w w' \<Longrightarrow> fresh_world w \<Longrightarrow> life_inv w'"
  by (induction rule: server_run.induct) (auto intro: fresh_life_inv life_inv_step)

lemma next_frame:
  assumes "life_inv w" "sw_queue w me = f # fs"
  shows "\<exists>w' zs obj. sw_next nd ccb l me w = Inr w' \<and> life_inv w' \<and> sw_queue w' me = fs @ zs \<and> fobj f = Some obj \<and>
     (\<forall>o'. o' \<noteq> obj \<longrightarrow> conns (sw_srv w') o' = conns (sw_srv w) o' \<and> pending w' o' = pending w o') \<and>
     own_effect f obj w w' \<and> (f = FDestroyed obj \<longrightarrow> conns (sw_srv w') obj = None)"
proof -
  obtain obj where f: "fobj f = Some obj" using life_invD(4) [OF assms(1), of f me] assms(2) by auto
  obtain w' where w': "sw_next nd ccb l me w = Inr w'" "life_inv w'" "f = FDestroyed obj \<longrightarrow> conns (sw_srv w') obj = None"
    using next_functor [OF assms(1), of nd l me] assms(2) by auto
  let ?w0 = "w\<lparr>sw_queue := (sw_queue w)(me := fs)\<rparr>"
  have "exec_functor nd ccb l me f ?w0 = Inr w'" "srv_posted (sw_srv ?w0) = []"
    using w'(1) assms(2) life_invD(3) [OF assms(1)] by (simp_all add: sw_next_def)
  from exec_frame [OF this(1) f this(2)] w' f pending_pop [OF assms(2)] show ?thesis by (auto simp: own_effect_def)
qed

text \<open>
  Running as many functors as were queued when it went down, the server's loop takes a connection that is down out of the map, and its own loop then releases it.
\<close>

lemma drain_removes:
  assumes "life_inv w" "sw_queue w me = xs @ ys"
    and "conns (sw_srv w) obj = None \<or> conns (sw_srv w) obj = Some (lp, c) \<and> tc_state c = kDisconnected \<and>
      (pending w obj = only_at lp (FDestroyed obj) \<or> FRemove obj \<in> set xs)"
  shows "\<exists>w'. sw_drain nd ccb me (length xs) w = Inr w' \<and> life_inv w' \<and>
     (conns (sw_srv w') obj = None \<or> conns (sw_srv w') obj = Some (lp, c) \<and> pending w' obj = only_at lp (FDestroyed obj))"
  using assms
proof (induction xs arbitrary: w ys)
  case (Cons f fs)
  obtain w' zs b where n: "sw_next nd ccb 0 me w = Inr w'" "life_inv w'" "sw_queue w' me = (fs @ ys) @ zs" "fobj f = Some b"
    and fr: "\<And>o'. o' \<noteq> b \<Longrightarrow> conns (sw_srv w') o' = conns (sw_srv w) o' \<and> pending w' o' = pending w o'"
    and own: "own_effect f b w w'" "f = FDestroyed b \<longrightarrow> conns (sw_srv w') b = None"
    using next_frame [OF Cons.prems(1), of me f "fs @ ys" nd 0] Cons.prems(2) by auto
  have "conns (sw_srv w') obj = None \<or> conns (sw_srv w') obj = Some (lp, c) \<and> tc_state c = kDisconnected \<and>
      (pending w' obj = only_at lp (FDestroyed obj) \<or> FRemove obj \<in> set fs)"
  proof (cases "b = obj \<and> conns (sw_srv w) obj \<noteq> None")
    case True
    then have c: "conns (sw_srv w) obj = Some (lp, c)" "tc_state c = kDisconnected" using Cons.prems(3) by auto
    obtain st where "at_stage w obj lp c st" using life_stage [OF Cons.prems(1) c(1)] by blast
    moreover have "pending w obj me = f # tl (pending w obj me)" using Cons.prems(2) n(4) True by (simp add: pending_def)
    ultimately have "f = FRemove obj \<or> f = FDestroyed obj" using c(2)
      by (cases st) (auto simp: at_stage_def conn_up_def dest: only_at_inj)
    then show ?thesis
    proof
      assume "f = FRemove obj"
      then have c': "conns (sw_srv w') obj = Some (lp, c)" "connections (sw_srv w') (tc_name c) \<noteq> Some obj"
        using own True c(1) by (auto simp: own_effect_def)
      obtain st' where "at_stage w' obj lp c st'" using life_stage [OF n(2) c'(1)] by blast
      then have "pending w' obj = only_at lp (FDestroyed obj)" using c'(2) c(2) by (cases st') (auto simp: at_stage_def)
      then show ?thesis using c(2) c'(1) by blast
    next
      assume "f = FDestroyed obj"
      then show ?thesis using own True by (auto simp: own_effect_def)
    qed
  next
    case False
    then show ?thesis using Cons.prems(3) fr [of obj] own n(4) by (cases "b = obj") (auto simp: own_effect_def)
  qed
  from Cons.IH [OF n(2) _ this, of "ys @ zs"] n(1,3) show ?case by auto
qed auto

lemma drain_releases:
  assumes "life_inv w" "sw_queue w lp = xs @ ys"
    and "conns (sw_srv w) obj = None \<or> pending w obj = only_at lp (FDestroyed obj) \<and> FDestroyed obj \<in> set xs"
  shows "\<exists>w'. sw_drain nd ccb lp (length xs) w = Inr w' \<and> conns (sw_srv w') obj = None"
  using assms
proof (induction xs arbitrary: w ys)
  case (Cons f fs)
  obtain w' zs b where n: "sw_next nd ccb 0 lp w = Inr w'" "life_inv w'" "sw_queue w' lp = (fs @ ys) @ zs" "fobj f = Some b"
    and fr: "\<And>o'. o' \<noteq> b \<Longrightarrow> conns (sw_srv w') o' = conns (sw_srv w) o' \<and> pending w' o' = pending w o'"
    and own: "own_effect f b w w'" "f = FDestroyed b \<longrightarrow> conns (sw_srv w') b = None"
    using next_frame [OF Cons.prems(1), of lp f "fs @ ys" nd 0] Cons.prems(2) by auto
  have "conns (sw_srv w') obj = None \<or> pending w' obj = only_at lp (FDestroyed obj) \<and> FDestroyed obj \<in> set fs"
  proof (cases "b = obj \<and> conns (sw_srv w) obj \<noteq> None")
    case True
    then have "pending w obj lp = f # tl (pending w obj lp)" using Cons.prems(2) n(4) by (simp add: pending_def)
    then have "f = FDestroyed obj" using Cons.prems(3) True by (auto dest: only_at_inj)
    then show ?thesis using own True by (auto simp: own_effect_def)
  next
    case False
    then show ?thesis using Cons.prems(3) fr [of obj] own n(4) by (cases "b = obj") (auto simp: own_effect_def)
  qed
  from Cons.IH [OF n(2) _ this, of "ys @ zs"] n(1,3) show ?case by auto
qed auto

lemma down_is_released:
  assumes "life_inv w" "conns (sw_srv w) obj = Some (lp, c)" "tc_state c = kDisconnected"
  shows "\<exists>w1 w2. sw_drain nd ccb (srv_loop (sw_srv w)) (length (sw_queue w (srv_loop (sw_srv w)))) w = Inr w1 \<and>
     sw_drain nd ccb lp (length (sw_queue w1 lp)) w1 = Inr w2 \<and> conns (sw_srv w2) obj = None"
proof -
  have in_queue: "f \<in> set (sw_queue w' l)" if "pending w' obj = only_at l f" for w' l f
    using fun_cong [OF that, of l] filter_is_subset [of "\<lambda>f. fobj f = Some obj" "sw_queue w' l"] by (auto simp: pending_def)
  obtain st where st: "at_stage w obj lp c st" using life_stage [OF assms(1,2)] by blast
  then have "pending w obj = only_at lp (FDestroyed obj) \<or> pending w obj = only_at (srv_loop (sw_srv w)) (FRemove obj)"
    using assms(3) by (cases st) (auto simp: at_stage_def conn_up_def)
  then have "pending w obj = only_at lp (FDestroyed obj) \<or> FRemove obj \<in> set (sw_queue w (srv_loop (sw_srv w)))" using in_queue by blast
  then obtain w1 where w1: "sw_drain nd ccb (srv_loop (sw_srv w)) (length (sw_queue w (srv_loop (sw_srv w)))) w = Inr w1" "life_inv w1"
    "conns (sw_srv w1) obj = None \<or> pending w1 obj = only_at lp (FDestroyed obj)"
    using drain_removes [OF assms(1), of "srv_loop (sw_srv w)" "sw_queue w (srv_loop (sw_srv w))" "[]" obj lp c nd] assms(2,3) by auto
  then have "conns (sw_srv w1) obj = None \<or> pending w1 obj = only_at lp (FDestroyed obj) \<and> FDestroyed obj \<in> set (sw_queue w1 lp)"
    using in_queue by blast
  with drain_releases [OF w1(2), of lp "sw_queue w1 lp" "[]" obj nd] w1(1) show ?thesis by auto
qed

end

subsection \<open>Applications of the library\<close>

text \<open>The default callback logs; that of the server with a limit counts, shuts down and sets a timer.\<close>

definition logging_callback :: "bool \<Rightarrow> byte_order \<Rightarrow> (char list \<Rightarrow> string) \<Rightarrow> TcpConnection \<Rightarrow> TcpConnection result" where
  "logging_callback nd e ntop6 c = bindR (defaultConnectionCallback nd e ntop6 c) (\<lambda>_. Inr c)"

definition limit_callback :: "max_server \<Rightarrow> TcpConnection \<Rightarrow> TcpConnection result" where
  "limit_callback m c = bindR (max_onConnection c m) (\<lambda>(c', _). Inr c')"

lemma addr_toIpPort_total: "\<exists>t. addr_toIpPort nd e ntop6 a = Inr t"
  by (auto simp: addr_toIpPort_def sock_toIpPort_def sock_toIp_def INET_ADDRSTRLEN_def INET6_ADDRSTRLEN_def Let_def)

interpretation logging: connection_callback "logging_callback nd e ntop6"
proof
  show "steady (logging_callback nd e ntop6)" by (rule steadyI) (auto simp: logging_callback_def)
  show "\<exists>c'. logging_callback nd e ntop6 c = Inr c'" for c
    using addr_toIpPort_total [of nd e ntop6 "localAddr c"] addr_toIpPort_total [of nd e ntop6 "remoteAddr c"]
    by (auto simp: logging_callback_def defaultConnectionCallback_def)
qed

interpretation limit: connection_callback "limit_callback m"
proof
  show "steady (limit_callback m)"
  proof -
    have *: "limit_callback m c = Inr c \<or> limit_callback m c = bindR (tc_shutdown True c) (\<lambda>c1. Inr (forceCloseWithDelay 3 c1))" for c
      by (auto simp: limit_callback_def max_onConnection_def Let_def bindR_assoc)
    note d = steadyD [OF steady_seq [OF steady_shutdown(1) steady_delay]]
    show ?thesis
    proof (rule steadyI)
      fix c c' assume l: "limit_callback m c = Inr c'"
      show "tc_name c' = tc_name c" "tc_state c' = tc_state c \<or> tc_state c = kConnected \<and> tc_state c' = kDisconnecting"
        "quiet c \<Longrightarrow> \<not> conn_up c \<Longrightarrow> quiet c'" "in_loop c \<Longrightarrow> in_loop c'"
        using * [of c] l d [of True c 3 c'] by (metis sum.inject(2))+
    qed
  qed
  show "\<exists>c'. limit_callback m c = Inr c'" for c
    using tc_shutdown_total [of c] by (auto simp: limit_callback_def max_onConnection_def Let_def)
qed

subsection \<open>From the constructor to a running server\<close>

text \<open>
  The server a program builds, given its number of threads, and starts in the thread of its loop is in a state from which all this follows:
  it listens, and each thread has its loop.
\<close>

lemma length_ipPort:
  assumes "\<And>b. length (ntop6 b) \<le> 45" "addr_toIpPort nd e ntop6 a = Inr t"
  shows "length t \<le> 51"
proof -
  obtain s where s: "addr_toIp nd e ntop6 a = Inr s" "t = s @ snprintf (64 - length s) (CHR '':'' # dec (unat (networkToHost16 e (sa_port a))))"
    using assms(2) by (auto simp: addr_toIpPort_def sock_toIpPort_def addr_toIp_def)
  have "length s \<le> 45" using s(1) assms(1) length_ntop4 [of "word_mem e (sa_addr4 a)"]
    by (auto simp: addr_toIp_def sock_toIp_def cassert_Inr_iff Let_def split: if_splits)
  moreover have "length (snprintf n (CHR '':'' # dec (unat p))) \<le> 6" for n and p :: "16 word"
    using length_dec_port [of p] by (simp add: snprintf_def)
  from this [of "64 - length s" "networkToHost16 e (sa_port a)"] have "length t \<le> length s + 6" by (simp add: s(2))
  ultimately show ?thesis by simp
qed

lemma fresh_world_srv:
  assumes "srv_inv s" "connections s = Map.empty" "conns s = Map.empty" "srv_run s = []" "srv_posted s = []"
  shows "fresh_world \<lparr>sw_srv = s, sw_queue = (\<lambda>_. [])\<rparr>"
  using assms by (simp add: fresh_world_def)

theorem server_boots:
  assumes "\<And>b. length (ntop6 b) \<le> 45" "0 \<le> sock" "0 \<le> bound" "0 \<le> listened"
  shows "\<exists>s w. TcpServer_new nd e ntop6 (sock, bound, optret, nullfd) lp name addr opt = Inr s \<and>
     sw_start nd ccb listened mk cb \<lparr>sw_srv = TcpServer_setThreadNum num s, sw_queue = (\<lambda>_. [])\<rparr> = Inr w \<and>
     fresh_world w \<and> isListening (srv_acceptor (sw_srv w)) \<and> isReading (acceptChannel (srv_acceptor (sw_srv w))) \<and>
     length (loops (srv_pool (sw_srv w))) = nat num"
proof -
  obtain ipPort where t: "addr_toIpPort nd e ntop6 addr = Inr ipPort" using addr_toIpPort_total by blast
  note len = length_ipPort [OF assms(1) t]
  obtain s where s: "TcpServer_new nd e ntop6 (sock, bound, optret, nullfd) lp name addr opt = Inr s"
    "srv_ipPort s = ipPort" "nextConnId s = 1" "connections s = Map.empty" "conns s = Map.empty" "started s = 0"
    "srv_pool s = EventLoopThreadPool_new lp name" "srv_run s = []" "srv_posted s = []" "\<not> isListening (srv_acceptor s)" "srv_loop s = lp"
    using assms(2,3) t by (auto simp: TcpServer_new_def Acceptor_new_def createNonblockingOrDie_def bindOrDie_def)
  define p where "p = start_threads mk [0..<nat num] ((setThreadNum num (EventLoopThreadPool_new lp name))\<lparr>pool_start := True\<rparr>)"
  have p: "loops p = map (\<lambda>i. mk i (snprintf (length name + 32) (name @ dec i))) [0..<nat num]" "pool_inv p"
    using start_threads_spec [of mk "[0..<nat num]" "(setThreadNum num (EventLoopThreadPool_new lp name))\<lparr>pool_start := True\<rparr>"]
    by (auto simp: p_def setThreadNum_def EventLoopThreadPool_new_def pool_inv_def)
  define a where "a = (srv_acceptor s)\<lparr>acceptChannel := Channel_interest EnableRead (acceptChannel (srv_acceptor s)), isListening := True\<rparr>"
  define s2 where "s2 = s\<lparr>srv_pool := p, started := 1, srv_acceptor := a\<rparr>"
  define s1 where "s1 = s\<lparr>srv_pool := p, started := 1\<rparr>"
  have st: "TcpServer_start nd True mk cb (TcpServer_setThreadNum num s) = Inr (s1\<lparr>srv_run := [(lp, FListen)]\<rparr>)"
    using s by (simp add: TcpServer_start_def TcpServer_setThreadNum_def getAndAdd_def EventLoopThreadPool_start_def p_def s1_def
        EventLoopThreadPool_new_def setThreadNum_def Let_def)
  have "sw_start nd ccb listened mk cb \<lparr>sw_srv = TcpServer_setThreadNum num s, sw_queue = (\<lambda>_. [])\<rparr> = Inr \<lparr>sw_srv = s2, sw_queue = (\<lambda>_. [])\<rparr>"
    using st sw_run_one [of s1 nd ccb listened lp lp FListen] s(8,11) assms(4)
    by (simp add: sw_start_def exec_functor_def s1_def s2_def startListening_def listenOrDie_def a_def)
  moreover have "fresh_world \<lparr>sw_srv = s2, sw_queue = (\<lambda>_. [])\<rparr>"
    using s p len by (intro fresh_world_srv) (simp_all add: s2_def srv_inv_def)
  moreover have "isReading (acceptChannel a)" by (simp add: a_def isReading_def Channel_interest_def event_bits poll_bits)
  ultimately show ?thesis using s(1) p(1)
    by (intro exI [of _ s] exI [of _ "\<lparr>sw_srv = s2, sw_queue = (\<lambda>_. [])\<rparr>"]) (simp add: s2_def a_def)
qed

subsection \<open>Properties\<close>


text \<open>A world with a server of one loop, and one in which a connection has come and gone.\<close>

definition sample_world :: server_world where
  "sample_world = \<lparr>sw_srv = sample_server, sw_queue = (\<lambda>_. [])\<rparr>"

lemma sample_world_fresh: "fresh_world sample_world"
  by (simp add: fresh_world_def sample_world_def sample_server_def srv_inv_def pool_inv_def EventLoopThreadPool_new_def)

lemma sample_run:
  "\<exists>w c. server_run False (logging_callback False BigEndian (\<lambda>_. [])) sample_world w \<and>
     conns (sw_srv w) 100 = Some (1, c) \<and> tc_state c = kDisconnected"
proof -
  let ?ccb = "logging_callback False BigEndian (\<lambda>_. [])"
  have n: "conns (sw_srv sample_world) 100 = None" "nextConnId (sw_srv sample_world) < 2 ^ 31" "srv_loop (sw_srv sample_world) = 1"
    "insert (baseLoop (srv_pool (sw_srv sample_world))) (set (loops (srv_pool (sw_srv sample_world)))) = {1}"
    by (simp_all add: sample_world_def sample_server_def EventLoopThreadPool_new_def)
  obtain w1 lp c1 where w1: "sw_accept False ?ccb 100 bzero6 9 bzero6 sample_world = Inr w1" "life_inv w1"
    "conns (sw_srv w1) 100 = Some (lp, c1)" "lp \<in> {1}" "lp = 1 \<longrightarrow> conn_up c1"
    using logging.accept_step [OF fresh_life_inv [OF sample_world_fresh] n(1,2)] unfolding n(3,4) by blast
  then have c1: "conns (sw_srv w1) 100 = Some (1, c1)" "conn_up c1" by auto
  obtain w2 c2 where w2: "sw_close False ?ccb 100 w1 = Inr w2" "conns (sw_srv w2) 100 = Some (1, c2)" "tc_state c2 = kDisconnected"
    using logging.close_step [OF w1(2) c1(1)] c1(2) by blast
  have "server_run False ?ccb sample_world w2"
    by (rule server_run.more [OF server_run.more [OF server_run.start server_step.accept [OF n(1,2) w1(1)]]
          server_step.closing [OF c1(1) _ w2(1)]]) (use c1(2) in simp)
  with w2 show ?thesis by blast
qed




end
