(* ===== verification/Arale_Http.thy ===== *)
theory Arale_Http
  imports Arale_TcpConnection "HOL-Library.List_Lexorder" "HOL-Library.Char_ord"
begin

section \<open>The HTTP server (\<open>arale/net/http\<close>)\<close>

text \<open>
  Requests, the incremental parser, responses and the server's handlers. A pointer into a
  line is its index. A header map is its association list in the order of
  \<open>std::map\<close>, which is that of the bytes of the names. The parser's loop is a partial
  function: \<open>None\<close> is a loop that does not end.
\<close>

subsection \<open>Requests (\<open>HttpRequest.h\<close>)\<close>

datatype HttpMethod = kInvalid | kGet | kPost | kHead | kPut | kDelete
datatype HttpVersion = kUnknownVersion | kHttp10 | kHttp11

type_synonym header_map = "(string \<times> string) list"

fun hdr_set :: "string \<Rightarrow> string \<Rightarrow> header_map \<Rightarrow> header_map" where
  "hdr_set k v [] = [(k, v)]"
| "hdr_set k v ((k', v') # hs) =
     (if k = k' then (k, v) # hs else if k < k' then (k, v) # (k', v') # hs else (k', v') # hdr_set k v hs)"

record HttpRequest =
  version :: HttpVersion
  hr_method :: HttpMethod
  path :: string
  query :: string
  receiveTime :: Timestamp
  headers :: header_map

definition HttpRequest_new :: HttpRequest where
  "HttpRequest_new =
     \<lparr>version = kUnknownVersion, hr_method = kInvalid, path = [], query = [], receiveTime = Timestamp_default, headers = []\<rparr>"

definition isspace :: "char \<Rightarrow> bool" where
  "isspace c \<longleftrightarrow> c \<in> {CHR '' '', CHR 0x09, CHR 0x0A, CHR 0x0B, CHR 0x0C, CHR 0x0D}"

text \<open>\<open>line\<close> is what lies between the start and the end of the line, \<open>colon\<close> an index into it.\<close>

definition addHeader :: "string \<Rightarrow> nat \<Rightarrow> HttpRequest \<Rightarrow> HttpRequest" where
  "addHeader line colon r =
     (let header = take colon line;
          value1 = dropWhile isspace (drop (colon + 1) line);
          val2 = rev (dropWhile isspace (rev value1))
      in r\<lparr>headers := hdr_set header val2 (headers r)\<rparr>)"

definition getHeader :: "string \<Rightarrow> HttpRequest \<Rightarrow> string" where
  "getHeader h r = (case map_of (headers r) h of Some v \<Rightarrow> v | None \<Rightarrow> [])"

definition setReceiveTime :: "Timestamp \<Rightarrow> HttpRequest \<Rightarrow> HttpRequest" where
  "setReceiveTime t r = r\<lparr>receiveTime := t\<rparr>"

definition setVersion :: "HttpVersion \<Rightarrow> HttpRequest \<Rightarrow> HttpRequest" where
  "setVersion v r = r\<lparr>version := v\<rparr>"

definition setMethod :: "string \<Rightarrow> HttpRequest \<Rightarrow> bool \<times> HttpRequest" where
  "setMethod m r =
     (let meth = (if m = ''GET'' then kGet else if m = ''POST'' then kPost else if m = ''PUT'' then kPut
                  else if m = ''HEAD'' then kHead else if m = ''DELETE'' then kDelete else kInvalid)
      in (meth \<noteq> kInvalid, r\<lparr>hr_method := meth\<rparr>))"

definition methodToString :: "HttpMethod \<Rightarrow> string" where
  "methodToString m =
     (case m of kGet \<Rightarrow> ''GET'' | kPost \<Rightarrow> ''POST'' | kPut \<Rightarrow> ''PUT'' | kHead \<Rightarrow> ''HEAD'' | kDelete \<Rightarrow> ''DELETE''
        | kInvalid \<Rightarrow> ''UNKNOWN'')"

text \<open>
  \<open>std::string::assign(first, last)\<close> with pointers at the indices \<open>i\<close> and \<open>j\<close> of the line: a
  range that ends before it starts has a length beyond every limit.
\<close>

definition assign_range :: "string \<Rightarrow> nat \<Rightarrow> nat \<Rightarrow> string result" where
  "assign_range line i j = (if j < i then Inl LengthError else Inr (slice i j line))"

definition setPath :: "string \<Rightarrow> nat \<Rightarrow> nat \<Rightarrow> HttpRequest \<Rightarrow> HttpRequest result" where
  "setPath line i j r = bindR (assign_range line i j) (\<lambda>s. Inr (r\<lparr>path := s\<rparr>))"

definition setQuery :: "string \<Rightarrow> nat \<Rightarrow> nat \<Rightarrow> HttpRequest \<Rightarrow> HttpRequest result" where
  "setQuery line i j r = bindR (assign_range line i j) (\<lambda>s. Inr (r\<lparr>query := s\<rparr>))"

definition HttpRequest_swap :: "HttpRequest \<Rightarrow> HttpRequest \<Rightarrow> HttpRequest \<times> HttpRequest" where
  "HttpRequest_swap r rhs =
     (r\<lparr>version := version rhs, hr_method := hr_method rhs, path := path rhs, query := query rhs,
        receiveTime := receiveTime rhs, headers := headers rhs\<rparr>,
      rhs\<lparr>version := version r, hr_method := hr_method r, path := path r, query := query r,
        receiveTime := receiveTime r, headers := headers r\<rparr>)"

subsection \<open>The parser (\<open>HttpContext.*\<close>)\<close>

datatype parse_state = kExpectRequestLine | kExpectHeaders | kExpectBody | kGotAll

record HttpContext =
  request :: HttpRequest
  parseState :: parse_state

definition HttpContext_new :: HttpContext where
  "HttpContext_new = \<lparr>request = HttpRequest_new, parseState = kExpectRequestLine\<rparr>"

definition HttpContext_reset :: "HttpContext \<Rightarrow> HttpContext" where
  "HttpContext_reset c =
     c\<lparr>parseState := kExpectRequestLine, request := fst (HttpRequest_swap (request c) HttpRequest_new)\<rparr>"

definition isGotAll :: "HttpContext \<Rightarrow> bool" where
  "isGotAll c \<longleftrightarrow> parseState c = kGotAll"

text \<open>\<open>std::find(line + i, end, c)\<close>.\<close>

definition find_from :: "char \<Rightarrow> nat \<Rightarrow> string \<Rightarrow> nat" where
  "find_from c i line = i + length (takeWhile (\<lambda>x. x \<noteq> c) (drop i line))"

definition parseRequestLine :: "string \<Rightarrow> HttpRequest \<Rightarrow> (bool \<times> HttpRequest) result" where
  "parseRequestLine line r =
     (let end_pos = length line; space = find_from (CHR '' '') 0 line in
      if space = end_pos then Inr (False, r)
      else let (valid, r1) = setMethod (slice 0 space line) r in
        if \<not> valid then Inr (False, r1)
        else let start2 = space + 1; space2 = find_from (CHR '' '') start2 line in
          if space2 = end_pos then Inr (False, r1)
          else let question = find_from (CHR ''?'') space2 line in
            bindR (if question \<noteq> end_pos
                   then bindR (setPath line start2 question r1) (setQuery line question space2)
                   else setPath line start2 space2 r1) (\<lambda>r2.
            let start3 = space2 + 1 in
            if end_pos - start3 = 8 \<and> slice start3 (end_pos - 1) line = ''HTTP/1.'' then
              if line ! (end_pos - 1) = CHR ''1'' then Inr (True, setVersion kHttp11 r2)
              else if line ! (end_pos - 1) = CHR ''0'' then Inr (True, setVersion kHttp10 r2)
              else Inr (False, r2)
            else Inr (False, r2)))"

partial_function (option) parseRequest ::
  "bool \<Rightarrow> Timestamp \<Rightarrow> HttpContext \<Rightarrow> Buffer \<Rightarrow> (bool \<times> HttpContext \<times> Buffer) result option" where
  "parseRequest nd t c b =
     (case parseState c of
        kExpectRequestLine \<Rightarrow>
          (case findCRLF b of
             None \<Rightarrow> Some (Inr (True, c, b))
           | Some crlf \<Rightarrow>
               (case parseRequestLine (slice (peek b) crlf (buffer b)) (request c) of
                  Inl f \<Rightarrow> Some (Inl f)
                | Inr (ok, r) \<Rightarrow>
                    if ok then
                      (case retrieveUntil nd (crlf + 2) b of
                         Inl f \<Rightarrow> Some (Inl f)
                       | Inr b1 \<Rightarrow> parseRequest nd t (c\<lparr>request := setReceiveTime t r, parseState := kExpectHeaders\<rparr>) b1)
                    else Some (Inr (False, c\<lparr>request := r\<rparr>, b))))
      | kExpectHeaders \<Rightarrow>
          (case findCRLF b of
             None \<Rightarrow> Some (Inr (True, c, b))
           | Some crlf \<Rightarrow>
               let line = slice (peek b) crlf (buffer b); colon = find_from (CHR '':'') 0 line in
               if colon \<noteq> length line then
                 (case retrieveUntil nd (crlf + 2) b of
                    Inl f \<Rightarrow> Some (Inl f)
                  | Inr b1 \<Rightarrow> parseRequest nd t (c\<lparr>request := addHeader line colon (request c)\<rparr>) b1)
               else
                 (case retrieveUntil nd (crlf + 2) b of
                    Inl f \<Rightarrow> Some (Inl f)
                  | Inr b1 \<Rightarrow> Some (Inr (True, c\<lparr>parseState := kGotAll\<rparr>, b1))))
      | kExpectBody \<Rightarrow> parseRequest nd t c b
      | kGotAll \<Rightarrow> parseRequest nd t c b)"

subsection \<open>Responses (\<open>HttpResponse.*\<close>)\<close>

datatype HttpStatusCode = kUnknownStatus | k200Ok | k301MovedPermanently | k400BadRequest | k404NotFound

fun status_value :: "HttpStatusCode \<Rightarrow> nat" where
  "status_value kUnknownStatus = 0"
| "status_value k200Ok = 200"
| "status_value k301MovedPermanently = 301"
| "status_value k400BadRequest = 400"
| "status_value k404NotFound = 404"

record HttpResponse =
  statusCode :: HttpStatusCode
  statusMessage :: string
  resp_headers :: header_map
  body :: string
  closeConnection :: bool

definition HttpResponse_new :: "bool \<Rightarrow> HttpResponse" where
  "HttpResponse_new close_it =
     \<lparr>statusCode = kUnknownStatus, statusMessage = [], resp_headers = [], body = [], closeConnection = close_it\<rparr>"

definition setStatusCode :: "HttpStatusCode \<Rightarrow> HttpResponse \<Rightarrow> HttpResponse" where
  "setStatusCode c r = r\<lparr>statusCode := c\<rparr>"

definition setStatusMessage :: "string \<Rightarrow> HttpResponse \<Rightarrow> HttpResponse" where
  "setStatusMessage m r = r\<lparr>statusMessage := m\<rparr>"

definition setCloseConnection :: "bool \<Rightarrow> HttpResponse \<Rightarrow> HttpResponse" where
  "setCloseConnection b r = r\<lparr>closeConnection := b\<rparr>"

definition resp_addHeader :: "string \<Rightarrow> string \<Rightarrow> HttpResponse \<Rightarrow> HttpResponse" where
  "resp_addHeader h v r = r\<lparr>resp_headers := hdr_set h v (resp_headers r)\<rparr>"

definition setContentType :: "string \<Rightarrow> HttpResponse \<Rightarrow> HttpResponse" where
  "setContentType t r = resp_addHeader ''Content-Type'' t r"

definition setBody :: "string \<Rightarrow> HttpResponse \<Rightarrow> HttpResponse" where
  "setBody s r = r\<lparr>body := s\<rparr>"

text \<open>The successive calls of \<open>append\<close>.\<close>

definition response_pieces :: "HttpResponse \<Rightarrow> string list" where
  "response_pieces r =
     [snprintf 32 (''HTTP/1.1 '' @ dec (status_value (statusCode r))), statusMessage r, kCRLF] @
     (if closeConnection r then [''Connection: close'' @ kCRLF]
      else [snprintf 32 (''Content-Length: '' @ dec (length (body r)) @ kCRLF), ''Connection: Keep-Alive'' @ kCRLF]) @
     concat (map (\<lambda>(h, v). [h, '': '', v, kCRLF]) (resp_headers r)) @ [kCRLF, body r]"

definition appendToBuffer :: "bool \<Rightarrow> HttpResponse \<Rightarrow> Buffer \<Rightarrow> Buffer result" where
  "appendToBuffer nd r b = foldR (Buffer_append nd) (response_pieces r) b"

subsection \<open>The server's handlers (\<open>HttpServer.cc\<close>)\<close>

definition defaultHttpCallback :: "HttpRequest \<Rightarrow> HttpResponse \<Rightarrow> HttpResponse" where
  "defaultHttpCallback req resp = setCloseConnection True (setStatusMessage ''Not Found'' (setStatusCode k404NotFound resp))"

definition http_onConnection :: "TcpConnection \<Rightarrow> HttpContext option \<Rightarrow> HttpContext option" where
  "http_onConnection conn ctx = (if isConnected conn then Some HttpContext_new else ctx)"

definition http_close :: "HttpRequest \<Rightarrow> bool" where
  "http_close req =
     (let connection = getHeader ''Connection'' req
      in connection = ''close'' \<or> version req = kHttp10 \<and> connection \<noteq> ''Keep-Alive'')"

definition onRequest ::
  "bool \<Rightarrow> (char list \<Rightarrow> int + nat) \<Rightarrow> (HttpRequest \<Rightarrow> HttpResponse \<Rightarrow> HttpResponse) \<Rightarrow> HttpRequest \<Rightarrow> TcpConnection \<Rightarrow>
   TcpConnection result" where
  "onRequest nd wr httpCallback req conn =
     (let response = httpCallback req (HttpResponse_new (http_close req))
      in bindR (Buffer_new nd kDefaultInitialSize) (\<lambda>buf.
         bindR (appendToBuffer nd response buf) (\<lambda>buf1.
         bindR (send_buffer nd True wr buf1 conn) (\<lambda>(_, conn1).
         if closeConnection response then tc_shutdown True conn1 else Inr conn1))))"

text \<open>
  \<open>onMessage\<close> runs in the loop of the connection; \<open>ctx\<close> is the connection's context, which is absent when
  no \<open>HttpContext\<close> was stored.
\<close>

definition http_onMessage ::
  "bool \<Rightarrow> (char list \<Rightarrow> int + nat) \<Rightarrow> (HttpRequest \<Rightarrow> HttpResponse \<Rightarrow> HttpResponse) \<Rightarrow> Timestamp \<Rightarrow> HttpContext option \<Rightarrow>
   TcpConnection \<Rightarrow> (HttpContext \<times> TcpConnection) result option" where
  "http_onMessage nd wr httpCallback t ctx conn =
     (case ctx of
        None \<Rightarrow> Some (Inl NullDeref)
      | Some c \<Rightarrow>
          (case parseRequest nd t c (inputBuffer conn) of
             None \<Rightarrow> None
           | Some r \<Rightarrow> Some (bindR r (\<lambda>(ok, c1, b).
               let conn1 = conn\<lparr>inputBuffer := b\<rparr> in
               if ok then
                 if isGotAll c1 then
                   bindR (onRequest nd wr httpCallback (request c1) conn1) (\<lambda>conn2. Inr (HttpContext_reset c1, conn2))
                 else Inr (c1, conn1)
               else
                 let msg = ''HTTP/1.1 400 Bad Request'' @ kCRLF @ kCRLF in
                 bindR (send_string nd True wr (\<lambda>_ _. msg) 0 msg conn1) (\<lambda>conn2.
                 bindR (tc_shutdown True conn2) (\<lambda>conn3. Inr (c1, conn3)))))))"

subsection \<open>Lines of the buffer\<close>

lemma retrieveUntil_spec:
  assumes "Buffer_inv b" "n \<le> length (Buffer_content b)"
  shows "\<exists>b'. retrieveUntil nd (readIndex b + n) b = Inr b' \<and> Buffer_inv b' \<and> Buffer_content b' = drop n (Buffer_content b)"
proof -
  have "n \<le> readableBytes b" using assms Buffer_sizes(3) by metis
  moreover from this have "readIndex b + n \<le> writeIndex b" using assms(1) by (auto simp: Buffer_sizes Buffer_inv_def)
  ultimately show ?thesis using retrieve_spec [OF assms(1), of n nd]
    by (simp add: retrieveUntil_def peek_def)
qed

lemma line_found:
  assumes "Buffer_inv b" "findCRLF b = Some crlf"
  shows "\<exists>w rest b'. Buffer_content b = w @ kCRLF @ rest \<and> slice (peek b) crlf (buffer b) = w \<and>
     retrieveUntil nd (crlf + 2) b = Inr b' \<and> Buffer_inv b' \<and> Buffer_content b' = rest"
proof -
  define i where "i = std_search kCRLF (Buffer_content b)"
  have ne: "i \<noteq> length (Buffer_content b)" and crlf: "crlf = readIndex b + i"
    using assms by (auto simp: findCRLF_content Let_def i_def split: if_splits)
  have lt: "i < length (Buffer_content b)" using ne std_search_le [of kCRLF "Buffer_content b"] by (simp add: i_def)
  define w where "w = take i (Buffer_content b)"
  define rest where "rest = drop (i + 2) (Buffer_content b)"
  have split: "Buffer_content b = w @ kCRLF @ rest"
    using std_search_append [of kCRLF "Buffer_content b"] lt by (simp add: i_def w_def rest_def kCRLF_def)
  have "length (Buffer_content b) = length w + 2 + length rest" by (subst split) (simp add: kCRLF_def)
  moreover have wl: "length w = i" using lt by (simp add: w_def)
  ultimately have le: "i + 2 \<le> length (Buffer_content b)" by simp
  have "slice (peek b) crlf (buffer b) = w"
    using crlf lt assms(1) by (auto simp: w_def peek_def Buffer_content_def take_slice min_def Buffer_inv_def)
  moreover have "\<exists>b'. retrieveUntil nd (crlf + 2) b = Inr b' \<and> Buffer_inv b' \<and> Buffer_content b' = rest"
    using retrieveUntil_spec [OF assms(1) le, of nd] by (simp add: crlf rest_def add.assoc)
  ultimately show ?thesis using split by blast
qed

lemma search_CRLF:
  assumes "CHR 0x0D \<notin> set w"
  shows "std_search kCRLF (w @ kCRLF @ rest) = length w"
  using assms by (induction w) (auto simp: kCRLF_def)

lemma line_at:
  assumes "Buffer_inv b" "Buffer_content b = w @ kCRLF @ rest" "CHR 0x0D \<notin> set w"
  shows "\<exists>crlf b'. findCRLF b = Some crlf \<and> slice (peek b) crlf (buffer b) = w \<and>
     retrieveUntil nd (crlf + 2) b = Inr b' \<and> Buffer_inv b' \<and> Buffer_content b' = rest"
proof -
  have f: "findCRLF b = Some (readIndex b + length w)"
    using search_CRLF [OF assms(3)] assms(2) by (simp add: findCRLF_content [OF assms(1)] kCRLF_def)
  obtain w' rest' b' where *: "Buffer_content b = w' @ kCRLF @ rest'" "slice (peek b) (readIndex b + length w) (buffer b) = w'"
    "retrieveUntil nd (readIndex b + length w + 2) b = Inr b'" "Buffer_inv b'" "Buffer_content b' = rest'"
    using line_found [OF assms(1) f, of nd] by blast
  have "length w' = length w"
    using *(2) assms(1,2) Buffer_sizes [OF assms(1)] by (auto simp: peek_def Buffer_inv_def)
  with *(1) assms(2) have "w' = w" "rest' = rest" by (auto simp: append_eq_append_conv)
  with f * show ?thesis by blast
qed

subsection \<open>Termination of the parser\<close>

lemma parse_returns_aux:
  assumes "Buffer_inv b" "parseState c \<in> {kExpectRequestLine, kExpectHeaders}"
  shows "\<exists>r. parseRequest nd t c b = Some r"
  using assms
proof (induction "length (Buffer_content b)" arbitrary: b c rule: less_induct)
  case less
  note simps = parseRequest.simps [of nd t c b]
  show ?case
  proof (cases "findCRLF b")
    case None
    with less.prems show ?thesis by (auto simp: simps)
  next
    case (Some crlf)
    obtain w rest b1 where l: "Buffer_content b = w @ kCRLF @ rest" "slice (peek b) crlf (buffer b) = w"
      "retrieveUntil nd (crlf + 2) b = Inr b1" "Buffer_inv b1" "Buffer_content b1 = rest"
      using line_found [OF less.prems(1) Some, of nd] by blast
    then have shorter: "length (Buffer_content b1) < length (Buffer_content b)" by (simp add: kCRLF_def)
    have rec: "\<exists>r. parseRequest nd t c' b1 = Some r" if at: "parseState c' = kExpectHeaders" for c'
      by (rule less.hyps [OF shorter l(4)]) (simp add: at)
    show ?thesis
    proof (cases "parseState c = kExpectHeaders")
      case True
      then show ?thesis using Some l(2,3) rec by (simp add: simps Let_def)
    next
      case False
      then have "parseState c = kExpectRequestLine" using less.prems(2) by simp
      then show ?thesis using Some l(2,3) rec
        by (cases "parseRequestLine w (request c)") (auto simp: simps split: prod.splits if_splits)
    qed
  qed
qed

lemma parse_diverges_aux:
  assumes "parseRequest nd t c b = Some r"
  shows "parseState c \<notin> {kGotAll, kExpectBody}"
proof -
  have "parseState c \<notin> {kGotAll, kExpectBody}"
    by (rule parseRequest.raw_induct [OF _ assms, where P = "\<lambda>nd t c b r. parseState c \<notin> {kGotAll, kExpectBody}"])
      (auto split: parse_state.splits)
  then show ?thesis .
qed

text \<open>
  C20: the parser returns exactly when it has something to expect. Started on any buffer in the state of expecting a request line or headers, the loop ends;
  in the two other states it runs for ever, whatever the buffer holds.
\<close>

theorem parseRequest_terminates_iff:
  assumes "Buffer_inv b"
  shows "(\<exists>r. parseRequest nd t c b = Some r) \<longleftrightarrow> parseState c \<in> {kExpectRequestLine, kExpectHeaders}"
proof
  assume "\<exists>r. parseRequest nd t c b = Some r"
  then have "parseState c \<notin> {kGotAll, kExpectBody}" using parse_diverges_aux by blast
  then show "parseState c \<in> {kExpectRequestLine, kExpectHeaders}" by (cases "parseState c") simp_all
qed (rule parse_returns_aux [OF assms])

theorem parseRequest_terminates_iff_witness:
  "\<exists>r. parseRequest False (Timestamp_new 1) HttpContext_new (sample_buffer ''GET / HTTP'') = Some r"
  using parseRequest_terminates_iff [OF sample_buffer_facts(1), of "''GET / HTTP''" False "Timestamp_new 1" HttpContext_new]
  by (simp add: HttpContext_new_def)

subsection \<open>Printing and parsing a request\<close>

lemma find_from_at: "length pre = i \<Longrightarrow> c \<notin> set w \<Longrightarrow> find_from c i (pre @ w @ c # ys) = i + length w"
proof -
  assume "length pre = i" "c \<notin> set w"
  then have "takeWhile (\<lambda>x. x \<noteq> c) (drop i (pre @ w @ c # ys)) = w" by (auto simp: takeWhile_append)
  then show ?thesis by (simp add: find_from_def)
qed

lemma find_from_none: "length pre = i \<Longrightarrow> c \<notin> set w \<Longrightarrow> find_from c i (pre @ w) = length (pre @ w)"
proof -
  assume "length pre = i" "c \<notin> set w"
  moreover from this have "takeWhile (\<lambda>x. x \<noteq> c) w = w" by (metis (mono_tags, lifting) takeWhile_eq_all_conv)
  ultimately show ?thesis by (simp add: find_from_def del: takeWhile_eq_all_conv)
qed

lemma slice_mid: "slice (length pre) (length pre + length w) (pre @ w @ ys) = w"
  by (simp add: slice_def)

fun version_digit :: "HttpVersion \<Rightarrow> string" where
  "version_digit kHttp11 = ''1''"
| "version_digit kHttp10 = ''0''"
| "version_digit kUnknownVersion = []"

definition request_line :: "HttpMethod \<Rightarrow> string \<Rightarrow> HttpVersion \<Rightarrow> string" where
  "request_line m p v = methodToString m @ CHR '' '' # p @ CHR '' '' # ''HTTP/1.'' @ version_digit v"

lemma setMethod_printed: "m \<noteq> kInvalid \<Longrightarrow> setMethod (methodToString m) r = (True, r\<lparr>hr_method := m\<rparr>)"
  by (cases m) (simp_all add: setMethod_def methodToString_def)

lemma method_no_space: "CHR '' '' \<notin> set (methodToString m)"
  by (cases m) (simp_all add: methodToString_def)

text \<open>The two cuts of a request line, whatever follows the second space.\<close>

lemma parseRequestLine_cut:
  fixes V :: string
  assumes "m \<noteq> kInvalid" "CHR '' '' \<notin> set p"
  defines "line \<equiv> methodToString m @ CHR '' '' # p @ CHR '' '' # V"
  defines "space2 \<equiv> length (methodToString m) + 1 + length p"
  shows "parseRequestLine line r =
     bindR (if CHR ''?'' \<in> set V then Inl LengthError else Inr (r\<lparr>hr_method := m, path := p\<rparr>)) (\<lambda>r2.
       if length V = 8 \<and> take 7 V = ''HTTP/1.'' then
         if V ! 7 = CHR ''1'' then Inr (True, setVersion kHttp11 r2)
         else if V ! 7 = CHR ''0'' then Inr (True, setVersion kHttp10 r2) else Inr (False, r2)
       else Inr (False, r2))"
proof -
  let ?M = "methodToString m"
  have len: "length line = space2 + 1 + length V" by (simp add: line_def space2_def)
  have s1: "find_from (CHR '' '') 0 line = length ?M"
    using find_from_at [of "[]" 0 "CHR '' ''" ?M] method_no_space by (simp add: line_def)
  have m: "setMethod (slice 0 (length ?M) line) r = (True, r\<lparr>hr_method := m\<rparr>)"
    using setMethod_printed [OF assms(1)] by (simp add: slice_def line_def)
  have s2: "find_from (CHR '' '') (length ?M + 1) line = space2"
    using find_from_at [of "?M @ [CHR '' '']" "length ?M + 1" "CHR '' ''" p V] assms(2) by (simp add: line_def space2_def)
  have pth: "slice (length ?M + 1) space2 line = p"
    using slice_mid [of "?M @ [CHR '' '']" p "CHR '' '' # V"] by (simp add: line_def space2_def)
  have ver: "slice (space2 + 1) (length line - 1) line = take (length V - 1) V" "V \<noteq> [] \<Longrightarrow> line ! (length line - 1) = last V"
  proof -
    have "drop (space2 + 1) line = V" by (simp add: line_def space2_def)
    then show "slice (space2 + 1) (length line - 1) line = take (length V - 1) V"
      using len by (simp add: slice_def)
    show "V \<noteq> [] \<Longrightarrow> line ! (length line - 1) = last V"
      using last_conv_nth [of line] by (auto simp: line_def)
  qed
  have v8: "line ! (length line - 1) = V ! 7 \<and> slice (space2 + 1) (length line - 1) line = take 7 V" if "length V = 8"
  proof -
    have "V \<noteq> []" "length V - 1 = 7" using that by auto
    then show ?thesis using ver last_conv_nth [of V] by simp
  qed
  show ?thesis
  proof (cases "CHR ''?'' \<in> set V")
    case True
    then obtain us vs where V: "V = us @ CHR ''?'' # vs" "CHR ''?'' \<notin> set us" by (meson split_list_first)
    then have "find_from (CHR ''?'') space2 line = space2 + 1 + length us"
      using find_from_at [of "?M @ CHR '' '' # p" space2 "CHR ''?''" "CHR '' '' # us" vs] by (simp add: line_def space2_def)
    then show ?thesis
      using True s1 m s2 len V
      by (simp add: parseRequestLine_def Let_def setPath_def setQuery_def assign_range_def space2_def)
  next
    case False
    then have "find_from (CHR ''?'') space2 line = length line"
      using find_from_none [of "?M @ CHR '' '' # p" space2 "CHR ''?''" "CHR '' '' # V"] by (simp add: line_def space2_def)
    then show ?thesis
      using False s1 m s2 len pth v8
      by (auto simp: parseRequestLine_def Let_def setPath_def assign_range_def space2_def)
  qed
qed

lemma parseRequestLine_printed:
  assumes "m \<noteq> kInvalid" "CHR '' '' \<notin> set p" "v \<noteq> kUnknownVersion"
  shows "parseRequestLine (request_line m p v) r = Inr (True, setVersion v (r\<lparr>hr_method := m, path := p\<rparr>))"
  using parseRequestLine_cut [OF assms(1,2), of "''HTTP/1.'' @ version_digit v" r] assms(3)
  by (cases v) (simp_all add: request_line_def)

definition header_ok :: "string \<times> string \<Rightarrow> bool" where
  "header_ok hv \<longleftrightarrow> (case hv of (h, v) \<Rightarrow>
     CHR '':'' \<notin> set h \<and> CHR 0x0D \<notin> set h \<and> CHR 0x0D \<notin> set v \<and> (v \<noteq> [] \<longrightarrow> \<not> isspace (hd v) \<and> \<not> isspace (last v)))"

definition header_line :: "string \<times> string \<Rightarrow> string" where
  "header_line hv = (case hv of (h, v) \<Rightarrow> h @ '': '' @ v)"

definition add_headers :: "(string \<times> string) list \<Rightarrow> HttpRequest \<Rightarrow> HttpRequest" where
  "add_headers hs r = r\<lparr>headers := fold (\<lambda>(h, v). hdr_set h v) hs (headers r)\<rparr>"

lemma dropWhile_space: "v \<noteq> [] \<longrightarrow> \<not> isspace (hd v) \<Longrightarrow> dropWhile isspace v = v"
  by (cases v) auto

lemma addHeader_printed:
  assumes "header_ok hv"
  shows "find_from (CHR '':'') 0 (header_line hv) \<noteq> length (header_line hv)"
    and "addHeader (header_line hv) (find_from (CHR '':'') 0 (header_line hv)) r = add_headers [hv] r"
proof -
  obtain h v where hv: "hv = (h, v)" by (cases hv)
  have f: "find_from (CHR '':'') 0 (header_line hv) = length h"
    using find_from_at [of "[]" 0 "CHR '':''" h "CHR '' '' # v"] assms by (simp add: hv header_line_def header_ok_def)
  show "find_from (CHR '':'') 0 (header_line hv) \<noteq> length (header_line hv)"
    by (simp add: f) (simp add: hv header_line_def)
  have "dropWhile isspace v = v" "dropWhile isspace (rev v) = rev v"
    using assms by (auto intro!: dropWhile_space simp: hv header_ok_def hd_rev)
  then show "addHeader (header_line hv) (find_from (CHR '':'') 0 (header_line hv)) r = add_headers [hv] r"
    unfolding f by (simp add: addHeader_def add_headers_def hv header_line_def isspace_def Let_def)
qed

lemma parse_headers_printed:
  assumes "Buffer_inv b" "parseState c = kExpectHeaders" "list_all header_ok hs"
    and "Buffer_content b = concat (map (\<lambda>hv. header_line hv @ kCRLF) hs) @ kCRLF @ rest"
  shows "\<exists>b'. parseRequest nd t c b =
       Some (Inr (True, c\<lparr>request := add_headers hs (request c), parseState := kGotAll\<rparr>, b')) \<and>
     Buffer_inv b' \<and> Buffer_content b' = rest"
  using assms
proof (induction hs arbitrary: b c)
  case Nil
  obtain crlf b1 where l: "findCRLF b = Some crlf" "slice (peek b) crlf (buffer b) = []"
    "retrieveUntil nd (crlf + 2) b = Inr b1" "Buffer_inv b1" "Buffer_content b1 = rest"
    using line_at [OF Nil(1), of "[]" rest nd] Nil(4) by auto
  then show ?case using Nil(2) by (simp add: parseRequest.simps [of nd t c b] find_from_def add_headers_def)
next
  case (Cons hv hs)
  let ?more = "concat (map (\<lambda>hv. header_line hv @ kCRLF) hs) @ kCRLF @ rest"
  have ok: "header_ok hv" "list_all header_ok hs" using Cons.prems(3) by simp_all
  have cr: "CHR 0x0D \<notin> set (header_line hv)" using ok(1) by (cases hv) (simp add: header_ok_def header_line_def)
  have "Buffer_content b = header_line hv @ kCRLF @ ?more" using Cons.prems(4) by simp
  from line_at [OF Cons.prems(1) this cr, of nd] obtain crlf b1 where
    l: "findCRLF b = Some crlf" "slice (peek b) crlf (buffer b) = header_line hv"
    "retrieveUntil nd (crlf + 2) b = Inr b1" "Buffer_inv b1" "Buffer_content b1 = ?more" by blast
  let ?c = "c\<lparr>request := add_headers [hv] (request c)\<rparr>"
  have step: "parseRequest nd t c b = parseRequest nd t ?c b1"
    using Cons.prems(2) l(1-3) addHeader_printed [OF ok(1)]
    by (simp add: parseRequest.simps [of nd t c b] Let_def)
  have "parseState ?c = kExpectHeaders" using Cons.prems(2) by simp
  from Cons.IH [OF l(4) this ok(2) l(5)] show ?case unfolding step by (simp add: add_headers_def)
qed

definition request_text :: "HttpMethod \<Rightarrow> string \<Rightarrow> HttpVersion \<Rightarrow> (string \<times> string) list \<Rightarrow> string" where
  "request_text m p v hs = request_line m p v @ kCRLF @ concat (map (\<lambda>hv. header_line hv @ kCRLF) hs) @ kCRLF"

lemma line_no_CR:
  assumes "CHR 0x0D \<notin> set p"
  shows "CHR 0x0D \<notin> set (request_line m p v)"
  using assms by (cases m; cases v) (simp_all add: request_line_def methodToString_def)

lemma parse_printed:
  assumes "Buffer_inv b" "Buffer_content b = request_text m p v hs @ rest"
    and "m \<noteq> kInvalid" "v \<noteq> kUnknownVersion" "CHR '' '' \<notin> set p" "CHR 0x0D \<notin> set p" "list_all header_ok hs"
  shows "\<exists>c b'. parseRequest nd t HttpContext_new b = Some (Inr (True, c, b')) \<and>
     isGotAll c \<and> hr_method (request c) = m \<and> path (request c) = p \<and> version (request c) = v \<and>
     receiveTime (request c) = t \<and> headers (request c) = fold (\<lambda>(h, v). hdr_set h v) hs [] \<and>
     Buffer_inv b' \<and> Buffer_content b' = rest"
proof -
  let ?more = "concat (map (\<lambda>hv. header_line hv @ kCRLF) hs) @ kCRLF @ rest"
  have "Buffer_content b = request_line m p v @ kCRLF @ ?more" using assms(2) by (simp add: request_text_def)
  from line_at [OF assms(1) this line_no_CR [OF assms(6)], of nd] obtain crlf b1 where
    l: "findCRLF b = Some crlf" "slice (peek b) crlf (buffer b) = request_line m p v"
    "retrieveUntil nd (crlf + 2) b = Inr b1" "Buffer_inv b1" "Buffer_content b1 = ?more" by blast
  define r where "r = setReceiveTime t (setVersion v (HttpRequest_new\<lparr>hr_method := m, path := p\<rparr>))"
  let ?c = "\<lparr>request = r, parseState = kExpectHeaders\<rparr>"
  have new: "parseState HttpContext_new = kExpectRequestLine" "request HttpContext_new = HttpRequest_new"
    "HttpContext_new\<lparr>request := r, parseState := kExpectHeaders\<rparr> = ?c"
    by (simp_all add: HttpContext_new_def)
  have step: "parseRequest nd t HttpContext_new b = parseRequest nd t ?c b1"
    using l(1-3) parseRequestLine_printed [OF assms(3,5,4), of HttpRequest_new] new(1,2)
    by (simp add: parseRequest.simps [of nd t HttpContext_new b] r_def [symmetric] new(3))
  obtain b' where "parseRequest nd t ?c b1 = Some (Inr (True, ?c\<lparr>request := add_headers hs r, parseState := kGotAll\<rparr>, b'))"
    "Buffer_inv b'" "Buffer_content b' = rest"
    using parse_headers_printed [OF l(4) _ assms(7) l(5), of ?c nd t] by auto
  then show ?thesis unfolding step
    by (simp add: isGotAll_def add_headers_def r_def setReceiveTime_def setVersion_def HttpRequest_new_def)
qed

text \<open>
  C19: what is printed is parsed. For a buffer that starts with the text of a request (a known method, a path without spaces, version 1.0 or 1.1, headers whose
  names have no colon and whose values have no blanks at the ends, no carriage returns) the
  parser reports success with everything received: method, path, version and all headers are those printed, and exactly the request's text is taken from the
  buffer.
\<close>

theorem parseRequest_printed:
  assumes "Buffer_inv b" "Buffer_content b = request_text m p v hs @ rest"
    and "m \<noteq> kInvalid" "v \<noteq> kUnknownVersion" "CHR '' '' \<notin> set p" "CHR 0x0D \<notin> set p" "list_all header_ok hs"
  shows "\<exists>c b'. parseRequest nd t HttpContext_new b = Some (Inr (True, c, b')) \<and>
     isGotAll c \<and> hr_method (request c) = m \<and> path (request c) = p \<and> version (request c) = v \<and>
     receiveTime (request c) = t \<and> headers (request c) = fold (\<lambda>(h, v). hdr_set h v) hs [] \<and>
     Buffer_inv b' \<and> Buffer_content b' = rest"
  using assms by (rule parse_printed)

theorem parseRequest_printed_witness:
  "\<exists>c b'. parseRequest False (Timestamp_new 1) HttpContext_new
       (sample_buffer (request_text kGet ''/a?b=1'' kHttp11 [(''Host'', ''x''), (''Accept'', ''*'')] @ ''tail'')) = Some (Inr (True, c, b')) \<and>
     path (request c) = ''/a?b=1'' \<and> headers (request c) = fold (\<lambda>(h, v). hdr_set h v) [(''Host'', ''x''), (''Accept'', ''*'')] [] \<and>
     Buffer_content b' = ''tail''"
proof -
  let ?hs = "[(''Host'', ''x''), (''Accept'', ''*'')]"
  let ?b = "sample_buffer (request_text kGet ''/a?b=1'' kHttp11 ?hs @ ''tail'')"
  have "length (request_text kGet ''/a?b=1'' kHttp11 ?hs @ ''tail'') < 1000"
    by (simp add: request_text_def request_line_def methodToString_def header_line_def kCRLF_def)
  from parseRequest_printed [OF sample_buffer_facts(1) [OF this] sample_buffer_facts(2), where nd = False and t = "Timestamp_new 1"]
  show ?thesis by (auto simp: header_ok_def isspace_def)
qed

text \<open>
  A request line can bring the server down. A question mark after the second space of an otherwise well-formed request line
  makes the parser assign a query whose end lies before its start, an exception
  nobody catches, in whatever state of the parser that expects a request line.
\<close>

theorem question_mark_after_path_throws:
  assumes "Buffer_inv b" "parseState c = kExpectRequestLine" "m \<noteq> kInvalid" "CHR '' '' \<notin> set p" "CHR 0x0D \<notin> set p"
    and "CHR ''?'' \<in> set V" "CHR 0x0D \<notin> set V"
    and "Buffer_content b = methodToString m @ CHR '' '' # p @ CHR '' '' # V @ kCRLF @ rest"
  shows "parseRequest nd t c b = Some (Inl LengthError)"
proof -
  let ?w = "methodToString m @ CHR '' '' # p @ CHR '' '' # V"
  have "CHR 0x0D \<notin> set ?w" using assms(5,7) by (cases m) (simp_all add: methodToString_def)
  moreover have "Buffer_content b = ?w @ kCRLF @ rest" using assms(8) by simp
  ultimately obtain crlf where l: "findCRLF b = Some crlf" "slice (peek b) crlf (buffer b) = ?w"
    using line_at [OF assms(1), of ?w rest nd] by blast
  then show ?thesis using assms(2,6) parseRequestLine_cut [OF assms(3,4), of V "request c"]
    by (simp add: parseRequest.simps [of nd t c b])
qed

theorem question_mark_after_path_throws_witness:
  "parseRequest True (Timestamp_new 1) HttpContext_new (sample_buffer (''GET / ?'' @ kCRLF)) = Some (Inl LengthError)"
  by (rule question_mark_after_path_throws [of _ _ kGet "''/''" "''?''" "[]"])
    (simp_all add: sample_buffer_facts kCRLF_def HttpContext_new_def methodToString_def)

text \<open>
  The text of a response. What \<open>appendToBuffer\<close> adds to a buffer is the status line, the
  connection header (with the length of the body exactly when the connection is kept), the other headers in the order of the map, an empty line and
  the body. No space separates the status code from its message.
\<close>

theorem appendToBuffer_text:
  assumes "Buffer_inv b" "appendToBuffer nd r b = Inr b'" "length (body r) < 10 ^ 13"
    and "\<forall>s \<in> set (response_pieces r). length s \<le> vector_max"
  shows "Buffer_inv b' \<and> Buffer_content b' = Buffer_content b @
     ''HTTP/1.1 '' @ dec (status_value (statusCode r)) @ statusMessage r @ kCRLF @
     (if closeConnection r then ''Connection: close'' @ kCRLF
      else ''Content-Length: '' @ dec (length (body r)) @ kCRLF @ ''Connection: Keep-Alive'' @ kCRLF) @
     concat (map (\<lambda>(h, v). h @ '': '' @ v @ kCRLF) (resp_headers r)) @ kCRLF @ body r"
proof -
  have a: "Buffer_inv b' \<and> Buffer_content b' = Buffer_content b @ concat (response_pieces r)"
    using buf.app_all_Inr [OF assms(1), of "response_pieces r" nd b'] assms(2,4) by (simp add: appendToBuffer_def)
  have "length (dec (length (body r))) \<le> 13" using length_dec_le [OF assms(3)] by simp
  moreover have "length (dec (status_value (statusCode r))) \<le> 3"
    by (cases "statusCode r") (simp_all add: length_dec_le)
  moreover have "concat (concat (map (\<lambda>(h, v). [h, '': '', v, kCRLF]) hs)) = concat (map (\<lambda>(h, v). h @ '': '' @ v @ kCRLF) hs)"
    for hs :: header_map
    by (induction hs) auto
  ultimately show ?thesis using a by (simp add: response_pieces_def kCRLF_def)
qed

theorem appendToBuffer_text_witness:
  "\<exists>b'. appendToBuffer False (setStatusMessage ''OK'' (setStatusCode k200Ok (HttpResponse_new True)))
       \<lparr>buffer = replicate 108 (CHR 0x00), readIndex = 8, writeIndex = 8\<rparr> = Inr b' \<and>
     Buffer_content b' = ''HTTP/1.1 '' @ dec 200 @ ''OK'' @ kCRLF @ ''Connection: close'' @ kCRLF @ kCRLF"
proof -
  let ?r = "setStatusMessage ''OK'' (setStatusCode k200Ok (HttpResponse_new True))"
  let ?b = "\<lparr>buffer = replicate 108 (CHR 0x00), readIndex = 8, writeIndex = 8\<rparr>"
  have r: "?r = \<lparr>statusCode = k200Ok, statusMessage = ''OK'', resp_headers = [], body = [], closeConnection = True\<rparr>"
    by (simp add: setStatusMessage_def setStatusCode_def HttpResponse_new_def)
  have inv: "Buffer_inv ?b" and empty: "Buffer_content ?b = []"
    by (simp_all add: Buffer_inv_def kCheapPrependSize_def vector_max_def Buffer_content_def)
  have d: "length (dec 200) \<le> 3" by (simp add: length_dec_le)
  then have pieces: "\<forall>s \<in> set (response_pieces ?r). length s \<le> 31"
    by (simp add: r response_pieces_def kCRLF_def)
  have "length (concat (response_pieces ?r)) \<le> 100" using d by (simp add: r response_pieces_def kCRLF_def)
  then obtain b' where b': "appendToBuffer False ?r ?b = Inr b'"
    using append_all_fits [OF inv, of "response_pieces ?r" False] by (auto simp: appendToBuffer_def)
  have "\<forall>s \<in> set (response_pieces ?r). length s \<le> vector_max" using pieces by (auto simp: vector_max_def)
  from appendToBuffer_text [OF inv b' _ this] b' show ?thesis by (simp add: empty) (simp add: r)
qed

subsection \<open>From request to response\<close>

text \<open>How the connection is left after a response: ended if the response says so, with the writing side shut down unless data are still queued.\<close>

definition left_after :: "HttpResponse \<Rightarrow> TcpConnection \<Rightarrow> bool" where
  "left_after r c \<longleftrightarrow>
     (if closeConnection r then tc_state c = kDisconnecting \<and> (isWriting (readWriteChannel c) \<or> wrShut c) else tc_state c = kConnected)"

lemma tc_shutdown_done:
  assumes "tc_state c = kConnected"
  shows "\<exists>c'. tc_shutdown True c = Inr c' \<and> tc_state c' = kDisconnecting \<and> (isWriting (readWriteChannel c') \<or> wrShut c') \<and>
     wire c' = wire c \<and> outputBuffer c' = outputBuffer c \<and> inputBuffer c' = inputBuffer c"
  using assms by (simp add: tc_shutdown_def shutdownInLoop_def setState_def Let_def)

lemma onRequest_accepted:
  assumes "conn_inv c" "tc_state c = kConnected" "accepts wr (concat (response_pieces r)) c"
    and "cb req (HttpResponse_new (http_close req)) = r" "length (concat (response_pieces r)) \<le> 1024"
  shows "\<exists>c'. onRequest nd wr cb req c = Inr c' \<and>
     wire c' @ Buffer_content (outputBuffer c') = wire c @ Buffer_content (outputBuffer c) @ concat (response_pieces r) \<and>
     inputBuffer c' = inputBuffer c \<and> left_after r c'"
proof -
  obtain b1 where b1: "appendToBuffer nd r fresh_buffer = Inr b1"
    using append_all_fits [OF fresh_buffer_facts(2), of "response_pieces r" nd] assms(5) by (auto simp: appendToBuffer_def fresh_buffer_def)
  have "length d \<le> 1024" if "d \<in> set (response_pieces r)" for d
    using that assms(5) by (auto dest!: split_list)
  then have "length d \<le> vector_max" if "d \<in> set (response_pieces r)" for d using that by (fastforce simp: vector_max_def)
  then have c1: "Buffer_inv b1" "Buffer_content b1 = concat (response_pieces r)"
    using buf.app_all_Inr [OF fresh_buffer_facts(2), of "response_pieces r" nd b1] b1 fresh_buffer_facts(3) by (simp_all add: appendToBuffer_def)
  have "concat (response_pieces r) \<noteq> []" by (simp add: response_pieces_def Let_def)
  then obtain c2 where c2: "send_buffer nd True wr b1 c = Inr (retrieveAll b1, c2)" "tc_state c2 = kConnected"
      "wire c2 @ Buffer_content (outputBuffer c2) = wire c @ Buffer_content (outputBuffer c) @ concat (response_pieces r)"
      "inputBuffer c2 = inputBuffer c"
    using send_buffer_accepted [of c b1 wr nd, OF assms(1,2) c1(1)] c1(2) assms(3) by auto
  have "onRequest nd wr cb req c = (if closeConnection r then tc_shutdown True c2 else Inr c2)"
    using b1 c2(1) fresh_buffer_facts(1) by (simp add: onRequest_def Let_def assms(4))
  then show ?thesis using c2 tc_shutdown_done [OF c2(2)] by (auto simp: left_after_def)
qed

lemma reset_context: "HttpContext_reset c = HttpContext_new"
  by (cases c) (simp add: HttpContext_reset_def HttpContext_new_def HttpRequest_swap_def)

lemma request_answered:
  assumes "Buffer_inv (inputBuffer c)" "Buffer_content (inputBuffer c) = request_text m p v hs @ rest"
    and "m \<noteq> kInvalid" "v \<noteq> kUnknownVersion" "CHR '' '' \<notin> set p" "CHR 0x0D \<notin> set p" "list_all header_ok hs"
    and "conn_inv c" "tc_state c = kConnected" "accepts wr (concat (response_pieces r)) c"
    and "\<And>req. hr_method req = m \<Longrightarrow> path req = p \<Longrightarrow> version req = v \<Longrightarrow> headers req = fold (\<lambda>(h, v). hdr_set h v) hs [] \<Longrightarrow>
      cb req (HttpResponse_new (http_close req)) = r"
    and "length (concat (response_pieces r)) \<le> 1024"
  shows "\<exists>c'. http_onMessage nd wr cb t (Some HttpContext_new) c = Some (Inr (HttpContext_new, c')) \<and>
     wire c' @ Buffer_content (outputBuffer c') = wire c @ Buffer_content (outputBuffer c) @ concat (response_pieces r) \<and>
     Buffer_content (inputBuffer c') = rest \<and> left_after r c'"
proof -
  obtain cx b' where cx: "parseRequest nd t HttpContext_new (inputBuffer c) = Some (Inr (True, cx, b'))" "isGotAll cx"
      "hr_method (request cx) = m" "path (request cx) = p" "version (request cx) = v"
      "headers (request cx) = fold (\<lambda>(h, v). hdr_set h v) hs []" "Buffer_content b' = rest"
    using parse_printed [OF assms(1-7), of nd t] by blast
  let ?c = "c\<lparr>inputBuffer := b'\<rparr>"
  have r: "cb (request cx) (HttpResponse_new (http_close (request cx))) = r" using assms(11) cx(3-6) by blast
  obtain c' where c': "onRequest nd wr cb (request cx) ?c = Inr c'" "inputBuffer c' = b'" "left_after r c'"
      "wire c' @ Buffer_content (outputBuffer c') = wire c @ Buffer_content (outputBuffer c) @ concat (response_pieces r)"
    using onRequest_accepted [of ?c wr r cb "request cx" nd] assms(8-10,12) r by auto
  then show ?thesis using cx(1,2,7)
    by (intro exI [of _ c']) (simp add: http_onMessage_def Let_def reset_context)
qed



end
