(* ===== verification/Arale_Chat.thy ===== *)
theory Arale_Chat
  imports Arale_Stream Arale_OrderedSet "HOL-Library.Sublist"
begin

section \<open>The chat programs (\<open>arale/examples/asio/chat\<close>)\<close>

text \<open>
  The length-header codec and the servers and the client built on it. A message travels as four
  bytes of length in network order and its characters. The callback of the codec is the
  argument \<open>cb\<close> on a state of its own, \<open>shut\<close> is \<open>conn->shutdown()\<close> on that state, and the loop
  of \<open>onMessage\<close> is a partial function whose undefined value is a loop that does not end. The
  connections of a server are numbers, ordered like the pointers in a \<open>std::set\<close>.
\<close>

subsection \<open>The codec (\<open>Codec.h\<close>)\<close>

definition kHeaderLength :: nat where
  "kHeaderLength = 4"

partial_function (option) codec_onMessage ::
  "bool \<Rightarrow> byte_order \<Rightarrow> ('s \<Rightarrow> 's result) \<Rightarrow> (string \<Rightarrow> 's \<Rightarrow> 's result) \<Rightarrow> Buffer \<Rightarrow> 's \<Rightarrow> (Buffer \<times> 's) result option" where
  "codec_onMessage nd e shut cb b s =
     (if kHeaderLength \<le> readableBytes b then
        (case mem_read b (peek b) kHeaderLength of
           Inl f \<Rightarrow> Some (Inl f)
         | Inr be32 \<Rightarrow>
             let len = sint (networkToHost32 e (mem_word e be32)) in
             if 65535 < len \<or> len < 0 then Some (bindR (shut s) (\<lambda>s'. Inr (b, s')))
             else if nat len + kHeaderLength \<le> readableBytes b then
               (case bindR (retrieve nd kHeaderLength b) (retrieveAsString nd (nat len)) of
                  Inl f \<Rightarrow> Some (Inl f)
                | Inr (msg, b1) \<Rightarrow>
                    (case cb msg s of Inl f \<Rightarrow> Some (Inl f) | Inr s1 \<Rightarrow> codec_onMessage nd e shut cb b1 s1))
             else Some (Inr (b, s)))
      else Some (Inr (b, s)))"

definition sendMessage ::
  "bool \<Rightarrow> byte_order \<Rightarrow> bool \<Rightarrow> (char list \<Rightarrow> int + nat) \<Rightarrow> string \<Rightarrow> TcpConnection \<Rightarrow> TcpConnection result" where
  "sendMessage nd e il wr message c =
     bindR (Buffer_new nd kDefaultInitialSize) (\<lambda>buf.
     bindR (Buffer_append nd message buf) (\<lambda>buf1.
     let len = of_nat (length message) :: 32 word; be32 = hostToNetwork32 e len in
     bindR (prepend nd (word_mem e be32) buf1) (\<lambda>buf2.
     bindR (send_buffer nd il wr buf2 c) (\<lambda>(_, c1). Inr c1))))"

subsection \<open>The servers and the client\<close>

text \<open>
  \<open>chat_conns\<close> are the connections of the server by number, \<open>connections\<close> is the set of those
  that are up. A server runs in several threads in the other variants, so whether the caller is in the loop of
  connection \<open>i\<close> is the argument \<open>il i\<close>; \<open>wr i\<close> is the \<open>write\<close> on its socket.
\<close>

record ChatServer =
  chat_conns :: "nat \<Rightarrow> TcpConnection"
  connections :: "nat list"

definition ChatServer_onConnection :: "nat \<Rightarrow> ChatServer \<Rightarrow> ChatServer" where
  "ChatServer_onConnection i s =
     (if isConnected (chat_conns s i) then s\<lparr>connections := snd (set_insert i (connections s))\<rparr>
      else s\<lparr>connections := snd (set_erase i (connections s))\<rparr>)"

definition chat_send ::
  "bool \<Rightarrow> byte_order \<Rightarrow> (nat \<Rightarrow> bool) \<Rightarrow> (nat \<Rightarrow> char list \<Rightarrow> int + nat) \<Rightarrow> string \<Rightarrow> nat \<Rightarrow>
   (nat \<Rightarrow> TcpConnection) \<Rightarrow> (nat \<Rightarrow> TcpConnection) result" where
  "chat_send nd e il wr msg i cs = bindR (sendMessage nd e (il i) (wr i) msg (cs i)) (\<lambda>c. Inr (cs(i := c)))"

definition ChatServer_onMessage ::
  "bool \<Rightarrow> byte_order \<Rightarrow> (nat \<Rightarrow> bool) \<Rightarrow> (nat \<Rightarrow> char list \<Rightarrow> int + nat) \<Rightarrow> string \<Rightarrow> ChatServer \<Rightarrow> ChatServer result" where
  "ChatServer_onMessage nd e il wr msg s =
     bindR (foldR (chat_send nd e il wr msg) (connections s) (chat_conns s)) (\<lambda>cs. Inr (s\<lparr>chat_conns := cs\<rparr>))"

text \<open>
  \<open>ChatServerThreadedEfficient.cc\<close>: the set is shared and copied before it is changed while a
  thread is sending to it. \<open>cow_lists\<close> is the heap of sets, \<open>cur\<close> the member \<open>connections_\<close>,
  \<open>reader t\<close> the local copy of the pointer in a running \<open>onMessage\<close> of thread \<open>t\<close> and the
  position of its iterator. The use count of a set counts the pointers to it.
\<close>

record cow_server =
  cow_threads :: "nat list"
  cow_lists :: "nat \<Rightarrow> nat list"
  cur :: nat
  next_ptr :: nat
  reader :: "nat \<Rightarrow> (nat \<times> nat) option"

definition use_count :: "nat \<Rightarrow> cow_server \<Rightarrow> nat" where
  "use_count p s =
     (if cur s = p then 1 else 0) + length (filter (\<lambda>t. map_option fst (reader s t) = Some p) (cow_threads s))"

definition cow_onConnection :: "bool \<Rightarrow> nat \<Rightarrow> bool \<Rightarrow> cow_server \<Rightarrow> cow_server result" where
  "cow_onConnection nd conn up s =
     (let s1 = (if use_count (cur s) s \<noteq> 1
                then s\<lparr>cow_lists := (cow_lists s)(next_ptr s := cow_lists s (cur s)), cur := next_ptr s, next_ptr := next_ptr s + 1\<rparr>
                else s)
      in cassert nd (use_count (cur s1) s1 = 1)
           (Inr (if up then s1\<lparr>cow_lists := (cow_lists s1)(cur s1 := snd (set_insert conn (cow_lists s1 (cur s1))))\<rparr>
                 else s1\<lparr>cow_lists := (cow_lists s1)(cur s1 := snd (set_erase conn (cow_lists s1 (cur s1))))\<rparr>)))"

datatype cow_event =
    CowConnection nat bool
  | CowBegin nat
  | CowSend nat nat
  | CowEnd nat

text \<open>
  \<open>onConnection\<close> holds the lock throughout and is one step; \<open>onMessage\<close> holds it for the copy of
  the pointer only, each message sent after that is a step.
\<close>

inductive cow_step :: "cow_server \<Rightarrow> cow_event \<Rightarrow> cow_server \<Rightarrow> bool" where
  Connection: "cow_onConnection nd conn up s = Inr s' \<Longrightarrow> cow_step s (CowConnection conn up) s'"
| MessageBegin: "t \<in> set (cow_threads s) \<Longrightarrow> reader s t = None \<Longrightarrow>
    cow_step s (CowBegin t) (s\<lparr>reader := (reader s)(t \<mapsto> (cur s, 0))\<rparr>)"
| MessageSend: "reader s t = Some (p, k) \<Longrightarrow> k < length (cow_lists s p) \<Longrightarrow>
    cow_step s (CowSend t (cow_lists s p ! k)) (s\<lparr>reader := (reader s)(t \<mapsto> (p, k + 1))\<rparr>)"
| MessageEnd: "reader s t = Some (p, k) \<Longrightarrow> k = length (cow_lists s p) \<Longrightarrow>
    cow_step s (CowEnd t) (s\<lparr>reader := (reader s)(t := None)\<rparr>)"

inductive cow_run :: "cow_server \<Rightarrow> cow_event list \<Rightarrow> cow_server \<Rightarrow> bool" where
  RunNil: "cow_run s [] s"
| RunCons: "cow_step s ev s1 \<Longrightarrow> cow_run s1 evs s' \<Longrightarrow> cow_run s (ev # evs) s'"

text \<open>
  \<open>ChatServerThreadedHighPerformance.cc\<close>: every loop thread has a set of its own, created on first
  use (\<open>ThreadLocalSingleton.h\<close>), and a message is handed to every loop. A loop has the number
  of its thread; \<open>posted t\<close> are the messages of the functors it has not run yet.
\<close>

record hp_server =
  hp_conns :: "nat \<Rightarrow> TcpConnection"
  hp_local :: "nat \<Rightarrow> nat list option"
  hp_loops :: "nat list"
  posted :: "nat \<Rightarrow> string list"

definition local_instance :: "nat \<Rightarrow> hp_server \<Rightarrow> nat list \<times> hp_server" where
  "local_instance t s = (case hp_local s t of Some l \<Rightarrow> (l, s) | None \<Rightarrow> ([], s\<lparr>hp_local := (hp_local s)(t \<mapsto> [])\<rparr>))"

definition threadInit :: "bool \<Rightarrow> nat \<Rightarrow> hp_server \<Rightarrow> hp_server result" where
  "threadInit nd t s =
     cassert nd (hp_local s t = None)
       (let s1 = snd (local_instance t s)
        in cassert nd (hp_local s1 t \<noteq> None) (Inr (s1\<lparr>hp_loops := snd (set_insert t (hp_loops s1))\<rparr>)))"

definition hp_onConnection :: "nat \<Rightarrow> nat \<Rightarrow> hp_server \<Rightarrow> hp_server" where
  "hp_onConnection t i s =
     (let (l, s1) = local_instance t s
      in if isConnected (hp_conns s1 i) then s1\<lparr>hp_local := (hp_local s1)(t \<mapsto> snd (set_insert i l))\<rparr>
         else s1\<lparr>hp_local := (hp_local s1)(t \<mapsto> snd (set_erase i l))\<rparr>)"

definition distributeMessage ::
  "bool \<Rightarrow> byte_order \<Rightarrow> (nat \<Rightarrow> bool) \<Rightarrow> (nat \<Rightarrow> char list \<Rightarrow> int + nat) \<Rightarrow> nat \<Rightarrow> string \<Rightarrow> hp_server \<Rightarrow> hp_server result" where
  "distributeMessage nd e il wr t msg s =
     (let (l, s1) = local_instance t s
      in bindR (foldR (chat_send nd e il wr msg) l (hp_conns s1)) (\<lambda>cs. Inr (s1\<lparr>hp_conns := cs\<rparr>)))"

definition hp_onMessage :: "string \<Rightarrow> hp_server \<Rightarrow> hp_server" where
  "hp_onMessage msg s = foldl (\<lambda>s t. s\<lparr>posted := (posted s)(t := posted s t @ [msg])\<rparr>) s (hp_loops s)"

text \<open>Thread \<open>t\<close> runs the functors posted to its loop.\<close>

definition hp_run_posted ::
  "bool \<Rightarrow> byte_order \<Rightarrow> (nat \<Rightarrow> bool) \<Rightarrow> (nat \<Rightarrow> char list \<Rightarrow> int + nat) \<Rightarrow> nat \<Rightarrow> hp_server \<Rightarrow> hp_server result" where
  "hp_run_posted nd e il wr t s =
     foldR (distributeMessage nd e il wr t) (posted s t) (s\<lparr>posted := (posted s)(t := [])\<rparr>)"

text \<open>The client keeps the connection while it is up.\<close>

definition ChatClient_onConnection :: "nat \<Rightarrow> TcpConnection \<Rightarrow> nat option \<Rightarrow> nat option" where
  "ChatClient_onConnection i c connection = (if isConnected c then Some i else None)"

definition ChatClient_sendMessage ::
  "bool \<Rightarrow> byte_order \<Rightarrow> (nat \<Rightarrow> bool) \<Rightarrow> (nat \<Rightarrow> char list \<Rightarrow> int + nat) \<Rightarrow> string \<Rightarrow> nat option \<Rightarrow>
   (nat \<Rightarrow> TcpConnection) \<Rightarrow> (nat \<Rightarrow> TcpConnection) result" where
  "ChatClient_sendMessage nd e il wr msg connection cs =
     (case connection of Some i \<Rightarrow> chat_send nd e il wr msg i cs | None \<Rightarrow> Inr cs)"

subsection \<open>What travels\<close>

definition frame :: "string \<Rightarrow> char list" where
  "frame m = be_bytes 4 (length m) @ m"

text \<open>The start of a frame of which more has to come.\<close>

definition incomplete :: "char list \<Rightarrow> bool" where
  "incomplete r \<longleftrightarrow> length r < 4 \<or> (\<exists>m. length m \<le> 65535 \<and> strict_prefix r (frame m))"

lemma length_frame [simp]: "length (frame m) = length m + 4"
  by (simp add: frame_def)

lemma header_value:
  assumes "n < 2 ^ 31"
  shows "sint (networkToHost32 e (mem_word e (be_bytes 4 n)) :: 32 word) = int n"
proof -
  have u: "unat (of_nat n :: 32 word) = n" using assms by (simp add: unat_of_nat take_bit_nat_eq_self)
  have "networkToHost32 e (mem_word e (be_bytes 4 n)) = (of_nat n :: 32 word)"
    using ntoh_be_bytes(2) [of e "of_nat n"] u by simp
  moreover have "uint (of_nat n :: 32 word) = int n" by (simp only: uint_nat u)
  ultimately show ?thesis using assms by (simp only: sint_uint) (simp add: signed_take_bit_int_eq_self)
qed

lemma codec_header:
  assumes "Buffer_inv b" "take 4 (Buffer_content b) = be_bytes 4 n" "n < 2 ^ 31"
  shows "kHeaderLength \<le> readableBytes b" "mem_read b (peek b) kHeaderLength = Inr (be_bytes 4 n)"
proof -
  have "length (take 4 (Buffer_content b)) = 4" using assms(2) by simp
  then show *: "kHeaderLength \<le> readableBytes b" using Buffer_sizes(3) [OF assms(1)] by (simp add: kHeaderLength_def)
  show "mem_read b (peek b) kHeaderLength = Inr (be_bytes 4 n)"
    using mem_read_content [OF assms(1) *] assms(2) by (simp add: peek_def kHeaderLength_def)
qed

lemma retrieve_shape:
  "retrieve nd n b = Inr b' \<Longrightarrow> buffer b' = buffer b \<and> writeIndex b' \<in> {writeIndex b, kCheapPrependSize}"
  by (auto simp: retrieve_def retrieveAll_def cassert_Inr_iff split: if_splits)

text \<open>What a call of \<open>retrieve\<close> can do to the room of a buffer.\<close>

definition same_room :: "Buffer \<Rightarrow> Buffer \<Rightarrow> bool" where
  "same_room b b' \<longleftrightarrow> length (buffer b') = length (buffer b) \<and> writeIndex b' \<in> {writeIndex b, kCheapPrependSize}"

lemma same_room_refl [simp]: "same_room b b"
  by (simp add: same_room_def)

lemma same_room_trans: "same_room a b \<Longrightarrow> same_room b c \<Longrightarrow> same_room a c"
  by (auto simp: same_room_def)

lemma codec_take_message:
  assumes "Buffer_inv b" "Buffer_content b = frame m @ r"
  shows "\<exists>b1. bindR (retrieve nd kHeaderLength b) (retrieveAsString nd (length m)) = Inr (m, b1) \<and> Buffer_inv b1 \<and>
     Buffer_content b1 = r \<and> same_room b b1"
proof -
  have n: "readableBytes b = length m + 4 + length r" using Buffer_sizes(3) [OF assms(1)] assms(2) by simp
  obtain b0 where b0: "retrieve nd 4 b = Inr b0" "Buffer_inv b0" "Buffer_content b0 = m @ r"
    using retrieve_spec [OF assms(1), of 4 nd] assms(2) n by (auto simp: frame_def)
  have le: "length m \<le> readableBytes b0" using Buffer_sizes(3) [OF b0(2)] b0(3) by simp
  obtain b1 where b1: "retrieve nd (length m) b0 = Inr b1" "Buffer_inv b1" "Buffer_content b1 = r"
    using retrieve_spec [OF b0(2) le, of nd] b0(3) by auto
  have "retrieveAsString nd (length m) b0 = Inr (m, b1)"
    using mem_read_content [OF b0(2) le] b0(3) b1(1) le by (simp add: retrieveAsString_def peek_def)
  with b0(1) b1 retrieve_shape [OF b0(1)] retrieve_shape [OF b1(1)] show ?thesis
    by (auto simp: kHeaderLength_def same_room_def)
qed

lemma codec_step:
  assumes "Buffer_inv b" "Buffer_content b = frame m @ r" "length m \<le> 65535" "cb m s = Inr s1"
  shows "\<exists>b1. codec_onMessage nd e shut cb b s = codec_onMessage nd e shut cb b1 s1 \<and> Buffer_inv b1 \<and>
     Buffer_content b1 = r \<and> same_room b b1"
proof -
  obtain b1 where b1: "bindR (retrieve nd kHeaderLength b) (retrieveAsString nd (length m)) = Inr (m, b1)"
    "Buffer_inv b1" "Buffer_content b1 = r" "same_room b b1"
    using codec_take_message [OF assms(1,2), of nd] by blast
  have "readableBytes b = length m + 4 + length r" using Buffer_sizes(3) [OF assms(1)] assms(2) by simp
  moreover have h: "take 4 (Buffer_content b) = be_bytes 4 (length m)" using assms(2) by (simp add: frame_def)
  ultimately have "codec_onMessage nd e shut cb b s = codec_onMessage nd e shut cb b1 s1"
    using codec_header [OF assms(1) h] header_value [of "length m" e] assms(3,4) b1(1)
    by (subst codec_onMessage.simps) (auto simp: kHeaderLength_def Let_def)
  with b1 show ?thesis by blast
qed

lemma codec_waits:
  assumes "Buffer_inv b" "incomplete (Buffer_content b)"
  shows "codec_onMessage nd e shut cb b s = Some (Inr (b, s))"
proof (cases "length (Buffer_content b) < 4")
  case True
  then show ?thesis using Buffer_sizes(3) [OF assms(1)]
    by (subst codec_onMessage.simps) (simp add: kHeaderLength_def)
next
  case False
  then obtain m where m: "length m \<le> 65535" "strict_prefix (Buffer_content b) (frame m)"
    using assms(2) by (auto simp: incomplete_def)
  have lt: "length (Buffer_content b) < length m + 4" using prefix_length_less [OF m(2)] by simp
  have "prefix (Buffer_content b) (frame m)" using m(2) by (simp add: strict_prefix_def)
  then have h: "take 4 (Buffer_content b) = be_bytes 4 (length m)"
    using False by (auto simp: prefix_def frame_def append_eq_append_conv_if)
  show ?thesis using codec_header [OF assms(1) h] header_value [of "length m" e] m(1) lt Buffer_sizes(3) [OF assms(1)]
    by (subst codec_onMessage.simps) (simp add: kHeaderLength_def Let_def)
qed

lemma codec_all:
  assumes "Buffer_inv b" "Buffer_content b = concat (map frame ms) @ r" "incomplete r"
    and "\<And>m. m \<in> set ms \<Longrightarrow> length m \<le> 65535" "foldR cb ms s = Inr s'"
  shows "\<exists>b'. codec_onMessage nd e shut cb b s = Some (Inr (b', s')) \<and> Buffer_inv b' \<and> Buffer_content b' = r \<and> same_room b b'"
  using assms
proof (induction ms arbitrary: b s)
  case Nil
  then show ?case using codec_waits [of b nd e shut cb s] by simp
next
  case (Cons m ms)
  then obtain s1 where s1: "cb m s = Inr s1" "foldR cb ms s1 = Inr s'" by auto
  obtain b1 where b1: "codec_onMessage nd e shut cb b s = codec_onMessage nd e shut cb b1 s1" "Buffer_inv b1"
    "Buffer_content b1 = concat (map frame ms) @ r" "same_room b b1"
    using codec_step [of b m "concat (map frame ms) @ r" cb s s1 nd e shut] Cons.prems s1(1) by auto
  with Cons.IH [OF b1(2,3) Cons.prems(3) _ s1(2)] Cons.prems(4) same_room_trans [OF b1(4)] show ?case by auto
qed

subsection \<open>Arrival in pieces\<close>

text \<open>
  The bytes of a connection arrive in pieces \<open>ds\<close>: each is appended to the input buffer and
  followed by a call of \<open>onMessage\<close>.
\<close>

fun receive ::
  "bool \<Rightarrow> byte_order \<Rightarrow> ('s \<Rightarrow> 's result) \<Rightarrow> (string \<Rightarrow> 's \<Rightarrow> 's result) \<Rightarrow> char list list \<Rightarrow> Buffer \<Rightarrow> 's \<Rightarrow> (Buffer \<times> 's) result option" where
  "receive nd e shut cb [] b s = Some (Inr (b, s))"
| "receive nd e shut cb (d # ds) b s =
     (case Buffer_append nd d b of
        Inl f \<Rightarrow> Some (Inl f)
      | Inr b1 \<Rightarrow>
          (case codec_onMessage nd e shut cb b1 s of
             None \<Rightarrow> None
           | Some (Inl f) \<Rightarrow> Some (Inl f)
           | Some (Inr (b2, s2)) \<Rightarrow> receive nd e shut cb ds b2 s2))"

lemma incomplete_prefix:
  assumes "incomplete (d @ x)"
  shows "incomplete d"
proof (cases "length (d @ x) < 4")
  case False
  then obtain m where m: "length m \<le> 65535" "strict_prefix (d @ x) (frame m)" using assms by (auto simp: incomplete_def)
  have "prefix d (d @ x)" by simp
  then have "strict_prefix d (frame m)" using m(2) by (rule prefix_order.le_less_trans)
  with m(1) show ?thesis by (auto simp: incomplete_def)
qed (simp add: incomplete_def)

lemma frame_not_incomplete:
  assumes "length m \<le> 65535"
  shows "\<not> incomplete (frame m @ x)"
proof
  assume "incomplete (frame m @ x)"
  then obtain m' where m': "length m' \<le> 65535" "strict_prefix (frame m @ x) (frame m')" by (auto simp: incomplete_def)
  then obtain y where "frame m' = frame m @ x @ y" by (auto simp: strict_prefix_def prefix_def)
  then have "take 4 (frame m') = take 4 (frame m @ x @ y)" by simp
  then have "be_bytes 4 (length m) = be_bytes 4 (length m')" by (simp add: frame_def)
  moreover have "length m < 2 ^ 31" "length m' < 2 ^ 31" using assms m'(1) by simp_all
  ultimately have "int (length m) = int (length m')" by (metis header_value)
  then show False using prefix_length_less [OF m'(2)] by simp
qed

lemma frames_split:
  assumes "concat (map frame ms) @ r = d @ rest" "incomplete r" "\<And>m. m \<in> set ms \<Longrightarrow> length m \<le> 65535"
  shows "\<exists>ms1 ms2 r1. ms = ms1 @ ms2 \<and> d = concat (map frame ms1) @ r1 \<and> incomplete r1 \<and> concat (map frame ms2) @ r = r1 @ rest"
  using assms
proof (induction ms arbitrary: d)
  case Nil
  then show ?case using incomplete_prefix [of d rest] by auto
next
  case (Cons m ms)
  show ?case
  proof (cases "length (frame m) \<le> length d")
    case True
    have "frame m @ concat (map frame ms) @ r = d @ rest" using Cons.prems(1) by simp
    then have "take (length (frame m)) d = frame m" using True
      by (metis append_eq_append_conv_if)
    then obtain d' where d': "d = frame m @ d'" by (metis append_take_drop_id)
    then obtain ms1 ms2 r1 where "ms = ms1 @ ms2 \<and> d' = concat (map frame ms1) @ r1 \<and> incomplete r1 \<and> concat (map frame ms2) @ r = r1 @ rest"
      using Cons.IH [of d'] Cons.prems by auto
    then have "m # ms = (m # ms1) @ ms2 \<and> d = concat (map frame (m # ms1)) @ r1 \<and> incomplete r1 \<and> concat (map frame ms2) @ r = r1 @ rest"
      by (simp add: d')
    then show ?thesis by blast
  next
    case False
    then have "strict_prefix d (frame m)"
      using Cons.prems(1) by (auto simp: append_eq_append_conv2 strict_prefix_def prefix_def)
    then have "incomplete d" using Cons.prems(3) by (auto simp: incomplete_def)
    then have "m # ms = [] @ (m # ms) \<and> d = concat (map frame []) @ d \<and> incomplete d \<and> concat (map frame (m # ms)) @ r = d @ rest"
      using Cons.prems(1) by simp
    then show ?thesis by blast
  qed
qed

lemma receive_all:
  assumes "Buffer_inv b" "incomplete (Buffer_content b)" "concat (map frame ms) @ r = Buffer_content b @ concat ds" "incomplete r"
    and "\<And>m. m \<in> set ms \<Longrightarrow> length m \<le> 65535" "foldR cb ms s = Inr s'"
    and "max kCheapPrependSize (writeIndex b) + length (concat ds) \<le> length (buffer b)"
  shows "\<exists>b'. receive nd e shut cb ds b s = Some (Inr (b', s')) \<and> Buffer_inv b' \<and> Buffer_content b' = r"
  using assms
proof (induction ds arbitrary: b s ms)
  case Nil
  have "ms = []"
  proof (cases ms)
    case (Cons m ms')
    then show ?thesis using Nil.prems(2,3,5) frame_not_incomplete [of m "concat (map frame ms') @ r"] by simp
  qed
  with Nil show ?case by simp
next
  case (Cons d ds)
  have room: "writeIndex b + length d \<le> length (buffer b)" using Cons.prems(7) by simp
  obtain b1 where b1: "Buffer_append nd d b = Inr b1" "Buffer_inv b1" "writeIndex b1 = writeIndex b + length d"
    "length (buffer b1) = length (buffer b)"
    using Buffer_append_fits [OF Cons.prems(1), of d nd] room by blast
  have c1: "Buffer_content b1 = Buffer_content b @ d"
    using Buffer_append_ok [OF Cons.prems(1), of d nd] b1(1) append_room_fits [OF room] by auto
  obtain ms1 ms2 r1 where sp: "ms = ms1 @ ms2" "Buffer_content b1 = concat (map frame ms1) @ r1" "incomplete r1"
    "concat (map frame ms2) @ r = r1 @ concat ds"
    using frames_split [of ms r "Buffer_content b1" "concat ds"] Cons.prems(3-5) c1 by auto
  then obtain s1 where s1: "foldR cb ms1 s = Inr s1" "foldR cb ms2 s1 = Inr s'"
    using Cons.prems(6) by (auto simp: foldR_append)
  obtain b2 where b2: "codec_onMessage nd e shut cb b1 s = Some (Inr (b2, s1))" "Buffer_inv b2" "Buffer_content b2 = r1" "same_room b1 b2"
    using codec_all [OF b1(2) sp(2,3) _ s1(1), of nd e shut] Cons.prems(5) sp(1) by auto
  have "max kCheapPrependSize (writeIndex b2) + length (concat ds) \<le> length (buffer b2)"
    using b2(4) b1(3,4) Cons.prems(7) by (auto simp: same_room_def)
  with Cons.IH [of b2 ms2 s1] Cons.prems(4,5) b1(1) b2 s1(2) sp show ?case by simp
qed

subsection \<open>Sending a message\<close>

text \<open>The messages a new buffer takes: between 1025 and 1032 characters the buffer makes no room.\<close>

definition sendable :: "string \<Rightarrow> bool" where
  "sendable m \<longleftrightarrow> length m \<le> 1024 \<or> (1032 < length m \<and> length m < 2 ^ 32)"

lemma fresh_room: "sendable m \<Longrightarrow> append_room fresh_buffer (length m)"
  by (auto simp: sendable_def append_room_def fresh_buffer_def kCheapPrependSize_def vector_max_def)

lemma framed_buffer:
  assumes "sendable m"
  shows "\<exists>b1 b2. Buffer_append nd m fresh_buffer = Inr b1 \<and>
     prepend nd (word_mem e (hostToNetwork32 e (of_nat (length m)))) b1 = Inr b2 \<and> Buffer_inv b2 \<and> Buffer_content b2 = frame m"
proof -
  obtain b1 where b1: "Buffer_append nd m fresh_buffer = Inr b1" "Buffer_inv b1" "Buffer_content b1 = m"
    using Buffer_append_ok [OF fresh_buffer_facts(2) fresh_room [OF assms], of nd] fresh_buffer_facts(3) by auto
  have "length m < 2 ^ 32" using assms by (auto simp: sendable_def)
  then have u: "unat (of_nat (length m) :: 32 word) = length m" by (simp add: unat_of_nat take_bit_nat_eq_self)
  have "readIndex b1 = 8" using Buffer_append_readIndex [OF b1(1)] by (auto simp: fresh_buffer_def kCheapPrependSize_def)
  then obtain b2 where "prepend nd (be_bytes 4 (length m)) b1 = Inr b2 \<and> Buffer_inv b2 \<and> Buffer_content b2 = frame m"
    using prepend_ok [OF b1(2), of "be_bytes 4 (length m)" nd] b1(3) by (auto simp: frame_def)
  then show ?thesis using b1(1) u by auto
qed

lemma sendMessage_frame:
  assumes "conn_inv c" "tc_state c = kConnected" "wr (frame m) \<in> {Inr (length (frame m)), Inr 0, Inl EAGAIN}" "sendable m" "append_room (outputBuffer c) (length m + 4)"
  shows "\<exists>c'. sendMessage nd e True wr m c = Inr c' \<and> conn_inv c' \<and> stream c' = stream c @ frame m \<and> tc_state c' = kConnected"
proof -
  obtain b1 b2 where b: "Buffer_append nd m fresh_buffer = Inr b1"
    "prepend nd (word_mem e (hostToNetwork32 e (of_nat (length m)))) b1 = Inr b2" "Buffer_inv b2" "Buffer_content b2 = frame m"
    using framed_buffer [OF assms(4), of nd e] by blast
  have r: "mem_read b2 (peek b2) (readableBytes b2) = Inr (frame m)"
    using mem_read_content [OF b(3), of "readableBytes b2"] Buffer_content_all [OF b(3)] b(4) by (simp add: peek_def)
  have "frame m \<noteq> []" by (simp flip: length_0_conv)
  then obtain c' where c': "sendInLoop nd True wr (frame m) c = Inr c'" "conn_inv c'"
    "wire c' @ Buffer_content (outputBuffer c') = wire c @ Buffer_content (outputBuffer c) @ frame m"
    using sendInLoop_stream [of c "frame m" wr nd] assms(1,3,5) by auto
  have "sendMessage nd e True wr m c = Inr c'"
    using b(1,2) r c'(1) assms(2) fresh_buffer_facts(1) by (simp add: sendMessage_def send_buffer_def Let_def)
  moreover have "tc_state c' = kConnected" using sendInLoop_state [OF c'(1)] assms(2) by simp
  ultimately show ?thesis using c'(2,3) by (auto simp: stream_def)
qed

subsection \<open>Copy on write\<close>

inductive_cases cow_runE: "cow_run s (ev # evs) s'"
inductive_cases cow_endE: "cow_step s (CowEnd t) s'"
inductive_cases cow_beginE: "cow_step s (CowBegin t) s'"

definition cow_inv :: "cow_server \<Rightarrow> bool" where
  "cow_inv s \<longleftrightarrow> cur s < next_ptr s \<and>
     (\<forall>t p k. reader s t = Some (p, k) \<longrightarrow> p < next_ptr s \<and> t \<in> set (cow_threads s))"

lemma unique_no_reader:
  assumes "cow_inv s" "use_count (cur s) s = 1" "reader s t = Some (p, k)"
  shows "p \<noteq> cur s"
proof
  assume "p = cur s"
  then have "t \<in> set (filter (\<lambda>t. map_option fst (reader s t) = Some (cur s)) (cow_threads s))"
    using assms(1,3) by (auto simp: cow_inv_def)
  then have "0 < length (filter (\<lambda>t. map_option fst (reader s t) = Some (cur s)) (cow_threads s))"
    by (rule length_pos_if_in_set)
  with assms(2) show False by (simp add: use_count_def)
qed

lemma fresh_copy_unique:
  assumes "cow_inv s"
  shows "use_count (next_ptr s) (s\<lparr>cow_lists := l, cur := next_ptr s, next_ptr := n\<rparr>) = 1"
  using assms by (auto simp: use_count_def cow_inv_def filter_empty_conv)

definition cow_apply :: "nat \<Rightarrow> bool \<Rightarrow> nat list \<Rightarrow> nat list" where
  "cow_apply conn up l = (if up then snd (set_insert conn l) else snd (set_erase conn l))"

lemma cow_invD:
  "cow_inv s \<Longrightarrow> cur s < next_ptr s" "cow_inv s \<Longrightarrow> reader s t = Some (p, k) \<Longrightarrow> p < next_ptr s"
  "cow_inv s \<Longrightarrow> reader s t = Some (p, k) \<Longrightarrow> t \<in> set (cow_threads s)"
  by (auto simp: cow_inv_def)

lemma cow_invI:
  "cur s < next_ptr s \<Longrightarrow> (\<And>t p k. reader s t = Some (p, k) \<Longrightarrow> p < next_ptr s \<and> t \<in> set (cow_threads s)) \<Longrightarrow> cow_inv s"
  by (auto simp: cow_inv_def)

lemma cow_onConnection_result:
  assumes "cow_inv s"
  shows "cow_onConnection nd conn up s =
     Inr (if use_count (cur s) s \<noteq> 1
          then s\<lparr>cow_lists := (cow_lists s)(next_ptr s := cow_apply conn up (cow_lists s (cur s))), cur := next_ptr s, next_ptr := next_ptr s + 1\<rparr>
          else s\<lparr>cow_lists := (cow_lists s)(cur s := cow_apply conn up (cow_lists s (cur s)))\<rparr>)"
  using fresh_copy_unique [OF assms] by (simp add: cow_onConnection_def Let_def cow_apply_def)

lemma cow_onConnection_spec:
  assumes "cow_inv s" "cow_onConnection nd conn up s = Inr s'"
  shows "cow_inv s'" "reader s' = reader s" "cow_lists s' (cur s') = cow_apply conn up (cow_lists s (cur s))"
    "reader s t = Some (p, k) \<Longrightarrow> cow_lists s' p = cow_lists s p"
proof -
  have s': "s' = (if use_count (cur s) s \<noteq> 1
      then s\<lparr>cow_lists := (cow_lists s)(next_ptr s := cow_apply conn up (cow_lists s (cur s))), cur := next_ptr s, next_ptr := next_ptr s + 1\<rparr>
      else s\<lparr>cow_lists := (cow_lists s)(cur s := cow_apply conn up (cow_lists s (cur s)))\<rparr>)"
    using cow_onConnection_result [OF assms(1)] assms(2) by simp
  show "cow_inv s'" using cow_invD [OF assms(1)] by (intro cow_invI) (auto simp: s' less_SucI)
  show "reader s' = reader s" "cow_lists s' (cur s') = cow_apply conn up (cow_lists s (cur s))" by (simp_all add: s')
  assume r: "reader s t = Some (p, k)"
  show "cow_lists s' p = cow_lists s p"
    using cow_invD(2) [OF assms(1) r] unique_no_reader [OF assms(1) _ r] by (auto simp: s')
qed

lemma cow_step_inv:
  assumes "cow_step s ev s'" "cow_inv s"
  shows "cow_inv s'"
  using assms
proof cases
  case (Connection nd conn up)
  then show ?thesis using cow_onConnection_spec(1) assms(2) by blast
qed (auto simp: cow_inv_def split: if_splits)

fun sends :: "nat \<Rightarrow> cow_event list \<Rightarrow> nat list" where
  "sends t [] = []"
| "sends t (ev # evs) = (case ev of CowSend t' c \<Rightarrow> if t' = t then c # sends t evs else sends t evs | _ \<Rightarrow> sends t evs)"

lemma cow_step_reader:
  assumes "cow_step s ev s'" "cow_inv s" "reader s t = Some (p, k)" "ev \<noteq> CowEnd t"
  shows "cow_lists s' p = cow_lists s p \<and>
     (\<exists>k'. reader s' t = Some (p, k') \<and> (k \<le> length (cow_lists s p) \<longrightarrow>
        k' \<le> length (cow_lists s p) \<and> take k' (cow_lists s p) = take k (cow_lists s p) @ sends t [ev]))"
  using assms
proof cases
  case (Connection nd conn up)
  then show ?thesis using cow_onConnection_spec [OF assms(2) Connection(2)] assms(3) by simp
qed (auto simp: take_Suc_conv_app_nth)

lemma sends_Cons: "sends t (ev # evs) = sends t [ev] @ sends t evs"
  by (simp split: cow_event.split)

lemma cow_run_reader:
  assumes "cow_run s evs s'" "cow_inv s" "reader s t = Some (p, k)" "CowEnd t \<notin> set evs" "k \<le> length (cow_lists s p)"
  shows "cow_inv s' \<and> cow_lists s' p = cow_lists s p \<and>
     (\<exists>k'. reader s' t = Some (p, k') \<and> k' \<le> length (cow_lists s p) \<and>
        take k' (cow_lists s p) = take k (cow_lists s p) @ sends t evs)"
  using assms
proof (induction arbitrary: k rule: cow_run.induct)
  case (RunCons s ev s1 evs s')
  obtain k1 where k1: "cow_lists s1 p = cow_lists s p" "reader s1 t = Some (p, k1)" "k1 \<le> length (cow_lists s p)"
    "take k1 (cow_lists s p) = take k (cow_lists s p) @ sends t [ev]"
    using cow_step_reader [OF RunCons.hyps(1) RunCons.prems(1,2)] RunCons.prems(3,4) by auto
  have "cow_inv s1" using cow_step_inv [OF RunCons.hyps(1)] RunCons.prems(1) by blast
  with RunCons.IH [OF this k1(2)] RunCons.prems(3) k1 show ?case by (auto simp: sends_Cons [of t ev evs] simp del: sends.simps)
qed auto

lemma cow_run_append: "cow_run s (evs @ evs') s' \<longleftrightarrow> (\<exists>s1. cow_run s evs s1 \<and> cow_run s1 evs' s')"
proof (induction evs arbitrary: s)
  case Nil
  then show ?case by (auto intro: RunNil elim: cow_run.cases)
next
  case (Cons ev evs)
  then show ?case by (simp, blast intro: RunCons elim: cow_runE)
qed

subsection \<open>Sending to all\<close>

lemma sendMessage_idle:
  assumes "idle_conn c" "sendable m" "\<And>d. wr d = Inr (length d)"
  shows "\<exists>c'. sendMessage nd e True wr m c = Inr c' \<and> idle_conn c' \<and> wire c' = wire c @ frame m"
proof -
  obtain b1 b2 where b: "Buffer_append nd m fresh_buffer = Inr b1"
    "prepend nd (word_mem e (hostToNetwork32 e (of_nat (length m)))) b1 = Inr b2" "Buffer_inv b2" "Buffer_content b2 = frame m"
    using framed_buffer [OF assms(2), of nd e] by blast
  obtain c' where "send_buffer nd True wr b2 c = Inr (retrieveAll b2, c')" "idle_conn c'" "wire c' = wire c @ frame m"
    using send_buffer_idle [of c wr b2 nd, OF assms(1,3) b(3)] b(4) by auto
  then show ?thesis using b(1,2) fresh_buffer_facts(1) by (auto simp: sendMessage_def Let_def)
qed

lemma broadcast_idle:
  assumes "distinct xs" "\<And>i. i \<in> set xs \<Longrightarrow> idle_conn (cs i)" "sendable m" "\<And>i d. wr i d = Inr (length d)" "\<And>i. i \<in> set xs \<Longrightarrow> il i"
  shows "\<exists>cs'. foldR (chat_send nd e il wr m) xs cs = Inr cs' \<and> (\<forall>i. i \<notin> set xs \<longrightarrow> cs' i = cs i) \<and>
     (\<forall>i \<in> set xs. idle_conn (cs' i) \<and> wire (cs' i) = wire (cs i) @ frame m)"
  using assms(1,2,5)
proof (induction xs arbitrary: cs)
  case (Cons i xs)
  obtain c where c: "sendMessage nd e (il i) (wr i) m (cs i) = Inr c" "idle_conn c" "wire c = wire (cs i) @ frame m"
    using sendMessage_idle [of "cs i" m "wr i" nd e] assms(3,4) Cons.prems(2,3) by auto
  define cs1 where "cs1 = cs(i := c)"
  have "\<And>j. j \<in> set xs \<Longrightarrow> idle_conn (cs1 j)" using Cons.prems(2) c(2) by (auto simp: cs1_def)
  then obtain cs' where cs': "foldR (chat_send nd e il wr m) xs cs1 = Inr cs'" "\<forall>j. j \<notin> set xs \<longrightarrow> cs' j = cs1 j"
    "\<forall>j \<in> set xs. idle_conn (cs' j) \<and> wire (cs' j) = wire (cs1 j) @ frame m"
    using Cons.IH [of cs1] Cons.prems(1,3) by auto
  have "foldR (chat_send nd e il wr m) (i # xs) cs = Inr cs'" using c(1) cs'(1) by (simp add: chat_send_def cs1_def)
  with c cs'(2,3) Cons.prems(1) show ?case by (intro exI [of _ cs']) (auto simp: cs1_def)
qed simp

definition chat_idle :: "ChatServer \<Rightarrow> bool" where
  "chat_idle s \<longleftrightarrow> distinct (connections s) \<and> (\<forall>i \<in> set (connections s). idle_conn (chat_conns s i))"

lemma chat_messages_idle:
  assumes "chat_idle s" "\<And>m. m \<in> set ms \<Longrightarrow> sendable m" "\<And>i d. wr i d = Inr (length d)"
  shows "\<exists>s'. foldR (ChatServer_onMessage nd e (\<lambda>_. True) wr) ms s = Inr s' \<and> chat_idle s' \<and> connections s' = connections s \<and>
     (\<forall>i. i \<notin> set (connections s) \<longrightarrow> chat_conns s' i = chat_conns s i) \<and>
     (\<forall>i \<in> set (connections s). wire (chat_conns s' i) = wire (chat_conns s i) @ concat (map frame ms))"
  using assms(1,2)
proof (induction ms arbitrary: s)
  case (Cons m ms)
  obtain cs where cs: "foldR (chat_send nd e (\<lambda>_. True) wr m) (connections s) (chat_conns s) = Inr cs"
    "\<forall>i. i \<notin> set (connections s) \<longrightarrow> cs i = chat_conns s i"
    "\<forall>i \<in> set (connections s). idle_conn (cs i) \<and> wire (cs i) = wire (chat_conns s i) @ frame m"
    using broadcast_idle [of "connections s" "chat_conns s" m wr "\<lambda>_. True" nd e] Cons.prems assms(3) by (auto simp: chat_idle_def)
  let ?s1 = "s\<lparr>chat_conns := cs\<rparr>"
  have "chat_idle ?s1" using Cons.prems(1) cs(3) by (simp add: chat_idle_def)
  then obtain s' where s': "foldR (ChatServer_onMessage nd e (\<lambda>_. True) wr) ms ?s1 = Inr s'" "chat_idle s'" "connections s' = connections s"
     "\<forall>i. i \<notin> set (connections s) \<longrightarrow> chat_conns s' i = cs i"
     "\<forall>i \<in> set (connections s). wire (chat_conns s' i) = wire (cs i) @ concat (map frame ms)"
    using Cons.IH [of ?s1] Cons.prems(2) by auto
  have "foldR (ChatServer_onMessage nd e (\<lambda>_. True) wr) (m # ms) s = Inr s'"
    using cs(1) s'(1) by (simp add: ChatServer_onMessage_def)
  with s' cs show ?case by auto
qed simp

lemma hp_post_all:
  "distinct ts \<Longrightarrow> foldl (\<lambda>s t. s\<lparr>posted := (posted s)(t := posted s t @ [m])\<rparr>) s ts =
     s\<lparr>posted := (\<lambda>t. if t \<in> set ts then posted s t @ [m] else posted s t)\<rparr>"
proof (induction ts arbitrary: s)
  case (Cons t ts)
  have "(\<lambda>u. if u \<in> set ts then (if u = t then posted s t @ [m] else posted s u) @ [m] else if u = t then posted s t @ [m] else posted s u) =
      (\<lambda>u. if u = t \<or> u \<in> set ts then posted s u @ [m] else posted s u)"
    using Cons.prems by auto
  with Cons show ?case by (simp cong: if_cong)
qed simp

text \<open>The loops \<open>ts\<close> have the message still to send; no connection is in two sets.\<close>

definition hp_members :: "nat list \<Rightarrow> hp_server \<Rightarrow> nat list" where
  "hp_members ts s = concat (map (\<lambda>t. the (hp_local s t)) ts)"

definition hp_ready :: "string \<Rightarrow> nat list \<Rightarrow> hp_server \<Rightarrow> bool" where
  "hp_ready m ts s \<longleftrightarrow> distinct ts \<and> (\<forall>t \<in> set ts. posted s t = [m] \<and> hp_local s t \<noteq> None) \<and>
     distinct (hp_members ts s) \<and> (\<forall>i \<in> set (hp_members ts s). idle_conn (hp_conns s i))"

lemma hp_run_one:
  assumes "hp_ready m (t # ts) s" "sendable m" "\<And>i d. wr i d = Inr (length d)"
  shows "\<exists>s1. hp_run_posted nd e (\<lambda>_. True) wr t s = Inr s1 \<and> hp_ready m ts s1 \<and> hp_local s1 = hp_local s \<and>
     (\<forall>i. i \<notin> set (the (hp_local s t)) \<longrightarrow> hp_conns s1 i = hp_conns s i) \<and>
     (\<forall>i \<in> set (the (hp_local s t)). wire (hp_conns s1 i) = wire (hp_conns s i) @ frame m)"
proof -
  obtain l where l: "hp_local s t = Some l" "distinct l" "\<forall>i \<in> set l. idle_conn (hp_conns s i)" "posted s t = [m]"
    "set l \<inter> set (hp_members ts s) = {}"
    using assms(1) by (auto simp: hp_ready_def hp_members_def)
  obtain cs where cs: "foldR (chat_send nd e (\<lambda>_. True) wr m) l (hp_conns s) = Inr cs" "\<forall>i. i \<notin> set l \<longrightarrow> cs i = hp_conns s i"
    "\<forall>i \<in> set l. idle_conn (cs i) \<and> wire (cs i) = wire (hp_conns s i) @ frame m"
    using broadcast_idle [of l "hp_conns s" m wr "\<lambda>_. True" nd e] l assms(2,3) by auto
  let ?s1 = "s\<lparr>posted := (posted s)(t := []), hp_conns := cs\<rparr>"
  have "hp_run_posted nd e (\<lambda>_. True) wr t s = Inr ?s1"
    using cs(1) l by (simp add: hp_run_posted_def distributeMessage_def local_instance_def)
  moreover have "hp_members ts ?s1 = hp_members ts s" by (simp add: hp_members_def)
  moreover have "\<forall>i \<in> set (hp_members ts s). idle_conn (cs i)"
  proof
    fix i assume i: "i \<in> set (hp_members ts s)"
    then have "i \<notin> set l" using l(5) by auto
    then show "idle_conn (cs i)" using cs(2) assms(1) i by (simp add: hp_ready_def hp_members_def)
  qed
  ultimately have "hp_ready m ts ?s1" "hp_run_posted nd e (\<lambda>_. True) wr t s = Inr ?s1"
    using assms(1) by (auto simp: hp_ready_def hp_members_def)
  then show ?thesis using cs(2,3) l(1) by auto
qed

lemma hp_run_all:
  assumes "hp_ready m ts s" "sendable m" "\<And>i d. wr i d = Inr (length d)"
  shows "\<exists>s1. foldR (hp_run_posted nd e (\<lambda>_. True) wr) ts s = Inr s1 \<and>
     (\<forall>i. i \<notin> set (hp_members ts s) \<longrightarrow> hp_conns s1 i = hp_conns s i) \<and>
     (\<forall>i \<in> set (hp_members ts s). wire (hp_conns s1 i) = wire (hp_conns s i) @ frame m)"
  using assms(1)
proof (induction ts arbitrary: s)
  case Nil
  then show ?case by (simp add: hp_members_def)
next
  case (Cons t ts)
  obtain s1 where s1: "hp_run_posted nd e (\<lambda>_. True) wr t s = Inr s1" "hp_ready m ts s1" "hp_local s1 = hp_local s"
    "\<forall>i. i \<notin> set (the (hp_local s t)) \<longrightarrow> hp_conns s1 i = hp_conns s i"
    "\<forall>i \<in> set (the (hp_local s t)). wire (hp_conns s1 i) = wire (hp_conns s i) @ frame m"
    using hp_run_one [of m t ts s wr nd e] Cons.prems assms(2,3) by auto
  have mem: "hp_members (t # ts) s = the (hp_local s t) @ hp_members ts s1" by (simp add: hp_members_def s1(3))
  have disj: "set (the (hp_local s t)) \<inter> set (hp_members ts s1) = {}"
    using Cons.prems mem by (simp add: hp_ready_def)
  obtain s2 where s2: "foldR (hp_run_posted nd e (\<lambda>_. True) wr) ts s1 = Inr s2"
     "\<forall>i. i \<notin> set (hp_members ts s1) \<longrightarrow> hp_conns s2 i = hp_conns s1 i"
     "\<forall>i \<in> set (hp_members ts s1). wire (hp_conns s2 i) = wire (hp_conns s1 i) @ frame m"
    using Cons.IH [OF s1(2)] by blast
  have "foldR (hp_run_posted nd e (\<lambda>_. True) wr) (t # ts) s = Inr s2" using s1(1) s2(1) by simp
  moreover have "\<forall>i \<in> set (hp_members (t # ts) s). wire (hp_conns s2 i) = wire (hp_conns s i) @ frame m"
    using s1(4,5) s2(2,3) disj by (auto simp: mem)
  ultimately show ?case using s1(4) s2(2) by (auto simp: mem)
qed

subsection \<open>Properties of the chat programs\<close>

lemma receive_any:
  assumes "Buffer_inv b" "incomplete (Buffer_content b)" "concat (map frame ms) @ r = Buffer_content b @ concat ds" "incomplete r"
    and "\<And>m. m \<in> set ms \<Longrightarrow> length m \<le> 65535" "foldR cb ms s = Inr s'" "\<And>d. d \<in> set ds \<Longrightarrow> length d \<le> vector_max"
  shows "(\<exists>b'. receive nd e shut cb ds b s = Some (Inr (b', s')) \<and> Buffer_inv b' \<and> Buffer_content b' = r) \<or>
     (\<exists>ds1 d ds2 b1 s1 f. ds = ds1 @ d # ds2 \<and> receive nd e shut cb ds1 b s = Some (Inr (b1, s1)) \<and> Buffer_inv b1 \<and>
        \<not> append_room b1 (length d) \<and> receive nd e shut cb ds b s = Some (Inl f))"
  using assms
proof (induction ds arbitrary: b s ms)
  case Nil
  have "ms = []"
  proof (cases ms)
    case (Cons m ms')
    then show ?thesis using Nil.prems(2,3,5) frame_not_incomplete [of m "concat (map frame ms') @ r"] by simp
  qed
  with Nil show ?case by simp
next
  case (Cons d ds)
  show ?case
  proof (cases "append_room b (length d)")
    case False
    then obtain f where "Buffer_append nd d b = Inl f" using Buffer_append_fails [OF Cons.prems(1), of d nd] Cons.prems(7) by auto
    then have "receive nd e shut cb (d # ds) b s = Some (Inl f)" by simp
    with False Cons.prems(1) show ?thesis
      by (intro disjI2 exI [of _ "[]"] exI [of _ d] exI [of _ ds] exI [of _ b] exI [of _ s] exI [of _ f]) simp
  next
    case True
    then obtain b1 where b1: "Buffer_append nd d b = Inr b1" "Buffer_inv b1" "Buffer_content b1 = Buffer_content b @ d"
      using Buffer_append_ok [OF Cons.prems(1), of d nd] by blast
    obtain ms1 ms2 r1 where sp: "ms = ms1 @ ms2" "Buffer_content b1 = concat (map frame ms1) @ r1" "incomplete r1"
      "concat (map frame ms2) @ r = r1 @ concat ds"
      using frames_split [of ms r "Buffer_content b1" "concat ds"] Cons.prems(3-5) b1(3) by auto
    then obtain s1 where s1: "foldR cb ms1 s = Inr s1" "foldR cb ms2 s1 = Inr s'"
      using Cons.prems(6) by (auto simp: foldR_append)
    obtain b2 where b2: "codec_onMessage nd e shut cb b1 s = Some (Inr (b2, s1))" "Buffer_inv b2" "Buffer_content b2 = r1"
      using codec_all [OF b1(2) sp(2,3) _ s1(1), of nd e shut] Cons.prems(5) sp(1) by auto
    have step: "receive nd e shut cb (d # xs) b s = receive nd e shut cb xs b2 s1" for xs using b1(1) b2(1) by simp
    have "(\<exists>b'. receive nd e shut cb ds b2 s1 = Some (Inr (b', s')) \<and> Buffer_inv b' \<and> Buffer_content b' = r) \<or>
       (\<exists>ds1 d ds2 b1 s2 f. ds = ds1 @ d # ds2 \<and> receive nd e shut cb ds1 b2 s1 = Some (Inr (b1, s2)) \<and> Buffer_inv b1 \<and>
          \<not> append_room b1 (length d) \<and> receive nd e shut cb ds b2 s1 = Some (Inl f))"
      by (rule Cons.IH [of b2 ms2 s1]) (use Cons.prems(4,5,7) b2(2,3) s1(2) sp in auto)
    then show ?thesis
    proof (elim disjE exE)
      fix b' assume "receive nd e shut cb ds b2 s1 = Some (Inr (b', s')) \<and> Buffer_inv b' \<and> Buffer_content b' = r"
      then show ?thesis using step [of ds] by auto
    next
      fix ds1 d' ds2 b3 s2 f
      assume h: "ds = ds1 @ d' # ds2 \<and> receive nd e shut cb ds1 b2 s1 = Some (Inr (b3, s2)) \<and> Buffer_inv b3 \<and>
          \<not> append_room b3 (length d') \<and> receive nd e shut cb ds b2 s1 = Some (Inl f)"
      then have "d # ds = (d # ds1) @ d' # ds2 \<and> receive nd e shut cb (d # ds1) b s = Some (Inr (b3, s2)) \<and> Buffer_inv b3 \<and>
          \<not> append_room b3 (length d') \<and> receive nd e shut cb (d # ds) b s = Some (Inl f)"
        unfolding step by auto
      then show ?thesis by blast
    qed
  qed
qed


lemma frame_hi: "frame ''hi'' = [CHR 0x00, CHR 0x00, CHR 0x00, CHR 0x02, CHR ''h'', CHR ''i'']"
  by code_simp


text \<open>
  A length above 65535, or one whose sign bit is set, shuts the connection down. Nothing is taken from the buffer and the
  callback is not called.
\<close>

theorem codec_invalid_length:
  assumes "Buffer_inv b" "Buffer_content b = be_bytes 4 (unat len) @ r" "65535 < unat (len :: 32 word)" "shut s = Inr s'"
  shows "codec_onMessage nd e shut cb b s = Some (Inr (b, s'))"
proof -
  have n: "kHeaderLength \<le> readableBytes b" using Buffer_sizes(3) [OF assms(1)] assms(2) by (simp add: kHeaderLength_def)
  have r: "mem_read b (peek b) kHeaderLength = Inr (be_bytes 4 (unat len))"
    using mem_read_content [OF assms(1) n] assms(2) by (simp add: peek_def kHeaderLength_def)
  have "65535 < sint len \<or> sint len < 0"
  proof (cases "sint len < 0")
    case False
    moreover have "sint len < 2 ^ 32" using sint_lt [of len] by simp
    ultimately have "uint len = sint len" unfolding uint_sint by (simp add: take_bit_int_eq_self)
    moreover have "65535 < uint len" using assms(3) unfolding uint_nat by linarith
    ultimately show ?thesis by linarith
  qed (rule disjI2)
  then show ?thesis using n r assms(4) by (subst codec_onMessage.simps) (auto simp: Let_def)
qed

theorem codec_invalid_length_witness:
  "codec_onMessage False LittleEndian (\<lambda>s. Inr (Suc s)) (\<lambda>m s. Inr s) (sample_buffer (be_bytes 4 65536)) 0 =
   Some (Inr (sample_buffer (be_bytes 4 65536), Suc 0))"
proof (rule codec_invalid_length)
  show "Buffer_inv (sample_buffer (be_bytes 4 65536))" by (simp add: sample_buffer_facts)
  show "Buffer_content (sample_buffer (be_bytes 4 65536)) = be_bytes 4 (unat (65536 :: 32 word)) @ []"
    by (simp add: sample_buffer_facts)
qed simp_all

text \<open>
  \<open>sendMessage\<close> fails on messages of 1025 to 1032 characters: the buffer it builds the frame in does not
  make room for them, so a debug build stops at an assertion and a release build writes behind the
  end of the buffer, before anything is sent.
\<close>

theorem sendMessage_gap_faults:
  assumes "1025 \<le> length m" "length m \<le> 1032"
  shows "sendMessage nd e il wr m c = Inl (if nd then OutOfBounds else AssertFailed)"
proof -
  have "Buffer_append nd m fresh_buffer = Inl (if nd then OutOfBounds else AssertFailed)"
    by (rule Buffer_append_gap)
      (use assms fresh_buffer_facts in \<open>simp_all add: kCheapPrependSize_def\<close>, simp_all add: fresh_buffer_def)
  then show ?thesis using fresh_buffer_facts(1) by (simp add: sendMessage_def)
qed

theorem sendMessage_gap_faults_witness:
  "sendMessage True LittleEndian True (\<lambda>d. Inr (length d)) (replicate 1030 (CHR ''x'')) (sample_conn False []) = Inl OutOfBounds"
  using sendMessage_gap_faults [of "replicate 1030 (CHR ''x'')" True] by simp

text \<open>
  What one client sends reaches every member. The frames of messages that a client sends arrive at the server
  in any pieces; on idle connections whose kernel takes what it is given, every member's
  socket then has exactly these frames, in order, after what it had before, and no other connection changes.
\<close>

theorem chat_delivers_to_all:
  assumes "Buffer_inv b" "Buffer_content b = []" "concat ds = concat (map frame ms) @ r" "incomplete r"
    and "\<And>m. m \<in> set ms \<Longrightarrow> length m \<le> 65535 \<and> sendable m"
    and "max kCheapPrependSize (writeIndex b) + length (concat ds) \<le> length (buffer b)"
    and "chat_idle s" "\<And>i d. wr i d = Inr (length d)"
  shows "\<exists>b' s'. receive nd e shut (ChatServer_onMessage nd e (\<lambda>_. True) wr) ds b s = Some (Inr (b', s')) \<and>
     Buffer_content b' = r \<and> connections s' = connections s \<and>
     (\<forall>i. if i \<in> set (connections s) then wire (chat_conns s' i) = wire (chat_conns s i) @ concat (map frame ms)
          else chat_conns s' i = chat_conns s i)"
proof -
  obtain s' where s': "foldR (ChatServer_onMessage nd e (\<lambda>_. True) wr) ms s = Inr s'" "connections s' = connections s"
    "\<forall>i. i \<notin> set (connections s) \<longrightarrow> chat_conns s' i = chat_conns s i"
    "\<forall>i \<in> set (connections s). wire (chat_conns s' i) = wire (chat_conns s i) @ concat (map frame ms)"
    using chat_messages_idle [of s ms wr nd e] assms(5,7,8) by auto
  obtain b' where "receive nd e shut (ChatServer_onMessage nd e (\<lambda>_. True) wr) ds b s = Some (Inr (b', s'))" "Buffer_content b' = r"
    using receive_all [of b ms r ds _ s s' nd e shut, OF assms(1) _ _ assms(4) _ s'(1) assms(6)] assms(2,3,5)
    by (auto simp: incomplete_def)
  with s'(2-4) show ?thesis by auto
qed

theorem chat_delivers_to_all_witness:
  "\<exists>b' s'. receive False LittleEndian Inr (ChatServer_onMessage False LittleEndian (\<lambda>_. True) (\<lambda>i d. Inr (length d)))
       [[CHR 0x00, CHR 0x00, CHR 0x00], [CHR 0x02, CHR ''h'', CHR ''i'']] fresh_buffer
       \<lparr>chat_conns = (\<lambda>i. sample_conn False []), connections = [3, 7]\<rparr> = Some (Inr (b', s')) \<and>
     wire (chat_conns s' 7) = frame ''hi'' \<and> wire (chat_conns s' 5) = []"
proof -
  have 1: "incomplete []" by (simp add: incomplete_def)
  have 2: "concat [[CHR 0x00, CHR 0x00, CHR 0x00], [CHR 0x02, CHR ''h'', CHR ''i'']] = concat (map frame [''hi'']) @ []"
    by (simp add: frame_hi)
  have 3: "\<And>m. m \<in> set [''hi''] \<Longrightarrow> length m \<le> 65535 \<and> sendable m" by (auto simp: sendable_def)
  have 4: "chat_idle \<lparr>chat_conns = (\<lambda>i. sample_conn False []), connections = [3, 7]\<rparr>"
    by (simp add: chat_idle_def idle_sample)
  have 5: "max kCheapPrependSize (writeIndex fresh_buffer) +
      length (concat [[CHR 0x00, CHR 0x00, CHR 0x00], [CHR 0x02, CHR ''h'', CHR ''i'']]) \<le> length (buffer fresh_buffer)"
    by (simp add: fresh_buffer_def kCheapPrependSize_def)
  obtain b' s' where r: "receive False LittleEndian Inr (ChatServer_onMessage False LittleEndian (\<lambda>_. True) (\<lambda>i d. Inr (length d)))
       [[CHR 0x00, CHR 0x00, CHR 0x00], [CHR 0x02, CHR ''h'', CHR ''i'']] fresh_buffer
       \<lparr>chat_conns = (\<lambda>i. sample_conn False []), connections = [3, 7]\<rparr> = Some (Inr (b', s'))"
    "\<forall>i. if i \<in> {3, 7} then wire (chat_conns s' i) = frame ''hi'' else chat_conns s' i = sample_conn False []"
    using chat_delivers_to_all [of fresh_buffer, OF fresh_buffer_facts(2,3) 2 1 3 5 4,
        where wr = "\<lambda>i d. Inr (length d)" and nd = False and e = LittleEndian and shut = Inr]
    by auto
  then show ?thesis using r(2) [rule_format, of 7] r(2) [rule_format, of 5] by auto
qed

text \<open>
  C25: a running \<open>onMessage\<close> of the copy-on-write server is not disturbed. Whatever the other threads do between its copy of the
  pointer and its end, joining and leaving connections included, it sends to exactly the connections that were
  registered when it began, each once and in order.
\<close>

theorem cow_sends_snapshot:
  assumes "cow_inv s" "cow_run s (CowBegin t # evs @ [CowEnd t]) s'" "CowEnd t \<notin> set evs"
  shows "sends t evs = cow_lists s (cur s)"
proof -
  let ?s0 = "s\<lparr>reader := (reader s)(t \<mapsto> (cur s, 0))\<rparr>"
  obtain s1 where s1: "cow_step s (CowBegin t) ?s0" "cow_run ?s0 evs s1" "cow_run s1 [CowEnd t] s'"
    using assms(2) unfolding cow_run_append by (elim cow_runE cow_beginE) (auto simp: cow_run_append intro: MessageBegin)
  have "cow_inv ?s0" using cow_step_inv [OF s1(1) assms(1)] .
  then obtain k where k: "cow_lists s1 (cur s) = cow_lists s (cur s)" "reader s1 t = Some (cur s, k)"
    "take k (cow_lists s (cur s)) = sends t evs"
    using cow_run_reader [OF s1(2), of t "cur s" 0] assms(3) by auto
  have "k = length (cow_lists s1 (cur s))" using s1(3) k(2) by (auto elim!: cow_runE cow_endE)
  with k show ?thesis by simp
qed

definition sample_cow :: cow_server where
  "sample_cow = \<lparr>cow_threads = [1, 2], cow_lists = (\<lambda>_. [4, 7]), cur = 0, next_ptr = 1, reader = (\<lambda>_. None)\<rparr>"

theorem cow_sends_snapshot_witness:
  "\<exists>s'. cow_run sample_cow (CowBegin 1 # [CowSend 1 4, CowConnection 7 False, CowSend 1 7] @ [CowEnd 1]) s' \<and>
     sends 1 [CowSend 1 4, CowConnection 7 False, CowSend 1 7] = cow_lists sample_cow (cur sample_cow)"
proof -
  define s1 where "s1 = sample_cow\<lparr>reader := (reader sample_cow)(1 \<mapsto> (0, 0))\<rparr>"
  define s2 where "s2 = s1\<lparr>reader := (reader s1)(1 \<mapsto> (0, 1))\<rparr>"
  define s3 where "s3 = s2\<lparr>cow_lists := (cow_lists s2)(1 := [4]), cur := 1, next_ptr := 2\<rparr>"
  define s4 where "s4 = s3\<lparr>reader := (reader s3)(1 \<mapsto> (0, 2))\<rparr>"
  define s5 where "s5 = s4\<lparr>reader := (reader s4)(1 := None)\<rparr>"
  have inv: "cow_inv sample_cow" by (simp add: cow_inv_def sample_cow_def)
  have 1: "cow_step sample_cow (CowBegin 1) s1"
    using MessageBegin [of 1 sample_cow] by (simp add: s1_def sample_cow_def)
  have 2: "cow_step s1 (CowSend 1 4) s2"
    using MessageSend [of s1 1 0 0] by (simp add: s2_def s1_def sample_cow_def)
  have "cow_onConnection False 7 False s2 = Inr s3"
    by (simp add: cow_onConnection_def use_count_def set_erase_def s3_def s2_def s1_def sample_cow_def)
  then have 3: "cow_step s2 (CowConnection 7 False) s3" by (rule Connection)
  have 4: "cow_step s3 (CowSend 1 7) s4"
    using MessageSend [of s3 1 0 1] by (simp add: s4_def s3_def s2_def s1_def sample_cow_def numeral_2_eq_2)
  have 5: "cow_step s4 (CowEnd 1) s5"
    unfolding s5_def by (rule MessageEnd [where p = 0 and k = 2]) (simp_all add: s4_def s3_def s2_def s1_def sample_cow_def)
  have run: "cow_run sample_cow (CowBegin 1 # [CowSend 1 4, CowConnection 7 False, CowSend 1 7] @ [CowEnd 1]) s5"
    unfolding append_Cons append_Nil
    by (rule RunCons [OF 1], rule RunCons [OF 2], rule RunCons [OF 3], rule RunCons [OF 4], rule RunCons [OF 5], rule RunNil)
  with cow_sends_snapshot [OF inv run] show ?thesis by auto
qed

text \<open>
  The server with one set per thread. After \<open>onMessage\<close>, once every loop has run what was posted to it, in any
  order of the loops, every connection of every loop has the frame of the message once, and no other connection changes.
\<close>

theorem hp_reaches_every_loop:
  assumes "distinct (hp_loops s)" "\<And>t. t \<in> set (hp_loops s) \<Longrightarrow> posted s t = [] \<and> hp_local s t \<noteq> None"
    and "distinct ts" "set ts = set (hp_loops s)" "distinct (hp_members ts s)"
    and "\<And>i. i \<in> set (hp_members ts s) \<Longrightarrow> idle_conn (hp_conns s i)" "sendable m" "\<And>i d. wr i d = Inr (length d)"
  shows "\<exists>s'. foldR (hp_run_posted nd e (\<lambda>_. True) wr) ts (hp_onMessage m s) = Inr s' \<and>
     (\<forall>i. if i \<in> set (hp_members ts s) then wire (hp_conns s' i) = wire (hp_conns s i) @ frame m
          else hp_conns s' i = hp_conns s i)"
proof -
  let ?s1 = "hp_onMessage m s"
  have s1: "?s1 = s\<lparr>posted := (\<lambda>t. if t \<in> set (hp_loops s) then posted s t @ [m] else posted s t)\<rparr>"
    using hp_post_all [OF assms(1)] by (simp add: hp_onMessage_def)
  have mem: "hp_members ts ?s1 = hp_members ts s" by (simp add: hp_members_def s1)
  then have "hp_ready m ts ?s1" using assms(2-6) by (simp add: hp_ready_def s1 hp_members_def)
  then obtain s' where "foldR (hp_run_posted nd e (\<lambda>_. True) wr) ts ?s1 = Inr s'"
     "\<forall>i. i \<notin> set (hp_members ts s) \<longrightarrow> hp_conns s' i = hp_conns ?s1 i"
     "\<forall>i \<in> set (hp_members ts s). wire (hp_conns s' i) = wire (hp_conns ?s1 i) @ frame m"
    using hp_run_all [of m ts ?s1 wr nd e, OF _ assms(7,8)] mem by auto
  moreover have "hp_conns ?s1 = hp_conns s" by (simp add: s1)
  ultimately show ?thesis by auto
qed

theorem hp_reaches_every_loop_witness:
  "\<exists>s'. foldR (hp_run_posted False BigEndian (\<lambda>_. True) (\<lambda>i d. Inr (length d))) [2, 1]
      (hp_onMessage ''hi'' \<lparr>hp_conns = (\<lambda>_. sample_conn False []), hp_local = [1 \<mapsto> [10], 2 \<mapsto> [20, 21]], hp_loops = [1, 2], posted = (\<lambda>_. [])\<rparr>) = Inr s' \<and>
     wire (hp_conns s' 10) = frame ''hi'' \<and> wire (hp_conns s' 21) = frame ''hi'' \<and> wire (hp_conns s' 30) = []"
proof -
  let ?s = "\<lparr>hp_conns = (\<lambda>_. sample_conn False []), hp_local = [1 \<mapsto> [10], 2 \<mapsto> [20, 21]], hp_loops = [1, 2], posted = (\<lambda>_. [])\<rparr>"
  have mem: "hp_members [2, 1] ?s = [20, 21, 10]" by (simp add: hp_members_def)
  have 1: "distinct (hp_loops ?s)" "distinct [2, 1 :: nat]" "set [2, 1] = set (hp_loops ?s)" "distinct (hp_members [2, 1] ?s)" "sendable ''hi''"
    unfolding mem by (auto simp: sendable_def)
  have 2: "\<And>t. t \<in> set (hp_loops ?s) \<Longrightarrow> posted ?s t = [] \<and> hp_local ?s t \<noteq> None"
    "\<And>i. i \<in> set (hp_members [2, 1] ?s) \<Longrightarrow> idle_conn (hp_conns ?s i)"
    by (auto simp: idle_sample)
  obtain s' where s': "foldR (hp_run_posted False BigEndian (\<lambda>_. True) (\<lambda>i d. Inr (length d))) [2, 1] (hp_onMessage ''hi'' ?s) = Inr s'"
     "\<forall>i. if i \<in> set (hp_members [2, 1] ?s) then wire (hp_conns s' i) = wire (hp_conns ?s i) @ frame ''hi''
          else hp_conns s' i = hp_conns ?s i"
    using hp_reaches_every_loop [of ?s "[2, 1]" "''hi''" "\<lambda>i d. Inr (length d)" False BigEndian, OF 1(1) 2(1) 1(2-4) 2(2) 1(5)] by blast
  then show ?thesis using s'(2) [rule_format, of 10] s'(2) [rule_format, of 21] s'(2) [rule_format, of 30]
    unfolding mem by auto
qed

end
