(* ===== verification/Arale_ChatThreaded.thy ===== *)
theory Arale_ChatThreaded
  imports Arale_Chat
begin

section \<open>The chat server with a lock (\<open>ChatServerThreaded.cc\<close>)\<close>

text \<open>
  The plain server with several loop threads: both handlers hold \<open>mutex_\<close> throughout, so each is one step. A message for a connection
  of another loop is posted there as a string. \<open>loop_of i\<close> is the loop thread of connection \<open>i\<close>. The relation \<open>ct_step\<close> interleaves the
  handlers of all threads with the posted functors and the events of the connections; \<open>hist i\<close> records which messages were sent to \<open>i\<close>
  by which thread, in the order of the lock.
\<close>

definition ct_onConnection :: "nat \<Rightarrow> ChatServer \<Rightarrow> ChatServer" where
  "ct_onConnection i s =
     (if isConnected (chat_conns s i) then s\<lparr>connections := snd (set_insert i (connections s))\<rparr>
      else s\<lparr>connections := snd (set_erase i (connections s))\<rparr>)"

definition ct_onMessage ::
  "bool \<Rightarrow> byte_order \<Rightarrow> (nat \<Rightarrow> nat) \<Rightarrow> (nat \<Rightarrow> char list \<Rightarrow> int + nat) \<Rightarrow> nat \<Rightarrow> string \<Rightarrow> ChatServer \<Rightarrow> ChatServer result" where
  "ct_onMessage nd e loop_of wr t msg s =
     bindR (foldR (chat_send nd e (\<lambda>i. loop_of i = t) wr msg) (connections s) (chat_conns s)) (\<lambda>cs. Inr (s\<lparr>chat_conns := cs\<rparr>))"

record ct_state =
  srv :: ChatServer
  hist :: "nat \<Rightarrow> (nat \<times> string) list"

definition ct_conn :: "nat \<Rightarrow> (TcpConnection \<Rightarrow> TcpConnection result) \<Rightarrow> ct_state \<Rightarrow> ct_state result" where
  "ct_conn i f st = bindR (f (chat_conns (srv st) i)) (\<lambda>c. Inr (st\<lparr>srv := (srv st)\<lparr>chat_conns := (chat_conns (srv st))(i := c)\<rparr>\<rparr>))"

definition run_first :: "bool \<Rightarrow> (char list \<Rightarrow> int + nat) \<Rightarrow> TcpConnection \<Rightarrow> TcpConnection result" where
  "run_first nd wr c =
     (case functors c of
        [] \<Rightarrow> Inr c
      | f # fs \<Rightarrow> run_conn_functor nd wr (\<lambda>_ _. []) Inr Inr Inr (\<lambda>_. Inr) f (c\<lparr>functors := fs\<rparr>))"

definition note_sent :: "nat \<Rightarrow> string \<Rightarrow> ct_state \<Rightarrow> nat \<Rightarrow> (nat \<times> string) list" where
  "note_sent t msg st i =
     (if i \<in> set (connections (srv st)) \<and> isConnected (chat_conns (srv st) i) then hist st i @ [(t, msg)] else hist st i)"

inductive ct_step :: "bool \<Rightarrow> byte_order \<Rightarrow> (nat \<Rightarrow> nat) \<Rightarrow> ct_state \<Rightarrow> ct_state \<Rightarrow> bool"
  for nd :: bool and e :: byte_order and loop_of :: "nat \<Rightarrow> nat"
where
  CtConnection: "ct_step nd e loop_of st (st\<lparr>srv := ct_onConnection i (srv st)\<rparr>)"
| CtMessage: "sendable msg \<Longrightarrow> ct_onMessage nd e loop_of wr t msg (srv st) = Inr s' \<Longrightarrow>
    ct_step nd e loop_of st \<lparr>srv = s', hist = note_sent t msg st\<rparr>"
| CtFunctor: "ct_conn i (run_first nd wr) st = Inr st' \<Longrightarrow> ct_step nd e loop_of st st'"
| CtWritable: "kernel_any wr \<Longrightarrow> ct_conn i (handleWrite nd True wr) st = Inr st' \<Longrightarrow> ct_step nd e loop_of st st'"
| CtClose: "ct_conn i (handleClose nd True Inr Inr) st = Inr st' \<Longrightarrow> ct_step nd e loop_of st st'"

subsection \<open>What a connection has of each sender\<close>

fun strings :: "conn_functor list \<Rightarrow> char list list" where
  "strings [] = []"
| "strings (FSendString s # fs) = s # strings fs"
| "strings (_ # fs) = strings fs"

definition of_thread :: "nat \<Rightarrow> (nat \<times> string) list \<Rightarrow> (nat \<times> string) list" where
  "of_thread t xs = filter (\<lambda>p. fst p = t) xs"

text \<open>
  \<open>del\<close> are the messages that were handed to the connection, \<open>pend\<close> those that wait in its loop. Only threads other than the
  connection's own have messages waiting.
\<close>

definition fifo :: "nat \<Rightarrow> TcpConnection \<Rightarrow> (nat \<times> string) list \<Rightarrow> bool" where
  "fifo lp c h \<longleftrightarrow> (\<exists>del pend. tc_given c = concat (map (frame \<circ> snd) del) \<and> strings (functors c) = map (frame \<circ> snd) pend \<and>
     (\<forall>p \<in> set pend. fst p \<noteq> lp) \<and> (\<forall>t. of_thread t (del @ pend) = of_thread t h))"

definition known_functors :: "TcpConnection \<Rightarrow> bool" where
  "known_functors c \<longleftrightarrow> list_all (\<lambda>f. callback_functor f \<or> (\<exists>m. sendable m \<and> f = FSendString (frame m))) (functors c)"

definition conn_ok :: "nat \<Rightarrow> TcpConnection \<Rightarrow> (nat \<times> string) list \<Rightarrow> bool" where
  "conn_ok lp c h \<longleftrightarrow> Buffer_inv (outputBuffer c) \<and> known_functors c \<and> (isConnected c \<longrightarrow> conn_inv c \<and> fifo lp c h \<and> stream_ok c)"

definition ct_inv :: "(nat \<Rightarrow> nat) \<Rightarrow> ct_state \<Rightarrow> bool" where
  "ct_inv loop_of st \<longleftrightarrow> oset (connections (srv st)) \<and> (\<forall>i. conn_ok (loop_of i) (chat_conns (srv st) i) (hist st i))"

lemma strings_append [simp]: "strings (fs @ gs) = strings fs @ strings gs"
  by (induction fs rule: strings.induct) simp_all

lemma strings_callbacks: "list_all callback_functor fs \<Longrightarrow> strings fs = []"
  by (induction fs rule: strings.induct) simp_all

lemma of_thread_append [simp]: "of_thread t (xs @ ys) = of_thread t xs @ of_thread t ys"
  by (simp add: of_thread_def)

lemma of_thread_none: "\<forall>p \<in> set xs. fst p \<noteq> t \<Longrightarrow> of_thread t xs = []"
  by (simp add: of_thread_def)

lemma known_functors_adds:
  "adds_callbacks c c' \<Longrightarrow> known_functors c \<Longrightarrow> known_functors c'"
  by (auto simp: adds_callbacks_def known_functors_def list_all_iff)

lemma strings_adds: "adds_callbacks c c' \<Longrightarrow> strings (functors c') = strings (functors c)"
  by (auto simp: adds_callbacks_def strings_callbacks)

lemma fifo_same: "fifo lp c h \<Longrightarrow> tc_given c' = tc_given c \<Longrightarrow> strings (functors c') = strings (functors c) \<Longrightarrow> fifo lp c' h"
  by (simp add: fifo_def)

lemma fifo_direct:
  assumes "fifo lp c h" "tc_given c' = tc_given c @ frame m" "strings (functors c') = strings (functors c)"
  shows "fifo lp c' (h @ [(lp, m)])"
proof -
  obtain del pend where f: "tc_given c = concat (map (frame \<circ> snd) del)" "strings (functors c) = map (frame \<circ> snd) pend"
      "\<forall>p \<in> set pend. fst p \<noteq> lp" "\<forall>t. of_thread t (del @ pend) = of_thread t h"
    using assms(1) by (auto simp: fifo_def)
  have "of_thread t ((del @ [(lp, m)]) @ pend) = of_thread t (h @ [(lp, m)])" for t
    using spec [OF f(4), of t] of_thread_none [OF f(3)] by (cases "t = lp") (auto simp: of_thread_def)
  then show ?thesis using assms(2,3) f unfolding fifo_def by (intro exI [of _ "del @ [(lp, m)]"] exI [of _ pend]) simp
qed

lemma fifo_posted:
  assumes "fifo lp c h" "t \<noteq> lp"
  shows "fifo lp (post (FSendString (frame m)) c) (h @ [(t, m)])"
proof -
  obtain del pend where "tc_given c = concat (map (frame \<circ> snd) del)" "strings (functors c) = map (frame \<circ> snd) pend"
      "\<forall>p \<in> set pend. fst p \<noteq> lp" "\<forall>t. of_thread t (del @ pend) = of_thread t h"
    using assms(1) by (auto simp: fifo_def)
  then show ?thesis using assms(2) unfolding fifo_def
    by (intro exI [of _ del] exI [of _ "pend @ [(t, m)]"]) (simp add: post_def stream_def)
qed

lemma fifo_delivered:
  assumes "fifo lp c h" "strings (functors c) = s # ss" "tc_given c' = tc_given c @ s" "strings (functors c') = ss"
  shows "fifo lp c' h"
proof -
  obtain del pend where f: "tc_given c = concat (map (frame \<circ> snd) del)" "strings (functors c) = map (frame \<circ> snd) pend"
      "\<forall>p \<in> set pend. fst p \<noteq> lp" "\<forall>t. of_thread t (del @ pend) = of_thread t h"
    using assms(1) by (auto simp: fifo_def)
  then obtain p ps where "pend = p # ps" "s = frame (snd p)" "ss = map (frame \<circ> snd) ps" using assms(2) by auto
  then show ?thesis using f assms(3,4) unfolding fifo_def
    by (intro exI [of _ "del @ [p]"] exI [of _ ps]) (auto simp: of_thread_def)
qed

lemma length_frame_max: "sendable m \<Longrightarrow> length (frame m) \<le> vector_max"
  by (auto simp: sendable_def vector_max_def)

lemma sendMessage_cases:
  assumes "sendMessage nd e il wr m c = Inr c'" "sendable m"
  shows "if isConnected c then if il then sendInLoop nd True wr (frame m) c = Inr c' else c' = post (FSendString (frame m)) c else c' = c"
proof -
  obtain b1 b2 where b: "Buffer_append nd m fresh_buffer = Inr b1"
    "prepend nd (word_mem e (hostToNetwork32 e (of_nat (length m)))) b1 = Inr b2" "Buffer_inv b2" "Buffer_content b2 = frame m"
    using framed_buffer [OF assms(2), of nd e] by blast
  have r: "mem_read b2 (peek b2) (readableBytes b2) = Inr (frame m)"
    using mem_read_content [OF b(3), of "readableBytes b2"] Buffer_content_all [OF b(3)] b(4) by (simp add: peek_def)
  obtain b3 where s: "send_buffer nd il wr b2 c = Inr (b3, c')"
    using assms(1) b(1,2) fresh_buffer_facts(1) by (auto simp: sendMessage_def Let_def)
  show ?thesis using s r
    by (auto simp: send_buffer_def isConnected_def retrieveAllAsString_def retrieveAsString_def cassert_Inr_iff split: if_splits)
qed

lemma ok_sendMessage:
  assumes "conn_ok lp c h" "sendMessage nd e (lp = t) wr m c = Inr c'" "sendable m"
  shows "conn_ok lp c' (if isConnected c then h @ [(t, m)] else h)"
proof (cases "isConnected c")
  case False
  then show ?thesis using sendMessage_cases [OF assms(2,3)] assms(1) by simp
next
  case True
  then have c: "conn_inv c" "fifo lp c h" "known_functors c" "Buffer_inv (outputBuffer c)" "stream_ok c" using assms(1) by (simp_all add: conn_ok_def)
  show ?thesis
  proof (cases "lp = t")
    case True
    then have "sendInLoop nd True wr (frame m) c = Inr c'" using sendMessage_cases [OF assms(2,3)] \<open>isConnected c\<close> by simp
    from sendInLoop_given [OF this c(1) length_frame_max [OF assms(3)]] sendInLoop_stream_ok [OF this c(1) length_frame_max [OF assms(3)] c(5)]
    have c': "conn_inv c'" "tc_given c' = tc_given c @ frame m" "adds_callbacks c c'" "isConnected c'" "stream_ok c'"
      using \<open>isConnected c\<close> by (simp_all add: isConnected_def)
    then show ?thesis using c(3) fifo_direct [OF c(2) c'(2) strings_adds] True \<open>isConnected c\<close>
      by (auto simp: conn_ok_def conn_inv_def dest: known_functors_adds)
  next
    case False
    then have "c' = post (FSendString (frame m)) c" using sendMessage_cases [OF assms(2,3)] \<open>isConnected c\<close> by simp
    moreover have "known_functors c'" "conn_inv c'" "isConnected c'" "Buffer_inv (outputBuffer c')" "stream_ok c'"
      using c assms(3) \<open>isConnected c\<close> calculation by (auto simp: known_functors_def post_def conn_inv_def isConnected_def stream_ok_def stream_def)
    ultimately show ?thesis using fifo_posted [OF c(2)] False \<open>isConnected c\<close> by (simp add: conn_ok_def)
  qed
qed

lemma ok_run_first:
  assumes "conn_ok lp c h" "run_first nd wr c = Inr c'"
  shows "conn_ok lp c' h"
proof (cases "functors c")
  case Nil
  then show ?thesis using assms(1,2) by (simp add: run_first_def)
next
  case (Cons f fs)
  define c1 where "c1 = c\<lparr>functors := fs\<rparr>"
  have run: "run_conn_functor nd wr (\<lambda>_ _. []) Inr Inr Inr (\<lambda>_. Inr) f c1 = Inr c'" using assms(2) Cons by (simp add: run_first_def c1_def)
  have c1: "Buffer_inv (outputBuffer c1)" "known_functors c1" "tc_given c1 = tc_given c" "isConnected c1 = isConnected c" "isConnected c \<Longrightarrow> conn_inv c1"
    "isConnected c \<Longrightarrow> stream_ok c1"
    using assms(1) Cons by (auto simp: conn_ok_def known_functors_def c1_def stream_def stream_ok_def isConnected_def conn_inv_def)
  consider (callback) "callback_functor f" | (message) m where "sendable m" "f = FSendString (frame m)"
    using assms(1) Cons by (auto simp: conn_ok_def known_functors_def)
  then show ?thesis
  proof cases
    case callback
    then have "c' = c1" "strings (functors c1) = strings (functors c)"
      using run Cons by (auto simp: callback_functor_iff run_conn_functor_def c1_def)
    then show ?thesis using assms(1) c1 fifo_same [of lp c h c1] by (simp add: conn_ok_def)
  next
    case message
    show ?thesis
    proof (cases "isConnected c")
      case False
      then show ?thesis using run message c1 by (simp add: run_conn_functor_def send_ptr_def isConnected_def conn_ok_def)
    next
      case True
      then have "sendInLoop nd True wr (frame m) c1 = Inr c'"
        using run message c1(4) by (simp add: run_conn_functor_def send_ptr_def isConnected_def)
      from sendInLoop_given [OF this c1(5) [OF True] length_frame_max [OF message(1)]]
        sendInLoop_stream_ok [OF this c1(5) [OF True] length_frame_max [OF message(1)] c1(6) [OF True]]
      have c': "conn_inv c'" "tc_given c' = tc_given c1 @ frame m" "adds_callbacks c1 c'" "stream_ok c'" by simp_all
      have "fifo lp c h" using assms(1) True by (simp add: conn_ok_def)
      then have "fifo lp c' h"
        using c'(2) c1(3) strings_adds [OF c'(3)] Cons message(2) by (intro fifo_delivered [of lp c h "frame m" "strings fs" c']) (simp_all add: c1_def)
      then show ?thesis using c' known_functors_adds [OF c'(3) c1(2)] by (simp add: conn_ok_def conn_inv_def)
    qed
  qed
qed

lemma ok_handleWrite:
  assumes "conn_ok lp c h" "handleWrite nd True wr c = Inr c'" "kernel_any wr"
  shows "conn_ok lp c' h"
proof -
  have b: "Buffer_inv (outputBuffer c)" using assms(1) by (simp add: conn_ok_def)
  from handleWrite_Inr [OF assms(2,3) b] show ?thesis
    using assms(1) known_functors_adds [of c c'] strings_adds [of c c'] fifo_same [of lp c h c'] by (auto simp: conn_ok_def isConnected_def stream_ok_def)
qed

lemma ok_close:
  assumes "conn_ok lp c h" "handleClose nd True Inr Inr c = Inr c'"
  shows "conn_ok lp c' h"
proof -
  have "c' = interest DisableAll (setState kDisconnected c)" using assms(2) by (auto simp: handleClose_def cassert_Inr_iff)
  then show ?thesis using assms(1) by (simp add: conn_ok_def known_functors_def interest_def setState_def isConnected_def)
qed

lemma chat_send_all:
  assumes "foldR (chat_send nd e il wr msg) xs cs = Inr cs'" "distinct xs"
  shows "if i \<in> set xs then sendMessage nd e (il i) (wr i) msg (cs i) = Inr (cs' i) else cs' i = cs i"
  using assms
proof (induction xs arbitrary: cs)
  case (Cons j xs)
  then obtain cs1 where cs1: "chat_send nd e il wr msg j cs = Inr cs1" "foldR (chat_send nd e il wr msg) xs cs1 = Inr cs'" by auto
  then obtain c where c: "sendMessage nd e (il j) (wr j) msg (cs j) = Inr c" "cs1 = cs(j := c)" by (auto simp: chat_send_def)
  from Cons.IH [OF cs1(2)] Cons.prems(2) c show ?case by (cases "i = j") auto
qed simp

lemma ct_conn_inv:
  assumes "ct_conn i f st = Inr st'" "ct_inv loop_of st"
    and "\<And>c c' h. conn_ok (loop_of i) c h \<Longrightarrow> f c = Inr c' \<Longrightarrow> conn_ok (loop_of i) c' h"
  shows "ct_inv loop_of st'"
proof -
  obtain c where "f (chat_conns (srv st) i) = Inr c" "st' = st\<lparr>srv := (srv st)\<lparr>chat_conns := (chat_conns (srv st))(i := c)\<rparr>\<rparr>"
    using assms(1) by (auto simp: ct_conn_def)
  then show ?thesis using assms(2) assms(3) [of "chat_conns (srv st) i" "hist st i" c] by (simp add: ct_inv_def)
qed

lemma ct_step_inv:
  assumes "ct_step nd e loop_of st st'" "ct_inv loop_of st"
  shows "ct_inv loop_of st'"
  using assms
proof cases
  case (CtConnection i)
  then show ?thesis using assms(2) oset.ins_wf oset.del_wf by (auto simp: ct_inv_def ct_onConnection_def)
next
  case (CtMessage msg wr t s')
  then obtain cs where cs: "foldR (chat_send nd e (\<lambda>i. loop_of i = t) wr msg) (connections (srv st)) (chat_conns (srv st)) = Inr cs"
      "s' = (srv st)\<lparr>chat_conns := cs\<rparr>"
    by (auto simp: ct_onMessage_def)
  have d: "distinct (connections (srv st))" using assms(2) oset.wf_distinct by (auto simp: ct_inv_def)
  have "conn_ok (loop_of i) (cs i) (note_sent t msg st i)" for i
  proof -
    have "conn_ok (loop_of i) (chat_conns (srv st) i) (hist st i)" using assms(2) by (simp add: ct_inv_def)
    then show ?thesis using chat_send_all [OF cs(1) d, of i] CtMessage(2,3)
        ok_sendMessage [of "loop_of i" "chat_conns (srv st) i" "hist st i" nd e t "wr i" msg "cs i"]
      by (cases "i \<in> set (connections (srv st))") (simp_all add: note_sent_def)
  qed
  then show ?thesis using assms(2) cs(2) CtMessage(1) by (simp add: ct_inv_def)
next
  case (CtFunctor i wr)
  then show ?thesis using ct_conn_inv [OF _ assms(2)] ok_run_first by blast
next
  case (CtWritable wr i)
  then show ?thesis using ct_conn_inv [OF _ assms(2)] ok_handleWrite by blast
next
  case (CtClose i)
  then show ?thesis using ct_conn_inv [OF _ assms(2)] ok_close by blast
qed


definition sample_chat :: ct_state where
  "sample_chat = \<lparr>srv = \<lparr>chat_conns = (\<lambda>_. sample_conn False []), connections = [5]\<rparr>, hist = (\<lambda>_. [])\<rparr>"

lemma sample_chat_inv: "ct_inv loop_of sample_chat"
proof -
  have "fifo lp (sample_conn False []) []" for lp
    unfolding fifo_def by (intro exI [of _ "[]"]) (simp add: of_thread_def)
  then show ?thesis
    by (simp add: ct_inv_def sample_chat_def conn_ok_def sample_buffer_facts known_functors_def sample_conn_inv stream_ok_def stream_def)
qed


text \<open>
  Across senders the order is lost. When thread 1 sends a message to a connection of loop 2 and afterwards loop 2 sends one itself, the second
  overtakes the first, which still waits in the loop, although the lock was taken in the other order.
\<close>

theorem chat_overtakes:
  assumes "sendable m1" "sendable m2" "idle_conn (chat_conns s i)" "connections s = [i]" "loop_of i = t2" "t1 \<noteq> t2"
    and "\<And>d. wr i d = Inr (length d)"
  shows "\<exists>s1 s2. ct_onMessage nd e loop_of wr t1 m1 s = Inr s1 \<and> ct_onMessage nd e loop_of wr t2 m2 s1 = Inr s2 \<and>
    wire (chat_conns s2 i) = wire (chat_conns s i) @ frame m2 \<and> FSendString (frame m1) \<in> set (functors (chat_conns s2 i))"
proof -
  obtain b1 b2 where b: "Buffer_append nd m1 fresh_buffer = Inr b1"
    "prepend nd (word_mem e (hostToNetwork32 e (of_nat (length m1)))) b1 = Inr b2" "Buffer_inv b2" "Buffer_content b2 = frame m1"
    using framed_buffer [OF assms(1), of nd e] by blast
  let ?c1 = "post (FSendString (frame m1)) (chat_conns s i)"
  have "send_buffer nd False (wr i) b2 (chat_conns s i) = Inr (retrieveAll b2, ?c1)"
    using send_buffer_posts [OF b(3), of "chat_conns s i" nd "wr i"] assms(3) b(4) by (simp add: idle_conn_def)
  then have m1: "sendMessage nd e False (wr i) m1 (chat_conns s i) = Inr ?c1"
    using b(1,2) fresh_buffer_facts(1) by (simp add: sendMessage_def Let_def)
  have i1: "idle_conn ?c1" using assms(3) by (simp add: idle_conn_def)
  from sendMessage_idle [of ?c1 m2 "wr i" nd e, OF i1 assms(2,7)]
  obtain c2 where c2: "sendMessage nd e True (wr i) m2 ?c1 = Inr c2" "wire c2 = wire ?c1 @ frame m2" by blast
  have "FSendString (frame m1) \<in> set (functors c2)"
    using sendMessage_cases [OF c2(1) assms(2)] i1 sendInLoop_idle_eq [of ?c1 "wr i" "frame m2" nd, OF i1 assms(7)]
    by (auto simp: idle_conn_def isConnected_def post_def split: if_splits)
  then show ?thesis using m1 c2 assms(4-6)
    by (intro exI [of _ "s\<lparr>chat_conns := (chat_conns s)(i := ?c1)\<rparr>"] exI [of _ "s\<lparr>chat_conns := (chat_conns s)(i := c2)\<rparr>"])
      (simp add: ct_onMessage_def chat_send_def)
qed

theorem chat_overtakes_witness:
  "\<exists>s1 s2. ct_onMessage False LittleEndian (\<lambda>_. 2) (\<lambda>_ d. Inr (length d)) 1 ''a'' (srv sample_chat) = Inr s1 \<and>
    ct_onMessage False LittleEndian (\<lambda>_. 2) (\<lambda>_ d. Inr (length d)) 2 ''b'' s1 = Inr s2 \<and> wire (chat_conns s2 5) = frame ''b'' \<and>
    FSendString (frame ''a'') \<in> set (functors (chat_conns s2 5))"
  using chat_overtakes [of "''a''" "''b''" "srv sample_chat" 5 "\<lambda>_. 2" 2 1 "\<lambda>_ d. Inr (length d)" False LittleEndian] idle_sample
  by (simp add: sample_chat_def sendable_def)

end
