(* ===== verification/Arale_ThreadLocal.thy ===== *)
theory Arale_ThreadLocal
  imports Arale_Buffer
begin

section \<open>Thread-local objects (\<open>arale/base/ThreadLocal.h\<close>, \<open>ThreadLocalSingleton.h\<close>)\<close>

text \<open>
  An object per thread, created on first use and deleted when the thread ends. \<open>specific\<close> is what \<open>pthread_getspecific\<close> returns in each thread
  and \<open>t_value\<close> the \<open>__thread\<close> pointer of the singleton; \<open>objects\<close> are the live objects by address. At the end of a
  thread the C library sets the value of the key to null and, if it was not, calls the key's destructor with it. The value of a new object is the argument \<open>new_obj\<close>.
\<close>

record 'a tls =
  objects :: "nat \<rightharpoonup> 'a"
  next_addr :: nat
  specific :: "nat \<rightharpoonup> nat"
  t_value :: "nat \<rightharpoonup> nat"

definition tls_init :: "'a tls" where
  "tls_init = \<lparr>objects = Map.empty, next_addr = 0, specific = Map.empty, t_value = Map.empty\<rparr>"

definition tls_new :: "'a \<Rightarrow> 'a tls \<Rightarrow> nat \<times> 'a tls" where
  "tls_new x s = (next_addr s, s\<lparr>objects := (objects s)(next_addr s \<mapsto> x), next_addr := next_addr s + 1\<rparr>)"

definition tls_delete :: "nat \<Rightarrow> 'a tls \<Rightarrow> 'a tls result" where
  "tls_delete p s = (if objects s p = None then Inl NullDeref else Inr (s\<lparr>objects := (objects s)(p := None)\<rparr>))"

subsection \<open>\<open>ThreadLocal\<close>\<close>

definition getValue :: "'a \<Rightarrow> nat \<Rightarrow> 'a tls \<Rightarrow> (nat \<times> 'a tls) result" where
  "getValue new_obj t s =
     (case specific s t of
        Some preObj \<Rightarrow> Inr (preObj, s)
      | None \<Rightarrow>
          let (newObj, s1) = tls_new new_obj s
          in Inr (newObj, s1\<lparr>specific := (specific s1)(t \<mapsto> newObj)\<rparr>))"

definition tl_destructor :: "nat \<Rightarrow> 'a tls \<Rightarrow> 'a tls result" where
  "tl_destructor x s = tls_delete x s"

definition thread_end :: "(nat \<Rightarrow> 'a tls \<Rightarrow> 'a tls result) \<Rightarrow> nat \<Rightarrow> 'a tls \<Rightarrow> 'a tls result" where
  "thread_end destructor t s =
     (case specific s t of
        None \<Rightarrow> Inr s
      | Some x \<Rightarrow> destructor x (s\<lparr>specific := (specific s)(t := None)\<rparr>))"

subsection \<open>\<open>ThreadLocalSingleton\<close>\<close>

definition deleter_set :: "bool \<Rightarrow> nat \<Rightarrow> nat \<Rightarrow> 'a tls \<Rightarrow> 'a tls result" where
  "deleter_set nd t obj s = cassert nd (specific s t = None) (Inr (s\<lparr>specific := (specific s)(t \<mapsto> obj)\<rparr>))"

definition singleton_instance :: "bool \<Rightarrow> 'a \<Rightarrow> nat \<Rightarrow> 'a tls \<Rightarrow> (nat \<times> 'a tls) result" where
  "singleton_instance nd new_obj t s =
     (case t_value s t of
        Some p \<Rightarrow> Inr (p, s)
      | None \<Rightarrow>
          let (p, s1) = tls_new new_obj s; s2 = s1\<lparr>t_value := (t_value s1)(t \<mapsto> p)\<rparr>
          in bindR (deleter_set nd t p s2) (\<lambda>s3. Inr (p, s3)))"

definition singleton_pointer :: "nat \<Rightarrow> 'a tls \<Rightarrow> nat option" where
  "singleton_pointer t s = t_value s t"

definition singleton_destructor :: "bool \<Rightarrow> nat \<Rightarrow> nat \<Rightarrow> 'a tls \<Rightarrow> 'a tls result" where
  "singleton_destructor nd t obj s =
     cassert nd (t_value s t = Some obj)
       (case t_value s t of
          None \<Rightarrow> Inr s
        | Some p \<Rightarrow> bindR (tls_delete p s) (\<lambda>s1. Inr (s1\<lparr>t_value := (t_value s1)(t := None)\<rparr>)))"

subsection \<open>The contract of thread-local objects\<close>

text \<open>
  Threads use their object and end, in any order. Both classes promise that using succeeds and gives a thread its own object, the same until it ends, that
  ending succeeds, and that no other objects exist.
\<close>

datatype tls_event = Use nat | Leave nat

fun in_use :: "tls_event \<Rightarrow> nat set \<Rightarrow> nat set" where
  "in_use (Use t) ts = insert t ts"
| "in_use (Leave t) ts = ts - {t}"

fun tls_step :: "(nat \<Rightarrow> 's \<Rightarrow> (nat \<times> 's) result) \<Rightarrow> (nat \<Rightarrow> 's \<Rightarrow> 's result) \<Rightarrow> tls_event \<Rightarrow> 's \<Rightarrow> 's result" where
  "tls_step get leave (Use t) s = bindR (get t s) (\<lambda>(p, s'). Inr s')"
| "tls_step get leave (Leave t) s = leave t s"

locale per_thread =
  fixes get :: "nat \<Rightarrow> 's \<Rightarrow> (nat \<times> 's) result"
    and leave :: "nat \<Rightarrow> 's \<Rightarrow> 's result"
    and ptr :: "'s \<Rightarrow> nat \<rightharpoonup> nat"
    and live :: "'s \<Rightarrow> nat set"
    and wf :: "'s \<Rightarrow> bool"
  assumes get_ok: "wf s \<Longrightarrow> \<exists>p s'. get t s = Inr (p, s') \<and> wf s' \<and> ptr s' = (ptr s)(t \<mapsto> p) \<and> (ptr s t = None \<or> ptr s t = Some p)"
    and leave_ok: "wf s \<Longrightarrow> \<exists>s'. leave t s = Inr s' \<and> wf s' \<and> ptr s' = (ptr s)(t := None)"
    and wf_live: "wf s \<Longrightarrow> live s = ran (ptr s)"
    and wf_own: "wf s \<Longrightarrow> ptr s t = Some p \<Longrightarrow> ptr s u = Some p \<Longrightarrow> t = u"
begin

lemma step_ok: "wf s \<Longrightarrow> \<exists>s'. tls_step get leave ev s = Inr s' \<and> wf s' \<and> dom (ptr s') = in_use ev (dom (ptr s))"
proof (cases ev)
  case (Use t)
  assume "wf s"
  from get_ok [OF this, of t] Use show ?thesis by auto
next
  case (Leave t)
  assume "wf s"
  from leave_ok [OF this, of t] Leave show ?thesis by auto
qed

lemma run_ok: "wf s \<Longrightarrow> \<exists>s'. foldR (tls_step get leave) evs s = Inr s' \<and> wf s' \<and> dom (ptr s') = fold in_use evs (dom (ptr s))"
proof (induction evs arbitrary: s)
  case (Cons ev evs)
  from step_ok [OF Cons.prems, of ev] obtain s1 where "tls_step get leave ev s = Inr s1" "wf s1" "dom (ptr s1) = in_use ev (dom (ptr s))" by blast
  with Cons.IH [of s1] show ?case by auto
qed simp

lemma run_keeps:
  "wf s \<Longrightarrow> ptr s t = Some p \<Longrightarrow> Leave t \<notin> set evs \<Longrightarrow> foldR (tls_step get leave) evs s = Inr s' \<Longrightarrow> ptr s' t = Some p"
proof (induction evs arbitrary: s)
  case (Cons ev evs)
  from Cons.prems(4) obtain s1 where s1: "tls_step get leave ev s = Inr s1" "foldR (tls_step get leave) evs s1 = Inr s'" by auto
  have "wf s1 \<and> ptr s1 t = Some p"
  proof (cases ev)
    case (Use u)
    then show ?thesis using get_ok [OF Cons.prems(1), of u] s1(1) Cons.prems(2) by (cases "u = t") auto
  next
    case (Leave u)
    then show ?thesis using leave_ok [OF Cons.prems(1), of u] s1(1) Cons.prems(2,3) by auto
  qed
  with Cons.IH [OF _ _ _ s1(2)] Cons.prems(3) show ?case by simp
qed simp

end

definition owners_wf :: "(nat \<rightharpoonup> nat) \<Rightarrow> 'a tls \<Rightarrow> bool" where
  "owners_wf ps s \<longleftrightarrow> dom (objects s) = ran ps \<and> (\<forall>p \<in> ran ps. p < next_addr s) \<and> (\<forall>t u p. ps t = Some p \<longrightarrow> ps u = Some p \<longrightarrow> t = u)"

definition singleton_wf :: "'a tls \<Rightarrow> bool" where
  "singleton_wf s \<longleftrightarrow> owners_wf (t_value s) s \<and> specific s = t_value s"

lemma owners_wf_new:
  assumes "owners_wf ps s" "ps t = None" "tls_new x s = (p, s1)"
  shows "owners_wf (ps(t \<mapsto> p)) s1"
proof -
  have p: "p = next_addr s" "objects s1 = (objects s)(p \<mapsto> x)" "next_addr s1 = next_addr s + 1" using assms(3) by (auto simp: tls_new_def)
  have new: "p \<notin> ran ps" using assms(1) p(1) by (auto simp: owners_wf_def)
  then have "\<forall>t' u q. (ps(t \<mapsto> p)) t' = Some q \<longrightarrow> (ps(t \<mapsto> p)) u = Some q \<longrightarrow> t' = u"
    using assms(1) by (auto simp: owners_wf_def ran_def)
  moreover have "dom (objects s1) = ran (ps(t \<mapsto> p))" "\<forall>q \<in> ran (ps(t \<mapsto> p)). q < next_addr s1"
    using assms(1,2) p by (auto simp: owners_wf_def less_SucI)
  ultimately show ?thesis unfolding owners_wf_def by blast
qed

lemma owners_wf_delete:
  assumes "owners_wf ps s" "ps t = Some p"
  shows "\<exists>s1. tls_delete p s = Inr s1 \<and> owners_wf (ps(t := None)) s1 \<and> specific s1 = specific s \<and> t_value s1 = t_value s"
proof -
  have "objects s p \<noteq> None" using assms by (auto simp: owners_wf_def ran_def dom_def)
  moreover have "ran (ps(t := None)) = ran ps - {p}" using assms by (auto simp: ran_def owners_wf_def) (metis option.inject)
  ultimately show ?thesis using assms(1) by (auto simp: tls_delete_def owners_wf_def ran_def split: if_splits)
qed

lemma owners_wf_fields: "owners_wf ps (s\<lparr>specific := a\<rparr>) = owners_wf ps s" "owners_wf ps (s\<lparr>t_value := b\<rparr>) = owners_wf ps s"
  by (simp_all add: owners_wf_def)

interpretation tl: per_thread "getValue x" "thread_end tl_destructor" specific "\<lambda>s. dom (objects s)" "\<lambda>s. owners_wf (specific s) s" for x
proof (unfold_locales, goal_cases)
  case (1 s t)
  show ?case
  proof (cases "specific s t")
    case None
    obtain p s1 where n: "tls_new x s = (p, s1)" by fastforce
    moreover have "specific s1 = specific s" using n by (auto simp: tls_new_def)
    ultimately show ?thesis using None owners_wf_new [OF 1 None n] by (simp add: getValue_def owners_wf_fields)
  next
    case (Some p)
    then show ?thesis using 1 by (auto simp: getValue_def map_upd_triv)
  qed
next
  case (2 s t)
  show ?case
  proof (cases "specific s t")
    case None
    then show ?thesis using 2 by (simp add: thread_end_def fun_upd_idem)
  next
    case (Some p)
    then show ?thesis using owners_wf_delete [of "specific s" "s\<lparr>specific := (specific s)(t := None)\<rparr>" t p] 2
      by (auto simp: thread_end_def tl_destructor_def owners_wf_fields)
  qed
next
  case (3 s)
  then show ?case by (simp add: owners_wf_def)
next
  case (4 s t p u)
  then show ?case by (simp add: owners_wf_def)
qed

interpretation tls: per_thread "singleton_instance nd x" "\<lambda>t. thread_end (singleton_destructor nd t) t" t_value "\<lambda>s. dom (objects s)" singleton_wf for nd x
proof (unfold_locales, goal_cases)
  case (1 s t)
  show ?case
  proof (cases "t_value s t")
    case None
    obtain p s1 where n: "tls_new x s = (p, s1)" by fastforce
    moreover have "specific s1 = specific s" "t_value s1 = t_value s" using n by (auto simp: tls_new_def)
    ultimately show ?thesis using None 1 owners_wf_new [of "t_value s" s t x p s1]
      by (simp add: singleton_instance_def deleter_set_def singleton_wf_def owners_wf_fields)
  next
    case (Some p)
    then show ?thesis using 1 by (auto simp: singleton_instance_def map_upd_triv)
  qed
next
  case (2 s t)
  show ?case
  proof (cases "t_value s t")
    case None
    then show ?thesis using 2 by (simp add: thread_end_def singleton_wf_def fun_upd_idem)
  next
    case (Some p)
    then show ?thesis using owners_wf_delete [of "t_value s" "s\<lparr>specific := (specific s)(t := None)\<rparr>" t p] 2
      by (auto simp: thread_end_def singleton_destructor_def singleton_wf_def owners_wf_fields)
  qed
next
  case (3 s)
  then show ?case by (simp add: singleton_wf_def owners_wf_def)
next
  case (4 s t p u)
  then show ?case by (simp add: singleton_wf_def owners_wf_def)
qed

text \<open>
  C38: every thread has one object and no object outlives its thread. However threads use their objects and end, starting with none, both
  classes run without a fault or a failed assertion, afterwards exactly the threads that have used
  the object since they last ended have one, different threads have different objects, and these are all the objects that exist.
\<close>

theorem one_object_per_thread:
  "\<exists>s1 s2. foldR (tls_step (getValue x) (thread_end tl_destructor)) evs tls_init = Inr s1 \<and>
     foldR (tls_step (singleton_instance nd x) (\<lambda>t. thread_end (singleton_destructor nd t) t)) evs tls_init = Inr s2 \<and>
     dom (specific s1) = fold in_use evs {} \<and> dom (objects s1) = ran (specific s1) \<and> inj_on (specific s1) (dom (specific s1)) \<and>
     dom (t_value s2) = fold in_use evs {} \<and> dom (objects s2) = ran (t_value s2) \<and> inj_on (t_value s2) (dom (t_value s2))"
proof -
  have "owners_wf (specific tls_init) (tls_init :: 'a tls)" "singleton_wf (tls_init :: 'a tls)" "dom (specific (tls_init :: 'a tls)) = {}"
    "dom (t_value (tls_init :: 'a tls)) = {}"
    by (simp_all add: tls_init_def owners_wf_def singleton_wf_def)
  with tl.run_ok [of "tls_init :: 'a tls" x evs] tls.run_ok [of "tls_init :: 'a tls" nd x evs] obtain s1 s2 where s:
      "foldR (tls_step (getValue x) (thread_end tl_destructor)) evs tls_init = Inr s1" "owners_wf (specific s1) s1" "dom (specific s1) = fold in_use evs {}"
      "foldR (tls_step (singleton_instance nd x) (\<lambda>t. thread_end (singleton_destructor nd t) t)) evs tls_init = Inr s2" "singleton_wf s2"
      "dom (t_value s2) = fold in_use evs {}" by metis
  moreover have "inj_on (specific s1) (dom (specific s1))" "inj_on (t_value s2) (dom (t_value s2))"
    using tl.wf_own [OF s(2)] tls.wf_own [OF s(5)] by (auto simp: inj_on_def dom_def)
  ultimately show ?thesis using tl.wf_live [OF s(2)] tls.wf_live [OF s(5)] by blast
qed

end
