(* ===== verification/Arale_Multiplexer.thy ===== *)
theory Arale_Multiplexer
  imports Arale_TcpConnection Arale_OrderedSet
begin

unbundle bit_operations_syntax

section \<open>The multiplexer (\<open>arale/examples/multiplexer\<close>)\<close>

text \<open>
  \<open>MultiplexerSimple.cc\<close> carries many client connections over one backend connection, \<open>Demux.cc\<close> takes
  them apart again. A packet is a length byte, two bytes of connection number and the data.
  Connections are numbers into \<open>mux_conns\<close>; all of them belong to the one loop. \<open>wr i\<close> is the
  \<open>write\<close> on the socket of connection \<open>i\<close>. The loops over a buffer are partial functions whose undefined
  value is a loop that does not end. \<open>char\<close> is signed, as it is on the platforms the program is built for.
\<close>

subsection \<open>Packets\<close>

definition kMaxConns :: int where
  "kMaxConns = 10"

definition kMaxPacketLen :: nat where
  "kMaxPacketLen = 253"

definition kHeaderLen :: nat where
  "kHeaderLen = 3"

text \<open>The value of a \<open>char\<close>, and its conversion to \<open>size_t\<close>.\<close>

definition char_int :: "char \<Rightarrow> int" where
  "char_int c = (let n = of_char c :: nat in if n < 128 then int n else int n - 256)"

definition char_size :: "char \<Rightarrow> nat" where
  "char_size c = (let x = char_int c in if x < 0 then 2 ^ 64 - nat (- x) else nat x)"

definition packet_header :: "nat \<Rightarrow> int \<Rightarrow> char list" where
  "packet_header len cid = [char_of len, char_of (nat (cid AND 0xFF)), char_of (nat (drop_bit 8 (cid AND 0xFF00)))]"

subsection \<open>The server (\<open>MultiplexerSimple.cc\<close>)\<close>

record MultiplexServer =
  mux_conns :: "nat \<Rightarrow> TcpConnection"
  mux_context :: "nat \<Rightarrow> int option"
  backendConn :: "nat option"
  clientConns :: "(int \<times> nat) list"
  availIds :: "int list"

definition on_conn :: "nat \<Rightarrow> (TcpConnection \<Rightarrow> TcpConnection result) \<Rightarrow> MultiplexServer \<Rightarrow> MultiplexServer result" where
  "on_conn i f s = bindR (f (mux_conns s i)) (\<lambda>c. Inr (s\<lparr>mux_conns := (mux_conns s)(i := c)\<rparr>))"

definition sendBackendPacket ::
  "bool \<Rightarrow> (nat \<Rightarrow> char list \<Rightarrow> int + nat) \<Rightarrow> int \<Rightarrow> Buffer \<Rightarrow> MultiplexServer \<Rightarrow> (Buffer \<times> MultiplexServer) result" where
  "sendBackendPacket nd wr cid buf s =
     (case backendConn s of
        None \<Rightarrow> Inr (buf, s)
      | Some k \<Rightarrow>
          let len = readableBytes buf in
          bindR (prepend nd (packet_header len cid) buf) (\<lambda>buf1.
          bindR (send_buffer nd True (wr k) buf1 (mux_conns s k)) (\<lambda>(buf2, c).
          Inr (buf2, s\<lparr>mux_conns := (mux_conns s)(k := c)\<rparr>))))"

definition sendBackendString ::
  "bool \<Rightarrow> (nat \<Rightarrow> char list \<Rightarrow> int + nat) \<Rightarrow> int \<Rightarrow> string \<Rightarrow> MultiplexServer \<Rightarrow> MultiplexServer result" where
  "sendBackendString nd wr cid msg s =
     cassert nd (length msg < kMaxPacketLen)
       (bindR (Buffer_new nd kDefaultInitialSize) (\<lambda>buf.
        bindR (Buffer_append nd msg buf) (\<lambda>buf1.
        bindR (sendBackendPacket nd wr cid buf1 s) (\<lambda>(_, s1). Inr s1))))"

text \<open>One iteration of the loop of \<open>sendBackendBuffer\<close>: a full packet is cut off and sent.\<close>

definition send_full_packet ::
  "bool \<Rightarrow> (nat \<Rightarrow> char list \<Rightarrow> int + nat) \<Rightarrow> int \<Rightarrow> Buffer \<Rightarrow> MultiplexServer \<Rightarrow> (Buffer \<times> MultiplexServer) result" where
  "send_full_packet nd wr cid buf s =
     bindR (Buffer_new nd kDefaultInitialSize) (\<lambda>buf2.
     bindR (mem_read buf (peek buf) kMaxPacketLen) (\<lambda>d.
     bindR (Buffer_append nd d buf2) (\<lambda>buf3.
     bindR (retrieve nd kMaxPacketLen buf) (\<lambda>buf1.
     bindR (sendBackendPacket nd wr cid buf3 s) (\<lambda>(_, s1). Inr (buf1, s1))))))"

partial_function (option) sendBackendBuffer ::
  "bool \<Rightarrow> (nat \<Rightarrow> char list \<Rightarrow> int + nat) \<Rightarrow> int \<Rightarrow> Buffer \<Rightarrow> MultiplexServer \<Rightarrow> (Buffer \<times> MultiplexServer) result option" where
  "sendBackendBuffer nd wr cid buf s =
     (if kMaxPacketLen < readableBytes buf then
        (case send_full_packet nd wr cid buf s of
           Inl f \<Rightarrow> Some (Inl f)
         | Inr (buf1, s1) \<Rightarrow> sendBackendBuffer nd wr cid buf1 s1)
      else if 0 < readableBytes buf then Some (sendBackendPacket nd wr cid buf s)
      else Some (Inr (buf, s)))"

text \<open>\<open>ip\<close> is the text of the remote address.\<close>

definition onClientConnection ::
  "bool \<Rightarrow> (nat \<Rightarrow> char list \<Rightarrow> int + nat) \<Rightarrow> string \<Rightarrow> nat \<Rightarrow> MultiplexServer \<Rightarrow> MultiplexServer result" where
  "onClientConnection nd wr ip i s =
     (if isConnected (mux_conns s i) then
        (case availIds s of
           [] \<Rightarrow> on_conn i (tc_shutdown True) s
         | cid # ids \<Rightarrow>
             let s1 = s\<lparr>availIds := ids, clientConns := omap_set cid i (clientConns s)\<rparr>
             in if cid < 0 then on_conn i (tc_shutdown True) s1
                else sendBackendString nd wr 0 (snprintf 256 (''CONN '' @ sdec cid @ '' FROM '' @ ip @ '' IS UP'' @ kCRLF))
                       (s1\<lparr>mux_context := (mux_context s1)(i \<mapsto> cid)\<rparr>))
      else
        (case mux_context s i of
           None \<Rightarrow> Inr s
         | Some cid \<Rightarrow>
             cassert nd (0 < cid \<and> cid < kMaxConns)
               (bindR (sendBackendString nd wr 0 (snprintf 256 (''CONN '' @ sdec cid @ '' FROM '' @ ip @ '' IS DOWN'' @ kCRLF)) s)
                  (\<lambda>s1. if backendConn s1 \<noteq> None
                        then Inr (s1\<lparr>availIds := availIds s1 @ [cid], clientConns := omap_erase cid (clientConns s1)\<rparr>)
                        else cassert nd (availIds s1 = []) (cassert nd (clientConns s1 = []) (Inr s1))))))"

definition onClientMessage ::
  "bool \<Rightarrow> (nat \<Rightarrow> char list \<Rightarrow> int + nat) \<Rightarrow> nat \<Rightarrow> Buffer \<Rightarrow> MultiplexServer \<Rightarrow> (Buffer \<times> MultiplexServer) result option" where
  "onClientMessage nd wr i buf s =
     (if backendConn s \<noteq> None then
        (case mux_context s i of
           None \<Rightarrow> Some (Inl (if nd then BadCast else AssertFailed))
         | Some cid \<Rightarrow> sendBackendBuffer nd wr cid buf s)
      else Some (Inr (retrieveAll buf, s)))"

definition onBackendConnection :: "bool \<Rightarrow> nat \<Rightarrow> MultiplexServer \<Rightarrow> MultiplexServer result" where
  "onBackendConnection nd k s =
     (if isConnected (mux_conns s k) then
        cassert nd (availIds s = []) (Inr (s\<lparr>backendConn := Some k, availIds := availIds s @ [1..kMaxConns]\<rparr>))
      else
        bindR (foldR (\<lambda>p. on_conn (snd p) (tc_shutdown True)) (clientConns s) (s\<lparr>backendConn := None\<rparr>))
          (\<lambda>s1. Inr (s1\<lparr>clientConns := [], availIds := []\<rparr>)))"

definition kDisconnectCmd :: string where
  "kDisconnectCmd = ''DISCONNECT ''"

definition mux_doCommand :: "string \<Rightarrow> MultiplexServer \<Rightarrow> MultiplexServer result" where
  "mux_doCommand cmd s =
     (if length kDisconnectCmd < length cmd \<and> take (length kDisconnectCmd) cmd = kDisconnectCmd then
        (case map_of (clientConns s) (atoi (drop (length kDisconnectCmd) cmd)) of
           Some i \<Rightarrow> on_conn i (tc_shutdown True) s
         | None \<Rightarrow> Inr s)
      else Inr s)"

text \<open>
  The bytes after the header go out through \<open>send(ptr, len)\<close>, which reads them only when the connection is up. A string of
  more than the maximal length throws.
\<close>

definition send_from ::
  "bool \<Rightarrow> (char list \<Rightarrow> int + nat) \<Rightarrow> Buffer \<Rightarrow> nat \<Rightarrow> TcpConnection \<Rightarrow> TcpConnection result" where
  "send_from nd wr buf len c =
     (if tc_state c = kConnected then
        bindR (mem_read buf (peek buf + kHeaderLen) len) (\<lambda>d. send_ptr nd True wr (\<lambda>_ _. d) 0 len c)
      else Inr c)"

definition backend_packet ::
  "bool \<Rightarrow> (nat \<Rightarrow> char list \<Rightarrow> int + nat) \<Rightarrow> Buffer \<Rightarrow> nat \<Rightarrow> int \<Rightarrow> MultiplexServer \<Rightarrow> MultiplexServer result" where
  "backend_packet nd wr buf len cid s =
     (if cid \<noteq> 0 then
        (case map_of (clientConns s) cid of
           Some i \<Rightarrow> on_conn i (send_from nd (wr i) buf len) s
         | None \<Rightarrow> Inr s)
      else if vector_max < len then Inl LengthError
      else bindR (mem_read buf (peek buf + kHeaderLen) len) (\<lambda>cmd. mux_doCommand cmd s))"

partial_function (option) onBackendMessage ::
  "bool \<Rightarrow> (nat \<Rightarrow> char list \<Rightarrow> int + nat) \<Rightarrow> Buffer \<Rightarrow> MultiplexServer \<Rightarrow> (Buffer \<times> MultiplexServer) result option" where
  "onBackendMessage nd wr buf s =
     (if kHeaderLen < readableBytes buf then
        (case mem_read buf (peek buf) kHeaderLen of
           Inl f \<Rightarrow> Some (Inl f)
         | Inr h \<Rightarrow>
             let len = char_size (h ! 0) in
             if readableBytes buf < uadd64 len kHeaderLen then Some (Inr (buf, s))
             else
               let cid = char_int (h ! 1) OR push_bit 8 (char_int (h ! 2)) in
               (case bindR (backend_packet nd wr buf len cid s) (\<lambda>s1.
                     bindR (retrieve nd (uadd64 len kHeaderLen) buf) (\<lambda>buf1. Inr (buf1, s1))) of
                  Inl f \<Rightarrow> Some (Inl f)
                | Inr (buf1, s1) \<Rightarrow> onBackendMessage nd wr buf1 s1))
      else Some (Inr (buf, s)))"

subsection \<open>The other end (\<open>Demux.cc\<close>)\<close>

text \<open>
  \<open>started\<close> are the numbers of the clients that were created and asked to connect. \<open>entry_at\<close> is the
  assertion that an entry exists followed by \<open>socksConnections_[id]\<close>, which creates it where the
  assertion is compiled out.
\<close>

record demux_entry =
  de_conn :: "nat option"
  de_buf :: Buffer

record DemuxServer =
  dx_conns :: "nat \<Rightarrow> TcpConnection"
  serverConnection :: "nat option"
  socksConnections :: "(int \<times> demux_entry) list"
  started :: "int list"

definition dx_on_conn :: "nat \<Rightarrow> (TcpConnection \<Rightarrow> TcpConnection result) \<Rightarrow> DemuxServer \<Rightarrow> DemuxServer result" where
  "dx_on_conn i f s = bindR (f (dx_conns s i)) (\<lambda>c. Inr (s\<lparr>dx_conns := (dx_conns s)(i := c)\<rparr>))"

definition entry_at :: "bool \<Rightarrow> int \<Rightarrow> DemuxServer \<Rightarrow> (demux_entry \<times> DemuxServer) result" where
  "entry_at nd cid s =
     (case map_of (socksConnections s) cid of
        Some en \<Rightarrow> Inr (en, s)
      | None \<Rightarrow>
          if nd then
            bindR (Buffer_new nd kDefaultInitialSize) (\<lambda>b.
            let en = \<lparr>de_conn = None, de_buf = b\<rparr>
            in Inr (en, s\<lparr>socksConnections := omap_set cid en (socksConnections s)\<rparr>))
          else Inl AssertFailed)"

definition onServerConnection :: "nat \<Rightarrow> DemuxServer \<Rightarrow> DemuxServer result" where
  "onServerConnection i s =
     (if isConnected (dx_conns s i) then
        (case serverConnection s of
           Some k \<Rightarrow> dx_on_conn k (tc_shutdown True) s
         | None \<Rightarrow> Inr (s\<lparr>serverConnection := Some i\<rparr>))
      else if serverConnection s = Some i then Inr (s\<lparr>serverConnection := None, socksConnections := []\<rparr>)
      else Inr s)"

definition demux_doCommand :: "bool \<Rightarrow> string \<Rightarrow> DemuxServer \<Rightarrow> DemuxServer result" where
  "demux_doCommand nd cmd s =
     (if length cmd < length ''CONN '' then Inl OutOfBounds
      else
        let cid = atoi (drop (length ''CONN '') cmd); isUp = (std_search '' IS UP'' cmd \<noteq> length cmd) in
        if isUp then
          cassert nd (map_of (socksConnections s) cid = None)
            (bindR (Buffer_new nd kDefaultInitialSize) (\<lambda>b.
             Inr (s\<lparr>socksConnections := omap_set cid \<lparr>de_conn = None, de_buf = b\<rparr> (socksConnections s),
                    started := started s @ [cid]\<rparr>)))
        else
          bindR (entry_at nd cid s) (\<lambda>(en, s1).
          bindR (case de_conn en of Some i \<Rightarrow> dx_on_conn i (tc_shutdown True) s1 | None \<Rightarrow> Inr s1) (\<lambda>s2.
          Inr (s2\<lparr>socksConnections := omap_erase cid (socksConnections s2)\<rparr>))))"

definition server_packet ::
  "bool \<Rightarrow> (nat \<Rightarrow> char list \<Rightarrow> int + nat) \<Rightarrow> Buffer \<Rightarrow> nat \<Rightarrow> int \<Rightarrow> DemuxServer \<Rightarrow> DemuxServer result" where
  "server_packet nd wr buf len cid s =
     (if cid \<noteq> 0 then
        bindR (entry_at nd cid s) (\<lambda>(en, s1).
          case de_conn en of
            Some i \<Rightarrow> cassert nd (readableBytes (de_buf en) = 0) (dx_on_conn i (send_from nd (wr i) buf len) s1)
          | None \<Rightarrow>
              bindR (mem_read buf (peek buf + kHeaderLen) len) (\<lambda>d.
              bindR (Buffer_append nd d (de_buf en)) (\<lambda>b.
              Inr (s1\<lparr>socksConnections := omap_set cid (en\<lparr>de_buf := b\<rparr>) (socksConnections s1)\<rparr>))))
      else if vector_max < len then Inl LengthError
      else bindR (mem_read buf (peek buf + kHeaderLen) len) (\<lambda>cmd. demux_doCommand nd cmd s))"

partial_function (option) onServerMessage ::
  "bool \<Rightarrow> (nat \<Rightarrow> char list \<Rightarrow> int + nat) \<Rightarrow> Buffer \<Rightarrow> DemuxServer \<Rightarrow> (Buffer \<times> DemuxServer) result option" where
  "onServerMessage nd wr buf s =
     (if kHeaderLen < readableBytes buf then
        (case mem_read buf (peek buf) kHeaderLen of
           Inl f \<Rightarrow> Some (Inl f)
         | Inr h \<Rightarrow>
             let len = char_size (h ! 0) in
             if readableBytes buf < len then Some (Inr (buf, s))
             else
               let cid = int (of_char (h ! 1) :: nat) OR push_bit 8 (int (of_char (h ! 2) :: nat)) in
               (case bindR (server_packet nd wr buf len cid s) (\<lambda>s1.
                     bindR (retrieve nd (uadd64 kHeaderLen len) buf) (\<lambda>buf1. Inr (buf1, s1))) of
                  Inl f \<Rightarrow> Some (Inl f)
                | Inr (buf1, s1) \<Rightarrow> onServerMessage nd wr buf1 s1))
      else Some (Inr (buf, s)))"

definition onSocksConnection ::
  "bool \<Rightarrow> (nat \<Rightarrow> char list \<Rightarrow> int + nat) \<Rightarrow> int \<Rightarrow> nat \<Rightarrow> DemuxServer \<Rightarrow> DemuxServer result" where
  "onSocksConnection nd wr cid i s =
     cassert nd (map_of (socksConnections s) cid \<noteq> None)
       (if isConnected (dx_conns s i) then
          bindR (entry_at nd cid s) (\<lambda>(en, s1).
          bindR (if 0 < readableBytes (de_buf en) then send_buffer nd True (wr i) (de_buf en) (dx_conns s1 i)
                 else Inr (de_buf en, dx_conns s1 i)) (\<lambda>(b, c).
          Inr (s1\<lparr>dx_conns := (dx_conns s1)(i := c),
                  socksConnections := omap_set cid \<lparr>de_conn = Some i, de_buf = b\<rparr> (socksConnections s1)\<rparr>)))
        else
          (case serverConnection s of
             Some k \<Rightarrow>
               bindR (Buffer_new nd kDefaultInitialSize) (\<lambda>b.
               bindR (Buffer_append nd (snprintf 64 (''DISCONNECT '' @ sdec cid)) b) (\<lambda>b1.
               dx_on_conn k (\<lambda>c. bindR (send_buffer nd True (wr k) b1 c) (\<lambda>(_, c1). Inr c1)) s))
           | None \<Rightarrow> Inr (s\<lparr>socksConnections := omap_erase cid (socksConnections s)\<rparr>)))"

definition sendServerPacket ::
  "bool \<Rightarrow> (nat \<Rightarrow> char list \<Rightarrow> int + nat) \<Rightarrow> int \<Rightarrow> Buffer \<Rightarrow> DemuxServer \<Rightarrow> (Buffer \<times> DemuxServer) result" where
  "sendServerPacket nd wr cid buf s =
     (let len = readableBytes buf in
      cassert nd (len \<le> kMaxPacketLen)
        (bindR (Buffer_append nd (packet_header len cid) buf) (\<lambda>buf1.
         case serverConnection s of
           None \<Rightarrow> Inr (buf1, s)
         | Some k \<Rightarrow>
             bindR (send_buffer nd True (wr k) buf1 (dx_conns s k)) (\<lambda>(buf2, c).
             Inr (buf2, s\<lparr>dx_conns := (dx_conns s)(k := c)\<rparr>)))))"

partial_function (option) socks_packets ::
  "bool \<Rightarrow> (nat \<Rightarrow> char list \<Rightarrow> int + nat) \<Rightarrow> int \<Rightarrow> Buffer \<Rightarrow> DemuxServer \<Rightarrow> (Buffer \<times> DemuxServer) result option" where
  "socks_packets nd wr cid buf s =
     (if kMaxPacketLen < readableBytes buf then
        (case bindR (Buffer_new nd kDefaultInitialSize) (\<lambda>buf2.
              bindR (mem_read buf (peek buf) kMaxPacketLen) (\<lambda>d.
              bindR (Buffer_append nd d buf2) (\<lambda>buf3.
              bindR (retrieve nd kMaxPacketLen buf) (\<lambda>buf1.
              bindR (sendServerPacket nd wr cid buf3 s) (\<lambda>(_, s1). Inr (buf1, s1)))))) of
           Inl f \<Rightarrow> Some (Inl f)
         | Inr (buf1, s1) \<Rightarrow> socks_packets nd wr cid buf1 s1)
      else if 0 < readableBytes buf then Some (sendServerPacket nd wr cid buf s)
      else Some (Inr (buf, s)))"

definition onSocksMessage ::
  "bool \<Rightarrow> (nat \<Rightarrow> char list \<Rightarrow> int + nat) \<Rightarrow> int \<Rightarrow> Buffer \<Rightarrow> DemuxServer \<Rightarrow> (Buffer \<times> DemuxServer) result option" where
  "onSocksMessage nd wr cid buf s =
     (if map_of (socksConnections s) cid = None \<and> \<not> nd then Some (Inl AssertFailed) else socks_packets nd wr cid buf s)"

subsection \<open>Cutting a stream into packets\<close>

definition packet :: "int \<Rightarrow> char list \<Rightarrow> char list" where
  "packet cid d = packet_header (length d) cid @ d"

function chunks :: "char list \<Rightarrow> char list list" where
  "chunks d =
     (if d = [] then [] else if length d \<le> kMaxPacketLen then [d] else take kMaxPacketLen d # chunks (drop kMaxPacketLen d))"
  by auto
termination by (relation "measure length") (auto simp: kMaxPacketLen_def)

declare chunks.simps [simp del]

lemma length_packet_header [simp]: "length (packet_header n cid) = 3"
  by (simp add: packet_header_def)

lemma concat_chunks: "concat (chunks d) = d"
proof (induction d rule: chunks.induct)
  case (1 d)
  then show ?case by (subst chunks.simps) simp
qed

lemma chunks_bounds: "x \<in> set (chunks d) \<Longrightarrow> 0 < length x \<and> length x \<le> kMaxPacketLen"
proof (induction d rule: chunks.induct)
  case (1 d)
  then show ?case by (subst (asm) (2) chunks.simps) (auto simp: kMaxPacketLen_def split: if_splits)
qed

lemma sendBackendPacket_idle:
  assumes "backendConn s = Some k" "idle_conn (mux_conns s k)" "\<And>d. wr k d = Inr (length d)" "Buffer_inv buf" "3 \<le> readIndex buf"
  shows "\<exists>buf' c. sendBackendPacket nd wr cid buf s = Inr (buf', s\<lparr>mux_conns := (mux_conns s)(k := c)\<rparr>) \<and> idle_conn c \<and>
     wire c = wire (mux_conns s k) @ packet cid (Buffer_content buf) \<and> Buffer_content buf' = []"
proof -
  obtain b1 where b1: "prepend nd (packet_header (readableBytes buf) cid) buf = Inr b1" "Buffer_inv b1"
    "Buffer_content b1 = packet cid (Buffer_content buf)"
    using prepend_ok [OF assms(4), of "packet_header (readableBytes buf) cid" nd] assms(5) Buffer_sizes(3) [OF assms(4)]
    by (auto simp: packet_def)
  obtain c where "send_buffer nd True (wr k) b1 (mux_conns s k) = Inr (retrieveAll b1, c)" "idle_conn c"
    "wire c = wire (mux_conns s k) @ Buffer_content b1"
    using send_buffer_idle [of "mux_conns s k" "wr k" b1 nd, OF assms(2,3) b1(2)] by blast
  with b1 assms(1) show ?thesis
    by (intro exI [of _ "retrieveAll b1"] exI [of _ c]) (simp add: sendBackendPacket_def Let_def retrieveAll_spec(2))
qed

lemma send_full_packet_idle:
  assumes "backendConn s = Some k" "idle_conn (mux_conns s k)" "\<And>d. wr k d = Inr (length d)"
    and "Buffer_inv buf" "8 \<le> readIndex buf" "kMaxPacketLen < readableBytes buf"
  shows "\<exists>buf' c. send_full_packet nd wr cid buf s = Inr (buf', s\<lparr>mux_conns := (mux_conns s)(k := c)\<rparr>) \<and> idle_conn c \<and>
     wire c = wire (mux_conns s k) @ packet cid (take kMaxPacketLen (Buffer_content buf)) \<and>
     Buffer_inv buf' \<and> 8 \<le> readIndex buf' \<and> Buffer_content buf' = drop kMaxPacketLen (Buffer_content buf)"
proof -
  let ?d = "take kMaxPacketLen (Buffer_content buf)"
  have d: "mem_read buf (peek buf) kMaxPacketLen = Inr ?d"
    using mem_read_content [OF assms(4), of kMaxPacketLen] assms(6) by (simp add: peek_def)
  have "writeIndex fresh_buffer + length ?d \<le> length (buffer fresh_buffer)" by (simp add: fresh_buffer_def kMaxPacketLen_def)
  then have "append_room fresh_buffer (length ?d)" by (rule append_room_fits)
  then obtain b3 where b3: "Buffer_append nd ?d fresh_buffer = Inr b3" "Buffer_inv b3" "Buffer_content b3 = ?d"
    using Buffer_append_ok [OF fresh_buffer_facts(2), of ?d nd] fresh_buffer_facts(3) by auto
  have r3: "3 \<le> readIndex b3"
    using Buffer_append_readIndex [OF b3(1)] by (auto simp: fresh_buffer_def kCheapPrependSize_def)
  obtain b1 where b1: "retrieve nd kMaxPacketLen buf = Inr b1" "Buffer_inv b1" "Buffer_content b1 = drop kMaxPacketLen (Buffer_content buf)"
    using retrieve_spec [OF assms(4), of kMaxPacketLen nd] assms(6) by auto
  have "readIndex buf + kMaxPacketLen < 2 ^ 64"
    using assms(4,6) Buffer_room_lt(1) [OF assms(4)] Buffer_sizes(1) [OF assms(4)] by simp
  then have "8 \<le> readIndex b1" using b1(1) assms(5,6) by (auto simp: retrieve_def)
  with sendBackendPacket_idle [of s k wr b3 nd cid, OF assms(1-3) b3(2) r3] b1 b3 d fresh_buffer_facts(1)
  show ?thesis by (auto simp: send_full_packet_def)
qed

lemma sendBackendBuffer_chunks:
  assumes "backendConn s = Some k" "idle_conn (mux_conns s k)" "\<And>d. wr k d = Inr (length d)"
    and "Buffer_inv buf" "8 \<le> readIndex buf"
  shows "\<exists>buf' c. sendBackendBuffer nd wr cid buf s = Some (Inr (buf', s\<lparr>mux_conns := (mux_conns s)(k := c)\<rparr>)) \<and> idle_conn c \<and>
     wire c = wire (mux_conns s k) @ concat (map (packet cid) (chunks (Buffer_content buf))) \<and> Buffer_content buf' = []"
  using assms(1,2,4,5)
proof (induction "length (Buffer_content buf)" arbitrary: buf s rule: less_induct)
  case less
  let ?d = "Buffer_content buf"
  have n: "readableBytes buf = length ?d" using Buffer_sizes(3) [OF less.prems(3)] by simp
  consider "kMaxPacketLen < length ?d" | "?d \<noteq> []" "length ?d \<le> kMaxPacketLen" | "?d = []" by force
  then show ?case
  proof cases
    case 1
    then have kr: "kMaxPacketLen < readableBytes buf" by (simp add: n)
    obtain b1 c where b1: "send_full_packet nd wr cid buf s = Inr (b1, s\<lparr>mux_conns := (mux_conns s)(k := c)\<rparr>)" "idle_conn c"
      "wire c = wire (mux_conns s k) @ packet cid (take kMaxPacketLen ?d)" "Buffer_inv b1" "8 \<le> readIndex b1"
      "Buffer_content b1 = drop kMaxPacketLen ?d"
      using send_full_packet_idle [of s k wr buf nd cid, OF less.prems(1,2) assms(3) less.prems(3,4) kr] by blast
    let ?s1 = "s\<lparr>mux_conns := (mux_conns s)(k := c)\<rparr>"
    have "length (Buffer_content b1) < length ?d" using b1(6) 1 by (simp add: kMaxPacketLen_def)
    then obtain b2 c2 where "sendBackendBuffer nd wr cid b1 ?s1 = Some (Inr (b2, ?s1\<lparr>mux_conns := (mux_conns ?s1)(k := c2)\<rparr>))" "idle_conn c2"
      "wire c2 = wire c @ concat (map (packet cid) (chunks (Buffer_content b1)))" "Buffer_content b2 = []"
      using less.hyps [of b1 ?s1] less.prems(1) b1(2,4,5) by auto
    then show ?thesis using b1 1 kr
      by (intro exI [of _ b2] exI [of _ c2], subst sendBackendBuffer.simps, subst chunks.simps [of ?d]) auto
  next
    case 2
    obtain b1 c where "sendBackendPacket nd wr cid buf s = Inr (b1, s\<lparr>mux_conns := (mux_conns s)(k := c)\<rparr>)" "idle_conn c"
      "wire c = wire (mux_conns s k) @ packet cid ?d" "Buffer_content b1 = []"
      using sendBackendPacket_idle [of s k wr buf nd cid, OF less.prems(1,2) assms(3) less.prems(3)] less.prems(4) by auto
    then show ?thesis using 2 n
      by (intro exI [of _ b1] exI [of _ c], subst sendBackendBuffer.simps, subst chunks.simps [of ?d]) simp
  next
    case 3
    then show ?thesis using n less.prems(2)
      by (intro exI [of _ buf] exI [of _ "mux_conns s k"], subst sendBackendBuffer.simps, subst chunks.simps [of ?d]) simp
  qed
qed

subsection \<open>Taking packets apart\<close>

lemma char_size_short: "n < 128 \<Longrightarrow> char_size (char_of n) = n"
  by (simp add: char_size_def char_int_def Let_def)

lemma char_size_long: "128 \<le> (of_char c :: nat) \<Longrightarrow> char_size c = 2 ^ 64 - (256 - of_char c)"
  using nat_of_char_less_256 [of c] by (simp add: char_size_def char_int_def Let_def nat_diff_distrib)

lemma header_id:
  assumes "cid \<in> {0..kMaxConns}"
  shows "char_int (char_of (nat (cid AND 0xFF))) OR push_bit 8 (char_int (char_of (nat (drop_bit 8 (cid AND 0xFF00))))) = cid"
proof -
  have "cid = 0 \<or> cid = 1 \<or> cid = 2 \<or> cid = 3 \<or> cid = 4 \<or> cid = 5 \<or> cid = 6 \<or> cid = 7 \<or> cid = 8 \<or> cid = 9 \<or> cid = 10"
    using assms unfolding kMaxConns_def by simp presburger
  then show ?thesis by (elim disjE) (simp_all add: char_int_def)
qed

text \<open>What the server means to do with the data of a client's packet.\<close>

definition deliver ::
  "bool \<Rightarrow> (nat \<Rightarrow> char list \<Rightarrow> int + nat) \<Rightarrow> int \<times> char list \<Rightarrow> MultiplexServer \<Rightarrow> MultiplexServer result" where
  "deliver nd wr p s =
     (case map_of (clientConns s) (fst p) of
        Some i \<Rightarrow> on_conn i (send_ptr nd True (wr i) (\<lambda>_ _. snd p) 0 (length (snd p))) s
      | None \<Rightarrow> Inr s)"

definition short_packet :: "int \<times> char list \<Rightarrow> bool" where
  "short_packet p \<longleftrightarrow> fst p \<in> {1..kMaxConns} \<and> 0 < length (snd p) \<and> length (snd p) < 128"

definition mux_incomplete :: "char list \<Rightarrow> bool" where
  "mux_incomplete r \<longleftrightarrow> length r \<le> 3 \<or> (\<exists>n < 128. hd r = char_of n \<and> length r < n + 3)"

lemma on_conn_cong: "f (mux_conns s i) = g (mux_conns s i) \<Longrightarrow> on_conn i f s = on_conn i g s"
  by (simp add: on_conn_def)

lemma backend_packet_short:
  assumes "Buffer_inv buf" "Buffer_content buf = packet cid d @ r" "cid \<noteq> 0"
  shows "backend_packet nd wr buf (length d) cid s = deliver nd wr (cid, d) s"
proof -
  have "mem_read buf (peek buf + kHeaderLen) (length d) = Inr d"
    using mem_read_offset [OF assms(1), of 3 "length d"] assms(2) Buffer_sizes(3) [OF assms(1)]
    by (simp add: packet_def peek_def kHeaderLen_def)
  then show ?thesis using assms(3)
    by (auto simp: backend_packet_def deliver_def send_from_def send_ptr_def intro!: on_conn_cong split: option.split)
qed

lemma backend_packet_step:
  assumes "Buffer_inv buf" "Buffer_content buf = packet (fst p) (snd p) @ r" "short_packet p" "deliver nd wr p s = Inr s1"
  shows "\<exists>buf1. onBackendMessage nd wr buf s = onBackendMessage nd wr buf1 s1 \<and> Buffer_inv buf1 \<and> Buffer_content buf1 = r"
proof -
  obtain cid d where p: "p = (cid, d)" by (cases p)
  have cid: "cid \<in> {0..kMaxConns}" "cid \<noteq> 0" "0 < length d" "length d < 128" using assms(3) by (auto simp: short_packet_def p)
  have n: "readableBytes buf = 3 + length d + length r"
    using Buffer_sizes(3) [OF assms(1)] assms(2) by (simp add: p packet_def)
  have h: "mem_read buf (peek buf) kHeaderLen = Inr (packet_header (length d) cid)"
    using mem_read_content [OF assms(1), of 3] assms(2) n by (simp add: p packet_def peek_def kHeaderLen_def)
  obtain b1 where b1: "retrieve nd (length d + 3) buf = Inr b1" "Buffer_inv b1" "Buffer_content b1 = r"
    using retrieve_spec [OF assms(1), of "length d + 3" nd] n assms(2) by (auto simp: p packet_def)
  have "backend_packet nd wr buf (length d) cid s = Inr s1"
    using backend_packet_short [OF assms(1) _ cid(2), of d r] assms(2,4) by (simp add: p)
  then have "onBackendMessage nd wr buf s = onBackendMessage nd wr b1 s1"
    using h n b1(1) cid header_id [OF cid(1)] char_size_short [OF cid(4)]
    by (subst onBackendMessage.simps) (simp add: kHeaderLen_def packet_header_def Let_def)
  with b1 show ?thesis by blast
qed

lemma backend_waits:
  assumes "Buffer_inv buf" "mux_incomplete (Buffer_content buf)"
  shows "onBackendMessage nd wr buf s = Some (Inr (buf, s))"
proof (cases "length (Buffer_content buf) \<le> 3")
  case True
  then show ?thesis using Buffer_sizes(3) [OF assms(1)]
    by (subst onBackendMessage.simps) (simp add: kHeaderLen_def)
next
  case False
  then obtain n where n: "n < 128" "hd (Buffer_content buf) = char_of n" "length (Buffer_content buf) < n + 3"
    using assms(2) by (auto simp: mux_incomplete_def)
  have "take 3 (Buffer_content buf) ! 0 = char_of n" using False n(2) by (cases "Buffer_content buf") auto
  then show ?thesis
    using False n mem_read_content [OF assms(1), of 3] Buffer_sizes(3) [OF assms(1)] char_size_short [OF n(1)]
    by (subst onBackendMessage.simps) (simp add: kHeaderLen_def peek_def Let_def)
qed

subsection \<open>Connection numbers\<close>

text \<open>What only sends or shuts down touches the connections and nothing else.\<close>

definition only_conns :: "MultiplexServer \<Rightarrow> MultiplexServer \<Rightarrow> bool" where
  "only_conns s s' \<longleftrightarrow> backendConn s' = backendConn s \<and> clientConns s' = clientConns s \<and> availIds s' = availIds s \<and>
     mux_context s' = mux_context s"

lemma only_conns_refl [simp]: "only_conns s s" "only_conns s (s\<lparr>mux_conns := cs\<rparr>)"
  by (simp_all add: only_conns_def)

lemma only_conns_trans: "only_conns s s1 \<Longrightarrow> only_conns s1 s2 \<Longrightarrow> only_conns s s2"
  by (simp add: only_conns_def)

lemma on_conn_only: "on_conn i f s = Inr s' \<Longrightarrow> only_conns s s'"
  by (auto simp: on_conn_def)

lemma sendBackendPacket_only: "sendBackendPacket nd wr cid buf s = Inr (b, s') \<Longrightarrow> only_conns s s'"
  by (auto simp: sendBackendPacket_def Let_def split: option.splits)

lemma sendBackendString_only: "sendBackendString nd wr cid msg s = Inr s' \<Longrightarrow> only_conns s s'"
  by (auto simp: sendBackendString_def cassert_Inr_iff dest: sendBackendPacket_only)

lemma send_full_packet_only: "send_full_packet nd wr cid buf s = Inr (b, s') \<Longrightarrow> only_conns s s'"
  by (auto simp: send_full_packet_def dest: sendBackendPacket_only)

lemma sendBackendBuffer_only:
  assumes "sendBackendBuffer nd wr cid buf s = Some y"
  shows "\<forall>b s'. y = Inr (b, s') \<longrightarrow> only_conns s s'"
proof (rule sendBackendBuffer.raw_induct [where P = "\<lambda>nd wr cid buf s y. \<forall>b s'. y = Inr (b, s') \<longrightarrow> only_conns s s'", OF _ assms], goal_cases)
  case (1 f nd wr cid buf s y)
  note IH = 1(1)
  show ?case using 1(2)
    by (auto split: if_splits sum.splits dest: sendBackendPacket_only)
      (meson IH only_conns_trans send_full_packet_only)
qed

lemma mux_doCommand_only: "mux_doCommand cmd s = Inr s' \<Longrightarrow> only_conns s s'"
  by (auto simp: mux_doCommand_def split: if_splits option.splits dest: on_conn_only)

lemma backend_packet_only: "backend_packet nd wr buf len cid s = Inr s' \<Longrightarrow> only_conns s s'"
  by (auto simp: backend_packet_def split: if_splits option.splits dest: on_conn_only mux_doCommand_only)

lemma onBackendMessage_only:
  assumes "onBackendMessage nd wr buf s = Some y"
  shows "\<forall>b s'. y = Inr (b, s') \<longrightarrow> only_conns s s'"
proof (rule onBackendMessage.raw_induct [where P = "\<lambda>nd wr buf s y. \<forall>b s'. y = Inr (b, s') \<longrightarrow> only_conns s s'", OF _ assms], goal_cases)
  case (1 f nd wr buf s y)
  note IH = 1(1)
  show ?case using 1(2)
    by (auto simp: Let_def split: if_splits sum.splits)
      (meson IH only_conns_trans backend_packet_only)
qed

definition mux_inv :: "MultiplexServer \<Rightarrow> bool" where
  "mux_inv s \<longleftrightarrow> omap (clientConns s) \<and>
     (if backendConn s = None then availIds s = [] \<and> clientConns s = []
      else distinct (availIds s) \<and> set (availIds s) \<inter> dom (map_of (clientConns s)) = {} \<and>
        set (availIds s) \<union> dom (map_of (clientConns s)) = {1..kMaxConns}) \<and>
     (\<forall>cid i. map_of (clientConns s) cid = Some i \<longrightarrow> mux_context s i = Some cid)"

lemma mux_inv_only: "mux_inv s \<Longrightarrow> only_conns s s' \<Longrightarrow> mux_inv s'"
  by (simp add: mux_inv_def only_conns_def)

text \<open>
  The handlers in any order, and what the rest of the library does to the connections meanwhile. A connection is
  reported up once; when it is reported down it still has its number.
\<close>

inductive mux_step :: "MultiplexServer \<Rightarrow> MultiplexServer \<Rightarrow> bool" where
  Library: "mux_step s (s\<lparr>mux_conns := cs\<rparr>)"
| ClientUp: "isConnected (mux_conns s i) \<Longrightarrow> mux_context s i = None \<Longrightarrow> onClientConnection nd wr ip i s = Inr s' \<Longrightarrow> mux_step s s'"
| ClientDown: "\<not> isConnected (mux_conns s i) \<Longrightarrow>
    (\<And>cid. mux_context s i = Some cid \<Longrightarrow> backendConn s \<noteq> None \<Longrightarrow> map_of (clientConns s) cid = Some i) \<Longrightarrow>
    onClientConnection nd wr ip i s = Inr s' \<Longrightarrow> mux_step s s'"
| ClientMessage: "onClientMessage nd wr i buf s = Some (Inr (buf', s')) \<Longrightarrow> mux_step s s'"
| BackendUp: "backendConn s = None \<Longrightarrow> isConnected (mux_conns s k) \<Longrightarrow> onBackendConnection nd k s = Inr s' \<Longrightarrow> mux_step s s'"
| BackendDown: "\<not> isConnected (mux_conns s k) \<Longrightarrow> onBackendConnection nd k s = Inr s' \<Longrightarrow> mux_step s s'"
| BackendMessage: "onBackendMessage nd wr buf s = Some (Inr (buf', s')) \<Longrightarrow> mux_step s s'"

lemma shutdown_all_only: "foldR (\<lambda>p. on_conn (snd p) f) ps s = Inr s' \<Longrightarrow> only_conns s s'"
proof (induction ps arbitrary: s)
  case (Cons p ps)
  then show ?case by auto (meson on_conn_only only_conns_trans)
qed simp

lemma mux_client_up:
  assumes "mux_inv s" "isConnected (mux_conns s i)" "mux_context s i = None" "onClientConnection nd wr ip i s = Inr s'"
  shows "mux_inv s'"
proof (cases "availIds s")
  case Nil
  then show ?thesis using assms on_conn_only mux_inv_only by (auto simp: onClientConnection_def)
next
  case (Cons cid ids)
  let ?s1 = "s\<lparr>availIds := ids, clientConns := omap_set cid i (clientConns s), mux_context := (mux_context s)(i \<mapsto> cid)\<rparr>"
  have up: "backendConn s \<noteq> None" and om: "omap (clientConns s)" using assms(1) Cons by (auto simp: mux_inv_def split: if_splits)
  have cid: "cid \<in> {1..kMaxConns}" "cid \<notin> dom (map_of (clientConns s))" using assms(1) Cons up by (auto simp: mux_inv_def)
  have fresh: "\<And>c. map_of (clientConns s) c \<noteq> Some i" using assms(1,3) by (auto simp: mux_inv_def)
  have "mux_inv ?s1" unfolding mux_inv_def
    using assms(1) up cid fresh Cons omap.put_wf [OF om] omap.dom_put [OF om] omap.look_put [OF om]
    by (auto simp: mux_inv_def)
  moreover have "only_conns ?s1 s'"
    using assms(2,4) Cons cid(1) by (auto simp: onClientConnection_def Let_def dest!: sendBackendString_only)
  ultimately show ?thesis by (rule mux_inv_only)
qed

lemma mux_client_down:
  assumes "mux_inv s" "\<not> isConnected (mux_conns s i)" "onClientConnection nd wr ip i s = Inr s'"
    and "\<And>cid. mux_context s i = Some cid \<Longrightarrow> backendConn s \<noteq> None \<Longrightarrow> map_of (clientConns s) cid = Some i"
  shows "mux_inv s'"
proof (cases "mux_context s i")
  case None
  then show ?thesis using assms(1-3) by (simp add: onClientConnection_def)
next
  case (Some cid)
  then obtain s1 where s1: "only_conns s s1"
    "s' = (if backendConn s1 \<noteq> None then s1\<lparr>availIds := availIds s1 @ [cid], clientConns := omap_erase cid (clientConns s1)\<rparr> else s1)"
    using assms(2,3) by (auto simp: onClientConnection_def cassert_Inr_iff dest!: sendBackendString_only split: if_splits)
  have inv1: "mux_inv s1" using mux_inv_only [OF assms(1) s1(1)] .
  show ?thesis
  proof (cases "backendConn s1 = None")
    case True
    then show ?thesis using inv1 s1(2) by simp
  next
    case False
    have om: "omap (clientConns s1)" using inv1 by (simp add: mux_inv_def)
    have "map_of (clientConns s1) cid = Some i" using assms(4) [OF Some] False s1(1) by (simp add: only_conns_def)
    then have cid: "cid \<in> dom (map_of (clientConns s1))" by blast
    have s': "s' = s1\<lparr>availIds := availIds s1 @ [cid], clientConns := omap_erase cid (clientConns s1)\<rparr>" using s1(2) False by simp
    show ?thesis unfolding mux_inv_def s'
      using inv1 False cid omap.del_wf [OF om, of cid] omap.dom_del [OF om, of cid] omap.look_del [OF om, of cid]
      by (auto simp: mux_inv_def)
  qed
qed

lemma mux_backend:
  assumes "mux_inv s" "isConnected (mux_conns s k) \<Longrightarrow> backendConn s = None" "onBackendConnection nd k s = Inr s'"
  shows "mux_inv s'"
proof (cases "isConnected (mux_conns s k)")
  case True
  have "distinct [1..kMaxConns]" "set [1..kMaxConns] = {1..kMaxConns}" by simp_all
  with True assms show ?thesis by (auto simp: onBackendConnection_def mux_inv_def cassert_Inr_iff)
next
  case False
  then obtain s1 where "only_conns (s\<lparr>backendConn := None\<rparr>) s1" "s' = s1\<lparr>clientConns := [], availIds := []\<rparr>"
    using assms(3) by (auto simp: onBackendConnection_def dest!: shutdown_all_only)
  then show ?thesis by (simp add: mux_inv_def only_conns_def omap_def)
qed

lemma mux_step_inv:
  assumes "mux_step s s'" "mux_inv s"
  shows "mux_inv s'"
  using assms
proof cases
  case (ClientMessage nd wr i buf buf')
  then have "only_conns s s'"
    by (auto simp: onClientMessage_def split: if_splits option.splits dest: sendBackendBuffer_only)
  then show ?thesis using assms(2) mux_inv_only by blast
next
  case (BackendMessage nd wr buf buf')
  then show ?thesis using onBackendMessage_only mux_inv_only assms(2) by blast
qed (use assms mux_client_up mux_client_down mux_backend mux_inv_only only_conns_refl(2) in blast)+

subsection \<open>Properties of the multiplexer\<close>

text \<open>
  Numbers identify clients. Whatever sequence of the handlers runs, while the backend is connected every number from
  1 to 10 is either free or belongs to exactly one client, whose context it is, and while it is
  not there are neither free numbers nor clients.
\<close>

theorem mux_numbers_partition:
  assumes "mux_step\<^sup>*\<^sup>* s s'" "mux_inv s"
  shows "mux_inv s'"
  using assms by (induction rule: rtranclp_induct) (auto dest: mux_step_inv)

definition sample_mux :: MultiplexServer where
  "sample_mux = \<lparr>mux_conns = (\<lambda>_. sample_conn False []), mux_context = (\<lambda>_. None), backendConn = None, clientConns = [], availIds = []\<rparr>"

lemma sample_mux_inv: "mux_inv sample_mux"
  by (simp add: sample_mux_def mux_inv_def omap_def)

lemma sample_backend_up:
  "onBackendConnection False 0 sample_mux = Inr (sample_mux\<lparr>backendConn := Some 0, availIds := [1..kMaxConns]\<rparr>)"
  by (simp add: onBackendConnection_def sample_mux_def isConnected_def)

theorem mux_numbers_partition_witness:
  "mux_step\<^sup>*\<^sup>* sample_mux (sample_mux\<lparr>backendConn := Some 0, availIds := [1..kMaxConns]\<rparr>) \<and>
   mux_inv (sample_mux\<lparr>backendConn := Some 0, availIds := [1..kMaxConns]\<rparr>)"
proof -
  have "mux_step sample_mux (sample_mux\<lparr>backendConn := Some 0, availIds := [1..kMaxConns]\<rparr>)"
    by (rule BackendUp [OF _ _ sample_backend_up]) (simp_all add: sample_mux_def isConnected_def)
  then have run: "mux_step\<^sup>*\<^sup>* sample_mux (sample_mux\<lparr>backendConn := Some 0, availIds := [1..kMaxConns]\<rparr>)" by blast
  with mux_numbers_partition [OF run sample_mux_inv] show ?thesis by blast
qed

text \<open>
  \<open>sendBackendBuffer\<close> returns and puts the client's data on the backend connection as packets of at most 253 bytes with
  the client's number, whose data put together are the client's data; the buffer is empty afterwards.
\<close>

theorem sendBackendBuffer_packets:
  assumes "backendConn s = Some k" "idle_conn (mux_conns s k)" "\<And>d. wr k d = Inr (length d)" "Buffer_inv buf" "8 \<le> readIndex buf"
  shows "\<exists>buf' s' ds. sendBackendBuffer nd wr cid buf s = Some (Inr (buf', s')) \<and> Buffer_content buf' = [] \<and>
     wire (mux_conns s' k) = wire (mux_conns s k) @ concat (map (packet cid) ds) \<and>
     concat ds = Buffer_content buf \<and> (\<forall>d \<in> set ds. 0 < length d \<and> length d \<le> kMaxPacketLen)"
proof -
  obtain buf' c where r: "sendBackendBuffer nd wr cid buf s = Some (Inr (buf', s\<lparr>mux_conns := (mux_conns s)(k := c)\<rparr>))"
    "wire c = wire (mux_conns s k) @ concat (map (packet cid) (chunks (Buffer_content buf)))" "Buffer_content buf' = []"
    using sendBackendBuffer_chunks [of s k wr buf nd cid, OF assms] by blast
  show ?thesis using r concat_chunks chunks_bounds
    by (intro exI [of _ buf'] exI [of _ "s\<lparr>mux_conns := (mux_conns s)(k := c)\<rparr>"] exI [of _ "chunks (Buffer_content buf)"]) simp
qed

theorem sendBackendBuffer_packets_witness:
  "\<exists>buf' s' ds. sendBackendBuffer True (\<lambda>_ d. Inr (length d)) 7 (sample_buffer ''data'') (sample_mux\<lparr>backendConn := Some 0\<rparr>) = Some (Inr (buf', s')) \<and>
     concat ds = ''data'' \<and> wire (mux_conns s' 0) = concat (map (packet 7) ds)"
proof -
  have "backendConn (sample_mux\<lparr>backendConn := Some 0\<rparr>) = Some 0" "idle_conn (mux_conns (sample_mux\<lparr>backendConn := Some 0\<rparr>) 0)"
    "Buffer_inv (sample_buffer ''data'')" "8 \<le> readIndex (sample_buffer ''data'')"
    by (simp_all add: sample_mux_def idle_sample sample_buffer_facts) (simp add: sample_buffer_def)
  from sendBackendBuffer_packets [of _ 0 "\<lambda>_ d. Inr (length d)", OF this(1,2) _ this(3,4), of True 7] show ?thesis
    by (auto simp: sample_buffer_facts sample_mux_def)
qed

text \<open>
  C27: \<open>onBackendMessage\<close> implements delivery. On packets of 1 to 127 bytes for the numbers 1 to 10, followed by the start of
  another one, it returns, has done exactly what delivering the data packet by packet does, and keeps the
  start in the buffer.
\<close>

theorem onBackendMessage_delivers:
  assumes "Buffer_inv buf" "Buffer_content buf = concat (map (\<lambda>p. packet (fst p) (snd p)) ps) @ r" "mux_incomplete r"
    and "\<And>p. p \<in> set ps \<Longrightarrow> short_packet p" "foldR (deliver nd wr) ps s = Inr s'"
  shows "\<exists>buf'. onBackendMessage nd wr buf s = Some (Inr (buf', s')) \<and> Buffer_inv buf' \<and> Buffer_content buf' = r"
  using assms
proof (induction ps arbitrary: buf s)
  case Nil
  then show ?case using backend_waits [of buf nd wr s] by simp
next
  case (Cons p ps)
  then obtain s1 where s1: "deliver nd wr p s = Inr s1" "foldR (deliver nd wr) ps s1 = Inr s'" by auto
  obtain b1 where b1: "onBackendMessage nd wr buf s = onBackendMessage nd wr b1 s1" "Buffer_inv b1"
    "Buffer_content b1 = concat (map (\<lambda>p. packet (fst p) (snd p)) ps) @ r"
    using backend_packet_step [of buf p "concat (map (\<lambda>p. packet (fst p) (snd p)) ps) @ r" nd wr s s1] Cons.prems s1(1) by auto
  with Cons.IH [OF b1(2,3) Cons.prems(3) _ s1(2)] Cons.prems(4) show ?case by auto
qed

theorem onBackendMessage_delivers_witness:
  "\<exists>buf'. onBackendMessage False (\<lambda>_ d. Inr (length d)) (sample_buffer (packet 3 ''hi'' @ ''x'')) sample_mux = Some (Inr (buf', sample_mux)) \<and>
     Buffer_content buf' = ''x''"
proof -
  have 1: "Buffer_inv (sample_buffer (packet 3 ''hi'' @ ''x''))"
    "Buffer_content (sample_buffer (packet 3 ''hi'' @ ''x'')) = concat (map (\<lambda>p. packet (fst p) (snd p)) [(3, ''hi'')]) @ ''x''"
    "mux_incomplete ''x''" "\<And>p. p \<in> set [(3, ''hi'')] \<Longrightarrow> short_packet p"
    by (auto simp: sample_buffer_facts packet_def mux_incomplete_def short_packet_def kMaxConns_def)
  have 2: "foldR (deliver False (\<lambda>_ d. Inr (length d))) [(3, ''hi'')] sample_mux = Inr sample_mux"
    by (simp add: deliver_def sample_mux_def)
  from onBackendMessage_delivers [OF 1 2] show ?thesis by blast
qed

text \<open>
  Packets of 128 to 252 bytes never arrive. Their length byte is read as a negative \<open>char\<close> and becomes a huge
  \<open>size_t\<close>, so \<open>onBackendMessage\<close> waits for more however much the buffer holds, and everything behind such a
  packet waits with it.
\<close>

theorem long_packet_stalls:
  assumes "Buffer_inv buf" "Buffer_content buf = packet cid d @ r" "128 \<le> length d" "length d < 253"
  shows "onBackendMessage nd wr buf s = Some (Inr (buf, s))"
proof -
  have n: "readableBytes buf = 3 + length d + length r"
    using Buffer_sizes(3) [OF assms(1)] assms(2) by (simp add: packet_def)
  have h: "mem_read buf (peek buf) kHeaderLen = Inr (packet_header (length d) cid)"
    using mem_read_content [OF assms(1), of 3] assms(2) n by (simp add: packet_def peek_def kHeaderLen_def)
  have "char_size (char_of (length d)) = 2 ^ 64 - (256 - length d)" using char_size_long [of "char_of (length d)"] assms(3,4) by simp
  moreover have "readableBytes buf < 2 ^ 63" using Buffer_room_lt(1) [OF assms(1)] Buffer_sizes(1) [OF assms(1)] by simp
  ultimately have "readableBytes buf < uadd64 (char_size (packet_header (length d) cid ! 0)) kHeaderLen"
    using assms(3,4) by (simp add: kHeaderLen_def packet_header_def)
  then show ?thesis using h n by (subst onBackendMessage.simps) (simp add: kHeaderLen_def Let_def)
qed

theorem long_packet_stalls_witness:
  "onBackendMessage True (\<lambda>_ d. Inr (length d)) (sample_buffer (packet 3 (replicate 200 (CHR ''x'')) @ packet 3 ''hi'')) sample_mux =
     Some (Inr (sample_buffer (packet 3 (replicate 200 (CHR ''x'')) @ packet 3 ''hi''), sample_mux))"
proof (rule long_packet_stalls)
  show "Buffer_content (sample_buffer (packet 3 (replicate 200 (CHR ''x'')) @ packet 3 ''hi'')) =
      packet 3 (replicate 200 (CHR ''x'')) @ packet 3 ''hi''" by (simp add: sample_buffer_facts)
qed (simp_all add: sample_buffer_facts packet_def)

text \<open>
  A packet of the maximal 253 bytes ends the program. The length byte becomes \<open>2\<^sup>6\<^sup>4 - 3\<close>, to which adding the header
  length gives 0, so the check for a whole packet passes, and the send that follows reads far outside the buffer.
\<close>

theorem full_packet_faults:
  assumes "Buffer_inv buf" "Buffer_content buf = packet cid d @ r" "length d = 253" "cid \<in> {1..kMaxConns}"
    and "map_of (clientConns s) cid = Some i" "tc_state (mux_conns s i) = kConnected"
  shows "onBackendMessage nd wr buf s = Some (Inl OutOfBounds)"
proof -
  have n: "readableBytes buf = 256 + length r"
    using Buffer_sizes(3) [OF assms(1)] assms(2,3) by (simp add: packet_def)
  have h: "mem_read buf (peek buf) kHeaderLen = Inr (packet_header 253 cid)"
    using mem_read_content [OF assms(1), of 3] assms(2,3) n by (simp add: packet_def peek_def kHeaderLen_def)
  have len: "char_size (char_of (253 :: nat)) = 2 ^ 64 - 3" using char_size_long [of "char_of (253 :: nat)"] by simp
  have "length (buffer buf) < 2 ^ 63" by (rule Buffer_room_lt(2) [OF assms(1)])
  then have "backend_packet nd wr buf (2 ^ 64 - 3) cid s = Inl OutOfBounds"
    using assms(4-6) by (simp add: backend_packet_def on_conn_def send_from_def mem_read_def)
  moreover have "cid \<in> {0..kMaxConns}" using assms(4) by simp
  ultimately show ?thesis using h n len header_id [of cid]
    by (subst onBackendMessage.simps) (simp add: kHeaderLen_def Let_def packet_header_def uadd64_def)
qed

theorem full_packet_faults_witness:
  "onBackendMessage True (\<lambda>_ d. Inr (length d)) (sample_buffer (packet 3 (replicate 253 (CHR ''x''))))
     (sample_mux\<lparr>backendConn := Some 0, clientConns := [(3, 5)]\<rparr>) = Some (Inl OutOfBounds)"
proof (rule full_packet_faults)
  show "Buffer_content (sample_buffer (packet 3 (replicate 253 (CHR ''x'')))) = packet 3 (replicate 253 (CHR ''x'')) @ []"
    by (simp add: sample_buffer_facts)
qed (simp_all add: sample_buffer_facts packet_def sample_mux_def kMaxConns_def)

text \<open>
  A number can be handed out twice. When a client of an earlier backend connection goes down after the backend came back and
  its number is free again, the number is put into the queue a second time.
\<close>

theorem stale_number_queued_twice:
  assumes "\<not> isConnected (mux_conns s i)" "mux_context s i = Some cid" "backendConn s \<noteq> None" "cid \<in> set (availIds s)"
    and "onClientConnection nd wr ip i s = Inr s'"
  shows "\<not> distinct (availIds s')"
proof -
  obtain s1 where "only_conns s s1" "s' = (if backendConn s1 \<noteq> None
      then s1\<lparr>availIds := availIds s1 @ [cid], clientConns := omap_erase cid (clientConns s1)\<rparr> else s1)"
    using assms(1,2,5) by (auto simp: onClientConnection_def cassert_Inr_iff dest!: sendBackendString_only split: if_splits)
  then show ?thesis using assms(3,4) by (auto simp: only_conns_def)
qed

text \<open>
  The tenth client stops a debug build when it leaves: its number passes the check when it is given out and fails the
  assertion when it comes back.
\<close>

theorem tenth_client_asserts:
  assumes "\<not> isConnected (mux_conns s i)" "mux_context s i = Some kMaxConns"
  shows "onClientConnection False wr ip i s = Inl AssertFailed"
  using assms by (simp add: onClientConnection_def cassert_def kMaxConns_def)

theorem tenth_client_asserts_witness:
  "onClientConnection False (\<lambda>_ d. Inr (length d)) ''1.2.3.4:5'' 9
     (sample_mux\<lparr>mux_conns := (\<lambda>_. setState kDisconnected (sample_conn False [])), mux_context := [9 \<mapsto> kMaxConns]\<rparr>) = Inl AssertFailed"
  by (rule tenth_client_asserts) (simp_all add: isConnected_def setState_def)

text \<open>
  \<open>sendServerPacket\<close> of the other end puts the header behind the data it belongs to, where the multiplexer expects it in
  front.
\<close>

theorem sendServerPacket_header_last:
  assumes "serverConnection s = Some k" "idle_conn (dx_conns s k)" "\<And>d. wr k d = Inr (length d)" "Buffer_inv buf"
    and "readableBytes buf \<le> kMaxPacketLen" "append_room buf 3"
  shows "\<exists>buf' s'. sendServerPacket nd wr cid buf s = Inr (buf', s') \<and>
     wire (dx_conns s' k) = wire (dx_conns s k) @ Buffer_content buf @ packet_header (length (Buffer_content buf)) cid"
proof -
  have n: "readableBytes buf = length (Buffer_content buf)" using Buffer_sizes(3) [OF assms(4)] by simp
  obtain b1 where b1: "Buffer_append nd (packet_header (readableBytes buf) cid) buf = Inr b1" "Buffer_inv b1"
    "Buffer_content b1 = Buffer_content buf @ packet_header (readableBytes buf) cid"
    using Buffer_append_ok [OF assms(4), of "packet_header (readableBytes buf) cid" nd] assms(6) by auto
  obtain c where "send_buffer nd True (wr k) b1 (dx_conns s k) = Inr (retrieveAll b1, c)" "wire c = wire (dx_conns s k) @ Buffer_content b1"
    using send_buffer_idle [of "dx_conns s k" "wr k" b1 nd, OF assms(2,3) b1(2)] by blast
  then show ?thesis using b1 assms(1,5) n
    by (intro exI [of _ "retrieveAll b1"] exI [of _ "s\<lparr>dx_conns := (dx_conns s)(k := c)\<rparr>"]) (simp add: sendServerPacket_def Let_def)
qed

definition sample_demux :: DemuxServer where
  "sample_demux = \<lparr>dx_conns = (\<lambda>_. sample_conn False []), serverConnection = Some 0, socksConnections = [], started = []\<rparr>"

theorem sendServerPacket_header_last_witness:
  "\<exists>buf' s'. sendServerPacket False (\<lambda>_ d. Inr (length d)) 7 (sample_buffer ''hi'') sample_demux = Inr (buf', s') \<and>
     wire (dx_conns s' 0) = ''hi'' @ packet_header 2 7"
proof -
  have "serverConnection sample_demux = Some 0" "idle_conn (dx_conns sample_demux 0)" "Buffer_inv (sample_buffer ''hi'')"
    "readableBytes (sample_buffer ''hi'') \<le> kMaxPacketLen" "append_room (sample_buffer ''hi'') 3"
    by (simp_all add: sample_demux_def idle_sample sample_buffer_facts kMaxPacketLen_def flip: Buffer_sizes(3))
  from sendServerPacket_header_last [of _ 0 "\<lambda>_ d. Inr (length d)", OF this(1,2) _ this(3-5), of False 7] show ?thesis
    by (simp add: sample_demux_def sample_buffer_facts numeral_2_eq_2)
qed

text \<open>
  The other end does not wait for whole packets. Its check leaves the header out, so when up to three of the last bytes
  of a packet are still on the way a debug build stops in \<open>onServerMessage\<close>.
\<close>

theorem onServerMessage_split_packet_faults:
  assumes "Buffer_inv buf" "Buffer_content buf = packet_header n cid @ d" "n < 128" "d \<noteq> []" "length d < n" "n \<le> length d + 3"
  shows "\<exists>f. onServerMessage False wr buf s = Some (Inl f)"
proof -
  have r: "readableBytes buf = 3 + length d" using Buffer_sizes(3) [OF assms(1)] assms(2) by simp
  have h: "mem_read buf (peek buf) kHeaderLen = Inr (packet_header n cid)"
    using mem_read_content [OF assms(1), of 3] assms(2) r by (simp add: peek_def kHeaderLen_def)
  have len: "char_size (packet_header n cid ! 0) = n" using char_size_short [OF assms(3)] by (simp add: packet_header_def)
  have "retrieve False (uadd64 kHeaderLen n) buf = Inl AssertFailed"
    using r assms(3,5) by (simp add: retrieve_def cassert_def kHeaderLen_def)
  then show ?thesis using h r len assms(4-6)
    by (subst onServerMessage.simps) (auto simp: kHeaderLen_def Let_def split: sum.split)
qed

theorem onServerMessage_split_packet_faults_witness:
  "\<exists>f. onServerMessage False (\<lambda>_ d. Inr (length d)) (sample_buffer (packet_header 5 7 @ ''abc'')) sample_demux = Some (Inl f)"
  by (rule onServerMessage_split_packet_faults [where n = 5 and cid = 7 and d = "''abc''"]) (simp_all add: sample_buffer_facts)

end
