(* ===== verification/Arale_MuxThreaded.thy ===== *)
theory Arale_MuxThreaded
  imports Arale_Multiplexer
begin

section \<open>The multiplexer with several threads (\<open>Multiplexer.cc\<close>)\<close>

text \<open>
  The same server with client connections in worker loops and the backend connection in the base loop. The data of \<open>MultiplexServer\<close>
  are shared and guarded by \<open>mutex_\<close>; what the handlers do under the lock and what they do outside
  of it are definitions of their own. The handlers are given twice: as functions, run without interruption, and
  as the relation \<open>mt_step\<close>, in which every critical section and every action between two of them is a step, so that the handlers of
  different connections interleave. \<open>il k\<close> says whether the running thread is that of connection \<open>k\<close>.
\<close>

subsection \<open>Critical sections and what lies between them\<close>

definition mt_take :: "nat \<Rightarrow> MultiplexServer \<Rightarrow> int \<times> MultiplexServer" where
  "mt_take i s =
     (case availIds s of
        [] \<Rightarrow> (- 1, s)
      | cid # ids \<Rightarrow> (cid, s\<lparr>availIds := ids, clientConns := omap_set cid i (clientConns s)\<rparr>))"

definition mt_release :: "bool \<Rightarrow> int \<Rightarrow> MultiplexServer \<Rightarrow> MultiplexServer result" where
  "mt_release nd cid s =
     (if backendConn s \<noteq> None
      then Inr (s\<lparr>availIds := availIds s @ [cid], clientConns := omap_erase cid (clientConns s)\<rparr>)
      else cassert nd (availIds s = []) (cassert nd (clientConns s = []) (Inr s)))"

definition mt_lookup :: "int \<Rightarrow> MultiplexServer \<Rightarrow> nat option" where
  "mt_lookup cid s = map_of (clientConns s) cid"

definition mt_header :: "bool \<Rightarrow> int \<Rightarrow> Buffer \<Rightarrow> Buffer result" where
  "mt_header nd cid buf = prepend nd (packet_header (readableBytes buf) cid) buf"

definition mt_string_buffer :: "bool \<Rightarrow> int \<Rightarrow> string \<Rightarrow> Buffer result" where
  "mt_string_buffer nd cid msg =
     cassert nd (length msg < kMaxPacketLen)
       (bindR (Buffer_new nd kDefaultInitialSize) (\<lambda>buf.
        bindR (Buffer_append nd msg buf) (mt_header nd cid)))"

text \<open>\<open>bc\<close> is the copy of \<open>backendConn_\<close> that was made under the lock.\<close>

definition mt_send ::
  "bool \<Rightarrow> (nat \<Rightarrow> bool) \<Rightarrow> (nat \<Rightarrow> char list \<Rightarrow> int + nat) \<Rightarrow> nat option \<Rightarrow> Buffer \<Rightarrow> MultiplexServer \<Rightarrow> (Buffer \<times> MultiplexServer) result" where
  "mt_send nd il wr bc buf s =
     (case bc of
        None \<Rightarrow> Inr (buf, s)
      | Some k \<Rightarrow>
          bindR (send_buffer nd (il k) (wr k) buf (mux_conns s k)) (\<lambda>(buf1, c).
          Inr (buf1, s\<lparr>mux_conns := (mux_conns s)(k := c)\<rparr>)))"

definition conn_text :: "int \<Rightarrow> string \<Rightarrow> bool \<Rightarrow> string" where
  "conn_text cid ip up =
     snprintf 256 (''CONN '' @ sdec cid @ '' FROM '' @ ip @ (if up then '' IS UP'' else '' IS DOWN'') @ kCRLF)"

subsection \<open>The handlers, run without interruption\<close>

definition mt_sendBackendPacket ::
  "bool \<Rightarrow> (nat \<Rightarrow> bool) \<Rightarrow> (nat \<Rightarrow> char list \<Rightarrow> int + nat) \<Rightarrow> int \<Rightarrow> Buffer \<Rightarrow> MultiplexServer \<Rightarrow> (Buffer \<times> MultiplexServer) result" where
  "mt_sendBackendPacket nd il wr cid buf s =
     bindR (mt_header nd cid buf) (\<lambda>buf1. mt_send nd il wr (backendConn s) buf1 s)"

definition mt_sendBackendString ::
  "bool \<Rightarrow> (nat \<Rightarrow> bool) \<Rightarrow> (nat \<Rightarrow> char list \<Rightarrow> int + nat) \<Rightarrow> int \<Rightarrow> string \<Rightarrow> MultiplexServer \<Rightarrow> MultiplexServer result" where
  "mt_sendBackendString nd il wr cid msg s =
     bindR (mt_string_buffer nd cid msg) (\<lambda>buf.
     bindR (mt_send nd il wr (backendConn s) buf s) (\<lambda>(_, s1). Inr s1))"

partial_function (option) mt_sendBackendBuffer ::
  "bool \<Rightarrow> (nat \<Rightarrow> bool) \<Rightarrow> (nat \<Rightarrow> char list \<Rightarrow> int + nat) \<Rightarrow> int \<Rightarrow> Buffer \<Rightarrow> MultiplexServer \<Rightarrow> (Buffer \<times> MultiplexServer) result option" where
  "mt_sendBackendBuffer nd il wr cid buf s =
     (if kMaxPacketLen < readableBytes buf then
        (case bindR (Buffer_new nd kDefaultInitialSize) (\<lambda>buf2.
              bindR (mem_read buf (peek buf) kMaxPacketLen) (\<lambda>d.
              bindR (Buffer_append nd d buf2) (\<lambda>buf3.
              bindR (retrieve nd kMaxPacketLen buf) (\<lambda>buf1.
              bindR (mt_sendBackendPacket nd il wr cid buf3 s) (\<lambda>(_, s1). Inr (buf1, s1)))))) of
           Inl f \<Rightarrow> Some (Inl f)
         | Inr (buf1, s1) \<Rightarrow> mt_sendBackendBuffer nd il wr cid buf1 s1)
      else if 0 < readableBytes buf then Some (mt_sendBackendPacket nd il wr cid buf s)
      else Some (Inr (buf, s)))"

definition mt_onClientConnection ::
  "bool \<Rightarrow> (nat \<Rightarrow> bool) \<Rightarrow> (nat \<Rightarrow> char list \<Rightarrow> int + nat) \<Rightarrow> (nat \<Rightarrow> string) \<Rightarrow> nat \<Rightarrow> MultiplexServer \<Rightarrow> MultiplexServer result" where
  "mt_onClientConnection nd il wr ip i s =
     (if isConnected (mux_conns s i) then
        let (cid, s1) = mt_take i s
        in if cid < 0 then on_conn i (tc_shutdown True) s1
           else mt_sendBackendString nd il wr 0 (conn_text cid (ip i) True) (s1\<lparr>mux_context := (mux_context s1)(i \<mapsto> cid)\<rparr>)
      else
        (case mux_context s i of
           None \<Rightarrow> Inr s
         | Some cid \<Rightarrow>
             cassert nd (0 < cid \<and> cid < kMaxConns)
               (bindR (mt_sendBackendString nd il wr 0 (conn_text cid (ip i) False) s) (mt_release nd cid))))"

definition mt_onClientMessage ::
  "bool \<Rightarrow> (nat \<Rightarrow> bool) \<Rightarrow> (nat \<Rightarrow> char list \<Rightarrow> int + nat) \<Rightarrow> nat \<Rightarrow> Buffer \<Rightarrow> MultiplexServer \<Rightarrow> (Buffer \<times> MultiplexServer) result option" where
  "mt_onClientMessage nd il wr i buf s =
     (case mux_context s i of
        Some cid \<Rightarrow> mt_sendBackendBuffer nd il wr cid buf s
      | None \<Rightarrow> Some (Inr (retrieveAll buf, s)))"

definition mt_onBackendConnection :: "bool \<Rightarrow> (nat \<Rightarrow> bool) \<Rightarrow> nat \<Rightarrow> MultiplexServer \<Rightarrow> MultiplexServer result" where
  "mt_onBackendConnection nd il k s =
     (if isConnected (mux_conns s k) then
        cassert nd (availIds s = []) (Inr (s\<lparr>backendConn := Some k, availIds := availIds s @ [1..kMaxConns]\<rparr>))
      else
        bindR (foldR (\<lambda>p. on_conn (snd p) (tc_shutdown (il (snd p)))) (clientConns s) (s\<lparr>backendConn := None\<rparr>))
          (\<lambda>s1. Inr (s1\<lparr>clientConns := [], availIds := []\<rparr>)))"

definition mt_doCommand :: "(nat \<Rightarrow> bool) \<Rightarrow> string \<Rightarrow> MultiplexServer \<Rightarrow> MultiplexServer result" where
  "mt_doCommand il cmd s =
     (if length kDisconnectCmd < length cmd \<and> take (length kDisconnectCmd) cmd = kDisconnectCmd then
        (case mt_lookup (atoi (drop (length kDisconnectCmd) cmd)) s of
           Some i \<Rightarrow> on_conn i (tc_shutdown (il i)) s
         | None \<Rightarrow> Inr s)
      else Inr s)"

text \<open>
  The data go out through \<open>send(ptr, len)\<close>: in the connection's own thread they are read at once, in another
  thread the pointer into the buffer is handed over.
\<close>

definition mt_send_from ::
  "bool \<Rightarrow> bool \<Rightarrow> (char list \<Rightarrow> int + nat) \<Rightarrow> Buffer \<Rightarrow> nat \<Rightarrow> TcpConnection \<Rightarrow> TcpConnection result" where
  "mt_send_from nd il wr buf len c =
     (if il then send_from nd wr buf len c
      else send_ptr nd False wr (\<lambda>_ _. []) (peek buf + kHeaderLen) len c)"

definition mt_backend_packet ::
  "bool \<Rightarrow> (nat \<Rightarrow> bool) \<Rightarrow> (nat \<Rightarrow> char list \<Rightarrow> int + nat) \<Rightarrow> Buffer \<Rightarrow> nat \<Rightarrow> int \<Rightarrow> MultiplexServer \<Rightarrow> MultiplexServer result" where
  "mt_backend_packet nd il wr buf len cid s =
     (if cid \<noteq> 0 then
        (case mt_lookup cid s of
           Some i \<Rightarrow> on_conn i (mt_send_from nd (il i) (wr i) buf len) s
         | None \<Rightarrow> Inr s)
      else if vector_max < len then Inl LengthError
      else bindR (mem_read buf (peek buf + kHeaderLen) len) (\<lambda>cmd. mt_doCommand il cmd s))"

partial_function (option) mt_onBackendMessage ::
  "bool \<Rightarrow> (nat \<Rightarrow> bool) \<Rightarrow> (nat \<Rightarrow> char list \<Rightarrow> int + nat) \<Rightarrow> Buffer \<Rightarrow> MultiplexServer \<Rightarrow> (Buffer \<times> MultiplexServer) result option" where
  "mt_onBackendMessage nd il wr buf s =
     (if kHeaderLen < readableBytes buf then
        (case mem_read buf (peek buf) kHeaderLen of
           Inl f \<Rightarrow> Some (Inl f)
         | Inr h \<Rightarrow>
             let len = char_size (h ! 0) in
             if readableBytes buf < uadd64 len kHeaderLen then Some (Inr (buf, s))
             else
               let cid = char_int (h ! 1) OR push_bit 8 (char_int (h ! 2)) in
               (case bindR (mt_backend_packet nd il wr buf len cid s) (\<lambda>s1.
                     bindR (retrieve nd (uadd64 len kHeaderLen) buf) (\<lambda>buf1. Inr (buf1, s1))) of
                  Inl f \<Rightarrow> Some (Inl f)
                | Inr (buf1, s1) \<Rightarrow> mt_onBackendMessage nd il wr buf1 s1))
      else Some (Inr (buf, s)))"

subsection \<open>Interleavings\<close>

text \<open>
  \<open>pc i\<close> is how far the handler of connection \<open>i\<close> has come: a number was taken, a packet waits for the copy of the
  backend pointer, the pointer was copied, the number is to be given back, the connection is done.
\<close>

datatype mt_next = ThenIdle | ThenRelease int

datatype mt_pc =
    Idle
  | Taken int
  | Copy Buffer mt_next
  | Send "nat option" Buffer mt_next
  | Release int
  | Closed

record mt_state =
  shared :: MultiplexServer
  pc :: "nat \<Rightarrow> mt_pc"

fun after :: "mt_next \<Rightarrow> mt_pc" where
  "after ThenIdle = Idle"
| "after (ThenRelease cid) = Release cid"

inductive mt_step ::
  "bool \<Rightarrow> (nat \<Rightarrow> bool) \<Rightarrow> (nat \<Rightarrow> char list \<Rightarrow> int + nat) \<Rightarrow> (nat \<Rightarrow> string) \<Rightarrow> mt_state \<Rightarrow> mt_state \<Rightarrow> bool"
  for nd :: bool and il :: "nat \<Rightarrow> bool" and wr :: "nat \<Rightarrow> char list \<Rightarrow> int + nat" and ip :: "nat \<Rightarrow> string"
where
  MtLibrary: "mt_step nd il wr ip t (t\<lparr>shared := (shared t)\<lparr>mux_conns := cs\<rparr>\<rparr>)"
| MtTake: "pc t i = Idle \<Longrightarrow> isConnected (mux_conns (shared t) i) \<Longrightarrow> mux_context (shared t) i = None \<Longrightarrow>
    mt_take i (shared t) = (cid, s1) \<Longrightarrow> 0 \<le> cid \<Longrightarrow>
    mt_step nd il wr ip t (t\<lparr>shared := s1, pc := (pc t)(i := Taken cid)\<rparr>)"
| MtRefuse: "pc t i = Idle \<Longrightarrow> isConnected (mux_conns (shared t) i) \<Longrightarrow> mux_context (shared t) i = None \<Longrightarrow>
    mt_take i (shared t) = (cid, s1) \<Longrightarrow> cid < 0 \<Longrightarrow> on_conn i (tc_shutdown True) s1 = Inr s2 \<Longrightarrow>
    mt_step nd il wr ip t (t\<lparr>shared := s2\<rparr>)"
| MtContext: "pc t i = Taken cid \<Longrightarrow> mt_string_buffer nd 0 (conn_text cid (ip i) True) = Inr b \<Longrightarrow>
    mt_step nd il wr ip t (t\<lparr>shared := (shared t)\<lparr>mux_context := (mux_context (shared t))(i \<mapsto> cid)\<rparr>,
      pc := (pc t)(i := Copy b ThenIdle)\<rparr>)"
| MtPacket: "pc t i = Idle \<Longrightarrow> mux_context (shared t) i = Some cid \<Longrightarrow> mt_header nd cid buf = Inr b \<Longrightarrow>
    mt_step nd il wr ip t (t\<lparr>pc := (pc t)(i := Copy b ThenIdle)\<rparr>)"
| MtCopy: "pc t i = Copy b nx \<Longrightarrow>
    mt_step nd il wr ip t (t\<lparr>pc := (pc t)(i := Send (backendConn (shared t)) b nx)\<rparr>)"
| MtSend: "pc t i = Send bc b nx \<Longrightarrow> mt_send nd il wr bc b (shared t) = Inr (b', s') \<Longrightarrow>
    mt_step nd il wr ip t (t\<lparr>shared := s', pc := (pc t)(i := after nx)\<rparr>)"
| MtDown: "pc t i = Idle \<Longrightarrow> \<not> isConnected (mux_conns (shared t) i) \<Longrightarrow> mux_context (shared t) i = Some cid \<Longrightarrow>
    nd \<or> 0 < cid \<and> cid < kMaxConns \<Longrightarrow> mt_string_buffer nd 0 (conn_text cid (ip i) False) = Inr b \<Longrightarrow>
    mt_step nd il wr ip t (t\<lparr>pc := (pc t)(i := Copy b (ThenRelease cid))\<rparr>)"
| MtRelease: "pc t i = Release cid \<Longrightarrow> mt_release nd cid (shared t) = Inr s' \<Longrightarrow>
    mt_step nd il wr ip t (t\<lparr>shared := s', pc := (pc t)(i := Closed)\<rparr>)"
| MtBackendUp: "backendConn (shared t) = None \<Longrightarrow> isConnected (mux_conns (shared t) k) \<Longrightarrow>
    mt_onBackendConnection nd il k (shared t) = Inr s' \<Longrightarrow> mt_step nd il wr ip t (t\<lparr>shared := s'\<rparr>)"
| MtBackendDown: "\<not> isConnected (mux_conns (shared t) k) \<Longrightarrow>
    mt_onBackendConnection nd il k (shared t) = Inr s' \<Longrightarrow> mt_step nd il wr ip t (t\<lparr>shared := s'\<rparr>)"
| MtBackendMessage: "mt_onBackendMessage nd il wr buf (shared t) = Some (Inr (buf', s')) \<Longrightarrow>
    mt_step nd il wr ip t (t\<lparr>shared := s'\<rparr>)"

subsection \<open>Numbers under all interleavings\<close>

text \<open>
  As long as one backend connection lasts, a number is free or has one holder. \<open>held t i\<close> is the number that
  connection \<open>i\<close> holds: the one its handler has just taken or the one noted in its context, until it was given back;
  \<open>releasing\<close> is the number the running handler will give back.
\<close>

fun held_by :: "mt_pc \<Rightarrow> int option \<Rightarrow> int option" where
  "held_by (Taken cid) _ = Some cid"
| "held_by Closed _ = None"
| "held_by _ ctx = ctx"

fun releasing :: "mt_pc \<Rightarrow> int option" where
  "releasing (Copy _ (ThenRelease cid)) = Some cid"
| "releasing (Send _ _ (ThenRelease cid)) = Some cid"
| "releasing (Release cid) = Some cid"
| "releasing _ = None"

definition held :: "mt_state \<Rightarrow> nat \<Rightarrow> int option" where
  "held t i = held_by (pc t i) (mux_context (shared t) i)"

definition ids_inv :: "MultiplexServer \<Rightarrow> bool" where
  "ids_inv s \<longleftrightarrow> omap (clientConns s) \<and> distinct (availIds s) \<and> set (availIds s) \<inter> dom (map_of (clientConns s)) = {} \<and>
     set (availIds s) \<union> dom (map_of (clientConns s)) = {1..kMaxConns}"

definition mt_inv :: "mt_state \<Rightarrow> bool" where
  "mt_inv t \<longleftrightarrow> ids_inv (shared t) \<and> (\<forall>cid i. map_of (clientConns (shared t)) cid = Some i \<longleftrightarrow> held t i = Some cid) \<and>
     (\<forall>i cid. releasing (pc t i) = Some cid \<longrightarrow> mux_context (shared t) i = Some cid)"

definition mt_session ::
  "bool \<Rightarrow> (nat \<Rightarrow> bool) \<Rightarrow> (nat \<Rightarrow> char list \<Rightarrow> int + nat) \<Rightarrow> (nat \<Rightarrow> string) \<Rightarrow> mt_state \<Rightarrow> mt_state \<Rightarrow> bool" where
  "mt_session nd il wr ip t t' \<longleftrightarrow>
     mt_step nd il wr ip t t' \<and> backendConn (shared t) \<noteq> None \<and> backendConn (shared t') \<noteq> None"

lemma ids_inv_only: "ids_inv s \<Longrightarrow> only_conns s s' \<Longrightarrow> ids_inv s'"
  by (simp add: ids_inv_def only_conns_def)

lemma mt_inv_only:
  assumes "mt_inv t" "only_conns (shared t) s'"
    and "held_by (q i) (mux_context s' i) = held t i"
    and "\<And>cid. releasing (q i) = Some cid \<Longrightarrow> mux_context s' i = Some cid"
    and "\<And>j. j \<noteq> i \<Longrightarrow> q j = pc t j"
  shows "mt_inv (t\<lparr>shared := s', pc := q\<rparr>)"
proof -
  have s': "clientConns s' = clientConns (shared t)" "mux_context s' = mux_context (shared t)"
    using assms(2) by (simp_all add: only_conns_def)
  have h: "held (t\<lparr>shared := s', pc := q\<rparr>) j = held t j" for j
    using assms(3,5) s' by (cases "j = i") (simp_all add: held_def)
  have r: "mux_context s' j = Some cid" if "releasing (q j) = Some cid" for j cid
    using that assms(1,4,5) s' by (cases "j = i") (simp_all add: mt_inv_def)
  have "ids_inv s'" using assms(1,2) ids_inv_only unfolding mt_inv_def by blast
  then show ?thesis using assms(1) s' h r unfolding mt_inv_def by simp
qed

lemma mt_inv_shared: "mt_inv t \<Longrightarrow> only_conns (shared t) s' \<Longrightarrow> mt_inv (t\<lparr>shared := s'\<rparr>)"
  using mt_inv_only [of t s' "pc t" undefined] by (auto simp: mt_inv_def held_def only_conns_def)

lemma mt_inv_pc:
  assumes "mt_inv t" "held_by p (mux_context (shared t) i) = held t i"
    and "\<And>cid. releasing p = Some cid \<Longrightarrow> mux_context (shared t) i = Some cid"
  shows "mt_inv (t\<lparr>pc := (pc t)(i := p)\<rparr>)"
  using mt_inv_only [of t "shared t" "(pc t)(i := p)" i] assms by (simp add: only_conns_def)

lemma mt_take_inv:
  assumes "ids_inv s" "mt_take i s = (cid, s1)" "0 \<le> cid"
  shows "ids_inv s1 \<and> map_of (clientConns s) cid = None \<and> map_of (clientConns s1) = (map_of (clientConns s))(cid \<mapsto> i) \<and>
    mux_context s1 = mux_context s"
proof -
  obtain ids where a: "availIds s = cid # ids" "s1 = s\<lparr>availIds := ids, clientConns := omap_set cid i (clientConns s)\<rparr>"
    using assms(2,3) by (auto simp: mt_take_def split: list.splits)
  have om: "omap (clientConns s)" using assms(1) by (simp add: ids_inv_def)
  have new: "map_of (clientConns s) cid = None" using assms(1) a(1) by (auto simp: ids_inv_def)
  show ?thesis using assms(1) new a omap.put_wf [OF om] omap.dom_put [OF om] omap.look_put [OF om]
    by (auto simp: ids_inv_def)
qed

lemma mt_take_none:
  assumes "mt_take i s = (cid, s1)" "cid < 0" "ids_inv s"
  shows "s1 = s"
proof (cases "availIds s")
  case (Cons c ids)
  then have "c \<in> {1..kMaxConns}" using assms(3) unfolding ids_inv_def by auto
  with Cons assms(1,2) show ?thesis by (simp add: mt_take_def)
qed (use assms in \<open>simp add: mt_take_def\<close>)

lemma mt_release_inv:
  assumes "ids_inv s" "mt_release nd cid s = Inr s'" "backendConn s \<noteq> None" "map_of (clientConns s) cid = Some i"
  shows "ids_inv s' \<and> map_of (clientConns s') = (map_of (clientConns s))(cid := None) \<and> mux_context s' = mux_context s"
proof -
  have om: "omap (clientConns s)" using assms(1) by (simp add: ids_inv_def)
  have s': "s' = s\<lparr>availIds := availIds s @ [cid], clientConns := omap_erase cid (clientConns s)\<rparr>"
    using assms(2,3) by (simp add: mt_release_def)
  have cid: "cid \<in> dom (map_of (clientConns s))" using assms(4) by blast
  show ?thesis unfolding s'
    using assms(1) cid omap.del_wf [OF om] omap.dom_del [OF om] omap.look_del [OF om]
    by (auto simp: ids_inv_def)
qed

lemma mt_send_only: "mt_send nd il wr bc b s = Inr (b', s') \<Longrightarrow> only_conns s s'"
  by (auto simp: mt_send_def split: option.splits)

lemma mt_backend_packet_only: "mt_backend_packet nd il wr buf len cid s = Inr s' \<Longrightarrow> only_conns s s'"
  by (auto simp: mt_backend_packet_def mt_doCommand_def split: if_splits option.splits dest: on_conn_only)

lemma mt_onBackendMessage_only:
  assumes "mt_onBackendMessage nd il wr buf s = Some y"
  shows "\<forall>b s'. y = Inr (b, s') \<longrightarrow> only_conns s s'"
proof (rule mt_onBackendMessage.raw_induct [where P = "\<lambda>nd il wr buf s y. \<forall>b s'. y = Inr (b, s') \<longrightarrow> only_conns s s'", OF _ assms], goal_cases)
  case (1 f nd il wr buf s y)
  note IH = 1(1)
  show ?case using 1(2)
    by (auto simp: Let_def split: if_splits sum.splits)
      (meson IH only_conns_trans mt_backend_packet_only)
qed

lemma held_by_after: "releasing (Send bc b nx) = releasing (after nx) \<and> held_by (after nx) ctx = held_by (Send bc b nx) ctx"
  by (cases nx) simp_all

lemma mt_down_backend:
  "\<not> isConnected (mux_conns s k) \<Longrightarrow> mt_onBackendConnection nd il k s = Inr s' \<Longrightarrow> backendConn s' = None"
proof -
  have "only_conns a b" if "foldR (\<lambda>p. on_conn (snd p) (tc_shutdown (il (snd p)))) ps a = Inr b" for ps a b
    using that
  proof (induction ps arbitrary: a)
    case (Cons p ps)
    then show ?case by auto (meson on_conn_only only_conns_trans)
  qed simp
  then show "\<not> isConnected (mux_conns s k) \<Longrightarrow> mt_onBackendConnection nd il k s = Inr s' \<Longrightarrow> backendConn s' = None"
    by (fastforce simp: mt_onBackendConnection_def only_conns_def)
qed

lemma mt_session_inv:
  assumes inv: "mt_inv t" and step: "mt_session nd il wr ip t t'"
  shows "mt_inv t'"
proof -
  have st: "mt_step nd il wr ip t t'" and up: "backendConn (shared t) \<noteq> None" "backendConn (shared t') \<noteq> None"
    using step by (auto simp: mt_session_def)
  from st up show ?thesis
  proof cases
    case (MtLibrary cs)
    then show ?thesis using mt_inv_shared [OF inv] by (simp add: only_conns_def)
  next
    case (MtTake i cid s1)
    then have s1: "ids_inv s1" "map_of (clientConns (shared t)) cid = None"
        "map_of (clientConns s1) = (map_of (clientConns (shared t)))(cid \<mapsto> i)" "mux_context s1 = mux_context (shared t)"
      using mt_take_inv inv unfolding mt_inv_def by blast+
    have "held t i = None" using MtTake by (simp add: held_def)
    with s1 inv MtTake(1) show ?thesis unfolding mt_inv_def held_def by (auto; metis option.simps)
  next
    case (MtRefuse i cid s1 s2)
    then have "only_conns (shared t) s2" using mt_take_none inv on_conn_only unfolding mt_inv_def by blast
    then show ?thesis using MtRefuse(1) mt_inv_shared [OF inv] by simp
  next
    case (MtContext i cid b)
    have "held t' j = held t j" for j using MtContext by (simp add: held_def)
    moreover have "releasing (pc t i) = None" using MtContext by simp
    ultimately show ?thesis using inv MtContext by (simp add: mt_inv_def ids_inv_def)
  next
    case (MtPacket i cid buf b)
    then show ?thesis using mt_inv_pc [OF inv, of "Copy b ThenIdle" i] by (simp add: held_def)
  next
    case (MtCopy i b nx)
    then have "mux_context (shared t) i = Some cid" if "releasing (Send bc b nx) = Some cid" for cid bc
      using that inv by (cases nx) (auto simp: mt_inv_def)
    then show ?thesis using MtCopy mt_inv_pc [OF inv, of "Send (backendConn (shared t)) b nx" i] by (simp add: held_def)
  next
    case (MtSend i bc b nx b' s')
    then have o: "only_conns (shared t) s'" using mt_send_only by blast
    then have c: "mux_context s' = mux_context (shared t)" by (simp add: only_conns_def)
    have "releasing (after nx) = Some cid \<Longrightarrow> mux_context s' i = Some cid" for cid
      using inv MtSend(2) held_by_after [of bc b nx] c unfolding mt_inv_def by metis
    then show ?thesis using mt_inv_only [OF inv o, of "(pc t)(i := after nx)" i] MtSend(1,2) held_by_after [of bc b nx] c
      by (simp add: held_def)
  next
    case (MtDown i cid b)
    then show ?thesis using mt_inv_pc [OF inv, of "Copy b (ThenRelease cid)" i] by (simp add: held_def)
  next
    case (MtRelease i cid s')
    have "held t i = Some cid" using inv MtRelease(2) by (simp add: mt_inv_def held_def)
    then have m: "map_of (clientConns (shared t)) cid = Some i" using inv by (simp add: mt_inv_def)
    then have s': "ids_inv s'" "map_of (clientConns s') = (map_of (clientConns (shared t)))(cid := None)"
        "mux_context s' = mux_context (shared t)"
      using mt_release_inv MtRelease(3) up(1) inv unfolding mt_inv_def by blast+
    show ?thesis using s' inv m MtRelease(1) unfolding mt_inv_def held_def by (auto; metis option.inject)
  next
    case (MtBackendUp k s')
    then show ?thesis using up by simp
  next
    case (MtBackendDown k s')
    then show ?thesis using up mt_down_backend by fastforce
  next
    case (MtBackendMessage buf buf' s')
    then show ?thesis using mt_onBackendMessage_only mt_inv_shared [OF inv] by blast
  qed
qed


definition sample_mt :: mt_state where
  "sample_mt = \<lparr>shared = sample_mux, pc = (\<lambda>_. Idle)\<rparr>"

lemma sample_mt_up:
  "mt_onBackendConnection False (\<lambda>_. False) 0 (shared sample_mt) =
     Inr (sample_mux\<lparr>backendConn := Some 0, availIds := [1..kMaxConns]\<rparr>)"
  by (simp add: mt_onBackendConnection_def sample_mt_def sample_mux_def isConnected_def)


lemma mt_copy_send:
  assumes "pc u i = Copy b nx" "mt_send nd il wr (backendConn (shared u)) b (shared u) = Inr (b', s)"
  shows "(mt_step nd il wr ip)\<^sup>*\<^sup>* u (u\<lparr>shared := s, pc := (pc u)(i := after nx)\<rparr>)"
proof -
  let ?v = "u\<lparr>pc := (pc u)(i := Send (backendConn (shared u)) b nx)\<rparr>"
  have "mt_step nd il wr ip u ?v" by (rule MtCopy [OF assms(1)])
  moreover have "mt_step nd il wr ip ?v (u\<lparr>shared := s, pc := (pc u)(i := after nx)\<rparr>)"
    using MtSend [of ?v i "backendConn (shared u)" b nx nd il wr b' s ip] assms(2) by simp
  ultimately show ?thesis by (meson converse_rtranclp_into_rtranclp r_into_rtranclp)
qed

lemma mt_accept_run:
  assumes "pc t i = Idle" "isConnected (mux_conns (shared t) i)" "mux_context (shared t) i = None"
    and "mt_take i (shared t) = (cid, s1)" "0 \<le> cid"
    and "mt_sendBackendString nd il wr 0 (conn_text cid (ip i) True) (s1\<lparr>mux_context := (mux_context s1)(i \<mapsto> cid)\<rparr>) = Inr s'"
  shows "(mt_step nd il wr ip)\<^sup>*\<^sup>* t (t\<lparr>shared := s', pc := (pc t)(i := Idle)\<rparr>)"
proof -
  let ?R = "mt_step nd il wr ip"
  define s2 where "s2 = s1\<lparr>mux_context := (mux_context s1)(i \<mapsto> cid)\<rparr>"
  obtain b b' where b: "mt_string_buffer nd 0 (conn_text cid (ip i) True) = Inr b" "mt_send nd il wr (backendConn s2) b s2 = Inr (b', s')"
    using assms(6) by (auto simp: mt_sendBackendString_def s2_def)
  define t1 where "t1 = t\<lparr>shared := s1, pc := (pc t)(i := Taken cid)\<rparr>"
  define t2 where "t2 = t1\<lparr>shared := s2, pc := (pc t1)(i := Copy b ThenIdle)\<rparr>"
  have "?R t t1" unfolding t1_def by (rule MtTake [OF assms(1-5)])
  moreover have "?R t1 t2" using MtContext [where t = t1 and i = i and cid = cid and ip = ip, OF _ b(1)] by (simp add: t1_def t2_def s2_def)
  moreover have "?R\<^sup>*\<^sup>* t2 (t2\<lparr>shared := s', pc := (pc t2)(i := after ThenIdle)\<rparr>)"
    using mt_copy_send [of t2 i b ThenIdle nd il wr b' s'] b(2) by (simp add: t2_def)
  moreover have "t2\<lparr>shared := s', pc := (pc t2)(i := after ThenIdle)\<rparr> = t\<lparr>shared := s', pc := (pc t)(i := Idle)\<rparr>"
    by (simp add: t1_def t2_def)
  ultimately show ?thesis by (metis converse_rtranclp_into_rtranclp)
qed

lemma mt_leave_run:
  assumes "pc t i = Idle" "\<not> isConnected (mux_conns (shared t) i)" "mux_context (shared t) i = Some cid"
    and "mt_onClientConnection nd il wr ip i (shared t) = Inr s'"
  shows "(mt_step nd il wr ip)\<^sup>*\<^sup>* t (t\<lparr>shared := s', pc := (pc t)(i := Closed)\<rparr>)"
proof -
  let ?R = "mt_step nd il wr ip"
  obtain b b' s1 where b: "nd \<or> 0 < cid \<and> cid < kMaxConns" "mt_string_buffer nd 0 (conn_text cid (ip i) False) = Inr b"
      "mt_send nd il wr (backendConn (shared t)) b (shared t) = Inr (b', s1)" "mt_release nd cid s1 = Inr s'"
    using assms by (auto simp: mt_onClientConnection_def mt_sendBackendString_def cassert_Inr_iff)
  define t1 where "t1 = t\<lparr>pc := (pc t)(i := Copy b (ThenRelease cid))\<rparr>"
  define t2 where "t2 = t1\<lparr>shared := s1, pc := (pc t1)(i := Release cid)\<rparr>"
  have "?R t t1" unfolding t1_def by (rule MtDown [where ip = ip, OF assms(1-3) b(1,2)])
  moreover have "?R\<^sup>*\<^sup>* t1 t2" using mt_copy_send [of t1 i b "ThenRelease cid" nd il wr b' s1] b(3) by (simp add: t1_def t2_def)
  moreover have "?R t2 (t2\<lparr>shared := s', pc := (pc t2)(i := Closed)\<rparr>)" using MtRelease [of t2 i cid nd s'] b(4) by (simp add: t2_def)
  moreover have "t2\<lparr>shared := s', pc := (pc t2)(i := Closed)\<rparr> = t\<lparr>shared := s', pc := (pc t)(i := Closed)\<rparr>" by (simp add: t1_def t2_def)
  ultimately show ?thesis by (metis converse_rtranclp_into_rtranclp rtranclp.rtrancl_into_rtrancl)
qed

text \<open>
  The functional model and the interleavings agree. \<open>onClientConnection\<close> run without interruption is a sequence of the steps of
  its critical sections and the actions between them.
\<close>

theorem mt_onClientConnection_is_a_run:
  assumes "pc t i = Idle" "isConnected (mux_conns (shared t) i) \<Longrightarrow> mux_context (shared t) i = None"
    and "mt_onClientConnection nd il wr ip i (shared t) = Inr s'"
  shows "\<exists>p. (mt_step nd il wr ip)\<^sup>*\<^sup>* t (t\<lparr>shared := s', pc := (pc t)(i := p)\<rparr>)"
proof -
  obtain cid s1 where take: "mt_take i (shared t) = (cid, s1)" by fastforce
  consider (refused) "isConnected (mux_conns (shared t) i)" "mux_context (shared t) i = None" "cid < 0"
    | (accepted) "isConnected (mux_conns (shared t) i)" "mux_context (shared t) i = None" "0 \<le> cid"
    | (none) "\<not> isConnected (mux_conns (shared t) i)" "mux_context (shared t) i = None"
    | (down) n where "\<not> isConnected (mux_conns (shared t) i)" "mux_context (shared t) i = Some n"
    using assms(2) by (cases "isConnected (mux_conns (shared t) i)"; cases "mux_context (shared t) i"; linarith?) (simp_all; linarith?)
  then show ?thesis
  proof cases
    case refused
    then have "mt_step nd il wr ip t (t\<lparr>shared := s'\<rparr>)"
      using MtRefuse [OF assms(1) refused(1,2) take refused(3)] assms(3) take by (simp add: mt_onClientConnection_def)
    moreover have "t\<lparr>shared := s'\<rparr> = t\<lparr>shared := s', pc := (pc t)(i := pc t i)\<rparr>" by simp
    ultimately show ?thesis by (metis r_into_rtranclp)
  next
    case accepted
    then have "mt_sendBackendString nd il wr 0 (conn_text cid (ip i) True) (s1\<lparr>mux_context := (mux_context s1)(i \<mapsto> cid)\<rparr>) = Inr s'"
      using assms(3) take by (simp add: mt_onClientConnection_def)
    from mt_accept_run [where ip = ip, OF assms(1) accepted(1,2) take accepted(3) this] show ?thesis by blast
  next
    case none
    then have "t\<lparr>shared := s', pc := (pc t)(i := pc t i)\<rparr> = t" using assms(3) by (simp add: mt_onClientConnection_def)
    then show ?thesis by (metis rtranclp.rtrancl_refl)
  next
    case down
    then show ?thesis using mt_leave_run [OF assms(1) down assms(3)] by blast
  qed
qed

theorem mt_onClientConnection_is_a_run_witness:
  "\<exists>p. (mt_step False (\<lambda>_. True) (\<lambda>_ d. Inr (length d)) (\<lambda>_. ''1.2.3.4:5''))\<^sup>*\<^sup>*
     (sample_mt\<lparr>shared := sample_mux\<lparr>mux_conns := (\<lambda>_. setState kDisconnected (sample_conn False []))\<rparr>\<rparr>)
     (sample_mt\<lparr>shared := sample_mux\<lparr>mux_conns := (\<lambda>_. setState kDisconnected (sample_conn False []))\<rparr>, pc := (\<lambda>_. Idle)(9 := p)\<rparr>)"
  using mt_onClientConnection_is_a_run [of "sample_mt\<lparr>shared := sample_mux\<lparr>mux_conns := (\<lambda>_. setState kDisconnected (sample_conn False []))\<rparr>\<rparr>" 9
      False "\<lambda>_. True" "\<lambda>_ d. Inr (length d)" "\<lambda>_. ''1.2.3.4:5''"]
  by (simp add: mt_onClientConnection_def sample_mt_def sample_mux_def isConnected_def setState_def)

text \<open>
  Data for a client of another thread are read after they were given up. \<open>onBackendMessage\<close> hands the client's thread a pointer into
  the buffer and then retrieves the packet. When the next packet has arrived in the buffer before that thread runs the functor, the
  client gets the data of that packet, whoever it was meant for, and not its own.
\<close>

theorem mt_pointer_outlives_packet:
  assumes "Buffer_inv buf" "readIndex buf = kCheapPrependSize" "Buffer_content buf = packet cid d" "short_packet (cid, d)"
    and "map_of (clientConns s) cid = Some i" "\<not> il i" "idle_conn (mux_conns s i)" "\<And>x. wr i x = Inr (length x)"
    and "length d2 = length d"
  shows "\<exists>buf1 buf2 s1 p c. mt_onBackendMessage nd il wr buf s = Some (Inr (buf1, s1)) \<and>
     functors (mux_conns s1 i) = functors (mux_conns s i) @ [FSendInLoop p (length d)] \<and> wire (mux_conns s1 i) = wire (mux_conns s i) \<and>
     Buffer_append nd (packet cid2 d2) buf1 = Inr buf2 \<and>
     run_conn_functor nd (wr i) (\<lambda>p n. slice p (p + n) (buffer buf2)) ccb clcb wcb hcb (FSendInLoop p (length d)) (mux_conns s1 i) = Inr c \<and>
     wire c = wire (mux_conns s i) @ d2"
proof -
  let ?p = "kCheapPrependSize + 3"
  let ?c = "post (FSendInLoop ?p (length d)) (mux_conns s i)"
  define s1 where "s1 = s\<lparr>mux_conns := (mux_conns s)(i := ?c)\<rparr>"
  have cid: "cid \<in> {0..kMaxConns}" "cid \<noteq> 0" "0 < length d" "length d < 128" using assms(4) by (auto simp: short_packet_def)
  have n: "readableBytes buf = 3 + length d" using Buffer_sizes(3) [OF assms(1)] assms(3) by (simp add: packet_def)
  have h: "mem_read buf (peek buf) kHeaderLen = Inr (packet_header (length d) cid)"
    using mem_read_content [OF assms(1), of 3] assms(3) n by (simp add: packet_def peek_def kHeaderLen_def)
  have r: "retrieve nd (length d + 3) buf = Inr (retrieveAll buf)" using n by (simp add: retrieve_def)
  have "mt_backend_packet nd il wr buf (length d) cid s = Inr s1"
    using cid(2) assms(2,5,6,7) by (simp add: mt_backend_packet_def mt_lookup_def on_conn_def mt_send_from_def send_ptr_def
        idle_conn_def s1_def peek_def kHeaderLen_def)
  then have "mt_onBackendMessage nd il wr buf s = mt_onBackendMessage nd il wr (retrieveAll buf) s1"
    using h n r cid header_id [OF cid(1)] char_size_short [OF cid(4)]
    by (subst mt_onBackendMessage.simps) (simp add: kHeaderLen_def packet_header_def Let_def)
  also have "\<dots> = Some (Inr (retrieveAll buf, s1))"
    by (subst mt_onBackendMessage.simps) (simp add: retrieveAll_def readableBytes_def kHeaderLen_def)
  finally have m: "mt_onBackendMessage nd il wr buf s = Some (Inr (retrieveAll buf, s1))" .
  have "writeIndex (retrieveAll buf) + length (packet cid2 d2) \<le> length (buffer (retrieveAll buf))"
    using assms(1,2,9) n Buffer_sizes(1) [OF assms(1)] unfolding Buffer_inv_def by (simp add: retrieveAll_def packet_def kCheapPrependSize_def) linarith
  then obtain b2 where b2: "Buffer_append nd (packet cid2 d2) (retrieveAll buf) = Inr b2" "Buffer_inv b2" "Buffer_content b2 = packet cid2 d2"
    using Buffer_append_ok [OF retrieveAll_spec(1) [OF assms(1)] append_room_fits, of "packet cid2 d2" nd] retrieveAll_spec(2) by auto
  have ri: "readIndex b2 = kCheapPrependSize" using Buffer_append_readIndex [OF b2(1)] by (simp add: retrieveAll_def)
  have "mem_read b2 (readIndex b2 + 3) (length d) = Inr d2"
    using mem_read_offset [OF b2(2), of 3 "length d"] b2(3) Buffer_sizes(3) [OF b2(2)] assms(9) by (simp add: packet_def)
  then have d2: "slice ?p (?p + length d) (buffer b2) = d2" using ri by (simp add: mem_read_def split: if_splits)
  have "idle_conn ?c" using assms(7) by (simp add: idle_conn_def)
  then obtain c where "sendInLoop nd True (wr i) d2 ?c = Inr c" "wire c = wire ?c @ d2"
    using sendInLoop_idle_all [of ?c "wr i" nd d2, OF _ assms(8)] by blast
  with m b2(1) d2 show ?thesis
    by (intro exI [of _ "retrieveAll buf"] exI [of _ b2] exI [of _ s1] exI [of _ ?p] exI [of _ c])
      (simp add: run_conn_functor_def s1_def post_def)
qed

theorem mt_pointer_outlives_packet_witness:
  "\<exists>buf1 buf2 s1 p c. mt_onBackendMessage False (\<lambda>_. False) (\<lambda>_ d. Inr (length d)) (sample_buffer (packet 3 ''ab''))
       (sample_mux\<lparr>backendConn := Some 0, clientConns := [(3, 5)]\<rparr>) = Some (Inr (buf1, s1)) \<and>
     functors (mux_conns s1 5) = [FSendInLoop p 2] \<and> Buffer_append False (packet 4 ''xy'') buf1 = Inr buf2 \<and>
     run_conn_functor False (\<lambda>d. Inr (length d)) (\<lambda>p n. slice p (p + n) (buffer buf2)) Inr Inr Inr (\<lambda>_. Inr) (FSendInLoop p 2) (mux_conns s1 5) = Inr c \<and>
     wire c = ''xy''"
proof -
  let ?s = "sample_mux\<lparr>backendConn := Some 0, clientConns := [(3, 5)]\<rparr>"
  have 1: "Buffer_inv (sample_buffer (packet 3 ''ab''))" "readIndex (sample_buffer (packet 3 ''ab'')) = kCheapPrependSize"
    "Buffer_content (sample_buffer (packet 3 ''ab'')) = packet 3 ''ab''"
    by (simp_all add: sample_buffer_facts packet_def) (simp add: sample_buffer_def kCheapPrependSize_def)
  have 2: "short_packet (3, ''ab'')" "map_of (clientConns ?s) 3 = Some 5" "idle_conn (mux_conns ?s 5)"
    "functors (mux_conns ?s 5) = []" "wire (mux_conns ?s 5) = []"
    by (simp_all add: short_packet_def kMaxConns_def sample_mux_def idle_sample)
  have 3: "length ''xy'' = length ''ab''" "\<not> (\<lambda>_. False) (5 :: nat)" "length ''ab'' = 2" by simp_all
  from mt_pointer_outlives_packet [where wr = "\<lambda>_ d. Inr (length d)" and nd = False and ccb = Inr and clcb = Inr and wcb = Inr
      and hcb = "\<lambda>_. Inr" and ?cid2.0 = 4 and il = "\<lambda>_. False", OF 1 2(1-2) 3(2) 2(3) refl 3(1)]
  show ?thesis unfolding 2(4,5) 3(3) append_Nil by blast
qed

end
