(* ===== verification/Arale_Socks.thy ===== *)
theory Arale_Socks
  imports Arale_TcpConnection Arale_OrderedSet "HOL-Library.List_Lexorder" "HOL-Library.Char_ord"
begin

section \<open>Relays (\<open>arale/examples/socks4a\<close>)\<close>

text \<open>
  A tunnel joins the connection of a client of the relay (\<open>serverConnection_\<close>) to a connection the relay opens itself (that of
  \<open>client_\<close>). \<open>TcpRelay.cc\<close> opens it to a fixed address, \<open>Balancer.cc\<close> to the next of several, \<open>Socks4a.cc\<close> to the address
  the client asks for. Connections are numbers into \<open>rl_conns\<close>, \<open>rl_context i\<close> is the context of connection \<open>i\<close>;
  tunnels are kept by the name of the client's connection. \<open>calls\<close> are the calls on \<open>client_\<close>, a \<open>TcpClient\<close>. All
  of it runs in the thread of the loop; \<open>wr i\<close> is the \<open>write\<close> on the socket of connection \<open>i\<close>.
\<close>

subsection \<open>Tunnels (\<open>Tunnel.h\<close>)\<close>

datatype client_call = CallConnect | CallDisconnect

record Tunnel =
  tn_server :: "nat option"
  tn_addr :: sockaddr
  tn_callbacks :: bool
  calls :: "client_call list"

record relay =
  rl_conns :: "nat \<Rightarrow> TcpConnection"
  rl_context :: "nat \<Rightarrow> nat option"
  tunnels :: "(string \<times> Tunnel) list"
  nodelay :: "nat list"

definition Tunnel_new :: "sockaddr \<Rightarrow> nat \<Rightarrow> Tunnel" where
  "Tunnel_new serverAddr i = \<lparr>tn_server = Some i, tn_addr = serverAddr, tn_callbacks = False, calls = []\<rparr>"

definition tn_connect :: "Tunnel \<Rightarrow> Tunnel" where
  "tn_connect t = t\<lparr>calls := calls t @ [CallConnect]\<rparr>"

definition tn_disconnect :: "Tunnel \<Rightarrow> Tunnel" where
  "tn_disconnect t = t\<lparr>calls := calls t @ [CallDisconnect]\<rparr>"

definition rl_on_conn :: "nat \<Rightarrow> (TcpConnection \<Rightarrow> TcpConnection result) \<Rightarrow> relay \<Rightarrow> relay result" where
  "rl_on_conn i f r = bindR (f (rl_conns r i)) (\<lambda>c. Inr (r\<lparr>rl_conns := (rl_conns r)(i := c)\<rparr>))"

definition tn_setup :: "Tunnel \<Rightarrow> relay \<Rightarrow> (Tunnel \<times> relay) result" where
  "tn_setup t r =
     (case tn_server t of
        None \<Rightarrow> Inl NullDeref
      | Some i \<Rightarrow>
          bindR (rl_on_conn i (\<lambda>c. Inr (setHighWaterMarkCallback (10 * 1024 * 1024) c)) r) (\<lambda>r1.
          Inr (t\<lparr>tn_callbacks := True\<rparr>, r1)))"

definition tn_teardown :: "Tunnel \<Rightarrow> relay \<Rightarrow> (Tunnel \<times> relay) result" where
  "tn_teardown t r =
     (let t1 = t\<lparr>tn_callbacks := False\<rparr> in
      case tn_server t1 of
        None \<Rightarrow> Inr (t1, r)
      | Some i \<Rightarrow>
          bindR (rl_on_conn i (tc_shutdown True) (r\<lparr>rl_context := (rl_context r)(i := None)\<rparr>)) (\<lambda>r1. Inr (t1, r1)))"

text \<open>\<open>send_input wr i j\<close>: connection \<open>j\<close> sends what is in the input buffer of connection \<open>i\<close>.\<close>

definition send_input :: "bool \<Rightarrow> (nat \<Rightarrow> char list \<Rightarrow> int + nat) \<Rightarrow> nat \<Rightarrow> nat \<Rightarrow> relay \<Rightarrow> relay result" where
  "send_input nd wr i j r =
     bindR (send_buffer nd True (wr j) (inputBuffer (rl_conns r i)) (rl_conns r j)) (\<lambda>(b, c).
     let r1 = r\<lparr>rl_conns := (rl_conns r)(j := c)\<rparr>
     in Inr (r1\<lparr>rl_conns := (rl_conns r1)(i := (rl_conns r1 i)\<lparr>inputBuffer := b\<rparr>)\<rparr>))"

definition onClientConneciont ::
  "bool \<Rightarrow> (nat \<Rightarrow> char list \<Rightarrow> int + nat) \<Rightarrow> nat \<Rightarrow> Tunnel \<Rightarrow> relay \<Rightarrow> (Tunnel \<times> relay) result" where
  "onClientConneciont nd wr j t r =
     (if isConnected (rl_conns r j) then
        bindR (rl_on_conn j (\<lambda>c. Inr (setHighWaterMarkCallback (10 * 1024 * 1024) c)) (r\<lparr>nodelay := nodelay r @ [j]\<rparr>)) (\<lambda>r1.
        case tn_server t of
          Some i \<Rightarrow>
            let r2 = r1\<lparr>rl_context := (rl_context r1)(i \<mapsto> j)\<rparr>
            in if 0 < readableBytes (inputBuffer (rl_conns r2 i))
               then bindR (send_input nd wr i j r2) (\<lambda>r3. Inr (t, r3)) else Inr (t, r2)
        | None \<Rightarrow> tn_teardown t r1)
      else tn_teardown t r)"

definition tn_onClientMessage ::
  "bool \<Rightarrow> (nat \<Rightarrow> char list \<Rightarrow> int + nat) \<Rightarrow> nat \<Rightarrow> Tunnel \<Rightarrow> relay \<Rightarrow> (Tunnel \<times> relay) result" where
  "tn_onClientMessage nd wr j t r =
     (case tn_server t of
        Some i \<Rightarrow> bindR (send_input nd wr j i r) (\<lambda>r1. Inr (t, r1))
      | None \<Rightarrow>
          Inr (tn_disconnect t, r\<lparr>rl_conns := (rl_conns r)(j := (rl_conns r j)\<lparr>inputBuffer := retrieveAll (inputBuffer (rl_conns r j))\<rparr>)\<rparr>))"

definition onHighWaterMarkWeak :: "Tunnel option \<Rightarrow> Tunnel option" where
  "onHighWaterMarkWeak weakTunnel = map_option tn_disconnect weakTunnel"

subsection \<open>The relay and the balancer (\<open>TcpRelay.cc\<close>, \<open>Balancer.cc\<close>)\<close>

definition open_tunnel :: "sockaddr \<Rightarrow> nat \<Rightarrow> relay \<Rightarrow> relay result" where
  "open_tunnel serverAddr i r =
     bindR (tn_setup (Tunnel_new serverAddr i) r) (\<lambda>(t, r1).
     Inr (r1\<lparr>tunnels := omap_set (tc_name (rl_conns r1 i)) (tn_connect t) (tunnels r1)\<rparr>))"

definition relay_onServerConnection :: "bool \<Rightarrow> sockaddr \<Rightarrow> nat \<Rightarrow> relay \<Rightarrow> relay result" where
  "relay_onServerConnection nd serverAddr i r =
     (let name = tc_name (rl_conns r i) in
      if isConnected (rl_conns r i) then
        cassert nd (map_of (tunnels r) name = None) (open_tunnel serverAddr i (r\<lparr>nodelay := nodelay r @ [i]\<rparr>))
      else
        (case map_of (tunnels r) name of
           None \<Rightarrow> Inl (if nd then NullDeref else AssertFailed)
         | Some t \<Rightarrow> Inr (r\<lparr>tunnels := omap_erase name (omap_set name (tn_disconnect t) (tunnels r))\<rparr>)))"

definition relay_onServerMessage :: "bool \<Rightarrow> (nat \<Rightarrow> char list \<Rightarrow> int + nat) \<Rightarrow> nat \<Rightarrow> relay \<Rightarrow> relay result" where
  "relay_onServerMessage nd wr i r =
     (case rl_context r i of Some j \<Rightarrow> send_input nd wr i j r | None \<Rightarrow> Inr r)"

text \<open>The next backend: a division by zero when there is none.\<close>

definition next_backend :: "sockaddr list \<Rightarrow> nat \<Rightarrow> (sockaddr \<times> nat) result" where
  "next_backend g_backends g_nextIndex =
     (if g_backends = [] then Inl Fatal
      else if g_nextIndex < length g_backends then Inr (g_backends ! g_nextIndex, (g_nextIndex + 1) mod length g_backends)
      else Inl OutOfBounds)"

definition balancer_onServerConnection ::
  "bool \<Rightarrow> sockaddr list \<Rightarrow> nat \<Rightarrow> nat \<Rightarrow> relay \<Rightarrow> (nat \<times> relay) result" where
  "balancer_onServerConnection nd g_backends g_nextIndex i r =
     (if isConnected (rl_conns r i) then
        cassert nd (map_of (tunnels r) (tc_name (rl_conns r i)) = None)
          (bindR (next_backend g_backends g_nextIndex) (\<lambda>(serverAddr, n).
           bindR (open_tunnel serverAddr i (r\<lparr>nodelay := nodelay r @ [i]\<rparr>)) (\<lambda>r1. Inr (n, r1))))
      else bindR (relay_onServerConnection nd bzero6 i r) (\<lambda>r1. Inr (g_nextIndex, r1)))"

definition balancer_onServerMessage :: "bool \<Rightarrow> (nat \<Rightarrow> char list \<Rightarrow> int + nat) \<Rightarrow> nat \<Rightarrow> relay \<Rightarrow> relay result" where
  "balancer_onServerMessage nd wr i r =
     (case rl_context r i of Some j \<Rightarrow> send_input nd wr i j r | None \<Rightarrow> Inr r)"

text \<open>The backends from the command line; \<open>None\<close> is the exit on an argument without a colon.\<close>

fun add_backends ::
  "byte_order \<Rightarrow> (string \<Rightarrow> char list option) \<Rightarrow> sockaddr \<Rightarrow> string list \<Rightarrow> sockaddr list \<Rightarrow> sockaddr list option" where
  "add_backends e pton6 garbage [] g_backends = Some g_backends"
| "add_backends e pton6 garbage (hostport # args) g_backends =
     (let colon = length (takeWhile (\<lambda>c. c \<noteq> CHR '':'') hostport) in
      if colon \<noteq> length hostport then
        let ip = take colon hostport; port = of_int (atoi (drop (colon + 1) hostport))
        in add_backends e pton6 garbage args (g_backends @ [fst (InetAddress_ip e pton6 garbage ip port False)])
      else None)"

definition balancer_backends ::
  "byte_order \<Rightarrow> (string \<Rightarrow> char list option) \<Rightarrow> sockaddr \<Rightarrow> string list \<Rightarrow> sockaddr list option" where
  "balancer_backends e pton6 garbage argv = add_backends e pton6 garbage (drop 2 argv) []"

subsection \<open>SOCKS (\<open>Socks4a.cc\<close>)\<close>

text \<open>
  \<open>resolve\<close> is \<open>InetAddress::resolve\<close>, which asks the system's resolver. The
  request lies at the start of the input buffer \<open>d\<close>. \<open>socks_request\<close> is the parse: \<open>None\<close> if more has to come, otherwise the
  length of the request, port and address as they lie in memory, and whether it can be served.
\<close>

definition socks_request ::
  "byte_order \<Rightarrow> (string \<Rightarrow> 32 word option) \<Rightarrow> char list \<Rightarrow> (nat \<times> 16 word \<times> 32 word \<times> bool) option" where
  "socks_request e resolve d =
     (let where = 8 + length (takeWhile (\<lambda>c. c \<noteq> CHR 0x00) (drop 8 d)) in
      if where = length d then None
      else
        let ver = d ! 0; cmd = d ! 1; port = mem_word e (slice 2 4 d); ip = mem_word e (slice 4 8 d);
            command_ok = (ver = CHR 0x04 \<and> cmd = CHR 0x01) in
        if networkToHost32 e ip < 256 then
          let hostname = takeWhile (\<lambda>c. c \<noteq> CHR 0x00) (drop (where + 1) d); endOfHostName = where + 1 + length hostname in
          if endOfHostName = length d then None
          else (case resolve hostname of
                  Some ip1 \<Rightarrow> Some (endOfHostName + 1, port, ip1, command_ok)
                | None \<Rightarrow> Some (endOfHostName + 1, port, ip, False))
        else Some (where + 1, port, ip, command_ok))"

definition socks_onServerConnection :: "nat \<Rightarrow> relay \<Rightarrow> relay" where
  "socks_onServerConnection i r =
     (if isConnected (rl_conns r i) then r\<lparr>nodelay := nodelay r @ [i]\<rparr>
      else
        let name = tc_name (rl_conns r i) in
        case map_of (tunnels r) name of
          None \<Rightarrow> r
        | Some t \<Rightarrow> r\<lparr>tunnels := omap_erase name (omap_set name (tn_disconnect t) (tunnels r))\<rparr>)"

definition response :: "char \<Rightarrow> char list \<Rightarrow> char list" where
  "response code rest = CHR 0x00 # code # rest"

definition socks_onServerMessage ::
  "bool \<Rightarrow> byte_order \<Rightarrow> (string \<Rightarrow> 32 word option) \<Rightarrow> (nat \<Rightarrow> char list \<Rightarrow> int + nat) \<Rightarrow> sockaddr \<Rightarrow> nat \<Rightarrow> relay \<Rightarrow> relay result" where
  "socks_onServerMessage nd e resolve wr garbage i r =
     (let buf = inputBuffer (rl_conns r i) in
      if map_of (tunnels r) (tc_name (rl_conns r i)) = None then
        if 128 < readableBytes buf then rl_on_conn i (tc_shutdown True) r
        else if 8 < readableBytes buf then
          bindR (mem_read buf (peek buf) (readableBytes buf)) (\<lambda>d.
          case socks_request e resolve d of
            None \<Rightarrow> Inr r
          | Some (n, port, ip, okay) \<Rightarrow>
              if okay then
                let addr = (bzero4 garbage)\<lparr>sa_family := AF_INET, sa_port := port, sa_addr4 := ip\<rparr>;
                    reply = response (CHR 0x5A) (word_mem e port @ word_mem e ip)
                in bindR (open_tunnel addr i r) (\<lambda>r1.
                   bindR (retrieveUntil nd (peek buf + n) buf) (\<lambda>b.
                   let r2 = r1\<lparr>rl_conns := (rl_conns r1)(i := (rl_conns r1 i)\<lparr>inputBuffer := b\<rparr>)\<rparr>
                   in rl_on_conn i (send_ptr nd True (wr i) (\<lambda>_ _. reply) 0 8) r2))
              else
                bindR (rl_on_conn i (send_ptr nd True (wr i) (\<lambda>_ _. response (CHR 0x5B) ''UVWXYZ'') 0 8) r) (\<lambda>r1.
                rl_on_conn i (tc_shutdown True) r1))
        else Inr r
      else relay_onServerMessage nd wr i r)"

subsection \<open>Requests\<close>

text \<open>A SOCKS 4 request, and a SOCKS 4a request when a host name is given.\<close>

definition socks_bytes :: "byte_order \<Rightarrow> 16 word \<Rightarrow> 32 word \<Rightarrow> string \<Rightarrow> string option \<Rightarrow> char list" where
  "socks_bytes e port ip user host =
     [CHR 0x04, CHR 0x01] @ word_mem e port @ word_mem e ip @ user @ [CHR 0x00] @
     (case host of None \<Rightarrow> [] | Some h \<Rightarrow> h @ [CHR 0x00])"

definition socks_target :: "byte_order \<Rightarrow> (string \<Rightarrow> 32 word option) \<Rightarrow> 32 word \<Rightarrow> string option \<Rightarrow> 32 word option" where
  "socks_target e resolve ip host =
     (case host of None \<Rightarrow> if networkToHost32 e ip < 256 then None else Some ip
      | Some h \<Rightarrow> if networkToHost32 e ip < 256 then resolve h else None)"

lemma of_mem_to_mem: "v < 256 ^ n \<Longrightarrow> of_mem e (to_mem e n v) = v"
  by (cases e) simp_all

lemma mem_word_word_mem: "mem_word e (word_mem e (x :: 16 word)) = x" "mem_word e (word_mem e (y :: 32 word)) = y"
proof -
  have "of_mem e (to_mem e 2 (unat x)) = unat x" "of_mem e (to_mem e 4 (unat y)) = unat y"
    by (rule of_mem_to_mem, rule unat_lt_widths)+
  then show "mem_word e (word_mem e x) = x" "mem_word e (word_mem e y) = y"
    by (simp_all add: mem_word_def word_mem_def)
qed

lemma socks_request_bytes:
  assumes "CHR 0x00 \<notin> set user" "\<And>h. host = Some h \<Longrightarrow> CHR 0x00 \<notin> set h" "socks_target e resolve ip host = Some ip'"
  shows "socks_request e resolve (socks_bytes e port ip user host @ rest) = Some (length (socks_bytes e port ip user host), port, ip', True)"
proof -
  let ?d = "socks_bytes e port ip user host @ rest"
  have tw: "takeWhile (\<lambda>c. c \<noteq> CHR 0x00) (u @ CHR 0x00 # v) = u" if "CHR 0x00 \<notin> set u" for u v
    using that by (induction u) auto
  have w: "takeWhile (\<lambda>c. c \<noteq> CHR 0x00) (drop 8 ?d) = user"
    using tw [OF assms(1)] by (simp add: socks_bytes_def)
  have parts: "?d ! 0 = CHR 0x04" "?d ! 1 = CHR 0x01" "slice 2 4 ?d = word_mem e port" "slice 4 8 ?d = word_mem e ip"
    by (simp_all add: socks_bytes_def slice_def)
  have len: "length ?d = 9 + length user + (case host of None \<Rightarrow> 0 | Some h \<Rightarrow> length h + 1) + length rest"
    by (simp add: socks_bytes_def split: option.split)
  show ?thesis
  proof (cases host)
    case None
    then show ?thesis using w parts len assms(3) mem_word_word_mem
      by (simp add: socks_request_def Let_def socks_target_def socks_bytes_def split: if_splits)
  next
    case (Some h)
    have h: "takeWhile (\<lambda>c. c \<noteq> CHR 0x00) (drop (8 + length user + 1) ?d) = h"
    proof -
      have "?d = ([CHR 0x04, CHR 0x01] @ word_mem e port @ word_mem e ip @ user @ [CHR 0x00]) @ h @ CHR 0x00 # rest" (is "_ = ?pre @ _")
        using Some by (simp add: socks_bytes_def)
      moreover have "length ?pre = 8 + length user + 1" by simp
      ultimately have "drop (8 + length user + 1) ?d = h @ CHR 0x00 # rest" by (metis append_eq_conv_conj)
      then show ?thesis using tw [OF assms(2) [OF Some]] by simp
    qed
    show ?thesis using w h parts len assms(3) Some mem_word_word_mem
      by (simp add: socks_request_def Let_def socks_target_def socks_bytes_def split: if_splits)
  qed
qed

lemma retrieveUntil_content:
  assumes "Buffer_inv b" "n \<le> length (Buffer_content b)"
  shows "\<exists>b'. retrieveUntil nd (peek b + n) b = Inr b' \<and> Buffer_inv b' \<and> Buffer_content b' = drop n (Buffer_content b)"
proof -
  have n: "n \<le> readableBytes b" using Buffer_sizes(3) [OF assms(1)] assms(2) by simp
  then have "readIndex b + n \<le> writeIndex b" using Buffer_sizes(1) [OF assms(1)] assms(1) unfolding Buffer_inv_def by linarith
  then show ?thesis using retrieve_spec [OF assms(1) n, of nd] by (simp add: retrieveUntil_def peek_def)
qed

lemma setHighWaterMark_fields [simp]:
  "inputBuffer (setHighWaterMarkCallback n c) = inputBuffer c" "tc_name (setHighWaterMarkCallback n c) = tc_name c"
  "wire (setHighWaterMarkCallback n c) = wire c" "idle_conn (setHighWaterMarkCallback n c) = idle_conn c"
  "tc_state (setHighWaterMarkCallback n c) = tc_state c"
  by (simp_all add: setHighWaterMarkCallback_def idle_conn_def)

lemma idle_conn_input [simp]: "idle_conn (c\<lparr>inputBuffer := b\<rparr>) = idle_conn c"
  by (simp add: idle_conn_def)

lemma open_tunnel_result:
  "open_tunnel addr i r = Inr (r\<lparr>rl_conns := (rl_conns r)(i := setHighWaterMarkCallback (10 * 1024 * 1024) (rl_conns r i)),
      tunnels := omap_set (tc_name (rl_conns r i))
        \<lparr>tn_server = Some i, tn_addr = addr, tn_callbacks = True, calls = [CallConnect]\<rparr> (tunnels r)\<rparr>)"
  by (simp add: open_tunnel_def tn_setup_def Tunnel_new_def tn_connect_def rl_on_conn_def)

lemma setHighWaterMark_accepts [simp]:
  "accepts wr d (setHighWaterMarkCallback n c) = accepts wr d c" "conn_inv (setHighWaterMarkCallback n c) = conn_inv c"
  "outputBuffer (setHighWaterMarkCallback n c) = outputBuffer c"
  by (simp_all add: setHighWaterMarkCallback_def accepts_def conn_inv_def split: sum.splits)

lemma send_ptr_idle:
  assumes "idle_conn c" "\<And>d. wr d = Inr (length d)"
  shows "\<exists>c'. send_ptr nd True wr (\<lambda>_ _. d) p n c = Inr c' \<and> idle_conn c' \<and> wire c' = wire c @ d \<and> inputBuffer c' = inputBuffer c \<and> tc_name c' = tc_name c"
  using sendInLoop_idle_all [of c wr nd d] assms by (auto simp: send_ptr_def idle_conn_def)



subsection \<open>Through the tunnel\<close>

lemma send_input_idle:
  assumes "i \<noteq> j" "idle_conn (rl_conns r j)" "\<And>d. wr j d = Inr (length d)" "Buffer_inv (inputBuffer (rl_conns r i))"
  shows "\<exists>r'. send_input nd wr i j r = Inr r' \<and> wire (rl_conns r' j) = wire (rl_conns r j) @ Buffer_content (inputBuffer (rl_conns r i)) \<and>
     idle_conn (rl_conns r' j) \<and> Buffer_content (inputBuffer (rl_conns r' i)) = [] \<and> rl_context r' = rl_context r \<and>
     wire (rl_conns r' i) = wire (rl_conns r i)"
proof -
  let ?b = "inputBuffer (rl_conns r i)"
  obtain c where "send_buffer nd True (wr j) ?b (rl_conns r j) = Inr (retrieveAll ?b, c)" "idle_conn c"
    "wire c = wire (rl_conns r j) @ Buffer_content ?b"
    using send_buffer_idle [of "rl_conns r j" "wr j" ?b nd, OF assms(2-4)] by blast
  then show ?thesis using assms(1) by (simp add: send_input_def retrieveAll_spec(2))
qed

text \<open>Data arrive for connection \<open>i\<close>: its input buffer becomes \<open>b\<close> and the message callback runs.\<close>

definition arrive :: "bool \<Rightarrow> (nat \<Rightarrow> char list \<Rightarrow> int + nat) \<Rightarrow> nat \<Rightarrow> Buffer \<Rightarrow> relay \<Rightarrow> relay result" where
  "arrive nd wr i b r = relay_onServerMessage nd wr i (r\<lparr>rl_conns := (rl_conns r)(i := (rl_conns r i)\<lparr>inputBuffer := b\<rparr>)\<rparr>)"

lemma arrive_all:
  assumes "i \<noteq> j" "\<And>d. wr j d = Inr (length d)" "rl_context r i = Some j" "idle_conn (rl_conns r j)" "\<And>b. b \<in> set bs \<Longrightarrow> Buffer_inv b"
  shows "\<exists>r'. foldR (arrive nd wr i) bs r = Inr r' \<and> wire (rl_conns r' j) = wire (rl_conns r j) @ concat (map Buffer_content bs)"
  using assms(3-5)
proof (induction bs arbitrary: r)
  case (Cons b bs)
  define r1 where "r1 = r\<lparr>rl_conns := (rl_conns r)(i := (rl_conns r i)\<lparr>inputBuffer := b\<rparr>)\<rparr>"
  have f: "rl_conns r1 j = rl_conns r j" "inputBuffer (rl_conns r1 i) = b" "rl_context r1 = rl_context r"
    using assms(1) by (simp_all add: r1_def)
  obtain r2 where r2: "send_input nd wr i j r1 = Inr r2" "wire (rl_conns r2 j) = wire (rl_conns r j) @ Buffer_content b"
    "idle_conn (rl_conns r2 j)" "rl_context r2 = rl_context r"
    using send_input_idle [of i j r1 wr nd] assms(1,2) Cons.prems(2,3) f by auto
  have "arrive nd wr i b r = Inr r2" using r2(1) Cons.prems(1) f(3) by (simp add: arrive_def relay_onServerMessage_def r1_def)
  with Cons.IH [of r2] r2 Cons.prems show ?case by auto
qed simp

text \<open>
  Nothing is lost while the tunnel is being opened. What lies in the client's input buffer when the tunnel's own connection comes
  up is sent first, and whatever arrives after that follows in order.
\<close>

theorem tunnel_forwards_all:
  assumes "tn_server t = Some i" "i \<noteq> j" "isConnected (rl_conns r j)" "idle_conn (rl_conns r j)" "\<And>d. wr j d = Inr (length d)"
    and "Buffer_inv (inputBuffer (rl_conns r i))" "\<And>b. b \<in> set bs \<Longrightarrow> Buffer_inv b"
  shows "\<exists>r'. bindR (onClientConneciont nd wr j t r) (\<lambda>(_, r1). foldR (arrive nd wr i) bs r1) = Inr r' \<and>
     wire (rl_conns r' j) = wire (rl_conns r j) @ Buffer_content (inputBuffer (rl_conns r i)) @ concat (map Buffer_content bs)"
proof -
  define r2 where "r2 = r\<lparr>nodelay := nodelay r @ [j], rl_conns := (rl_conns r)(j := setHighWaterMarkCallback (10 * 1024 * 1024) (rl_conns r j)),
      rl_context := (rl_context r)(i \<mapsto> j)\<rparr>"
  have f: "rl_context r2 i = Some j" "inputBuffer (rl_conns r2 i) = inputBuffer (rl_conns r i)" "idle_conn (rl_conns r2 j)"
    "wire (rl_conns r2 j) = wire (rl_conns r j)"
    using assms(2,4) by (simp_all add: r2_def)
  obtain r3 where r3: "onClientConneciont nd wr j t r = Inr (t, r3)" "rl_context r3 i = Some j" "idle_conn (rl_conns r3 j)"
    "wire (rl_conns r3 j) = wire (rl_conns r j) @ Buffer_content (inputBuffer (rl_conns r i))"
  proof (cases "0 < readableBytes (inputBuffer (rl_conns r i))")
    case True
    obtain r3 where "send_input nd wr i j r2 = Inr r3" "wire (rl_conns r3 j) = wire (rl_conns r j) @ Buffer_content (inputBuffer (rl_conns r i))"
      "idle_conn (rl_conns r3 j)" "rl_context r3 = rl_context r2"
      using send_input_idle [of i j r2 wr nd] assms(2,5,6) f by auto
    moreover have "onClientConneciont nd wr j t r = bindR (send_input nd wr i j r2) (\<lambda>r3. Inr (t, r3))"
      using True assms(1-3) by (simp add: onClientConneciont_def rl_on_conn_def r2_def)
    ultimately show ?thesis using that f(1) by simp
  next
    case False
    then have "onClientConneciont nd wr j t r = Inr (t, r2)" "Buffer_content (inputBuffer (rl_conns r i)) = []"
      using assms(1-3) readable_zero [OF assms(6)] by (simp_all add: onClientConneciont_def rl_on_conn_def r2_def)
    then show ?thesis using that f by simp
  qed
  obtain r' where "foldR (arrive nd wr i) bs r3 = Inr r'" "wire (rl_conns r' j) = wire (rl_conns r3 j) @ concat (map Buffer_content bs)"
    using arrive_all [of i j wr r3 bs nd, OF assms(2,5) r3(2,3) assms(7)] by blast
  with r3 show ?thesis by simp
qed

theorem tunnel_forwards_all_witness:
  "\<exists>r'. bindR (onClientConneciont False (\<lambda>_ d. Inr (length d)) 8 (Tunnel_new bzero6 3)
        \<lparr>rl_conns = (\<lambda>_. (sample_conn False [])\<lparr>inputBuffer := sample_buffer ''GET''\<rparr>), rl_context = (\<lambda>_. None), tunnels = [], nodelay = []\<rparr>)
       (\<lambda>(_, r1). foldR (arrive False (\<lambda>_ d. Inr (length d)) 3) [sample_buffer '' /'', sample_buffer ''x''] r1) = Inr r' \<and>
     wire (rl_conns r' 8) = ''GET /x''"
proof -
  let ?r = "\<lparr>rl_conns = (\<lambda>_. (sample_conn False [])\<lparr>inputBuffer := sample_buffer ''GET''\<rparr>), rl_context = (\<lambda>_. None), tunnels = [], nodelay = []\<rparr>"
  have 1: "tn_server (Tunnel_new bzero6 3) = Some 3" "(3 :: nat) \<noteq> 8" "isConnected (rl_conns ?r 8)" "idle_conn (rl_conns ?r 8)"
    by (simp_all add: Tunnel_new_def isConnected_def idle_sample)
  have 2: "Buffer_inv (inputBuffer (rl_conns ?r 3))" "\<And>b. b \<in> set [sample_buffer '' /'', sample_buffer ''x''] \<Longrightarrow> Buffer_inv b"
    by (auto simp: sample_buffer_facts)
  from tunnel_forwards_all [of _ 3 8 ?r "\<lambda>_ d. Inr (length d)", OF 1 _ 2, where nd = False and bs = "[sample_buffer '' /'', sample_buffer ''x'']"] show ?thesis
    by (simp add: sample_buffer_facts)
qed

subsection \<open>The backends of the balancer\<close>

text \<open>The balancer uses its backends in turn.\<close>

fun nth_backend :: "nat \<Rightarrow> sockaddr list \<Rightarrow> nat \<Rightarrow> (sockaddr \<times> nat) result" where
  "nth_backend 0 bs k = next_backend bs k"
| "nth_backend (Suc n) bs k = bindR (next_backend bs k) (\<lambda>(_, k1). nth_backend n bs k1)"

lemma nth_backend_round_robin:
  "k < length bs \<Longrightarrow> nth_backend n bs k = Inr (bs ! ((k + n) mod length bs), (k + n + 1) mod length bs)"
proof (induction n arbitrary: k)
  case (Suc n)
  have "0 < length bs" using Suc.prems by linarith
  then have "(k + 1) mod length bs < length bs" by (rule mod_less_divisor)
  from Suc.IH [OF this] have "nth_backend n bs ((k + 1) mod length bs) = Inr (bs ! ((k + Suc n) mod length bs), (k + Suc n + 1) mod length bs)"
    using mod_add_left_eq [of "k + 1" "length bs" n] mod_add_left_eq [of "k + 1" "length bs" "n + 1"] by (simp add: add.assoc)
  then show ?case using Suc.prems by (auto simp: next_backend_def)
qed (auto simp: next_backend_def)

text \<open>
  The first backend on the command line is not used. With one backend, which the usage line allows, the list is empty and the first
  connection ends the program.
\<close>

theorem balancer_single_backend_faults:
  assumes "argv = [prog, backend]" "isConnected (rl_conns r i)" "map_of (tunnels r) (tc_name (rl_conns r i)) = None"
  shows "\<exists>bs. balancer_backends e pton6 garbage argv = Some bs \<and> balancer_onServerConnection nd bs n i r = Inl Fatal"
  using assms by (simp add: balancer_backends_def balancer_onServerConnection_def next_backend_def)

theorem balancer_single_backend_faults_witness:
  "\<exists>bs. balancer_backends LittleEndian (\<lambda>_. None) bzero6 [''balancer'', ''10.0.0.1:80''] = Some bs \<and>
     balancer_onServerConnection True bs 0 3
       \<lparr>rl_conns = (\<lambda>_. sample_conn False []), rl_context = (\<lambda>_. None), tunnels = [], nodelay = []\<rparr> = Inl Fatal"
  by (rule balancer_single_backend_faults [where prog = "''balancer''" and backend = "''10.0.0.1:80''"]) (simp_all add: isConnected_def)

end
