(* ===== verification/Arale_Simple.thy ===== *)
theory Arale_Simple
  imports Arale_TcpConnection Arale_EventLoop
begin

section \<open>The simple protocols (\<open>arale/examples/simple\<close>)\<close>

text \<open>
  Discard, daytime, time with its client, and the character generator with its client. All handlers run in the loop's thread.
  \<open>gettimeofday\<close> and \<open>time\<close> are the arguments \<open>tv\<close> and \<open>now\<close>; the lines the handlers log at the level \<open>INFO\<close>
  are results where they are the only thing a handler does with its input.
\<close>

subsection \<open>Discard, daytime and time\<close>

definition discards :: "TcpConnection \<Rightarrow> string \<Rightarrow> Timestamp \<Rightarrow> string" where
  "discards c msg t = tc_name c @ '' discards '' @ sdec (int (length msg)) @ '' bytes received at '' @ Timestamp_toString t"

definition discard_onMessage :: "bool \<Rightarrow> TcpConnection \<Rightarrow> Buffer \<Rightarrow> Timestamp \<Rightarrow> (string list \<times> Buffer) result" where
  "discard_onMessage nd c buf t =
     bindR (retrieveAllAsString nd buf) (\<lambda>(msg, buf1). Inr ([discards c msg t, ''discard content: '' @ msg], buf1))"

definition daytime_onConnection ::
  "bool \<Rightarrow> (char list \<Rightarrow> int + nat) \<Rightarrow> (int \<Rightarrow> tm) \<Rightarrow> int \<times> int \<Rightarrow> TcpConnection \<Rightarrow> TcpConnection result" where
  "daytime_onConnection nd wr gmtime_r tv c =
     (if isConnected c then
        let s = toFormattedString gmtime_r True (Timestamp_now tv) @ [CHR 0x0A]
        in bindR (send_string nd True wr (\<lambda>_ _. s) 0 s c) (tc_shutdown True)
      else Inr c)"

definition daytime_onMessage :: "bool \<Rightarrow> TcpConnection \<Rightarrow> Buffer \<Rightarrow> Timestamp \<Rightarrow> (string list \<times> Buffer) result" where
  "daytime_onMessage nd c buf t = bindR (retrieveAllAsString nd buf) (\<lambda>(msg, buf1). Inr ([discards c msg t], buf1))"

definition time_onConnection ::
  "bool \<Rightarrow> byte_order \<Rightarrow> (char list \<Rightarrow> int + nat) \<Rightarrow> int \<Rightarrow> TcpConnection \<Rightarrow> TcpConnection result" where
  "time_onConnection nd e wr now c =
     (if isConnected c then
        let be32 = hostToNetwork32 e (word_of_int now)
        in bindR (send_ptr nd True wr (\<lambda>_ _. word_mem e be32) 0 4 c) (tc_shutdown True)
      else Inr c)"

definition time_onMessage :: "bool \<Rightarrow> TcpConnection \<Rightarrow> Buffer \<Rightarrow> Timestamp \<Rightarrow> (string list \<times> Buffer) result" where
  "time_onMessage nd c buf t = bindR (retrieveAllAsString nd buf) (\<lambda>(msg, buf1). Inr ([discards c msg t], buf1))"

definition timeClient_onConnection :: "int \<Rightarrow> TcpConnection \<Rightarrow> 'f EventLoop \<Rightarrow> 'f EventLoop" where
  "timeClient_onConnection tid c l = (if \<not> isConnected c then quitLoop tid l else l)"

text \<open>The product of seconds and a million is unsigned, and stored as a signed number.\<close>

definition timeClient_onMessage ::
  "bool \<Rightarrow> byte_order \<Rightarrow> (int \<Rightarrow> tm) \<Rightarrow> TcpConnection \<Rightarrow> Buffer \<Rightarrow> Timestamp \<Rightarrow> (string \<times> Buffer) result" where
  "timeClient_onMessage nd e gmtime_r c buf receiveTime =
     (if 4 \<le> readableBytes buf then
        bindR (mem_read buf (peek buf) 4) (\<lambda>d.
        bindR (retrieve nd 4 buf) (\<lambda>buf1.
        let time = uint (networkToHost32 e (mem_word e d));
            ts = Timestamp_new (sint (word_of_int time * word_of_int kMicroSecondsPerSecond :: 64 word))
        in Inr (''Server time = '' @ sdec time @ '', '' @ toFormattedString gmtime_r True ts, buf1)))
      else
        Inr (tc_name c @ '' no enough data '' @ sdec (int (readableBytes buf)) @ '' at '' @
             toFormattedString gmtime_r True receiveTime, buf))"

subsection \<open>The character generator\<close>

record ChargenServer =
  message :: string
  transferred :: int
  startTime :: Timestamp

definition char_line :: string where
  "char_line = map char_of [33..<127]"

definition chargen_message :: string where
  "chargen_message =
     (let line = char_line @ char_line in concat (map (\<lambda>i. take 72 (drop i line) @ [CHR 0x0A]) [0..<127 - 33]))"

definition ChargenServer_new :: "int \<times> int \<Rightarrow> ChargenServer" where
  "ChargenServer_new tv = \<lparr>message = chargen_message, transferred = 0, startTime = Timestamp_now tv\<rparr>"

text \<open>The first component is the socket option that \<open>setTcpNoDelay\<close> sets.\<close>

definition chargen_onConnection ::
  "bool \<Rightarrow> (char list \<Rightarrow> int + nat) \<Rightarrow> ChargenServer \<Rightarrow> TcpConnection \<Rightarrow> ((sockopt \<times> int) list \<times> TcpConnection) result" where
  "chargen_onConnection nd wr s c =
     (if isConnected c then
        bindR (send_string nd True wr (\<lambda>_ _. message s) 0 (message s) c) (\<lambda>c1. Inr ([setTcpNoDelay True], c1))
      else Inr ([], c))"

definition chargen_onMessage :: "bool \<Rightarrow> TcpConnection \<Rightarrow> Buffer \<Rightarrow> Timestamp \<Rightarrow> (string list \<times> Buffer) result" where
  "chargen_onMessage nd c buf t = bindR (retrieveAllAsString nd buf) (\<lambda>(msg, buf1). Inr ([discards c msg t], buf1))"

definition chargen_onWriteComplete ::
  "bool \<Rightarrow> (char list \<Rightarrow> int + nat) \<Rightarrow> ChargenServer \<times> TcpConnection \<Rightarrow> (ChargenServer \<times> TcpConnection) result" where
  "chargen_onWriteComplete nd wr = (\<lambda>(s, c).
     let s1 = s\<lparr>transferred := transferred s + int (length (message s))\<rparr>
     in bindR (send_string nd True wr (\<lambda>_ _. message s1) 0 (message s1) c) (\<lambda>c1. Inr (s1, c1)))"

text \<open>The number printed; \<open>rnd\<close> is the rounding of floating point numbers, and a time of zero gives none.\<close>

definition printThroughput :: "(rat \<Rightarrow> rat) \<Rightarrow> int \<times> int \<Rightarrow> ChargenServer \<Rightarrow> rat option \<times> ChargenServer" where
  "printThroughput rnd tv s =
     (let endTime = Timestamp_now tv; time = timeDifference rnd endTime (startTime s)
      in (if time = 0 then None else Some (rnd (rnd (rnd (rnd (of_int (transferred s)) / time) / 1024) / 1024)),
          s\<lparr>transferred := 0, startTime := endTime\<rparr>))"

definition chargenClient_onConnection :: "int \<Rightarrow> TcpConnection \<Rightarrow> 'f EventLoop \<Rightarrow> 'f EventLoop" where
  "chargenClient_onConnection tid c l = (if \<not> isConnected c then quitLoop tid l else l)"

definition chargenClient_onMessage :: "Buffer \<Rightarrow> Buffer" where
  "chargenClient_onMessage buf = retrieveAll buf"

subsection \<open>Properties\<close>

lemma seconds_no_wrap:
  assumes "0 \<le> s" "s < 2 ^ 32"
  shows "sint (word_of_int s * word_of_int kMicroSecondsPerSecond :: 64 word) = s * kMicroSecondsPerSecond"
proof -
  have "sint (word_of_int (s * kMicroSecondsPerSecond) :: 64 word) = signed_take_bit 63 (s * kMicroSecondsPerSecond)"
    by (subst sint_sbintrunc') simp
  also have "\<dots> = s * kMicroSecondsPerSecond"
    using assms by (intro signed_take_bit_int_eq_self) (simp_all add: kMicroSecondsPerSecond_def)
  finally show ?thesis by (simp only: wi_hom_mult)
qed

text \<open>
  The time protocol is a round trip. The server puts the time in network order on the connection and ends it; the client, on a host of any
  byte order, reports that time, up to the width of 32 bits, and leaves what follows in its buffer.
\<close>

theorem time_round_trip:
  assumes "idle_conn c" "\<And>d. wr d = Inr (length d)" "wire c = []" "0 \<le> now"
    and "Buffer_inv buf" "Buffer_content buf = wire c' @ r" "time_onConnection nd e wr now c = Inr c'"
  shows "tc_state c' = kDisconnecting \<and> wrShut c' \<and>
    (\<exists>buf'. timeClient_onMessage nd e' gmtime_r cl buf t =
       Inr (''Server time = '' @ sdec (now mod 2 ^ 32) @ '', '' @
            toFormattedString gmtime_r True (Timestamp_new (now mod 2 ^ 32 * kMicroSecondsPerSecond)), buf') \<and>
       Buffer_content buf' = r)"
proof -
  define w :: "32 word" where "w = word_of_int now"
  have bytes: "word_mem e (hostToNetwork32 e w) = be_bytes 4 (unat w)" by simp
  have u: "uint w = now mod 2 ^ 32" by (simp add: w_def uint_word_of_int)
  have c': "wire c' = be_bytes 4 (unat w)" "tc_state c' = kDisconnecting" "wrShut c'"
    using send_then_shutdown_idle [of c wr nd "be_bytes 4 (unat w)" 0 4] assms(1-3,7) bytes
    by (auto simp: time_onConnection_def idle_conn_def isConnected_def Let_def w_def)
  have n: "4 \<le> readableBytes buf" using Buffer_sizes(3) [OF assms(5)] assms(6) c'(1) by simp
  have d: "mem_read buf (peek buf) 4 = Inr (be_bytes 4 (unat w))"
    using mem_read_content [OF assms(5) n] assms(6) c'(1) by (simp add: peek_def)
  obtain b1 where b1: "retrieve nd 4 buf = Inr b1" "Buffer_content b1 = r"
    using retrieve_spec [OF assms(5) n, of nd] assms(6) c'(1) by auto
  have "uint w < 2 ^ 32" using uint_lt2p [of w] by simp
  then have s: "sint (ucast w * word_of_int kMicroSecondsPerSecond :: 64 word) = uint w * kMicroSecondsPerSecond"
    using seconds_no_wrap [of "uint w"] by simp
  show ?thesis using c' n d b1 s u by (simp add: timeClient_onMessage_def Let_def)
qed

theorem time_round_trip_witness:
  "\<forall>gm. \<exists>c' buf'. time_onConnection False LittleEndian (\<lambda>d. Inr (length d)) 1000000000 (sample_conn False []) = Inr c' \<and> wrShut c' \<and>
     timeClient_onMessage False BigEndian gm (sample_conn False []) (sample_buffer (wire c' @ ''x'')) (Timestamp_new 0) =
       Inr (''Server time = '' @ sdec 1000000000 @ '', '' @ toFormattedString gm True (Timestamp_new (1000000000 * kMicroSecondsPerSecond)), buf') \<and>
     Buffer_content buf' = ''x''"
proof
  fix gm
  let ?w = "word_of_int 1000000000 :: 32 word"
  obtain c' where c': "time_onConnection False LittleEndian (\<lambda>d. Inr (length d)) 1000000000 (sample_conn False []) = Inr c'"
      "wire c' = be_bytes 4 (unat ?w)"
    using send_then_shutdown_idle [of "sample_conn False []" "\<lambda>d. Inr (length d)" False "be_bytes 4 (unat ?w)" 0 4] idle_sample
    by (auto simp: time_onConnection_def isConnected_def Let_def)
  have b: "Buffer_inv (sample_buffer (wire c' @ ''x''))" "Buffer_content (sample_buffer (wire c' @ ''x'')) = wire c' @ ''x''"
    using c'(2) by (simp_all add: sample_buffer_facts)
  have m: "(1000000000 :: int) mod 2 ^ 32 = 1000000000" "(0 :: int) \<le> 1000000000" by simp_all
  show "\<exists>c' buf'. time_onConnection False LittleEndian (\<lambda>d. Inr (length d)) 1000000000 (sample_conn False []) = Inr c' \<and> wrShut c' \<and>
     timeClient_onMessage False BigEndian gm (sample_conn False []) (sample_buffer (wire c' @ ''x'')) (Timestamp_new 0) =
       Inr (''Server time = '' @ sdec 1000000000 @ '', '' @ toFormattedString gm True (Timestamp_new (1000000000 * kMicroSecondsPerSecond)), buf') \<and>
     Buffer_content buf' = ''x''"
    using c'(1) time_round_trip [where e' = BigEndian and gmtime_r = gm and cl = "sample_conn False []" and t = "Timestamp_new 0",
        OF idle_sample refl sample_conn_facts(3) m(2) b c'(1)]
    unfolding m(1) by blast
qed

lemma nth_concat_map:
  assumes "\<And>x. length (f x) = k" "i < length xs" "j < k"
  shows "concat (map f xs) ! (k * i + j) = f (xs ! i) ! j"
  using assms(2)
proof (induction xs arbitrary: i)
  case (Cons x xs)
  then show ?case using assms(1,3) by (cases i) (simp_all add: nth_append add.assoc)
qed simp

lemma length_concat_map: "(\<And>x. x \<in> set xs \<Longrightarrow> length (f x) = k) \<Longrightarrow> length (concat (map f xs)) = k * length xs"
  by (induction xs) simp_all

lemma length_char_line [simp]: "length char_line = 94"
  by (simp add: char_line_def)

lemma char_line_nth: "k < 188 \<Longrightarrow> (char_line @ char_line) ! k = char_of (33 + k mod 94)"
proof -
  have "char_line ! i = char_of (33 + i)" if "i < 94" for i
    using that unfolding char_line_def by (subst nth_map_upt) simp_all
  then show "k < 188 \<Longrightarrow> (char_line @ char_line) ! k = char_of (33 + k mod 94)"
    by (cases "k < 94") (simp_all add: nth_append mod_if [of k 94])
qed

lemma length_chargen_message: "length chargen_message = 94 * 73"
proof -
  have "length chargen_message = 73 * length [0..<127 - 33]"
    unfolding chargen_message_def Let_def by (rule length_concat_map) auto
  then show ?thesis by simp
qed

text \<open>
  The generated text. It has 94 lines of 72 characters and a newline each; line \<open>i\<close> starts at the \<open>i\<close>-th printable character, and the characters run on
  in a circle of the 94 printable characters.
\<close>

theorem chargen_message_lines:
  "length chargen_message = 94 * 73 \<and>
   (\<forall>i < 94. chargen_message ! (73 * i + 72) = CHR 0x0A \<and>
      (\<forall>j < 72. chargen_message ! (73 * i + j) = char_of (33 + (i + j) mod 94)))"
proof -
  define line where "line = char_line @ char_line"
  have len: "length line = 188" by (simp add: line_def)
  define f where "f i = (if i < 94 then take 72 (drop i line) else replicate 72 (CHR 0x00)) @ [CHR 0x0A]" for i
  have m: "chargen_message = concat (map f [0..<94])"
    unfolding chargen_message_def Let_def by (rule arg_cong [where f = concat]) (simp add: f_def flip: line_def)
  have l: "length (f i) = 73" for i using len by (simp add: f_def)
  have "chargen_message ! (73 * i + j) = f i ! j" if "i < 94" "j < 73" for i j
    using nth_concat_map [of f 73 i "[0..<94]" j] l that by (simp add: m)
  moreover have "f i ! 72 = CHR 0x0A" for i using len by (simp add: f_def nth_append)
  moreover have "f i ! j = char_of (33 + (i + j) mod 94)" if "i < 94" "j < 72" for i j
    using that len char_line_nth [of "i + j"] by (simp add: f_def nth_append flip: line_def)
  ultimately show ?thesis using length_chargen_message by simp
qed

text \<open>One turn of the loop for a connection of the generator: it runs the write-complete functor that waits first.\<close>

definition chargen_turn ::
  "bool \<Rightarrow> (char list \<Rightarrow> int + nat) \<Rightarrow> ChargenServer \<times> TcpConnection \<Rightarrow> (ChargenServer \<times> TcpConnection) result" where
  "chargen_turn nd wr = (\<lambda>(s, c).
     case functors c of
       FWriteComplete # fs \<Rightarrow> chargen_onWriteComplete nd wr (s, c\<lparr>functors := fs\<rparr>)
     | _ \<Rightarrow> Inr (s, c))"

lemma chargen_turn_idle:
  assumes "idle_conn c" "\<And>d. wr d = Inr (length d)" "hasWriteCompleteCallback c" "functors c = [FWriteComplete]"
  shows "chargen_turn nd wr (s, c) =
    Inr (s\<lparr>transferred := transferred s + int (length (message s))\<rparr>, on_wire (message s) c)"
proof -
  have "idle_conn (c\<lparr>functors := []\<rparr>)" using assms(1) by (simp add: idle_conn_def)
  from sendInLoop_idle_eq [of _ wr "message s" nd, OF this assms(2)] show ?thesis
    using assms(1,3,4) by (simp add: chargen_turn_def chargen_onWriteComplete_def Let_def send_string_def send_ptr_def idle_conn_def post_def on_wire_def)
qed

lemma chargen_turns_idle:
  assumes "idle_conn c" "\<And>d. wr d = Inr (length d)" "hasWriteCompleteCallback c" "functors c = [FWriteComplete]"
  shows "foldR (\<lambda>_. chargen_turn nd wr) (replicate n ()) (s, c) =
    Inr (s\<lparr>transferred := transferred s + int (n * length (message s))\<rparr>, on_wire (concat (replicate n (message s))) c)"
  using assms(1,3,4)
proof (induction n arbitrary: s c)
  case (Suc n)
  have "idle_conn (on_wire (message s) c)" using Suc.prems(1) by (simp add: idle_conn_def)
  from Suc.IH [OF this, of "s\<lparr>transferred := transferred s + int (length (message s))\<rparr>"] Suc.prems(2,3)
  show ?case by (simp add: chargen_turn_idle [OF Suc.prems(1) assms(2) Suc.prems(2,3)] algebra_simps)
qed simp

text \<open>
  The generator never stops by itself. On a connection that takes everything, after any number of turns the text has been sent
  that often and once more, another write-complete functor waits, and \<open>transferred_\<close> has counted all but the last text.
\<close>

theorem chargen_keeps_sending:
  assumes "idle_conn c" "\<And>d. wr d = Inr (length d)" "hasWriteCompleteCallback c" "functors c = []"
  shows "\<exists>opts c1 s' c'. chargen_onConnection nd wr (ChargenServer_new tv) c = Inr (opts, c1) \<and>
    foldR (\<lambda>_. chargen_turn nd wr) (replicate n ()) (ChargenServer_new tv, c1) = Inr (s', c') \<and>
    wire c' = wire c @ concat (replicate (Suc n) chargen_message) \<and> functors c' = [FWriteComplete] \<and>
    transferred s' = int n * 6862 \<and> isConnected c'"
proof -
  let ?s = "ChargenServer_new tv"
  let ?c1 = "post FWriteComplete (on_wire chargen_message c)"
  have "chargen_onConnection nd wr ?s c = Inr ([setTcpNoDelay True], ?c1)"
    using sendInLoop_idle_eq [of c wr chargen_message nd, OF assms(1,2)] assms(1,3)
    by (simp add: chargen_onConnection_def ChargenServer_new_def send_string_def send_ptr_def idle_conn_def isConnected_def)
  moreover have "idle_conn ?c1" "hasWriteCompleteCallback ?c1" "functors ?c1 = [FWriteComplete]" "isConnected ?c1"
    using assms(1,3,4) by (simp_all add: idle_conn_def post_def isConnected_def)
  moreover have "length chargen_message = 6862" using length_chargen_message by simp
  ultimately show ?thesis using chargen_turns_idle [of ?c1 wr nd n ?s, OF _ assms(2)]
    by (simp add: ChargenServer_new_def isConnected_def)
qed

theorem chargen_keeps_sending_witness:
  "\<exists>opts c1 s' c'. chargen_onConnection False (\<lambda>d. Inr (length d)) (ChargenServer_new (5, 0)) (sample_conn False []) = Inr (opts, c1) \<and>
    foldR (\<lambda>_. chargen_turn False (\<lambda>d. Inr (length d))) (replicate 3 ()) (ChargenServer_new (5, 0), c1) = Inr (s', c') \<and>
    wire c' = concat (replicate 4 chargen_message) \<and> transferred s' = 20586"
  using chargen_keeps_sending [where n = 3 and nd = False and tv = "(5, 0)" and wr = "\<lambda>d. Inr (length d)",
      OF idle_sample refl sample_conn_extra(4,1)]
  by (simp add: eval_nat_numeral) blast

end
