(* ===== verification/Arale_Download.thy ===== *)
theory Arale_Download
  imports Arale_Stream "HOL-Library.Sublist"
begin

section \<open>File transfer (\<open>arale/examples/simple/filetransfer\<close>)\<close>

text \<open>
  Three servers that send a file to whoever connects: all of it at once (\<open>Download.cc\<close>), and a piece whenever the piece
  before it has been written, with a \<open>FILE *\<close> (\<open>Download2.cc\<close>) or a shared pointer (\<open>Download3.cc\<close>) in the context of the
  connection. A \<open>FILE\<close> is what of a regular file has not been read yet, \<open>None\<close> after \<open>fclose\<close>; \<open>fread\<close>
  on a regular file gives what was asked for as long as there is so much. \<open>fopen\<close> is an argument: the contents of
  \<open>g_file\<close>, or \<open>None\<close> when it cannot be opened. Everything runs in the loop's thread.
\<close>

subsection \<open>Files\<close>

type_synonym FILE = "char list option"

definition fread :: "nat \<Rightarrow> FILE \<Rightarrow> (char list \<times> FILE) result" where
  "fread n fp = (case fp of None \<Rightarrow> Inl NullDeref | Some rest \<Rightarrow> Inr (take n rest, Some (drop n rest)))"

definition fclose :: "FILE \<Rightarrow> FILE result" where
  "fclose fp = (case fp of None \<Rightarrow> Inl NullDeref | Some _ \<Rightarrow> Inr None)"

subsection \<open>All at once (\<open>Download.cc\<close>)\<close>

definition kBufSize :: nat where
  "kBufSize = 1024 * 1024"

function read_loop :: "string \<Rightarrow> char list \<Rightarrow> string" where
  "read_loop content rest =
     (if 0 < length (take kBufSize rest)
      then read_loop (content @ take kBufSize rest) (drop kBufSize rest)
      else content)"
  by pat_completeness auto

termination
  by (relation "measure (\<lambda>(_, rest). length rest)") (auto simp: kBufSize_def)

declare read_loop.simps [simp del]

definition readFile :: "char list option \<Rightarrow> string" where
  "readFile fopen = (case fopen of Some rest \<Rightarrow> read_loop [] rest | None \<Rightarrow> [])"

definition d1_onConnection :: "bool \<Rightarrow> (char list \<Rightarrow> int + nat) \<Rightarrow> char list option \<Rightarrow> TcpConnection \<Rightarrow> TcpConnection result" where
  "d1_onConnection nd wr fopen c =
     (if isConnected c then
        let c1 = setHighWaterMarkCallback (64 * 1024) c; fileContent = readFile fopen
        in bindR (send_string nd True wr (\<lambda>_ _. fileContent) 0 fileContent c1) (tc_shutdown True)
      else Inr c)"

subsection \<open>Piece by piece (\<open>Download2.cc\<close>)\<close>

definition kBufsize :: nat where
  "kBufsize = 64 * 1024"

text \<open>The context is empty or holds a pointer, which may be null.\<close>

datatype any_file = Empty | NullFile | TheFile

record download =
  dl_conn :: TcpConnection
  dl_context :: any_file
  dl_file :: FILE

definition dl_on_conn :: "(TcpConnection \<Rightarrow> TcpConnection result) \<Rightarrow> download \<Rightarrow> download result" where
  "dl_on_conn f s = bindR (f (dl_conn s)) (\<lambda>c. Inr (s\<lparr>dl_conn := c\<rparr>))"

definition dl_send :: "bool \<Rightarrow> (char list \<Rightarrow> int + nat) \<Rightarrow> char list \<Rightarrow> download \<Rightarrow> download result" where
  "dl_send nd wr d = dl_on_conn (send_ptr nd True wr (\<lambda>_ _. d) 0 (length d))"

definition d2_onConnection :: "bool \<Rightarrow> (char list \<Rightarrow> int + nat) \<Rightarrow> char list option \<Rightarrow> download \<Rightarrow> download result" where
  "d2_onConnection nd wr fopen s =
     (if isConnected (dl_conn s) then
        let s1 = s\<lparr>dl_conn := setHighWaterMarkCallback (kBufsize + 1) (dl_conn s)\<rparr>
        in (case fopen of
              Some content \<Rightarrow>
                bindR (fread kBufsize (Some content)) (\<lambda>(d, fp).
                dl_send nd wr d (s1\<lparr>dl_context := TheFile, dl_file := fp\<rparr>))
            | None \<Rightarrow> dl_on_conn (tc_shutdown True) s1)
      else
        (case dl_context s of
           TheFile \<Rightarrow> bindR (fclose (dl_file s)) (\<lambda>fp. Inr (s\<lparr>dl_file := fp\<rparr>))
         | _ \<Rightarrow> Inr s))"

definition d2_onWriteComplete :: "bool \<Rightarrow> (char list \<Rightarrow> int + nat) \<Rightarrow> download \<Rightarrow> download result" where
  "d2_onWriteComplete nd wr s =
     (case dl_context s of
        Empty \<Rightarrow> Inr s
      | NullFile \<Rightarrow> Inl NullDeref
      | TheFile \<Rightarrow>
          bindR (fread kBufsize (dl_file s)) (\<lambda>(d, fp).
          if 0 < length d then dl_send nd wr d (s\<lparr>dl_file := fp\<rparr>)
          else bindR (fclose fp) (\<lambda>fp1.
               dl_on_conn (tc_shutdown True) (s\<lparr>dl_file := fp1, dl_context := NullFile\<rparr>))))"

subsection \<open>With a shared pointer (\<open>Download3.cc\<close>)\<close>

text \<open>The file is closed with the last pointer to it, when the connection is destroyed.\<close>

definition d3_onConnection :: "bool \<Rightarrow> (char list \<Rightarrow> int + nat) \<Rightarrow> char list option \<Rightarrow> download \<Rightarrow> download result" where
  "d3_onConnection nd wr fopen s =
     (let s1 = s\<lparr>dl_conn := setHighWaterMarkCallback (kBufsize + 1) (dl_conn s)\<rparr>
      in if isConnected (dl_conn s1) then
           (case fopen of
              Some content \<Rightarrow>
                bindR (fread kBufsize (Some content)) (\<lambda>(d, fp).
                dl_send nd wr d (s1\<lparr>dl_context := TheFile, dl_file := fp\<rparr>))
            | None \<Rightarrow> dl_on_conn (tc_shutdown True) s1)
         else Inr s1)"

definition d3_onWriteComplete :: "bool \<Rightarrow> (char list \<Rightarrow> int + nat) \<Rightarrow> download \<Rightarrow> download result" where
  "d3_onWriteComplete nd wr s =
     (case dl_context s of
        Empty \<Rightarrow> Inr s
      | NullFile \<Rightarrow> Inl NullDeref
      | TheFile \<Rightarrow>
          bindR (fread kBufsize (dl_file s)) (\<lambda>(d, fp).
          if 0 < length d then dl_send nd wr d (s\<lparr>dl_file := fp\<rparr>)
          else dl_on_conn (tc_shutdown True) (s\<lparr>dl_file := fp\<rparr>)))"

subsection \<open>The servers in the loop\<close>

text \<open>
  The loop takes the functors of the connection in order; \<open>wcb\<close> is the write-complete callback, the callback for the high-water mark only logs. When the
  peer is gone, \<open>handleClose\<close> calls the connection callback \<open>ccb\<close>.
\<close>

definition dl_functor :: "bool \<Rightarrow> (char list \<Rightarrow> int + nat) \<Rightarrow> (download \<Rightarrow> download result) \<Rightarrow> conn_functor \<Rightarrow> download \<Rightarrow> download result" where
  "dl_functor nd wr wcb f s =
     (case f of
        FWriteComplete \<Rightarrow> wcb s
      | _ \<Rightarrow> dl_on_conn (run_conn_functor nd wr (\<lambda>_ _. []) Inr Inr Inr (\<lambda>_. Inr) f) s)"

definition dl_turn :: "bool \<Rightarrow> (char list \<Rightarrow> int + nat) \<Rightarrow> (download \<Rightarrow> download result) \<Rightarrow> download \<Rightarrow> download result" where
  "dl_turn nd wr wcb s =
     (case functors (dl_conn s) of
        [] \<Rightarrow> Inr s
      | f # fs \<Rightarrow> dl_functor nd wr wcb f (s\<lparr>dl_conn := (dl_conn s)\<lparr>functors := fs\<rparr>\<rparr>))"

definition dl_close :: "bool \<Rightarrow> (download \<Rightarrow> download result) \<Rightarrow> download \<Rightarrow> download result" where
  "dl_close nd ccb s = bindR (dl_on_conn (handleClose nd True Inr Inr) s) ccb"

partial_function (option) dl_run ::
  "bool \<Rightarrow> (char list \<Rightarrow> int + nat) \<Rightarrow> (download \<Rightarrow> download result) \<Rightarrow> download \<Rightarrow> download result option" where
  "dl_run nd wr wcb s =
     (if functors (dl_conn s) = [] then Some (Inr s)
      else (case dl_turn nd wr wcb s of Inl f \<Rightarrow> Some (Inl f) | Inr s1 \<Rightarrow> dl_run nd wr wcb s1))"

subsection \<open>What is sent\<close>

lemma read_loop_all: "read_loop content rest = content @ rest"
  by (induction content rest rule: read_loop.induct) (subst read_loop.simps, auto simp: kBufSize_def)

text \<open>
  The two servers that send piece by piece share a contract: while the file has more, the callback sends the next piece, and
  at its end it does \<open>fin\<close> and shuts the connection down.
\<close>

locale piecewise =
  fixes wcb :: "bool \<Rightarrow> (char list \<Rightarrow> int + nat) \<Rightarrow> download \<Rightarrow> download result"
    and fin :: "download \<Rightarrow> download"
  assumes more: "dl_context s = TheFile \<Longrightarrow> dl_file s = Some rest \<Longrightarrow> rest \<noteq> [] \<Longrightarrow>
      wcb nd wr s = dl_send nd wr (take kBufsize rest) (s\<lparr>dl_file := Some (drop kBufsize rest)\<rparr>)"
    and last: "dl_context s = TheFile \<Longrightarrow> dl_file s = Some [] \<Longrightarrow> wcb nd wr s = dl_on_conn (tc_shutdown True) (fin s)"
    and fin_conn: "dl_conn (fin s) = dl_conn s"
    and fin_cong: "dl_context s = dl_context t \<Longrightarrow> dl_file s = dl_file t \<Longrightarrow>
      dl_context (fin s) = dl_context (fin t) \<and> dl_file (fin s) = dl_file (fin t)"
begin

lemma turn_more:
  assumes "idle_conn (dl_conn s)" "\<And>d. wr d = Inr (length d)" "hasWriteCompleteCallback (dl_conn s)"
    and "functors (dl_conn s) = [FWriteComplete]" "dl_context s = TheFile" "dl_file s = Some rest" "rest \<noteq> []"
  shows "dl_turn nd wr (wcb nd wr) s = Inr (s\<lparr>dl_file := Some (drop kBufsize rest),
     dl_conn := on_wire (take kBufsize rest) (dl_conn s)\<rparr>)"
proof -
  let ?c = "(dl_conn s)\<lparr>functors := []\<rparr>"
  have i: "idle_conn ?c" using assms(1) by (simp add: idle_conn_def)
  show ?thesis
    using sendInLoop_idle_eq [of ?c wr "take kBufsize rest" nd, OF i assms(2)] assms(1,3-7)
      more [of "s\<lparr>dl_conn := ?c\<rparr>" rest nd wr]
    by (simp add: dl_turn_def dl_functor_def dl_send_def dl_on_conn_def send_ptr_def idle_conn_def post_def on_wire_def)
qed

lemma turn_last:
  assumes "idle_conn (dl_conn s)" "functors (dl_conn s) = [FWriteComplete]" "dl_context s = TheFile" "dl_file s = Some []"
  shows "dl_turn nd wr (wcb nd wr) s =
    Inr ((fin (s\<lparr>dl_conn := (dl_conn s)\<lparr>functors := []\<rparr>\<rparr>))\<lparr>dl_conn := (dl_conn s)\<lparr>functors := [], tc_state := kDisconnecting, wrShut := True\<rparr>\<rparr>)"
  using assms last [of "s\<lparr>dl_conn := (dl_conn s)\<lparr>functors := []\<rparr>\<rparr>" nd wr]
  by (simp add: dl_turn_def dl_functor_def dl_on_conn_def fin_conn tc_shutdown_def idle_conn_def shutdownInLoop_def setState_def)

lemma run_sends_all:
  assumes "idle_conn (dl_conn s)" "\<And>d. wr d = Inr (length d)" "hasWriteCompleteCallback (dl_conn s)"
    and "functors (dl_conn s) = [FWriteComplete]" "dl_context s = TheFile" "dl_file s = Some rest"
  shows "\<exists>s'. dl_run nd wr (wcb nd wr) s = Some (Inr s') \<and> wire (dl_conn s') = wire (dl_conn s) @ rest \<and>
     tc_state (dl_conn s') = kDisconnecting \<and> wrShut (dl_conn s') \<and>
     dl_context s' = dl_context (fin (s\<lparr>dl_file := Some []\<rparr>)) \<and> dl_file s' = dl_file (fin (s\<lparr>dl_file := Some []\<rparr>))"
  using assms(1,3-6)
proof (induction "length rest" arbitrary: s rest rule: less_induct)
  case less
  show ?case
  proof (cases "rest = []")
    case True
    let ?s = "s\<lparr>dl_conn := (dl_conn s)\<lparr>functors := []\<rparr>\<rparr>"
    have "dl_context (fin ?s) = dl_context (fin (s\<lparr>dl_file := Some []\<rparr>)) \<and> dl_file (fin ?s) = dl_file (fin (s\<lparr>dl_file := Some []\<rparr>))"
      using less.prems(5) True by (intro fin_cong) simp_all
    with turn_last [of s nd wr] less.prems True show ?thesis
      by (subst dl_run.simps, simp) (subst dl_run.simps, simp)
  next
    case False
    let ?s = "s\<lparr>dl_file := Some (drop kBufsize rest), dl_conn := on_wire (take kBufsize rest) (dl_conn s)\<rparr>"
    have "length (drop kBufsize rest) < length rest" using False by (simp add: kBufsize_def)
    moreover have "idle_conn (dl_conn ?s)" using less.prems(1) by (simp add: idle_conn_def)
    ultimately obtain s' where s': "dl_run nd wr (wcb nd wr) ?s = Some (Inr s')" "wire (dl_conn s') = wire (dl_conn ?s) @ drop kBufsize rest"
      "tc_state (dl_conn s') = kDisconnecting" "wrShut (dl_conn s')"
      "dl_context s' = dl_context (fin (?s\<lparr>dl_file := Some []\<rparr>))" "dl_file s' = dl_file (fin (?s\<lparr>dl_file := Some []\<rparr>))"
      using less.hyps [of "drop kBufsize rest" ?s] less.prems(2-4) by (simp del: length_drop) blast
    have "dl_run nd wr (wcb nd wr) s = dl_run nd wr (wcb nd wr) ?s"
      using turn_more [of s wr rest nd] less.prems assms(2) False by (subst dl_run.simps) simp
    moreover have "dl_context (fin (?s\<lparr>dl_file := Some []\<rparr>)) = dl_context (fin (s\<lparr>dl_file := Some []\<rparr>)) \<and>
        dl_file (fin (?s\<lparr>dl_file := Some []\<rparr>)) = dl_file (fin (s\<lparr>dl_file := Some []\<rparr>))"
      by (intro fin_cong) simp_all
    ultimately show ?thesis using s' by (intro exI [of _ s']) simp
  qed
qed

end

interpretation d2: piecewise d2_onWriteComplete "\<lambda>s. s\<lparr>dl_file := None, dl_context := NullFile\<rparr>"
  by unfold_locales (auto simp: d2_onWriteComplete_def fread_def fclose_def kBufsize_def)

interpretation d3: piecewise d3_onWriteComplete "\<lambda>s. s\<lparr>dl_file := Some []\<rparr>"
  by unfold_locales (auto simp: d3_onWriteComplete_def fread_def kBufsize_def)

text \<open>The state after the connection callback on a connection that takes everything: the first piece is out and its functor waits.\<close>

definition opened :: "char list \<Rightarrow> download \<Rightarrow> download" where
  "opened content s = s\<lparr>dl_context := TheFile, dl_file := Some (drop kBufsize content),
     dl_conn := post FWriteComplete (on_wire (take kBufsize content) (setHighWaterMarkCallback (kBufsize + 1) (dl_conn s)))\<rparr>"

lemma d_open_idle:
  assumes "idle_conn (dl_conn s)" "\<And>d. wr d = Inr (length d)" "hasWriteCompleteCallback (dl_conn s)" "functors (dl_conn s) = []"
  shows "d2_onConnection nd wr (Some content) s = Inr (opened content s)" "d3_onConnection nd wr (Some content) s = Inr (opened content s)"
    and "idle_conn (dl_conn (opened content s))" "hasWriteCompleteCallback (dl_conn (opened content s))" "functors (dl_conn (opened content s)) = [FWriteComplete]"
proof -
  let ?c = "setHighWaterMarkCallback (kBufsize + 1) (dl_conn s)"
  have i: "idle_conn ?c" "isConnected (dl_conn s)" "isConnected ?c"
    using assms(1) by (simp_all add: idle_conn_def setHighWaterMarkCallback_def isConnected_def)
  have w: "wire ?c = wire (dl_conn s)" "hasWriteCompleteCallback ?c" "functors ?c = []"
    using assms(3,4) by (simp_all add: setHighWaterMarkCallback_def)
  have "dl_send nd wr (take kBufsize content) (s\<lparr>dl_conn := ?c, dl_context := TheFile, dl_file := Some (drop kBufsize content)\<rparr>) = Inr (opened content s)"
    using sendInLoop_idle_eq [of ?c wr "take kBufsize content" nd, OF i(1) assms(2)] i w
    by (simp add: dl_send_def dl_on_conn_def send_ptr_def isConnected_def opened_def)
  then show "d2_onConnection nd wr (Some content) s = Inr (opened content s)" "d3_onConnection nd wr (Some content) s = Inr (opened content s)"
    using i by (simp_all add: d2_onConnection_def d3_onConnection_def fread_def)
  show "idle_conn (dl_conn (opened content s))" "hasWriteCompleteCallback (dl_conn (opened content s))" "functors (dl_conn (opened content s)) = [FWriteComplete]"
    using i(1) w by (simp_all add: opened_def idle_conn_def post_def)
qed



text \<open>
  \<open>Download2\<close> uses a closed file. When the peer closes the connection while a write-complete functor is waiting, which is the case after
  every piece, the connection callback closes the file and leaves the pointer in the context, and the functor then reads
  from it. \<open>Download3\<close> in the same situation goes on without fault.
\<close>

theorem download2_reads_closed_file:
  assumes "idle_conn (dl_conn s)" "\<And>d. wr d = Inr (length d)" "hasWriteCompleteCallback (dl_conn s)" "functors (dl_conn s) = []"
  shows "\<exists>s1 s2 s3 s4. d2_onConnection nd wr (Some content) s = Inr s1 \<and> dl_close nd (d2_onConnection nd wr None) s1 = Inr s2 \<and>
     functors (dl_conn s2) = [FWriteComplete] \<and> dl_turn nd wr (d2_onWriteComplete nd wr) s2 = Inl NullDeref \<and>
     dl_close nd (d3_onConnection nd wr None) s1 = Inr s3 \<and> dl_turn nd wr (d3_onWriteComplete nd wr) s3 = Inr s4"
proof -
  define s1 where "s1 = opened content s"
  note op = d_open_idle [of s wr, OF assms, where content = content, folded s1_def]
  define c where "c = interest DisableAll (setState kDisconnected (dl_conn s1))"
  have c: "functors c = [FWriteComplete]" "\<not> isConnected c" "tc_state c = kDisconnected"
    using op(5) by (simp_all add: c_def interest_def setState_def isConnected_def)
  have cl: "dl_on_conn (handleClose nd True Inr Inr) s1 = Inr (s1\<lparr>dl_conn := c\<rparr>)"
    using op(3) by (simp add: dl_on_conn_def handleClose_def idle_conn_def c_def)
  have f: "dl_context s1 = TheFile" "dl_file s1 = Some (drop kBufsize content)" by (simp_all add: s1_def opened_def)
  define s2 where "s2 = s1\<lparr>dl_conn := c, dl_file := None\<rparr>"
  define s3 where "s3 = s1\<lparr>dl_conn := setHighWaterMarkCallback (kBufsize + 1) c\<rparr>"
  have "dl_close nd (d2_onConnection nd wr None) s1 = Inr s2"
    using cl c(2) f by (simp add: dl_close_def d2_onConnection_def fclose_def s2_def)
  moreover have "dl_turn nd wr (d2_onWriteComplete nd wr) s2 = Inl NullDeref" "functors (dl_conn s2) = [FWriteComplete]"
    using c(1) f(1) by (simp_all add: dl_turn_def dl_functor_def d2_onWriteComplete_def fread_def s2_def)
  moreover have "dl_close nd (d3_onConnection nd wr None) s1 = Inr s3"
    using cl c(2) by (simp add: dl_close_def d3_onConnection_def isConnected_def setHighWaterMarkCallback_def s3_def)
  moreover have "\<exists>s4. dl_turn nd wr (d3_onWriteComplete nd wr) s3 = Inr s4"
    using c(1,3) f by (simp add: dl_turn_def dl_functor_def d3_onWriteComplete_def fread_def s3_def setHighWaterMarkCallback_def
        dl_send_def dl_on_conn_def send_ptr_def tc_shutdown_def)
  ultimately show ?thesis using op(1) by blast
qed

theorem download2_reads_closed_file_witness:
  "\<exists>s1 s2. d2_onConnection False (\<lambda>d. Inr (length d)) (Some ''abc'') \<lparr>dl_conn = sample_conn False [], dl_context = Empty, dl_file = None\<rparr> = Inr s1 \<and>
     dl_close False (d2_onConnection False (\<lambda>d. Inr (length d)) None) s1 = Inr s2 \<and>
     dl_turn False (\<lambda>d. Inr (length d)) (d2_onWriteComplete False (\<lambda>d. Inr (length d))) s2 = Inl NullDeref"
  using download2_reads_closed_file [of "\<lparr>dl_conn = sample_conn False [], dl_context = Empty, dl_file = None\<rparr>" "\<lambda>d. Inr (length d)" False "''abc''"]
    idle_sample
  by auto

subsection \<open>Slow connections\<close>

text \<open>The kernel may take any part of the data, refuse them for the moment, or report an error.\<close>

inductive d3_step :: "bool \<Rightarrow> download \<Rightarrow> download \<Rightarrow> bool" for nd :: bool where
  D3Turn: "dl_turn nd wr (d3_onWriteComplete nd wr) s = Inr s' \<Longrightarrow> d3_step nd s s'"
| D3Writable: "kernel_any wr \<Longrightarrow> dl_on_conn (handleWrite nd True wr) s = Inr s' \<Longrightarrow> d3_step nd s s'"
| D3Close: "dl_close nd (d3_onConnection nd wr fopen) s = Inr s' \<Longrightarrow> d3_step nd s s'"

definition d3_inv :: "char list \<Rightarrow> download \<Rightarrow> bool" where
  "d3_inv content s \<longleftrightarrow> Buffer_inv (outputBuffer (dl_conn s)) \<and> (tc_state (dl_conn s) \<noteq> kDisconnected \<longrightarrow> conn_inv (dl_conn s)) \<and>
     list_all callback_functor (functors (dl_conn s)) \<and> dl_context s = TheFile \<and> dl_file s \<noteq> None \<and>
     prefix (tc_given (dl_conn s)) content \<and>
     (tc_state (dl_conn s) = kConnected \<longrightarrow> tc_given (dl_conn s) @ the (dl_file s) = content) \<and>
     (tc_state (dl_conn s) = kDisconnecting \<longrightarrow> tc_given (dl_conn s) = content) \<and> stream_ok (dl_conn s)"

lemma d3_turn_inv:
  assumes "d3_inv content s" "dl_turn nd wr (d3_onWriteComplete nd wr) s = Inr s'"
  shows "d3_inv content s'"
proof (cases "functors (dl_conn s)")
  case Nil
  then show ?thesis using assms(1,2) by (simp add: dl_turn_def)
next
  case (Cons f fs)
  define c where "c = (dl_conn s)\<lparr>functors := fs\<rparr>"
  obtain rest where s: "dl_context s = TheFile" "dl_file s = Some rest" "prefix (tc_given (dl_conn s)) content" "stream_ok (dl_conn s)"
    using assms(1) by (auto simp: d3_inv_def)
  have c: "tc_state c \<noteq> kDisconnected \<Longrightarrow> conn_inv c" "list_all callback_functor (functors c)" "tc_given c = tc_given (dl_conn s)" "stream_ok c" "tc_state c = tc_state (dl_conn s)"
      "outputBuffer c = outputBuffer (dl_conn s)" and f: "callback_functor f"
    using assms(1) Cons by (auto simp: d3_inv_def c_def conn_inv_def stream_def stream_ok_def)
  have turn: "dl_functor nd wr (d3_onWriteComplete nd wr) f (s\<lparr>dl_conn := c\<rparr>) = Inr s'"
    using assms(2) Cons by (simp add: dl_turn_def c_def)
  consider (mark) n where "f = FHighWater n" | (piece) "f = FWriteComplete" "rest \<noteq> []" | (eof) "f = FWriteComplete" "rest = []" using f callback_functor_iff by blast
  then show ?thesis
  proof cases
    case mark
    then have "s' = s\<lparr>dl_conn := c\<rparr>" using turn by (simp add: dl_functor_def dl_on_conn_def run_conn_functor_def)
    then show ?thesis using assms(1) c by (simp add: d3_inv_def c_def)
  next
    case piece
    let ?d = "take kBufsize rest"
    obtain c' where c': "send_ptr nd True wr (\<lambda>_ _. ?d) 0 (length ?d) c = Inr c'" "s' = s\<lparr>dl_conn := c', dl_file := Some (drop kBufsize rest)\<rparr>"
      using turn piece s d3.more [of "s\<lparr>dl_conn := c\<rparr>" rest nd wr]
      by (auto simp: dl_functor_def dl_send_def dl_on_conn_def)
    show ?thesis
    proof (cases "tc_state c = kConnected")
      case True
      have "length ?d \<le> vector_max" by (simp add: kBufsize_def vector_max_def min_def)
      then have "conn_inv c' \<and> tc_given c' = tc_given c @ ?d \<and> list_all callback_functor (functors c') \<and> tc_state c' = tc_state c \<and> stream_ok c'"
        using sendInLoop_given [of nd wr ?d c c'] sendInLoop_stream_ok [of nd wr ?d c c'] c'(1) True c adds_callbacks_all [OF _ c(2)]
        by (simp add: send_ptr_def)
      moreover have "tc_given c @ rest = content" using assms(1) True c s(2) by (simp add: d3_inv_def)
      then have "(tc_given c @ ?d) @ drop kBufsize rest = content" by simp
      then have "prefix (tc_given c @ ?d) content" by (metis prefixI)
      ultimately show ?thesis using c'(2) s(1) True \<open>(tc_given c @ ?d) @ drop kBufsize rest = content\<close> by (simp add: d3_inv_def conn_inv_def)
    next
      case False
      then show ?thesis using c' c assms(1) by (auto simp: send_ptr_def d3_inv_def)
    qed
  next
    case eof
    then obtain c' where "tc_shutdown True c = Inr c'" "s' = s\<lparr>dl_conn := c', dl_file := Some []\<rparr>"
      using turn s d3.last [of "s\<lparr>dl_conn := c\<rparr>" nd wr] by (auto simp: dl_functor_def dl_on_conn_def)
    moreover from tc_shutdown_Inr [OF this(1)] have "c' = c \<or> tc_state c = kConnected \<and> tc_state c' = kDisconnecting"
      "outputBuffer c' = outputBuffer c" "conn_inv c' = conn_inv c" "list_all callback_functor (functors c') = list_all callback_functor (functors c)" "tc_given c' = tc_given c" "stream_ok c' = stream_ok c"
      by (auto simp: conn_inv_def stream_def stream_ok_def)
    ultimately show ?thesis using assms(1) c eof(2) s(1,2) by (auto simp: d3_inv_def)
  qed
qed

lemma d3_step_inv:
  assumes "d3_step nd s s'" "d3_inv content s"
  shows "d3_inv content s'"
  using assms
proof cases
  case (D3Turn wr)
  then show ?thesis using d3_turn_inv assms(2) by blast
next
  case (D3Writable wr)
  then obtain c where "handleWrite nd True wr (dl_conn s) = Inr c" "s' = s\<lparr>dl_conn := c\<rparr>" by (auto simp: dl_on_conn_def)
  with handleWrite_Inr [of nd wr "dl_conn s" c] D3Writable(1) assms(2) show ?thesis by (auto simp: d3_inv_def stream_ok_def dest: adds_callbacks_all)
next
  case (D3Close wr fopen)
  then obtain s1 where s1: "dl_on_conn (handleClose nd True Inr Inr) s = Inr s1" "d3_onConnection nd wr fopen s1 = Inr s'"
    by (auto simp: dl_close_def)
  then have "s1 = s\<lparr>dl_conn := interest DisableAll (setState kDisconnected (dl_conn s))\<rparr>"
    by (auto simp: dl_on_conn_def handleClose_def cassert_Inr_iff)
  then have "s' = s\<lparr>dl_conn := setHighWaterMarkCallback (kBufsize + 1) (interest DisableAll (setState kDisconnected (dl_conn s)))\<rparr>"
    using s1(2) by (simp add: d3_onConnection_def isConnected_def setHighWaterMarkCallback_def setState_def interest_def)
  then show ?thesis using assms(2)
    by (auto simp: d3_inv_def setHighWaterMarkCallback_def interest_def setState_def stream_def stream_ok_def conn_inv_def)
qed

text \<open>
  C31: \<open>Download3\<close> hands over no byte that is not the file's. From the state after the connection callback, for any number of turns of the loop, write
  events and closings, whatever part of the data the kernel takes and whatever errors it reports: what has been handed to the
  connection is a beginning of the file; while the connection is up the rest is what the server has not read yet, and when the server
  has shut the connection down it was all of the file. The file stays open, and no write-complete callback uses a
  null or closed file. As long as the kernel has taken each piece whole or not at all, what is on the wire and in the queue is exactly what was handed
  over (after a partial write it is not).
\<close>

theorem download3_streams_file:
  assumes "d3_inv content s" "(d3_step nd)\<^sup>*\<^sup>* s s'"
  shows "prefix (tc_given (dl_conn s')) content \<and>
    (tc_state (dl_conn s') = kConnected \<longrightarrow> tc_given (dl_conn s') @ the (dl_file s') = content) \<and>
    (tc_state (dl_conn s') = kDisconnecting \<longrightarrow> tc_given (dl_conn s') = content) \<and>
    (tc_whole (dl_conn s') \<longrightarrow> stream (dl_conn s') = tc_given (dl_conn s')) \<and>
    dl_context s' = TheFile \<and> dl_file s' \<noteq> None"
proof -
  have "d3_inv content s'" using assms(2,1) by (induction rule: rtranclp_induct) (auto dest: d3_step_inv)
  then show ?thesis by (simp add: d3_inv_def stream_ok_def)
qed

lemma d3_inv_opened:
  assumes "d3_onConnection nd wr (Some content) s = Inr s'" "conn_inv (dl_conn s)" "stream (dl_conn s) = []" "tc_given (dl_conn s) = []"
    and "list_all callback_functor (functors (dl_conn s))" "isConnected (dl_conn s)"
  shows "d3_inv content s'"
proof -
  define c where "c = setHighWaterMarkCallback (kBufsize + 1) (dl_conn s)"
  have c: "conn_inv c" "tc_given c = []" "stream_ok c" "list_all callback_functor (functors c)" "tc_state c = kConnected" "isConnected c"
    using assms(2-6) by (simp_all add: c_def setHighWaterMarkCallback_def conn_inv_def stream_def stream_ok_def isConnected_def)
  obtain c' where c': "sendInLoop nd True wr (take kBufsize content) c = Inr c'"
      "s' = s\<lparr>dl_conn := c', dl_context := TheFile, dl_file := Some (drop kBufsize content)\<rparr>"
    using assms(1) c(5,6) by (auto simp: d3_onConnection_def fread_def dl_send_def dl_on_conn_def send_ptr_def Let_def c_def)
  have "length (take kBufsize content) \<le> vector_max" by (simp add: kBufsize_def vector_max_def min_def)
  from sendInLoop_given [OF c'(1) c(1) this] sendInLoop_stream_ok [OF c'(1) c(1) this c(3)] adds_callbacks_all [OF _ c(4)] c(2,5) c'(2) show ?thesis
    by (simp add: d3_inv_def conn_inv_def take_is_prefix)
qed

theorem download3_streams_file_witness:
  "\<exists>s s'. d3_onConnection False (\<lambda>d. Inr (length d)) (Some ''abc'') \<lparr>dl_conn = sample_conn False [], dl_context = Empty, dl_file = None\<rparr> = Inr s \<and>
     dl_turn False (\<lambda>d. Inr (length d)) (d3_onWriteComplete False (\<lambda>d. Inr (length d))) s = Inr s' \<and>
     tc_state (dl_conn s') = kDisconnecting \<and> tc_given (dl_conn s') = ''abc''"
proof -
  let ?wr = "\<lambda>d :: char list. Inr (length d) :: int + nat"
  let ?s = "\<lparr>dl_conn = sample_conn False [], dl_context = Empty, dl_file = None\<rparr>"
  note op = d_open_idle [where s = ?s and wr = ?wr and content = "''abc''"]
  define s where "s = opened ''abc'' ?s"
  have s: "d3_onConnection False ?wr (Some ''abc'') ?s = Inr s" "idle_conn (dl_conn s)" "functors (dl_conn s) = [FWriteComplete]"
    using op(2,3,5) idle_sample by (simp_all add: s_def)
  have inv: "d3_inv ''abc'' s"
    by (rule d3_inv_opened [OF s(1)]) (simp_all add: sample_conn_inv stream_def sample_buffer_facts isConnected_def)
  have "dl_context s = TheFile" "dl_file s = Some []" by (simp_all add: s_def opened_def kBufsize_def)
  from d3.turn_last [OF s(2,3) this] obtain s' where s': "dl_turn False ?wr (d3_onWriteComplete False ?wr) s = Inr s'"
      "tc_state (dl_conn s') = kDisconnecting" by simp
  have "(d3_step False)\<^sup>*\<^sup>* s s'" using D3Turn [OF s'(1)] by blast
  from download3_streams_file [OF inv this] s(1) s' show ?thesis by blast
qed

end
