(* ===== verification/Arale_Programs.thy ===== *)
theory Arale_Programs
  imports Arale_Chat Arale_Socks Arale_ServerLife
begin

section \<open>The main programs (\<open>arale/examples\<close>)\<close>

text \<open>
  What the example programs make of their command line and which server or client they run. \<open>argv\<close> includes the name of the program; the
  result is the usage line or the message of an early return, or the program that enters \<open>EventLoop::loop\<close>. The constructors of the server classes
  contribute name and address of their \<open>TcpServer\<close>. \<open>garbage\<close> is the memory an address is built in, \<open>pton6\<close> the IPv6 conversion that IPv4 addresses do not use.
\<close>

datatype 'p main_result = Prints string | Runs 'p

record program =
  pg_name :: string
  pg_listen :: sockaddr
  pg_threads :: int
  pg_threadInit :: bool

record client_program =
  cp_name :: string
  cp_server :: sockaddr
  cp_retry :: bool

text \<open>\<open>static_cast<uint16_t>(atoi(s))\<close>.\<close>

definition port_arg :: "string \<Rightarrow> 16 word" where
  "port_arg s = of_int (atoi s)"

definition listen_on :: "byte_order \<Rightarrow> sockaddr \<Rightarrow> string \<Rightarrow> 16 word \<Rightarrow> program" where
  "listen_on e garbage name port =
     \<lparr>pg_name = name, pg_listen = InetAddress_port e garbage port False False, pg_threads = 0, pg_threadInit = False\<rparr>"

subsection \<open>Programs without arguments\<close>

definition socks_main :: "byte_order \<Rightarrow> sockaddr \<Rightarrow> program" where
  "socks_main e garbage = listen_on e garbage ''Socks4a'' 2016"

definition chat_main :: "byte_order \<Rightarrow> sockaddr \<Rightarrow> program" where
  "chat_main e garbage = listen_on e garbage ''Chat Server'' 2016"

definition discard_main :: "byte_order \<Rightarrow> sockaddr \<Rightarrow> program" where
  "discard_main e garbage = listen_on e garbage ''DiscardServer'' 2016"

definition daytime_main :: "byte_order \<Rightarrow> sockaddr \<Rightarrow> program" where
  "daytime_main e garbage = listen_on e garbage ''Daytime Server'' 2016"

definition chargen_main :: "byte_order \<Rightarrow> sockaddr \<Rightarrow> program" where
  "chargen_main e garbage = listen_on e garbage ''Chargen Server'' 2016"

definition time_main :: "byte_order \<Rightarrow> sockaddr \<Rightarrow> program" where
  "time_main e garbage = listen_on e garbage ''Time Server'' 2016"

definition max_main :: "byte_order \<Rightarrow> sockaddr \<Rightarrow> program \<times> max_server" where
  "max_main e garbage = (listen_on e garbage ''Echo Server'' 2016, \<lparr>numConnection = 0, maxConnections = 5\<rparr>)"

text \<open>The multiplexer connects to its backend, with retries, and listens; its counterpart only listens.\<close>

definition mux_backend :: "byte_order \<Rightarrow> (string \<Rightarrow> char list option) \<Rightarrow> sockaddr \<Rightarrow> client_program" where
  "mux_backend e pton6 garbage =
     \<lparr>cp_name = ''Multiplex Backend'', cp_server = fst (InetAddress_ip e pton6 garbage ''127.0.0.1'' 9999 False), cp_retry = True\<rparr>"

definition mux_simple_main :: "byte_order \<Rightarrow> (string \<Rightarrow> char list option) \<Rightarrow> sockaddr \<Rightarrow> program \<times> client_program" where
  "mux_simple_main e pton6 garbage = (listen_on e garbage ''Multiplex Server'' 3333, mux_backend e pton6 garbage)"

definition demux_main :: "byte_order \<Rightarrow> (string \<Rightarrow> char list option) \<Rightarrow> sockaddr \<Rightarrow> program \<times> sockaddr" where
  "demux_main e pton6 garbage =
     (listen_on e garbage ''Demux Server'' 9999, fst (InetAddress_ip e pton6 garbage ''127.0.0.1'' 6666 False))"

subsection \<open>Programs with arguments\<close>

definition mux_main :: "byte_order \<Rightarrow> (string \<Rightarrow> char list option) \<Rightarrow> sockaddr \<Rightarrow> string list \<Rightarrow> program \<times> client_program" where
  "mux_main e pton6 garbage argv =
     (let numThreads = (if 1 < length argv then atoi (argv ! 1) else 4)
      in ((listen_on e garbage ''Multiplex Server'' 3333)\<lparr>pg_threads := numThreads\<rparr>, mux_backend e pton6 garbage))"

text \<open>The three threaded chat servers; the one with a set of connections per thread also installs an initialisation callback.\<close>

definition chat_threaded_main :: "byte_order \<Rightarrow> sockaddr \<Rightarrow> string list \<Rightarrow> program main_result" where
  "chat_threaded_main e garbage argv =
     (if 1 < length argv then Runs ((listen_on e garbage ''Chat Server'' 2016)\<lparr>pg_threads := atoi (argv ! 1)\<rparr>)
      else Prints (''Usage: '' @ argv ! 0 @ '' thread_num'' @ [CHR 0x0A]))"

definition chat_efficient_main :: "byte_order \<Rightarrow> sockaddr \<Rightarrow> string list \<Rightarrow> program main_result" where
  "chat_efficient_main e garbage argv =
     (if 1 < length argv then Runs ((listen_on e garbage ''Chat Server'' 2016)\<lparr>pg_threads := atoi (argv ! 1)\<rparr>)
      else Prints (''Usage: '' @ argv ! 0 @ '' thread_num'' @ [CHR 0x0A]))"

definition chat_performance_main :: "byte_order \<Rightarrow> sockaddr \<Rightarrow> string list \<Rightarrow> program main_result" where
  "chat_performance_main e garbage argv =
     (if 1 < length argv then
        Runs ((listen_on e garbage ''Chat Server'' 2016)\<lparr>pg_threads := atoi (argv ! 1), pg_threadInit := True\<rparr>)
      else Prints (''Usage: '' @ argv ! 0 @ '' thread_num'' @ [CHR 0x0A]))"

text \<open>The file servers run on the file named by their argument.\<close>

definition download_main :: "byte_order \<Rightarrow> sockaddr \<Rightarrow> string list \<Rightarrow> (program \<times> string) main_result" where
  "download_main e garbage argv =
     (if 1 < length argv then Runs (listen_on e garbage ''File Server'' 2016, argv ! 1)
      else Prints (''Usage: '' @ argv ! 0 @ '' file_for_downloading'' @ [CHR 0x0A]))"

definition download2_main :: "byte_order \<Rightarrow> sockaddr \<Rightarrow> string list \<Rightarrow> (program \<times> string) main_result" where
  "download2_main e garbage argv =
     (if 1 < length argv then Runs (listen_on e garbage ''File Server'' 2016, argv ! 1)
      else Prints (''Usage: '' @ argv ! 0 @ '' file_for_downloading'' @ [CHR 0x0A]))"

definition download3_main :: "byte_order \<Rightarrow> sockaddr \<Rightarrow> string list \<Rightarrow> (program \<times> string) main_result" where
  "download3_main e garbage argv =
     (if 1 < length argv then Runs (listen_on e garbage ''File Server'' 2016, argv ! 1)
      else Prints (''Usage: '' @ argv ! 0 @ '' file_for_downloading'' @ [CHR 0x0A]))"

definition relay_main :: "byte_order \<Rightarrow> (string \<Rightarrow> char list option) \<Rightarrow> sockaddr \<Rightarrow> string list \<Rightarrow> (program \<times> sockaddr) main_result" where
  "relay_main e pton6 garbage argv =
     (if length argv < 4 then Prints (''Usage: '' @ argv ! 0 @ '' <host_ip> <port> <listen_port>'' @ [CHR 0x0A])
      else
        let serverAddr = fst (InetAddress_ip e pton6 garbage (argv ! 1) (port_arg (argv ! 2)) False)
        in Runs (listen_on e garbage ''TcpRelay'' (port_arg (argv ! 3)), serverAddr))"

definition invalid_backend :: "string list \<Rightarrow> string" where
  "invalid_backend args = (case filter (\<lambda>a. CHR '':'' \<notin> set a) args of [] \<Rightarrow> [] | a # _ \<Rightarrow> ''invalid backend address '' @ a @ [CHR 0x0A])"

definition balancer_main :: "byte_order \<Rightarrow> (string \<Rightarrow> char list option) \<Rightarrow> sockaddr \<Rightarrow> string list \<Rightarrow> (program \<times> sockaddr list) main_result" where
  "balancer_main e pton6 garbage argv =
     (if length argv < 2 then Prints (''Usage: '' @ argv ! 0 @ '' backend_ip:port [backend_ip:port]'' @ [CHR 0x0A])
      else case balancer_backends e pton6 garbage argv of
          None \<Rightarrow> Prints (invalid_backend (drop 2 argv))
        | Some backends \<Rightarrow> Runs ((listen_on e garbage ''Balancer'' 2016)\<lparr>pg_threads := 4\<rparr>, backends))"

text \<open>
  The two servers for idle connections take a number of seconds. \<open>mk n\<close> is a circular buffer of capacity \<open>n\<close>, filled with \<open>n\<close> empty
  buckets; a negative number becomes a capacity no allocator provides.
\<close>

definition idle_seconds :: "string list \<Rightarrow> int" where
  "idle_seconds argv = (if 1 < length argv then atoi (argv ! 1) else 10)"

definition idle_new :: "(nat \<Rightarrow> 'cb) \<Rightarrow> int \<Rightarrow> 'cb idle_server result" where
  "idle_new mk idleSeconds =
     (if idleSeconds < 0 then Inl LengthError
      else Inr \<lparr>buckets = mk (nat idleSeconds), conns = Map.empty, entry_conn = (\<lambda>_. 0), conn_entry = Map.empty, next_entry = 0\<rparr>)"

definition idle_main :: "byte_order \<Rightarrow> sockaddr \<Rightarrow> (nat \<Rightarrow> 'cb) \<Rightarrow> string list \<Rightarrow> (program \<times> 'cb idle_server) result" where
  "idle_main e garbage mk argv =
     bindR (idle_new mk (idle_seconds argv)) (\<lambda>s. Inr (listen_on e garbage ''Echo Server'' 2016, s))"

definition sorted_main :: "byte_order \<Rightarrow> sockaddr \<Rightarrow> string list \<Rightarrow> program \<times> int \<times> sorted_server" where
  "sorted_main e garbage argv =
     (listen_on e garbage ''Echo Server'' 2016, idle_seconds argv,
      \<lparr>sl_conns = Map.empty, sl_list = [], sl_node = Map.empty, sl_next = 0\<rparr>)"

subsection \<open>Clients\<close>

definition time_client_main :: "byte_order \<Rightarrow> (string \<Rightarrow> char list option) \<Rightarrow> sockaddr \<Rightarrow> string list \<Rightarrow> client_program main_result" where
  "time_client_main e pton6 garbage argv =
     (if 1 < length argv then
        Runs \<lparr>cp_name = ''Time Client'', cp_server = fst (InetAddress_ip e pton6 garbage (argv ! 1) 2016 False), cp_retry = False\<rparr>
      else Prints (''Usage: '' @ argv ! 0 @ '' host_ip'' @ [CHR 0x0A]))"

definition chargen_client_main :: "byte_order \<Rightarrow> (string \<Rightarrow> char list option) \<Rightarrow> sockaddr \<Rightarrow> string list \<Rightarrow> client_program main_result" where
  "chargen_client_main e pton6 garbage argv =
     (if 1 < length argv then
        Runs \<lparr>cp_name = ''Chargen Client'', cp_server = fst (InetAddress_ip e pton6 garbage (argv ! 1) 2016 False), cp_retry = False\<rparr>
      else Prints (''Usage: '' @ argv ! 0 @ '' host_ip'' @ [CHR 0x0A]))"

text \<open>
  The chat client runs its loop in a thread of its own; its main thread sends every line it reads. \<open>connection\<close> is the connection the loop
  thread has published when the line is sent. The second function is what it prints for a message: the text ends at a zero character.
\<close>

definition chat_client_main :: "byte_order \<Rightarrow> (string \<Rightarrow> char list option) \<Rightarrow> sockaddr \<Rightarrow> string list \<Rightarrow> client_program main_result" where
  "chat_client_main e pton6 garbage argv =
     (if 1 < length argv then
        Runs \<lparr>cp_name = ''Chat Client'', cp_server = fst (InetAddress_ip e pton6 garbage (argv ! 1) 2016 False), cp_retry = True\<rparr>
      else Prints (''Usage: '' @ argv ! 0 @ '' host_ip'' @ [CHR 0x0A]))"

definition chat_client_lines ::
  "bool \<Rightarrow> byte_order \<Rightarrow> (nat \<Rightarrow> char list \<Rightarrow> int + nat) \<Rightarrow> (string \<times> nat option) list \<Rightarrow> (nat \<Rightarrow> TcpConnection) \<Rightarrow> (nat \<Rightarrow> TcpConnection) result" where
  "chat_client_lines nd e wr lines cs =
     foldR (\<lambda>(line, connection). ChatClient_sendMessage nd e (\<lambda>_. False) wr line connection) lines cs"

definition chat_client_print :: "string \<Rightarrow> string" where
  "chat_client_print msg = ''<<<'' @ takeWhile (\<lambda>c. c \<noteq> CHR 0x00) msg @ [CHR 0x0A]"

subsection \<open>What the programs do with it\<close>

text \<open>A program builds its server, sets the number of threads and starts it; the world is the one of \<^verbatim>\<open>Arale_ServerLife\<close>.\<close>

definition run_program ::
  "bool \<Rightarrow> byte_order \<Rightarrow> (char list \<Rightarrow> string) \<Rightarrow> int \<times> int \<times> int \<times> int \<Rightarrow> int \<Rightarrow> nat \<Rightarrow> (nat \<Rightarrow> string \<Rightarrow> nat) \<Rightarrow>
   (TcpConnection \<Rightarrow> TcpConnection result) \<Rightarrow> program \<Rightarrow> server_world result" where
  "run_program nd e ntop6 sys listened lp mk ccb p =
     bindR (TcpServer_new nd e ntop6 sys lp (pg_name p) (pg_listen p) kNoReusePort) (\<lambda>s.
     sw_start nd ccb listened mk (pg_threadInit p) \<lparr>sw_srv = TcpServer_setThreadNum (pg_threads p) s, sw_queue = (\<lambda>_. [])\<rparr>)"

text \<open>
  Every example server comes up: if the system gives it a socket and lets it bind and listen, it listens, has the loops it was asked for, and is in a
  state from which its connections live as shown in \<^verbatim>\<open>Arale_ServerLife\<close>.
\<close>

theorem program_boots:
  assumes "\<And>b. length (ntop6 b) \<le> 45" "0 \<le> sock" "0 \<le> bound" "0 \<le> listened"
  shows "\<exists>w. run_program nd e ntop6 (sock, bound, optret, nullfd) listened lp mk ccb p = Inr w \<and> fresh_world w \<and>
     isListening (srv_acceptor (sw_srv w)) \<and> length (loops (srv_pool (sw_srv w))) = nat (pg_threads p)"
proof -
  obtain s w where "TcpServer_new nd e ntop6 (sock, bound, optret, nullfd) lp (pg_name p) (pg_listen p) kNoReusePort = Inr s"
    "sw_start nd ccb listened mk (pg_threadInit p) \<lparr>sw_srv = TcpServer_setThreadNum (pg_threads p) s, sw_queue = (\<lambda>_. [])\<rparr> = Inr w"
    "fresh_world w" "isListening (srv_acceptor (sw_srv w))" "length (loops (srv_pool (sw_srv w))) = nat (pg_threads p)"
    using server_boots [of ntop6, OF assms] by blast
  then show ?thesis by (simp add: run_program_def)
qed

text \<open>Ports are taken modulo \<open>2^16\<close>.\<close>

lemma relay_listens_on:
  "relay_main e pton6 garbage [a0, ip, port, listenPort] = Runs (p, addr) \<Longrightarrow>
     addr_toPort e (pg_listen p) = of_int (atoi listenPort) \<and> pg_threads p = 0"
  by (auto simp: relay_main_def listen_on_def InetAddress_port_def addr_toPort_def port_arg_def)

text \<open>
  A negative number of threads. The pool starts no thread, but it does not call the initialisation callback for the server's own loop
  either, as it does for zero threads.
\<close>

lemma pool_start_result:
  "EventLoopThreadPool_start nd True mk True (setThreadNum n (EventLoopThreadPool_new lp name)) =
     Inr (if n = 0 then [lp] else [], start_threads mk [0..<nat n] ((setThreadNum n (EventLoopThreadPool_new lp name))\<lparr>pool_start := True\<rparr>))"
  by (auto simp: EventLoopThreadPool_start_def setThreadNum_def EventLoopThreadPool_new_def start_threads_spec Let_def)

lemma negative_threads_no_init:
  assumes "n < 0"
  shows "\<exists>p. EventLoopThreadPool_start nd True mk True (setThreadNum n (EventLoopThreadPool_new lp name)) = Inr ([], p) \<and> loops p = []"
  unfolding pool_start_result using assms by (simp add: start_threads_spec setThreadNum_def EventLoopThreadPool_new_def)

text \<open>With no seconds, as after an argument that is no number, there is no bucket, and the first connection uses one that is not there.\<close>

lemma idle_without_buckets:
  assumes "\<And>n. els (mk n) = replicate n []" "1 < length argv" "atoi (argv ! 1) = 0"
  shows "\<exists>p s. idle_main e garbage mk argv = Inr (p, s) \<and>
     (isConnected c \<longrightarrow> idle_onConnection nd els upd_back i (s\<lparr>idle_server.conns := [i \<mapsto> c]\<rparr>) = Inl OutOfBounds)"
  using assms by (simp add: idle_main_def idle_new_def idle_seconds_def idle_onConnection_def)

text \<open>Of the backends named on the command line the first is left out.\<close>

lemma add_backends_length: "add_backends e pton6 garbage args bs = Some bs' \<Longrightarrow> length bs' = length bs + length args"
  by (induction e pton6 garbage args bs rule: add_backends.induct) (auto simp: Let_def split: if_splits)

lemma balancer_drops_first: "balancer_main e pton6 garbage argv = Runs (p, bs) \<Longrightarrow> length bs = length argv - 2"
  by (auto simp: balancer_main_def balancer_backends_def dest!: add_backends_length split: if_splits option.splits)

text \<open>The lines a chat client reads while it is connected are handed to its loop as frames, in order.\<close>

lemma chat_client_sends_lines:
  assumes "isConnected (cs i)" "list_all sendable ls"
  shows "\<exists>c'. chat_client_lines nd e wr (map (\<lambda>l. (l, Some i)) ls) cs = Inr (cs(i := c')) \<and>
     functors c' = functors (cs i) @ map (\<lambda>l. FSendString (frame l)) ls"
  using assms
proof (induction ls arbitrary: cs)
  case Nil
  then show ?case by (intro exI [of _ "cs i"]) (simp add: chat_client_lines_def)
next
  case (Cons l ls)
  obtain b1 b2 where b: "Buffer_append nd l fresh_buffer = Inr b1"
    "prepend nd (word_mem e (hostToNetwork32 e (of_nat (length l)))) b1 = Inr b2" "Buffer_inv b2" "Buffer_content b2 = frame l"
    using framed_buffer [of l nd e] Cons.prems(2) by auto
  define c1 where "c1 = post (FSendString (frame l)) (cs i)"
  have "sendMessage nd e False (wr i) l (cs i) = Inr c1"
    using send_buffer_posts [OF b(3), of "cs i" nd "wr i"] b fresh_buffer_facts(1) Cons.prems(1)
    by (simp add: sendMessage_def Let_def c1_def isConnected_def)
  then have s: "ChatClient_sendMessage nd e (\<lambda>_. False) wr l (Some i) cs = Inr (cs(i := c1))"
    by (simp add: ChatClient_sendMessage_def chat_send_def)
  have c1: "isConnected c1" "functors c1 = functors (cs i) @ [FSendString (frame l)]"
    using Cons.prems(1) by (simp_all add: c1_def isConnected_def post_def)
  obtain c' where "chat_client_lines nd e wr (map (\<lambda>l. (l, Some i)) ls) (cs(i := c1)) = Inr (cs(i := c'))"
    "functors c' = functors c1 @ map (\<lambda>l. FSendString (frame l)) ls"
    using Cons.IH [of "cs(i := c1)"] c1(1) Cons.prems(2) unfolding fun_upd_upd fun_upd_same list.pred_inject by blast
  then show ?case using s c1(2) by (intro exI [of _ c']) (simp add: chat_client_lines_def fun_upd_def)
qed

end
