(* ===== verification/Spec2Isabelle.thy ===== *)
theory Spec2Isabelle
  imports Arale_Buffer Arale_Logging Arale_PollPoller Arale_EPollPoller Arale_ServerLife Arale_Http
    Arale_ChatThreaded Arale_ThreadLocal Arale_MuxThreaded Arale_IdleConnection Arale_Socks Arale_Simple Arale_Download Arale_ShortUrl Arale_Programs
begin

text \<open>
  A verification library for arale, a reactor-style C++ network library. All file names
  are below \<open>src/arale\<close>.

  \<^bold>\<open>The program.\<close> \<open>base\<close> holds values and services: dates, time stamps and time zones, string pieces,
  atomic integers, and a logger that formats each statement into one line of a fixed
  buffer. \<open>net\<close> is the reactor. Each thread may own an event loop (\<open>EventLoop\<close>), which
  repeatedly asks a poller (\<open>PollPoller\<close> or \<open>EPollPoller\<close>) for the channels that have events, lets each
  channel dispatch them to callbacks, and then runs the functors that this or other
  threads have posted to it. A timer queue is a channel too. On top of it are buffers, sockets,
  connections, the acceptor of a server and the connector of a client, pools of loop
  threads, and in \<open>net/http\<close> a small HTTP server. \<open>examples\<close> are programs over the library.

  \<^bold>\<open>How code becomes definitions.\<close> A class is a record with the names of its members, an operation a function
  that returns the new object. What can go wrong in C++ is a value of \<open>fault\<close> (\<^verbatim>\<open>Arale_Prelude\<close>): a
  failed assertion, an access out of bounds, a dangling or null pointer, an exception of
  a container, an abort by \<open>LOG_FATAL\<close>. The flag \<open>nd\<close> says whether assertions are compiled out (\<open>NDEBUG\<close>), the flag \<open>il\<close>
  whether the caller is in the loop's thread. Results of system calls, the
  addresses the allocator chooses, callbacks of the user and the rounding of floating
  point numbers are arguments; a theorem that needs something of them says so as a
  hypothesis. \<open>size_t\<close> arithmetic wraps at 64 bits, \<open>int\<close> conversions at 32; event masks and atomic integers are words.

  \<^bold>\<open>Theories.\<close>
  \<^item> \<^verbatim>\<open>Arale_Prelude\<close>, \<^verbatim>\<open>Arale_Endian\<close>, \<^verbatim>\<open>Arale_Format\<close>: faults, C arithmetic, arrays, the bytes of integers, byte
    order (\<open>net/Endian.h\<close>), decimal numerals and \<open>snprintf\<close>.
  \<^item> \<^verbatim>\<open>Arale_StringPiece\<close> (\<open>base/StringPiece.h\<close>, \<open>Atomic.h\<close>): comparison agrees with the lexicographic
    order of the bytes; tickets of an atomic counter are distinct.
  \<^item> \<^verbatim>\<open>Arale_Buffer\<close> (\<open>net/Buffer.*\<close>): the three-part buffer refines a queue of bytes (locale \<open>byte_queue\<close>, interpreted as
    \<open>buf\<close>); appending, reading a descriptor, integers in network order; the gap in \<open>makeSpace\<close>.
  \<^item> \<^verbatim>\<open>Arale_Date\<close>, \<^verbatim>\<open>Arale_Timestamp\<close>, \<^verbatim>\<open>Arale_TimeZone\<close>, \<^verbatim>\<open>Arale_ZoneData\<close> (\<open>base/Date.*\<close>, \<open>TimeStamp.*\<close>, \<open>TimeZone.*\<close>):
    the calendar conversions are inverse to each other; conversions between seconds and broken-down time; reading an
    encoded zone file gives its rules; the binary search finds the rule in force.
  \<^item> \<^verbatim>\<open>Arale_LogStream\<close>, \<^verbatim>\<open>Arale_Logging\<close> (\<open>base/LogStream.*\<close>, \<open>Logging.*\<close>): insertions never leave the fixed
    buffer, and a statement writes exactly one well-formed line. The output and flush functions are replaceable; the
    default ones append to \<open>stdout\<close>.
  \<^item> \<^verbatim>\<open>Arale_OrderedSet\<close>, \<^verbatim>\<open>Arale_TimerQueue\<close> (\<open>net/Timer*\<close>): \<open>std::set\<close> and \<open>std::map\<close> as contracts (locales \<open>std_set\<close>, \<open>std_map\<close>); the timer queue over an
    explicit heap of timers, with callbacks that add and cancel timers while timers expire.
  \<^item> \<^verbatim>\<open>Arale_Channel\<close>, \<^verbatim>\<open>Arale_PollPoller\<close>, \<^verbatim>\<open>Arale_EPollPoller\<close> (\<open>net/Channel.*\<close>, \<open>*Poller.*\<close>): dispatch of events; the contract of a poller
    (locale \<open>poller\<close>) and its two implementations, with the invariants that tie their tables together.
  \<^item> \<^verbatim>\<open>Arale_EventLoop\<close> (\<open>net/EventLoop.*\<close>): the operations, the loop, and the relation \<open>loop_step\<close> of its interleavings
    with other threads. No wake-up is lost; posted functors run once and in
    order; the sequential loop is one of the interleavings; timers from other threads.
  \<^item> \<^verbatim>\<open>Arale_LoopThread\<close> (\<open>net/EventLoopThread*\<close>): the start handshake ends with the loop; the pool's round robin.
  \<^item> \<^verbatim>\<open>Arale_Sockets\<close> (\<open>net/InetAddress.*\<close>, \<open>SocketsOps.*\<close>, \<open>Socket.*\<close>, \<open>Acceptor.*\<close>): addresses and their text, socket operations,
    accepting.
  \<^item> \<^verbatim>\<open>Arale_TcpConnection\<close> (\<open>net/TcpConnection.*\<close>): the stream of bytes through kernel and output buffer, where it is kept and where a partial write breaks it; the
    states of a connection.
  \<^item> \<^verbatim>\<open>Arale_Stream\<close>: the stream of a connection through every successful call for kernels that may refuse data, and that
    every operation of a connection leaves its buffers well formed.
  \<^item> \<^verbatim>\<open>Arale_Connector\<close> (\<open>net/Connector.*\<close>): every event in every reachable state is handled, no socket
    leaks, the delays double up to a limit.
  \<^item> \<^verbatim>\<open>Arale_TcpServer\<close> (\<open>net/TcpServer.*\<close>, \<open>TcpClient.*\<close>): the table of connections; reconnecting.
  \<^item> \<^verbatim>\<open>Arale_ServerLife\<close>: server, connections and loops together. The functors that \<open>TcpServer\<close> and \<open>TcpConnection\<close> post are executed by the loops
    they were posted to, in any order of the loops (\<open>server_step\<close>). What a user's connection callback may do is the locale
    \<open>connection_callback\<close>, interpreted for the callbacks that only log and for the one that limits connections. In every reachable state each connection is at one stage of its
    life, with exactly the functor queued that takes it on; nothing that can happen next fails; a closed
    connection is released once the server's loop and its own have run their pending functors; a server boots from its constructor to listening.
  \<^item> \<^verbatim>\<open>Arale_Http\<close> (\<open>net/http\<close>): printing and parsing of requests, termination of the parser, the text of responses; a
    request that has arrived on a connection is answered with its response and nothing else.
  \<^item> \<^verbatim>\<open>Arale_Chat\<close> (\<open>examples/asio/chat\<close>): the length-header codec delivers the same messages however the stream is cut; what one client
    sends reaches all; the copy-on-write server as a step relation over its threads, whose senders see a snapshot; the
    server with one set of connections per loop.
  \<^item> \<^verbatim>\<open>Arale_ChatThreaded\<close> (\<open>ChatServerThreaded.cc\<close>): the server under a lock, interleaved with the posted functors (\<open>ct_step\<close>): each client
    has the messages of each thread once and in order; across threads they may overtake each other.
  \<^item> \<^verbatim>\<open>Arale_ThreadLocal\<close> (\<open>base/ThreadLocal*.h\<close>): the contract of thread-local objects (locale \<open>per_thread\<close>), interpreted for both
    classes: one object per thread in use, none left over.
  \<^item> \<^verbatim>\<open>Arale_Multiplexer\<close> (\<open>examples/multiplexer\<close>): cutting streams into packets and delivering them, the allocation of
    connection numbers over all sequences of the handlers (\<open>mux_step\<close>), and where the two ends do not fit together.
  \<^item> \<^verbatim>\<open>Arale_MuxThreaded\<close> (\<open>Multiplexer.cc\<close>): the same server with locks. The handlers as functions and as a relation of their critical
    sections (\<open>mt_step\<close>); numbers stay a partition under all interleavings of one backend connection; a handler run without
    interruption is a run of the relation; a pointer that is read too late.
  \<^item> \<^verbatim>\<open>Arale_IdleConnection\<close> (\<open>examples/idleconnection\<close>, \<open>maxconnection\<close>): the wheel of buckets closes a silent connection at the right tick; the
    sorted list finds exactly the idle connections. \<open>boost::circular_buffer\<close> is a parameter with the hypothesis \<open>circular\<close>.
  \<^item> \<^verbatim>\<open>Arale_Socks\<close> (\<open>examples/socks4a\<close>): the tunnel forwards everything in order; a SOCKS request opens the tunnel it asks for; the balancer's turns.
  \<^item> \<^verbatim>\<open>Arale_Simple\<close> (\<open>examples/simple\<close>): discard, daytime, time and its client, the character generator. The time
    protocol is a round trip between hosts of any byte order; the text of the generator and its endless repetition.
  \<^item> \<^verbatim>\<open>Arale_Download\<close> (\<open>examples/simple/filetransfer\<close>): the three file servers. Their common contract is the locale \<open>piecewise\<close>; they send
    exactly the file; with a slow kernel (\<open>d3_step\<close>) what was sent is a beginning of it; the plain pointer is used after the file was closed.
  \<^item> \<^verbatim>\<open>Arale_ShortUrl\<close> (\<open>examples/shorturl\<close>): from a request on the wire to the redirection on the wire; the servers all share one loop.
  \<^item> \<^verbatim>\<open>Arale_Programs\<close>: the \<open>main\<close> functions of the examples, from the command line to the running loop: which arguments are refused, which
    port is listened on, what the chat client does with its input lines.

  \<^bold>\<open>Bounds and partiality.\<close> The loops over containers are structural recursions. The parser of HTTP requests is a
  partial function whose domain is determined. The loops of the codec and of the multiplexer over a buffer are partial functions too, and the theorems about
  them show that they return; the same holds for the loop that serves a file. \<open>EventLoop::loop\<close> takes the list of what the polls return
  and yields \<open>None\<close> when it is still waiting after the last. The names of a server's connections are
  shown distinct for \<open>2^31\<close> connections (the range of the counter) and addresses of at most 51 characters, which is what
  IPv6 needs. The handshake of \<open>startLoop\<close> is shown for a new loop that
  does not end before the owner has seen it; if it does, \<open>loop_\<close> is null again and the owner waits for ever.

  \<^bold>\<open>Not modelled.\<close> The system calls themselves; the handler that ignores \<open>SIGPIPE\<close>; log lines below the level of an error in the
  network components; destruction order of shared objects other than through the
  functors that hold them; constructors that only register callbacks; type names, empty bodies and casts without effect
  (\<open>base/Types.h\<close>, \<open>net/Callbacks.h\<close>, \<open>net/Poller.cc\<close>); the printing of received lines by the clients.
\<close>

end
